(* ===== verification/Prelude.thy ===== *)
theory Prelude
  imports Main "HOL-Library.Word" "HOL-Library.Signed_Division" "HOL-Library.Char_ord"
    "HOL-Library.List_Lexorder" "HOL-Library.Sublist" "HOL-Library.Multiset"
begin

text \<open>
  What every part of the development shares: the types of bytes and keys, Go's 64-bit
  signed integers, the collections of proof hints, and the facts about slices of lists and
  about a byte stream cut into pieces of a fixed length.

  A Go \<open>string\<close> is a list of bytes, and so is HOL's \<open>string\<close> (a \<open>char\<close> has 8 bits).
  A Go \<open>[]byte\<close> is a \<open>bytes\<close>. The order on strings is Go's: lexicographic on the
  byte values (theories \<open>Char_ord\<close> and \<open>List_Lexorder\<close>).
\<close>

type_synonym byte = "8 word"
type_synonym bytes = "byte list"

named_theorems outcome_simps \<open>how a step of a program unfolds once its result is known\<close>
named_theorems go_defs \<open>definitions of Go library functions, to be unfolded on concrete input\<close>

section \<open>Go's int and int64\<close>

text \<open>
  \<open>int\<close> and \<open>int64\<close> are 64-bit two's complement values, and \<open>+\<close>, \<open>-\<close>, \<open>*\<close> wrap
  around. The model computes on \<open>int\<close> and writes \<open>wrap64\<close> where an operation of the
  code can overflow on the values of a \<open>.torrent\<close> file, which are not trusted.
  Division truncates towards zero (\<open>sdiv\<close>, \<open>smod\<close> of the library).
\<close>

definition wrap64 :: "int \<Rightarrow> int" where
  "wrap64 x = (x + 2 ^ 63) mod 2 ^ 64 - 2 ^ 63"

definition in_i64 :: "int \<Rightarrow> bool" where
  "in_i64 x \<longleftrightarrow> - (2 ^ 63) \<le> x \<and> x < 2 ^ 63"

lemma wrap64_id: "in_i64 x \<Longrightarrow> wrap64 x = x"
  by (simp add: wrap64_def in_i64_def mod_pos_pos_trivial)

lemma in_i64_wrap64: "in_i64 (wrap64 x)"
  by (simp add: wrap64_def in_i64_def)

lemma wrap64_nonneg: "0 \<le> x \<Longrightarrow> x < 2 ^ 63 \<Longrightarrow> wrap64 x = x"
  by (rule wrap64_id) (simp add: in_i64_def)

lemma sdiv_nonneg:
  fixes a b :: int
  assumes "0 \<le> a" and "0 < b"
  shows "a sdiv b = a div b"
proof (cases "a = 0")
  case True
  then show ?thesis by (simp add: signed_divide_int_def)
next
  case False
  with assms have "sgn a = 1" "sgn b = 1" "\<bar>a\<bar> = a" "\<bar>b\<bar> = b" by simp_all
  then show ?thesis by (simp add: signed_divide_int_def)
qed

lemma smod_nonneg:
  fixes a b :: int
  assumes "0 \<le> a" and "0 < b"
  shows "a smod b = a mod b"
proof (cases "a = 0")
  case True
  then show ?thesis by (simp add: signed_modulo_int_def)
next
  case False
  with assms have "sgn a = 1" "\<bar>a\<bar> = a" "\<bar>b\<bar> = b" by simp_all
  then show ?thesis by (simp add: signed_modulo_int_def)
qed

lemma sdiv_nat: "0 < b \<Longrightarrow> int a sdiv int b = int (a div b)"
  by (simp add: sdiv_nonneg zdiv_int)

lemma smod_nat: "0 < b \<Longrightarrow> int a smod int b = int (a mod b)"
  by (simp add: smod_nonneg zmod_int)

lemma unat_byte_bound: "unat (b :: byte) < 256"
  by (rule order_less_le_trans [OF unsigned_less]) simp

section \<open>Slices\<close>

text \<open>\<open>slice i n xs\<close> is Go's \<open>xs[i:i+n]\<close>, cut at the end of the list.\<close>

definition slice :: "nat \<Rightarrow> nat \<Rightarrow> 'a list \<Rightarrow> 'a list" where
  "slice i n xs = take n (drop i xs)"

lemma length_slice [simp]: "length (slice i n xs) = min n (length xs - i)"
  by (simp add: slice_def)

lemma slice_0 [simp]: "slice i 0 xs = []"
  by (simp add: slice_def)

lemma slice_append: "slice i (m + n) xs = slice i m xs @ slice (i + m) n xs"
  by (simp add: slice_def take_add add.commute)

lemma slice_prefix: "prefix (slice i m xs) (slice i (m + n) xs)"
  by (simp add: slice_append)

lemma slice_slice: "slice i n (slice j m xs) = slice (i + j) (min n (m - i)) xs"
  by (simp add: slice_def drop_take)

lemma take_slice: "take k (slice i n xs) = slice i (min k n) xs"
  by (simp add: slice_def min.commute)

section \<open>A stream cut into pieces\<close>

text \<open>
  \<open>uniform L ps\<close>: every piece but the last has exactly \<open>L\<close> bytes, and the last has at
  least one and at most \<open>L\<close>. This is how BitTorrent cuts the concatenation of a torrent's
  files, and what the position arithmetic of the reader relies on.
\<close>

fun uniform :: "nat \<Rightarrow> 'a list list \<Rightarrow> bool" where
  "uniform L [] = True"
| "uniform L [p] = (0 < length p \<and> length p \<le> L)"
| "uniform L (p # q # ps) = (length p = L \<and> uniform L (q # ps))"

lemma uniform_last_pos: "uniform L ps \<Longrightarrow> ps \<noteq> [] \<Longrightarrow> 0 < L"
  by (induction L ps rule: uniform.induct) (auto simp: neq_Nil_conv)

lemma uniform_tl: "uniform L (p # ps) \<Longrightarrow> uniform L ps"
  by (cases ps) auto

lemma uniform_hd_length: "uniform L (p # ps) \<Longrightarrow> ps \<noteq> [] \<Longrightarrow> length p = L"
  by (cases ps) auto

lemma uniform_nth_length:
  "uniform L ps \<Longrightarrow> Suc i < length ps \<Longrightarrow> length (ps ! i) = L"
proof (induction L ps arbitrary: i rule: uniform.induct)
  case (3 L p q ps)
  then show ?case by (cases i) auto
qed auto

text \<open>
  The heart of the position arithmetic: byte \<open>pos\<close> of the stream is byte \<open>pos mod L\<close> of
  piece \<open>pos div L\<close>, and the rest of that piece is the stream's continuation at \<open>pos\<close>.
\<close>

lemma uniform_locate:
  assumes "uniform L ps" and "pos < length (concat ps)"
  shows "pos div L < length ps \<and> pos mod L < length (ps ! (pos div L))
    \<and> prefix (drop (pos mod L) (ps ! (pos div L))) (drop pos (concat ps))"
  using assms
proof (induction L ps arbitrary: pos rule: uniform.induct)
  case (1 L)
  then show ?case by simp
next
  case (2 L p)
  then show ?case by simp
next
  case (3 L p q ps)
  let ?tail = "q # ps"
  from 3 have L: "length p = L" "0 < L"
    using uniform_last_pos by auto
  show ?case
  proof (cases "pos < L")
    case True
    with L show ?thesis by simp
  next
    case False
    with L 3 have "pos - L < length (concat ?tail)" by auto
    with 3 have IH: "(pos - L) div L < length ?tail
        \<and> (pos - L) mod L < length (?tail ! ((pos - L) div L))
        \<and> prefix (drop ((pos - L) mod L) (?tail ! ((pos - L) div L)))
            (drop (pos - L) (concat ?tail))"
      by (intro "3.IH") auto
    from False L have "pos div L = Suc ((pos - L) div L)" "pos mod L = (pos - L) mod L"
      by (simp_all add: le_div_geq le_mod_geq)
    with IH L False show ?thesis by (simp add: drop_append)
  qed
qed

lemmas uniform_locate_index = uniform_locate [THEN conjunct1]
lemmas uniform_locate_offset = uniform_locate [THEN conjunct2, THEN conjunct1]
lemmas uniform_locate_prefix = uniform_locate [THEN conjunct2, THEN conjunct2]

lemma uniform_locate_slice:
  assumes "uniform L ps" and "pos < length (concat ps)"
    and "n \<le> length (ps ! (pos div L)) - pos mod L"
  shows "take n (drop (pos mod L) (ps ! (pos div L))) = slice pos n (concat ps)"
proof -
  from uniform_locate_prefix [OF assms(1,2)] obtain r where
    "drop pos (concat ps) = drop (pos mod L) (ps ! (pos div L)) @ r"
    by (auto simp: prefix_def)
  with assms(3) show ?thesis by (simp add: slice_def)
qed

section \<open>Cutting a stream into chunks\<close>

function chunks :: "nat \<Rightarrow> 'a list \<Rightarrow> 'a list list" where
  "chunks n xs = (if n = 0 \<or> xs = [] then [] else take n xs # chunks n (drop n xs))"
  by pat_completeness auto
termination
  by (relation "measure (\<lambda>(n, xs). length xs)") auto

declare chunks.simps [simp del]

lemma chunks_Nil [simp]: "chunks n [] = []"
  by (simp add: chunks.simps)

lemma concat_chunks: "0 < n \<Longrightarrow> concat (chunks n xs) = xs"
proof (induction n xs rule: chunks.induct)
  case (1 n xs)
  then show ?case by (subst chunks.simps) auto
qed

lemma uniform_chunks: "0 < n \<Longrightarrow> uniform n (chunks n xs)"
proof (induction n xs rule: chunks.induct)
  case (1 n xs)
  show ?case
  proof (cases "xs = []")
    case False
    with "1" have IH: "uniform n (chunks n (drop n xs))" by simp
    from False "1.prems" have eq: "chunks n xs = take n xs # chunks n (drop n xs)"
      by (simp add: chunks.simps)
    show ?thesis
    proof (cases "drop n xs = []")
      case True
      with False "1.prems" show ?thesis by (auto simp: eq)
    next
      case rest: False
      with "1.prems" have "chunks n (drop n xs) = take n (drop n xs) # chunks n (drop n (drop n xs))"
        by (subst chunks.simps) simp
      with IH rest show ?thesis by (simp add: eq)
    qed
  qed simp
qed

section \<open>Folding over a list whose order does not matter\<close>

lemma fold_permute:
  assumes "\<And>x y. x \<in> set xs \<Longrightarrow> y \<in> set xs \<Longrightarrow> f x \<circ> f y = f y \<circ> f x"
    and "mset xs = mset ys"
  shows "fold f xs = fold f ys"
  using assms by (rule fold_multiset_equiv) (auto dest: mset_eq_setD)

end
