(* ===== verification/Throw.thy ===== *)
theory Throw
  imports Prelude
begin

text \<open>
  The model of \<^verbatim>\<open>throw.go\<close> and of the effects every other part uses: error values,
  panics, and programs that read and write a state and end in one of three ways.

  A program over a state \<open>'w\<close> is a function from the state to an outcome and the state
  it leaves. It returns a value, it panics, or it blocks for ever (a send on a full
  channel nobody drains, say). A panic carries a value: an \<open>*Exception\<close> of
  \<^verbatim>\<open>throw.go\<close>, a run-time error of Go (index out of range, division by zero), or a
  value raised by a package outside the repository. \<open>Try\<close> turns only the first kind into
  a value, as \<open>recover\<close> with its type test does.
\<close>

section \<open>Error values\<close>

text \<open>
  \<open>aws_link\<close> is one link of an error chain of the AWS SDK, as \<open>errors.As\<close> sees it.
  An error of \<open>fmt.Errorf\<close> keeps its format and its arguments: the code branches on
  none of the texts.
\<close>

datatype aws_link =
    NoSuchKeyErr
  | NoSuchBucketErr
  | NotFoundErr
  | APIErr string
  | OtherErr string

datatype goerr =
    EOF
  | ErrUnexpectedEOF
  | ErrShortWrite
  | ErrPermission
  | Errorf string "farg list"
  | LibError string
  | AwsError "aws_link list"
and farg =
    AStr string
  | AInt int
  | AStrs "string list"
  | AErr goerr

section \<open>Exceptions, panics and programs\<close>

text \<open>
  \<open>Exception\<close> holds a closure that returns its error; \<open>New\<close> is the only code that
  builds one, with a closure that returns a fixed error, so the model stores the error.
\<close>

datatype exception = Exception (what: goerr)

datatype panicval =
    PException exception
  | PRuntime string
  | PForeign string

datatype 'a outcome = Ret 'a | Panicked panicval | Blocked

type_synonym ('w, 'a) prog = "'w \<Rightarrow> 'a outcome \<times> 'w"

definition ret :: "'a \<Rightarrow> ('w, 'a) prog" where
  "ret x w = (Ret x, w)"

definition bindM :: "('w, 'a) prog \<Rightarrow> ('a \<Rightarrow> ('w, 'b) prog) \<Rightarrow> ('w, 'b) prog" where
  "bindM m f w = (case m w of
      (Ret x, w') \<Rightarrow> f x w'
    | (Panicked p, w') \<Rightarrow> (Panicked p, w')
    | (Blocked, w') \<Rightarrow> (Blocked, w'))"

definition panic :: "panicval \<Rightarrow> ('w, 'a) prog" where
  "panic p w = (Panicked p, w)"

definition block :: "('w, 'a) prog" where
  "block w = (Blocked, w)"

definition getM :: "('w \<Rightarrow> 'a) \<Rightarrow> ('w, 'a) prog" where
  "getM f w = (Ret (f w), w)"

definition modifyM :: "('w \<Rightarrow> 'w) \<Rightarrow> ('w, unit) prog" where
  "modifyM f w = (Ret (), f w)"

text \<open>A \<open>for range\<close> loop over a list.\<close>

primrec forM :: "'a list \<Rightarrow> ('a \<Rightarrow> ('w, unit) prog) \<Rightarrow> ('w, unit) prog" where
  "forM [] f = ret ()"
| "forM (x # xs) f = bindM (f x) (\<lambda>_. forM xs f)"

section \<open>throw.go\<close>

definition New :: "goerr \<Rightarrow> exception" where
  "New err = Exception err"

definition Fmt :: "string \<Rightarrow> farg list \<Rightarrow> exception" where
  "Fmt format args = New (Errorf format args)"

definition throw :: "exception \<Rightarrow> ('w, 'a) prog" where
  "throw e = panic (PException e)"

definition Unwrap :: "exception \<Rightarrow> goerr" where
  "Unwrap e = what e"

definition Throw :: "goerr option \<Rightarrow> ('w, unit) prog" where
  "Throw err = (case err of Some e \<Rightarrow> throw (New e) | None \<Rightarrow> ret ())"

definition Throw2 :: "'a \<times> goerr option \<Rightarrow> ('w, 'a) prog" where
  "Throw2 r = bindM (Throw (snd r)) (\<lambda>_. ret (fst r))"

definition Throw3 :: "'a \<times> 'b \<times> goerr option \<Rightarrow> ('w, 'a \<times> 'b) prog" where
  "Throw3 r = bindM (Throw (snd (snd r))) (\<lambda>_. ret (fst r, fst (snd r)))"

definition ThrowFmt :: "string \<Rightarrow> farg list \<Rightarrow> ('w, 'a) prog" where
  "ThrowFmt format args = throw (Fmt format args)"

text \<open>
  \<open>Try cb\<close>: the closure's result, which the code stores in a captured variable, is the
  value on the right of the sum; the returned \<open>*Exception\<close> is on the left.
\<close>

definition Try :: "('w, 'a) prog \<Rightarrow> ('w, exception + 'a) prog" where
  "Try cb w = (case cb w of
      (Ret x, w') \<Rightarrow> (Ret (Inr x), w')
    | (Panicked (PException e), w') \<Rightarrow> (Ret (Inl e), w')
    | (Panicked p, w') \<Rightarrow> (Panicked p, w')
    | (Blocked, w') \<Rightarrow> (Blocked, w'))"

definition Catch :: "exception + 'a \<Rightarrow> (exception \<Rightarrow> ('w, unit) prog) \<Rightarrow> ('w, unit) prog" where
  "Catch r cb = (case r of Inl e \<Rightarrow> cb e | Inr _ \<Rightarrow> ret ())"

text \<open>A result with an error value, as most library calls return it, under \<open>Throw2\<close>.\<close>

definition ThrowE :: "goerr + 'a \<Rightarrow> ('w, 'a) prog" where
  "ThrowE r = (case r of Inl e \<Rightarrow> throw (New e) | Inr x \<Rightarrow> ret x)"

text \<open>
  A goroutine's own stack: a panic that reaches its top ends the process, and no \<open>Try\<close> of
  the goroutine that launched it can catch it.
\<close>

definition uncaught :: "('w, 'a) prog \<Rightarrow> ('w, 'a) prog" where
  "uncaught m w = (case m w of
      (Panicked p, w') \<Rightarrow> (Panicked (PForeign ''panic in a goroutine''), w')
    | r \<Rightarrow> r)"

section \<open>How programs run\<close>

lemma bindM_Ret [outcome_simps]: "m w = (Ret x, w') \<Longrightarrow> bindM m f w = f x w'"
  by (simp add: bindM_def)

lemma bindM_Panicked [outcome_simps]: "m w = (Panicked p, w') \<Longrightarrow> bindM m f w = (Panicked p, w')"
  by (simp add: bindM_def)

lemma ret_run [outcome_simps]: "ret x w = (Ret x, w)" by (simp add: ret_def)
lemma panic_run [outcome_simps]: "panic p w = (Panicked p, w)" by (simp add: panic_def)
lemma block_run [outcome_simps]: "block w = (Blocked, w)" by (simp add: block_def)
lemma getM_run [outcome_simps]: "getM f w = (Ret (f w), w)" by (simp add: getM_def)
lemma modifyM_run [outcome_simps]: "modifyM f w = (Ret (), f w)" by (simp add: modifyM_def)

lemma throw_run [outcome_simps]: "throw e w = (Panicked (PException e), w)"
  by (simp add: throw_def panic_run)

lemma ThrowFmt_run [outcome_simps]: "ThrowFmt f a w = (Panicked (PException (Exception (Errorf f a))), w)"
  by (simp add: ThrowFmt_def Fmt_def New_def throw_run)

lemma Throw_run [outcome_simps]:
  "Throw None w = (Ret (), w)"
  "Throw (Some e) w = (Panicked (PException (Exception e)), w)"
  by (simp_all add: Throw_def New_def throw_run ret_run)

lemma Throw2_run [outcome_simps]:
  "Throw2 (x, None) w = (Ret x, w)"
  "Throw2 (x, Some e) w = (Panicked (PException (Exception e)), w)"
  by (simp_all add: Throw2_def bindM_def Throw_run ret_run)

lemma ThrowE_run [outcome_simps]:
  "ThrowE (Inr x) w = (Ret x, w)"
  "ThrowE (Inl e) w = (Panicked (PException (Exception e)), w)"
  by (simp_all add: ThrowE_def New_def throw_run ret_run)

lemma bindM_ret [simp]: "bindM (ret x) f = f x"
  by (rule ext) (simp add: bindM_def ret_def)

lemma bindM_getM [simp]: "bindM (getM g) f w = f (g w) w"
  by (simp add: bindM_def getM_def)

lemma bindM_modifyM [simp]: "bindM (modifyM g) f w = f () (g w)"
  by (simp add: bindM_def modifyM_def)

lemma bindM_panic [simp]: "bindM (panic p) f = panic p"
  by (rule ext) (simp add: bindM_def panic_def)

lemma bindM_throw [simp]: "bindM (throw e) f = throw e"
  by (simp add: throw_def)

text \<open>
  The simplifier may reduce \<open>ret x\<close> to the function \<open>Pair (Ret x)\<close>; the same facts in
  that form.
\<close>

lemma bindM_Pair [simp]:
  "bindM (Pair (Ret x)) f = f x"
  "bindM (Pair (Panicked p)) f = Pair (Panicked p)"
  "bindM (Pair Blocked) f = Pair Blocked"
  by (rule ext, simp add: bindM_def)+

lemma bindM_Pair_right [simp]: "bindM m (\<lambda>x. Pair (Ret x)) = m"
  by (rule ext) (auto simp: bindM_def split: outcome.splits prod.splits)

lemma bindM_ThrowFmt [simp]: "bindM (ThrowFmt a b) f = ThrowFmt a b"
  by (simp add: ThrowFmt_def)

lemma bindM_ret_right [simp]: "bindM m ret = m"
  by (rule ext) (auto simp: bindM_def ret_def split: outcome.splits prod.splits)

lemma bindM_assoc: "bindM (bindM m f) g = bindM m (\<lambda>x. bindM (f x) g)"
  by (rule ext) (auto simp: bindM_def split: outcome.splits prod.splits)

lemma bindM_Ret_iff:
  "bindM m f w = (Ret y, w2) \<longleftrightarrow> (\<exists>x w1. m w = (Ret x, w1) \<and> f x w1 = (Ret y, w2))"
  by (auto simp: bindM_def split: outcome.splits prod.splits)

lemma bindM_Panicked_iff:
  "bindM m f w = (Panicked p, w2) \<longleftrightarrow>
    m w = (Panicked p, w2) \<or> (\<exists>x w1. m w = (Ret x, w1) \<and> f x w1 = (Panicked p, w2))"
  by (auto simp: bindM_def split: outcome.splits prod.splits)

lemma Try_run [outcome_simps]:
  "m w = (Ret x, w') \<Longrightarrow> Try m w = (Ret (Inr x), w')"
  "m w = (Panicked (PException e), w') \<Longrightarrow> Try m w = (Ret (Inl e), w')"
  "m w = (Panicked (PRuntime r), w') \<Longrightarrow> Try m w = (Panicked (PRuntime r), w')"
  "m w = (Panicked (PForeign r), w') \<Longrightarrow> Try m w = (Panicked (PForeign r), w')"
  "m w = (Blocked, w') \<Longrightarrow> Try m w = (Blocked, w')"
  by (simp_all add: Try_def)

lemma Try_Ret_iff:
  "Try m w = (Ret r, w') \<longleftrightarrow> (case r of
      Inr x \<Rightarrow> m w = (Ret x, w')
    | Inl e \<Rightarrow> m w = (Panicked (PException e), w'))"
  by (auto simp: Try_def split: outcome.splits prod.splits panicval.splits sum.splits)

text \<open>No exception of the program leaves \<open>Try\<close>.\<close>

lemma Try_no_exception: "Try m w \<noteq> (Panicked (PException e), w')"
  by (auto simp: Try_def split: outcome.splits prod.splits panicval.splits)

lemma Catch_run [simp]: "Catch (Inl e) cb = cb e" "Catch (Inr x) cb = ret ()"
  by (simp_all add: Catch_def)

section \<open>Facts a program keeps, however it ends\<close>

text \<open>
  \<open>keeps I m\<close>: when \<open>I\<close> holds of the state before \<open>m\<close>, it holds of the state after,
  also when \<open>m\<close> panics or blocks.
\<close>

definition keeps :: "('w \<Rightarrow> bool) \<Rightarrow> ('w, 'a) prog \<Rightarrow> bool" where
  "keeps I m \<longleftrightarrow> (\<forall>w. I w \<longrightarrow> I (snd (m w)))"

named_theorems keeps_intros \<open>compositional rules for what a program keeps\<close>

lemma keepsD: "keeps I m \<Longrightarrow> I w \<Longrightarrow> m w = (r, w') \<Longrightarrow> I w'"
  unfolding keeps_def by (metis snd_conv)

lemma keepsI: "(\<And>w r w'. I w \<Longrightarrow> m w = (r, w') \<Longrightarrow> I w') \<Longrightarrow> keeps I m"
  unfolding keeps_def by (metis prod.collapse)

lemma keeps_ret [keeps_intros]: "keeps I (ret x)"
  and keeps_panic [keeps_intros]: "keeps I (panic p)"
  and keeps_block [keeps_intros]: "keeps I block"
  and keeps_getM [keeps_intros]: "keeps I (getM g)"
  and keeps_throw [keeps_intros]: "keeps I (throw e)"
  and keeps_ThrowFmt [keeps_intros]: "keeps I (ThrowFmt f a)"
  by (simp_all add: keeps_def outcome_simps)

lemma keeps_Throw [keeps_intros]: "keeps I (Throw e)"
  by (cases e) (simp_all add: keeps_def outcome_simps)

lemma keeps_ThrowE [keeps_intros]: "keeps I (ThrowE e)"
  by (cases e) (simp_all add: keeps_def outcome_simps)

lemma keeps_modifyM: "(\<And>w. I w \<Longrightarrow> I (f w)) \<Longrightarrow> keeps I (modifyM f)"
  by (simp add: keeps_def outcome_simps)

lemma keeps_bindM [keeps_intros]:
  assumes "keeps I m" and "\<And>x. keeps I (f x)"
  shows "keeps I (bindM m f)"
proof (rule keepsI)
  fix w r w' assume "I w" and run: "bindM m f w = (r, w')"
  with assms(1) have "I (snd (m w))" by (simp add: keeps_def)
  with assms(2) run show "I w'"
    by (cases "m w"; cases "fst (m w)") (auto simp: bindM_def dest: keepsD)
qed

lemma keeps_Throw2 [keeps_intros]: "keeps I (Throw2 r)"
  by (auto simp: Throw2_def intro: keeps_intros)

lemma keeps_Try [keeps_intros]: "keeps I m \<Longrightarrow> keeps I (Try m)"
  by (rule keepsI) (auto simp: Try_def dest: keepsD split: outcome.splits prod.splits panicval.splits)

lemma keeps_forM [keeps_intros]: "(\<And>x. x \<in> set xs \<Longrightarrow> keeps I (f x)) \<Longrightarrow> keeps I (forM xs f)"
  by (induction xs) (auto intro: keeps_intros)

lemma keeps_Catch [keeps_intros]: "(\<And>e. keeps I (f e)) \<Longrightarrow> keeps I (Catch r f)"
  by (cases r) (auto intro: keeps_intros)

lemma keeps_if [keeps_intros]:
  "(b \<Longrightarrow> keeps I m) \<Longrightarrow> (\<not> b \<Longrightarrow> keeps I n) \<Longrightarrow> keeps I (if b then m else n)"
  by simp

lemma uncaught_run [outcome_simps]:
  "m w = (Ret x, w') \<Longrightarrow> uncaught m w = (Ret x, w')"
  "m w = (Blocked, w') \<Longrightarrow> uncaught m w = (Blocked, w')"
  "m w = (Panicked p, w') \<Longrightarrow> uncaught m w = (Panicked (PForeign ''panic in a goroutine''), w')"
  by (simp_all add: uncaught_def)

lemma uncaught_Ret_iff: "uncaught m w = (Ret x, w') \<longleftrightarrow> m w = (Ret x, w')"
  by (auto simp: uncaught_def split: outcome.splits prod.splits)

lemma keeps_uncaught [keeps_intros]: "keeps I m \<Longrightarrow> keeps I (uncaught m)"
  by (rule keepsI) (auto simp: uncaught_def dest: keepsD split: outcome.splits prod.splits)

lemma forM_append: "forM (xs @ ys) f = bindM (forM xs f) (\<lambda>_. forM ys f)"
  by (induction xs) (simp_all add: bindM_assoc)

section \<open>Programs that return\<close>

text \<open>
  \<open>returns I m\<close>: from a state with \<open>I\<close> the program returns a value, and \<open>I\<close> holds again.
  \<open>catchable I m\<close>: it may also end with an exception, which a \<open>Try\<close> around it makes a value.
\<close>

definition returns :: "('w \<Rightarrow> bool) \<Rightarrow> ('w, 'a) prog \<Rightarrow> bool" where
  "returns I m \<longleftrightarrow> (\<forall>w. I w \<longrightarrow> (\<exists>x w'. m w = (Ret x, w') \<and> I w'))"

definition catchable :: "('w \<Rightarrow> bool) \<Rightarrow> ('w, 'a) prog \<Rightarrow> bool" where
  "catchable I m \<longleftrightarrow> (\<forall>w. I w \<longrightarrow> (\<exists>r w'. m w = (r, w') \<and> I w' \<and> ((\<exists>x. r = Ret x) \<or> (\<exists>e. r = Panicked (PException e)))))"

named_theorems returns_intros \<open>compositional rules for programs that return\<close>

lemma returnsD: "returns I m \<Longrightarrow> I w \<Longrightarrow> \<exists>x w'. m w = (Ret x, w') \<and> I w'"
  by (simp add: returns_def)

lemma returnsI: "(\<And>w. I w \<Longrightarrow> \<exists>x w'. m w = (Ret x, w') \<and> I w') \<Longrightarrow> returns I m"
  by (simp add: returns_def)

lemma catchableI:
  "(\<And>w. I w \<Longrightarrow> \<exists>r w'. m w = (r, w') \<and> I w' \<and> ((\<exists>x. r = Ret x) \<or> (\<exists>e. r = Panicked (PException e)))) \<Longrightarrow> catchable I m"
  by (simp add: catchable_def)

lemma catchable_keeps:
  assumes "keeps I m" and "\<And>w r w'. I w \<Longrightarrow> m w = (r, w') \<Longrightarrow> (\<exists>x. r = Ret x) \<or> (\<exists>e. r = Panicked (PException e))"
  shows "catchable I m"
proof (rule catchableI)
  fix w assume "I w"
  moreover obtain r w' where "m w = (r, w')" by fastforce
  ultimately show "\<exists>r w'. m w = (r, w') \<and> I w' \<and> ((\<exists>x. r = Ret x) \<or> (\<exists>e. r = Panicked (PException e)))"
    using assms(2) keepsD [OF assms(1)] by blast
qed

lemma returns_ret [returns_intros]: "returns I (ret x)"
  and returns_getM [returns_intros]: "returns I (getM g)"
  and returns_Throw_None [returns_intros]: "returns I (Throw None)"
  by (simp_all add: returns_def outcome_simps)

lemma returns_pure: "(\<And>w. \<exists>x. m w = (Ret x, w)) \<Longrightarrow> returns I m"
  unfolding returns_def by metis

lemma returns_bindM [returns_intros]: "returns I m \<Longrightarrow> (\<And>x. returns I (f x)) \<Longrightarrow> returns I (bindM m f)"
  unfolding returns_def by (fastforce simp: bindM_def)

lemma returns_forM [returns_intros]: "(\<And>x. x \<in> set xs \<Longrightarrow> returns I (f x)) \<Longrightarrow> returns I (forM xs f)"
  by (induction xs) (auto intro: returns_intros)

lemma returns_if [returns_intros]:
  "(b \<Longrightarrow> returns I m) \<Longrightarrow> (\<not> b \<Longrightarrow> returns I n) \<Longrightarrow> returns I (if b then m else n)"
  by simp

lemma returns_Try [returns_intros]: "catchable I m \<Longrightarrow> returns I (Try m)"
  unfolding returns_def catchable_def by (fastforce simp: Try_def)

lemma returns_Catch [returns_intros]: "(\<And>e. returns I (f e)) \<Longrightarrow> returns I (Catch r f)"
  by (cases r) (auto intro: returns_intros)

lemma returns_catchable: "returns I m \<Longrightarrow> catchable I m"
  unfolding returns_def catchable_def by blast

lemma catchable_bindM: "catchable I m \<Longrightarrow> (\<And>x. catchable I (f x)) \<Longrightarrow> catchable I (bindM m f)"
  unfolding catchable_def by (fastforce simp: bindM_def)

end
