(* ===== verification/GoStd.thy ===== *)
theory GoStd
  imports Throw
begin

text \<open>
  The functions of Go's standard library the code computes with: the parts of
  \<^verbatim>\<open>strings\<close>, \<^verbatim>\<open>path\<close> and \<^verbatim>\<open>encoding/hex\<close> it calls, as executable
  definitions, and the facts the components use.
\<close>

section \<open>strings\<close>

definition strings_HasPrefix :: "string \<Rightarrow> string \<Rightarrow> bool" where
  "strings_HasPrefix s p \<longleftrightarrow> take (length p) s = p"

definition strings_TrimPrefix :: "string \<Rightarrow> string \<Rightarrow> string" where
  "strings_TrimPrefix s p = (if strings_HasPrefix s p then drop (length p) s else s)"

definition strings_TrimLeft :: "string \<Rightarrow> string \<Rightarrow> string" where
  "strings_TrimLeft s cutset = dropWhile (\<lambda>c. c \<in> set cutset) s"

definition strings_TrimRight :: "string \<Rightarrow> string \<Rightarrow> string" where
  "strings_TrimRight s cutset = rev (dropWhile (\<lambda>c. c \<in> set cutset) (rev s))"

definition strings_Trim :: "string \<Rightarrow> string \<Rightarrow> string" where
  "strings_Trim s cutset = strings_TrimLeft (strings_TrimRight s cutset) cutset"

text \<open>\<open>strings.Index\<close> for a separator of one byte: \<open>-1\<close> when there is none.\<close>

fun strings_Index :: "string \<Rightarrow> char \<Rightarrow> int" where
  "strings_Index [] c = -1"
| "strings_Index (x # xs) c =
     (if x = c then 0 else (let i = strings_Index xs c in if i < 0 then -1 else i + 1))"

fun strings_Contains :: "string \<Rightarrow> string \<Rightarrow> bool" where
  "strings_Contains [] sub = (sub = [])"
| "strings_Contains (x # xs) sub = (strings_HasPrefix (x # xs) sub \<or> strings_Contains xs sub)"

text \<open>\<open>strings.Split\<close> for a separator of one byte: never empty.\<close>

fun strings_Split :: "string \<Rightarrow> char \<Rightarrow> string list" where
  "strings_Split [] c = [[]]"
| "strings_Split (x # xs) c =
     (if x = c then [] # strings_Split xs c
      else (case strings_Split xs c of [] \<Rightarrow> [[x]] | y # ys \<Rightarrow> (x # y) # ys))"

fun strings_Join :: "string list \<Rightarrow> string \<Rightarrow> string" where
  "strings_Join [] sep = []"
| "strings_Join [x] sep = x"
| "strings_Join (x # y # ys) sep = x @ sep @ strings_Join (y # ys) sep"

declare strings_HasPrefix_def [go_defs] strings_TrimPrefix_def [go_defs]
  strings_TrimLeft_def [go_defs] strings_TrimRight_def [go_defs] strings_Trim_def [go_defs]

lemma HasPrefix_iff: "strings_HasPrefix s p \<longleftrightarrow> prefix p s"
  by (metis strings_HasPrefix_def append_take_drop_id prefix_def append_eq_conv_conj)

lemma TrimPrefix_append [simp]: "strings_TrimPrefix (p @ s) p = s"
  by (simp add: strings_TrimPrefix_def strings_HasPrefix_def)

lemma Index_absent: "c \<notin> set s \<Longrightarrow> strings_Index s c = -1"
  by (induction s) (auto simp: Let_def)

lemma Index_append: "c \<notin> set s \<Longrightarrow> strings_Index (s @ c # t) c = int (length s)"
  by (induction s) (auto simp: Let_def)

lemma Index_present:
  "c \<in> set s \<Longrightarrow> \<exists>a b. s = a @ c # b \<and> c \<notin> set a \<and> strings_Index s c = int (length a)"
  by (metis split_list_first Index_append)

lemma Index_neg_iff: "strings_Index s c < 0 \<longleftrightarrow> c \<notin> set s"
  using Index_absent Index_present by fastforce

lemma Index_nonneg_iff: "0 \<le> strings_Index s c \<longleftrightarrow> c \<in> set s"
  using Index_neg_iff [of s c] by linarith

lemma Split_neq_Nil [simp]: "strings_Split s c \<noteq> []"
  by (induction s) (auto split: list.splits)

lemma Split_no_sep: "x \<in> set (strings_Split s c) \<Longrightarrow> c \<notin> set x"
  by (induction s arbitrary: x) (auto split: list.splits if_splits)

lemma Join_Cons: "xs \<noteq> [] \<Longrightarrow> strings_Join (x # xs) sep = x @ sep @ strings_Join xs sep"
  by (cases xs) auto

lemma Join_Split: "strings_Join (strings_Split s c) [c] = s"
proof (induction s)
  case (Cons x xs)
  show ?case
  proof (cases "x = c")
    case True
    with Cons show ?thesis by (simp add: Join_Cons)
  next
    case False
    obtain y ys where "strings_Split xs c = y # ys"
      using Split_neq_Nil by (meson neq_Nil_conv)
    with Cons False show ?thesis by (cases ys) auto
  qed
qed simp

lemma Split_no_occ: "c \<notin> set s \<Longrightarrow> strings_Split s c = [s]"
  by (induction s) auto

lemma Split_append_sep:
  "c \<notin> set s \<Longrightarrow> strings_Split (s @ c # t) c = s # strings_Split t c"
  by (induction s) auto

lemma Split_Join:
  "xs \<noteq> [] \<Longrightarrow> (\<forall>x\<in>set xs. c \<notin> set x) \<Longrightarrow> strings_Split (strings_Join xs [c]) c = xs"
  by (induction xs "[c]" rule: strings_Join.induct) (auto simp: Split_no_occ Split_append_sep)

section \<open>path\<close>

text \<open>
  \<open>path.Clean\<close> by its four documented rules, on the components between slashes: empty and
  \<open>.\<close> components go, an inner \<open>..\<close> goes with the component before it, a \<open>..\<close> at the root
  goes, and an empty result is \<open>.\<close>.
\<close>

fun clean_step :: "bool \<Rightarrow> string list \<Rightarrow> string \<Rightarrow> string list" where
  "clean_step rooted st c =
     (if c = '''' \<or> c = ''.'' then st
      else if c = ''..'' then
        (case st of
           [] \<Rightarrow> if rooted then [] else [''..'']
         | t # ts \<Rightarrow> if t = ''..'' then ''..'' # st else ts)
      else c # st)"

definition path_Clean :: "string \<Rightarrow> string" where
  "path_Clean p =
     (let rooted = strings_HasPrefix p ''/'';
          st = foldl (clean_step rooted) [] (strings_Split p (CHR ''/''));
          r = (if rooted then ''/'' else '''') @ strings_Join (rev st) ''/''
      in if r = '''' then ''.'' else r)"

definition path_Base :: "string \<Rightarrow> string" where
  "path_Base p =
     (if p = '''' then ''.''
      else (let q = strings_TrimRight p ''/'';
                b = rev (takeWhile (\<lambda>c. c \<noteq> CHR ''/'') (rev q))
            in if b = '''' then ''/'' else b))"

text \<open>A proper component: what \<open>path.Clean\<close> leaves in place.\<close>

definition proper_comp :: "string \<Rightarrow> bool" where
  "proper_comp c \<longleftrightarrow> c \<noteq> '''' \<and> c \<noteq> ''.'' \<and> c \<noteq> ''..'' \<and> CHR ''/'' \<notin> set c"

declare proper_comp_def [go_defs] path_Clean_def [go_defs] path_Base_def [go_defs]

lemma path_Base_append:
  assumes "CHR ''/'' \<notin> set b" and "b \<noteq> ''''"
  shows "path_Base (a @ ''/'' @ b) = b" and "path_Base b = b"
proof -
  obtain c cs where "rev b = c # cs" "c \<noteq> CHR ''/''"
    using assms by (cases "rev b") (auto dest: arg_cong [where f = set])
  then have tr: "strings_TrimRight (x @ b) ''/'' = x @ b" for x
    by (simp add: strings_TrimRight_def)
  have tw: "takeWhile (\<lambda>c. c \<noteq> CHR ''/'') (rev b @ r) = rev b @ takeWhile (\<lambda>c. c \<noteq> CHR ''/'') r" for r
    using assms(1) by (auto intro: takeWhile_append2)
  from tw [of "[]"] have tw': "takeWhile (\<lambda>c. c \<noteq> CHR ''/'') (rev b) = rev b" by simp
  show "path_Base (a @ ''/'' @ b) = b"
    using tr [of "a @ ''/''"] tw [of "CHR ''/'' # rev a"] assms(2) by (simp add: path_Base_def)
  show "path_Base b = b"
    using assms(2) tr [of "[]"] by (simp add: path_Base_def tw' del: takeWhile_eq_all_conv)
qed

lemma clean_fold_rooted_proper:
  "(\<forall>c\<in>set st. proper_comp c) \<Longrightarrow> (\<forall>c\<in>set cs. CHR ''/'' \<notin> set c) \<Longrightarrow>
    \<forall>c\<in>set (foldl (clean_step True) st cs). proper_comp c"
proof (induction cs arbitrary: st)
  case (Cons c cs)
  have "\<forall>x\<in>set (clean_step True st c). proper_comp x"
    using Cons.prems by (cases st) (simp_all add: proper_comp_def)
  with Cons show ?case by (simp del: clean_step.simps)
qed simp

lemma clean_fold_keep:
  "(\<forall>c\<in>set cs. proper_comp c) \<Longrightarrow> foldl (clean_step r) st cs = rev cs @ st"
  by (induction cs arbitrary: st) (auto simp: proper_comp_def)

text \<open>A rooted path cleans to a slash and proper components, and those stay as they are.\<close>

lemma path_Clean_rooted:
  "\<exists>cs. path_Clean (CHR ''/'' # p) = CHR ''/'' # strings_Join cs ''/'' \<and> (\<forall>c\<in>set cs. proper_comp c)"
proof -
  let ?st = "foldl (clean_step True) [] (strings_Split (CHR ''/'' # p) (CHR ''/''))"
  have "\<forall>c\<in>set ?st. proper_comp c"
    by (rule clean_fold_rooted_proper) (auto dest: Split_no_sep)
  moreover have "path_Clean (CHR ''/'' # p) = CHR ''/'' # strings_Join (rev ?st) ''/''"
    by (simp add: path_Clean_def strings_HasPrefix_def Let_def)
  ultimately show ?thesis by (metis set_rev)
qed

lemma path_Clean_proper:
  assumes "\<forall>c\<in>set cs. proper_comp c"
  shows "path_Clean (CHR ''/'' # strings_Join cs ''/'') = CHR ''/'' # strings_Join cs ''/''"
proof (cases "cs = []")
  case True
  then show ?thesis by (simp add: path_Clean_def strings_HasPrefix_def)
next
  case False
  with assms have "strings_Split (strings_Join cs ''/'') (CHR ''/'') = cs"
    by (intro Split_Join) (auto simp: proper_comp_def)
  with assms show ?thesis
    by (simp add: path_Clean_def strings_HasPrefix_def Let_def clean_fold_keep)
qed

lemma path_Clean_slashes:
  "path_Clean (CHR ''/'' # CHR ''/'' # p) = path_Clean (CHR ''/'' # p)"
  by (simp add: path_Clean_def strings_HasPrefix_def)

section \<open>encoding/hex\<close>

definition hex_digits :: string where
  "hex_digits = ''0123456789abcdef''"

fun hex_EncodeToString :: "bytes \<Rightarrow> string" where
  "hex_EncodeToString [] = []"
| "hex_EncodeToString (b # bs) =
     hex_digits ! (unat b div 16) # hex_digits ! (unat b mod 16) # hex_EncodeToString bs"

definition hex_val :: "char \<Rightarrow> nat option" where
  "hex_val c =
     (let n = of_char c :: nat in
      if 48 \<le> n \<and> n \<le> 57 then Some (n - 48)
      else if 97 \<le> n \<and> n \<le> 102 then Some (n - 87)
      else if 65 \<le> n \<and> n \<le> 70 then Some (n - 55)
      else None)"

fun hex_DecodeString :: "string \<Rightarrow> goerr + bytes" where
  "hex_DecodeString [] = Inr []"
| "hex_DecodeString [c] =
     (case hex_val c of
        None \<Rightarrow> Inl (LibError ''encoding/hex: invalid byte'')
      | Some _ \<Rightarrow> Inl (LibError ''encoding/hex: odd length hex string''))"
| "hex_DecodeString (c # d # s) =
     (case (hex_val c, hex_val d) of
        (Some h, Some l) \<Rightarrow>
          (case hex_DecodeString s of
             Inl e \<Rightarrow> Inl e
           | Inr bs \<Rightarrow> Inr (of_nat (16 * h + l) # bs))
      | _ \<Rightarrow> Inl (LibError ''encoding/hex: invalid byte''))"

lemma hex_val_digit: "n < 16 \<Longrightarrow> hex_val (hex_digits ! n) = Some n"
proof -
  assume "n < 16"
  then have "n \<in> {0, 1, 2, 3, 4, 5, 6, 7, 8, 9, 10, 11, 12, 13, 14, 15}"
    by (simp only: insert_iff empty_iff) arith
  then show ?thesis by (elim insertE emptyE) (simp_all add: hex_val_def hex_digits_def)
qed

lemma hex_roundtrip [simp]: "hex_DecodeString (hex_EncodeToString bs) = Inr bs"
proof (induction bs)
  case (Cons b bs)
  have "unat b < 256" by (rule unat_byte_bound)
  then have "unat b div 16 < 16" "unat b mod 16 < 16" by simp_all
  with Cons show ?case by (simp add: hex_val_digit)
qed simp

lemma hex_inj [simp]: "hex_EncodeToString a = hex_EncodeToString b \<longleftrightarrow> a = b"
  by (metis hex_roundtrip sum.inject(2))

lemma length_hex [simp]: "length (hex_EncodeToString bs) = 2 * length bs"
  by (induction bs) auto

lemma hex_no_slash: "CHR ''/'' \<notin> set (hex_EncodeToString bs)"
proof (induction bs)
  case (Cons b bs)
  have *: "n < 16 \<Longrightarrow> hex_digits ! n \<noteq> CHR ''/''" for n
    using hex_val_digit [of n] by (auto simp: hex_val_def)
  have "unat b < 256" by (rule unat_byte_bound)
  then have "unat b div 16 < 16" "unat b mod 16 < 16" by simp_all
  with Cons * show ?case by (metis hex_EncodeToString.simps(2) set_ConsD)
qed simp

end
