(* ===== verification/Config.thy ===== *)
theory Config
  imports GoStd
begin

text \<open>
  \<^verbatim>\<open>config.go\<close>: the configuration record, its defaults from the environment, its
  validation, and the S3 key layout. The lemmas show that the four key helpers describe one
  layout: torrent keys and piece keys are disjoint, injective in the hash, and are exactly
  what a listing under the prefix helpers can return.

  The environment is a function from names to values, with the empty string for an unset
  name, as \<open>os.Getenv\<close> reports it.
\<close>

section \<open>The configuration\<close>

record Config =
  AWSKey :: string
  AWSSecret :: string
  S3Endpt :: string
  S3Bucket :: string
  S3Root :: string
  Listen :: string
  User :: string
  Pass :: string
  AuthKeys :: string
  HostKey :: string
  ReloadSecs :: int
  LRUSize :: int
  UpSem :: int
  PrefetchDistance :: int
  InflightPieces :: int
  Region :: string
  TgToken :: string
  TgAllowUsers :: string
  Socks5 :: string
  DataDir :: string

type_synonym env = "string \<Rightarrow> string"

definition loadCommon :: "env \<Rightarrow> Config" where
  "loadCommon getenv =
     (let c = \<lparr>AWSKey = '''', AWSSecret = '''', S3Endpt = '''', S3Bucket = '''',
               S3Root = ''torrents'',
               Listen = '''', User = '''', Pass = '''', AuthKeys = '''', HostKey = '''',
               ReloadSecs = 30, LRUSize = 1000, UpSem = 128, PrefetchDistance = 32,
               InflightPieces = 1000, Region = ''us-east-1'',
               TgToken = '''', TgAllowUsers = '''', Socks5 = '''', DataDir = ''''\<rparr>;
          c = (let v = getenv ''AWS_ACCESS_KEY_ID'' in if v \<noteq> '''' then c\<lparr>AWSKey := v\<rparr> else c);
          c = (let v = getenv ''AWS_SECRET_ACCESS_KEY'' in if v \<noteq> '''' then c\<lparr>AWSSecret := v\<rparr> else c);
          c = (let v = getenv ''S3_ENDPOINT'' in if v \<noteq> '''' then c\<lparr>S3Endpt := v\<rparr> else c);
          c = (let v = getenv ''S3_BUCKET'' in if v \<noteq> '''' then c\<lparr>S3Bucket := v\<rparr> else c);
          c = (let v = getenv ''SAMOGON_S3_ROOT'' in if v \<noteq> '''' then c\<lparr>S3Root := v\<rparr> else c)
      in c)"

definition validate :: "Config \<Rightarrow> ('w, unit) prog" where
  "validate c =
     (if AWSKey c = '''' then ThrowFmt ''AWS_ACCESS_KEY_ID / --aws-key is required'' []
      else if AWSSecret c = '''' then ThrowFmt ''AWS_SECRET_ACCESS_KEY / --aws-secret is required'' []
      else if S3Endpt c = '''' then ThrowFmt ''S3_ENDPOINT / --endpoint is required'' []
      else if S3Bucket c = '''' then ThrowFmt ''S3_BUCKET / --bucket is required'' []
      else if \<not> strings_Contains (S3Endpt c) ''://''
        then ThrowFmt ''S3_ENDPOINT missing scheme (expected http://... or https://...): %q''
               [AStr (S3Endpt c)]
      else ret ())"

section \<open>S3 keys\<close>

definition KeyTorrent :: "Config \<Rightarrow> string \<Rightarrow> string" where
  "KeyTorrent c infohash = S3Root c @ ''/torrents/'' @ infohash"

definition KeyPiece :: "Config \<Rightarrow> string \<Rightarrow> string" where
  "KeyPiece c hash = S3Root c @ ''/pieces/'' @ hash"

definition PrefixTorrents :: "Config \<Rightarrow> string" where
  "PrefixTorrents c = S3Root c @ ''/torrents/''"

definition PrefixPieces :: "Config \<Rightarrow> string" where
  "PrefixPieces c = S3Root c @ ''/pieces/''"

lemma KeyTorrent_inj [simp]: "KeyTorrent c a = KeyTorrent c b \<longleftrightarrow> a = b"
  by (simp add: KeyTorrent_def)

lemma KeyPiece_inj [simp]: "KeyPiece c a = KeyPiece c b \<longleftrightarrow> a = b"
  by (simp add: KeyPiece_def)

lemma KeyTorrent_neq_KeyPiece [simp]:
  "KeyTorrent c a \<noteq> KeyPiece c b" "KeyPiece c b \<noteq> KeyTorrent c a"
  by (simp_all add: KeyTorrent_def KeyPiece_def)

lemma prefix_KeyPiece: "prefix (PrefixPieces c) k \<longleftrightarrow> (\<exists>h. k = KeyPiece c h)"
  by (auto simp: PrefixPieces_def KeyPiece_def prefix_def)

lemma prefix_KeyTorrent: "prefix (PrefixTorrents c) k \<longleftrightarrow> (\<exists>h. k = KeyTorrent c h)"
  by (auto simp: PrefixTorrents_def KeyTorrent_def prefix_def)

lemma path_Base_KeyPiece:
  assumes "CHR ''/'' \<notin> set h" and "h \<noteq> ''''"
  shows "path_Base (KeyPiece c h) = h"
  using path_Base_append(1) [OF assms, of "S3Root c @ ''/pieces''"] by (simp add: KeyPiece_def)

lemma path_Base_KeyTorrent:
  assumes "CHR ''/'' \<notin> set h" and "h \<noteq> ''''"
  shows "path_Base (KeyTorrent c h) = h"
  using path_Base_append(1) [OF assms, of "S3Root c @ ''/torrents''"] by (simp add: KeyTorrent_def)

text \<open>What a validated configuration guarantees, and that validation changes nothing.\<close>

definition usable :: "Config \<Rightarrow> bool" where
  "usable c \<longleftrightarrow> AWSKey c \<noteq> '''' \<and> AWSSecret c \<noteq> '''' \<and> S3Bucket c \<noteq> ''''
     \<and> strings_Contains (S3Endpt c) ''://''"

lemma validate_iff: "validate c w = (Ret (), w') \<longleftrightarrow> usable c \<and> w' = w"
  by (auto simp: validate_def usable_def outcome_simps strings_HasPrefix_def)

lemma validate_throws: "\<not> usable c \<Longrightarrow> \<exists>e. validate c w = (Panicked (PException e), w)"
  by (auto simp: validate_def usable_def outcome_simps)

text \<open>
  The four key helpers describe one layout. Different hashes have different keys, no
  torrent key is a piece key, a key lies under a prefix helper exactly when the matching key
  helper made it, and \<open>path.Base\<close> of a key gives back the hash it was made from: the
  catalogue, the collector and the resume listing recover every hash from a listing.
\<close>

theorem key_layout:
  assumes "CHR ''/'' \<notin> set h" and "h \<noteq> ''''"
  shows "path_Base (KeyTorrent c h) = h \<and> path_Base (KeyPiece c h) = h
    \<and> (KeyTorrent c h = KeyTorrent c h' \<longleftrightarrow> h = h') \<and> (KeyPiece c h = KeyPiece c h' \<longleftrightarrow> h = h')
    \<and> KeyTorrent c h \<noteq> KeyPiece c h'
    \<and> (prefix (PrefixTorrents c) k \<longleftrightarrow> (\<exists>x. k = KeyTorrent c x))
    \<and> (prefix (PrefixPieces c) k \<longleftrightarrow> (\<exists>x. k = KeyPiece c x))"
  using path_Base_KeyTorrent [OF assms] path_Base_KeyPiece [OF assms] prefix_KeyPiece prefix_KeyTorrent
  by simp

theorem key_layout_witness:
  "path_Base (KeyPiece (loadCommon (\<lambda>_. '''')) ''ab12'') = ''ab12''"
  using key_layout [of "''ab12''" "loadCommon (\<lambda>_. '''')" "''ab12''" "''''"] by simp

end
