(* ===== verification/Storage.thy ===== *)
theory Storage
  imports Config
begin

text \<open>
  \<^verbatim>\<open>storage.go\<close>: the S3 client's operations, over a service that is not part of the
  repository. The service is a parameter: a record of the five SDK calls the code makes,
  each a function of the service's own state. \<open>s3_laws\<close> states the documented behaviour
  the code relies on (a successful \<open>PutObject\<close> is visible to later calls, \<open>GetObject\<close>
  returns what is stored, listings return the keys under the prefix), relative to a view of
  the stored objects. Calls may fail at any time; a failed write may or may not have taken
  effect. \<open>s3_up\<close> adds that calls succeed.

  A paginator is modelled by the pages it will return: \<open>ListPages\<close> gives the results of
  the successive \<open>NextPage\<close> calls while \<open>HasMorePages\<close> holds, a finite list.
  The log lines the operations print are left out.
\<close>

section \<open>The service and the state of a process\<close>

record 's s3api =
  HeadObject :: "string \<Rightarrow> string \<Rightarrow> 's \<Rightarrow> goerr option \<times> 's"
  PutObject :: "string \<Rightarrow> string \<Rightarrow> bytes \<Rightarrow> 's \<Rightarrow> goerr option \<times> 's"
  GetObject :: "string \<Rightarrow> string \<Rightarrow> 's \<Rightarrow> (goerr + bytes \<times> goerr option) \<times> 's"
  DeleteObject :: "string \<Rightarrow> string \<Rightarrow> 's \<Rightarrow> goerr option \<times> 's"
  ListPages :: "string \<Rightarrow> string \<Rightarrow> 's \<Rightarrow> (goerr + string list) list \<times> 's"

text \<open>
  The state every subcommand shares: the service, and the counter \<open>Storage.Puts\<close>. Other
  components extend this record with their own state.
\<close>

record 's world =
  w_s3 :: 's
  w_puts :: int

section \<open>Operations\<close>

definition call :: "('s \<Rightarrow> 'r \<times> 's) \<Rightarrow> (('s, 'z) world_scheme, 'r) prog" where
  "call f w = (case f (w_s3 w) of (r, s') \<Rightarrow> (Ret r, w\<lparr>w_s3 := s'\<rparr>))"

text \<open>\<open>errors.As\<close> for the API-error interface, whose values here are the coded links.\<close>

fun as_api_error :: "aws_link list \<Rightarrow> string option" where
  "as_api_error [] = None"
| "as_api_error (APIErr code # _) = Some code"
| "as_api_error (NoSuchKeyErr # _) = Some ''NoSuchKey''"
| "as_api_error (NoSuchBucketErr # _) = Some ''NoSuchBucket''"
| "as_api_error (NotFoundErr # _) = Some ''NotFound''"
| "as_api_error (OtherErr _ # es) = as_api_error es"

definition isNotFound :: "goerr \<Rightarrow> bool" where
  "isNotFound err = (case err of
      AwsError chain \<Rightarrow>
        if NoSuchKeyErr \<in> set chain \<or> NoSuchBucketErr \<in> set chain \<or> NotFoundErr \<in> set chain then True
        else (case as_api_error chain of
            Some code \<Rightarrow> code \<in> {''NoSuchBucket'', ''NoSuchKey'', ''NotFound'', ''404''}
          | None \<Rightarrow> False)
    | _ \<Rightarrow> False)"

definition Stat :: "Config \<Rightarrow> 's s3api \<Rightarrow> string \<Rightarrow> (('s, 'z) world_scheme, bool) prog" where
  "Stat cfg cli key =
     bindM (call (HeadObject cli (S3Bucket cfg) key)) (\<lambda>err. ret (err = None))"

definition PutBytes :: "Config \<Rightarrow> 's s3api \<Rightarrow> string \<Rightarrow> bytes \<Rightarrow> (('s, 'z) world_scheme, unit) prog" where
  "PutBytes cfg cli key data =
     bindM (call (PutObject cli (S3Bucket cfg) key data)) (\<lambda>err. case err of
       Some e \<Rightarrow> ThrowFmt ''s3 PutObject %s: %v'' [AStr key, AErr e]
     | None \<Rightarrow> modifyM (\<lambda>w. w\<lparr>w_puts := w_puts w + 1\<rparr>))"

text \<open>\<open>PutFile\<close> reads its file from the local disk, a partial map from paths to contents.\<close>

definition PutFile ::
  "Config \<Rightarrow> 's s3api \<Rightarrow> (string \<Rightarrow> goerr + bytes) \<Rightarrow> string \<Rightarrow> string \<Rightarrow> (('s, 'z) world_scheme, unit) prog" where
  "PutFile cfg cli disk key p =
     bindM (ThrowE (disk p)) (\<lambda>data.
     bindM (call (PutObject cli (S3Bucket cfg) key data)) (\<lambda>err. case err of
       Some e \<Rightarrow> ThrowFmt ''s3 PutObject %s (from %s): %v'' [AStr key, AStr p, AErr e]
     | None \<Rightarrow> modifyM (\<lambda>w. w\<lparr>w_puts := w_puts w + 1\<rparr>)))"

definition Delete :: "Config \<Rightarrow> 's s3api \<Rightarrow> string \<Rightarrow> (('s, 'z) world_scheme, unit) prog" where
  "Delete cfg cli key =
     bindM (call (DeleteObject cli (S3Bucket cfg) key)) (\<lambda>err. case err of
       Some e \<Rightarrow> ThrowFmt ''s3 DeleteObject %s: %v'' [AStr key, AErr e]
     | None \<Rightarrow> ret ())"

definition Cat :: "Config \<Rightarrow> 's s3api \<Rightarrow> string \<Rightarrow> (('s, 'z) world_scheme, bytes) prog" where
  "Cat cfg cli key =
     bindM (call (GetObject cli (S3Bucket cfg) key)) (\<lambda>r. case r of
       Inl e \<Rightarrow> ThrowFmt ''s3 GetObject %s: %v'' [AStr key, AErr e]
     | Inr body \<Rightarrow> Throw2 body)"

text \<open>
  \<open>ListStream\<close>: the keys its goroutine pushes before the channel is closed, and the panic
  of that goroutine if it throws. It runs outside every \<open>Try\<close>, so such a panic ends the
  process. A not-found error closes the channel after the keys of the earlier pages.
\<close>

fun stream_pages :: "string \<Rightarrow> (goerr + string list) list \<Rightarrow> string list \<times> exception option" where
  "stream_pages pfx [] = ([], None)"
| "stream_pages pfx (Inl err # _) =
     (if isNotFound err then ([], None)
      else ([], Some (Fmt ''s3 ListObjectsV2 %s: %v'' [AStr pfx, AErr err])))"
| "stream_pages pfx (Inr contents # pages) =
     (case stream_pages pfx pages of (keys, exc) \<Rightarrow> (contents @ keys, exc))"

definition ListStream ::
  "Config \<Rightarrow> 's s3api \<Rightarrow> string \<Rightarrow> (('s, 'z) world_scheme, string list \<times> exception option) prog" where
  "ListStream cfg cli pfx =
     bindM (call (ListPages cli (S3Bucket cfg) pfx)) (\<lambda>pages. ret (stream_pages pfx pages))"

text \<open>\<open>List\<close>: a not-found error on any page makes the whole listing empty.\<close>

fun list_pages :: "string \<Rightarrow> string list \<Rightarrow> (goerr + string list) list \<Rightarrow> ('w, string list) prog" where
  "list_pages pfx keys [] = ret keys"
| "list_pages pfx keys (Inl err # _) =
     (if isNotFound err then ret []
      else ThrowFmt ''s3 ListObjectsV2 %s: %v'' [AStr pfx, AErr err])"
| "list_pages pfx keys (Inr contents # pages) = list_pages pfx (keys @ contents) pages"

definition List :: "Config \<Rightarrow> 's s3api \<Rightarrow> string \<Rightarrow> (('s, 'z) world_scheme, string list) prog" where
  "List cfg cli pfx =
     bindM (call (ListPages cli (S3Bucket cfg) pfx)) (\<lambda>pages. list_pages pfx [] pages)"

definition ListPieces :: "Config \<Rightarrow> 's s3api \<Rightarrow> (('s, 'z) world_scheme, string set) prog" where
  "ListPieces cfg cli =
     bindM (List cfg cli (PrefixPieces cfg)) (\<lambda>keys. ret (set (map path_Base keys)))"

section \<open>What the code relies on of the service\<close>

type_synonym 's view = "'s \<Rightarrow> string \<Rightarrow> string \<Rightarrow> bytes option"

definition upd2 :: "(string \<Rightarrow> string \<Rightarrow> bytes option) \<Rightarrow> string \<Rightarrow> string \<Rightarrow> bytes option
    \<Rightarrow> string \<Rightarrow> string \<Rightarrow> bytes option" where
  "upd2 f b k v = f(b := (f b)(k := v))"

definition head_law :: "'s s3api \<Rightarrow> 's view \<Rightarrow> bool" where
  "head_law cli objs \<longleftrightarrow> (\<forall>b k s err s'. HeadObject cli b k s = (err, s') \<longrightarrow>
     objs s' = objs s \<and> (err = None \<longrightarrow> objs s b k \<noteq> None))"

definition get_law :: "'s s3api \<Rightarrow> 's view \<Rightarrow> bool" where
  "get_law cli objs \<longleftrightarrow> (\<forall>b k s r s'. GetObject cli b k s = (r, s') \<longrightarrow>
     objs s' = objs s \<and> (\<forall>d. r = Inr (d, None) \<longrightarrow> objs s b k = Some d))"

definition put_law :: "'s s3api \<Rightarrow> 's view \<Rightarrow> bool" where
  "put_law cli objs \<longleftrightarrow> (\<forall>b k d s err s'. PutObject cli b k d s = (err, s') \<longrightarrow>
     objs s' = upd2 (objs s) b k (Some d) \<or> err \<noteq> None \<and> objs s' = objs s)"

definition delete_law :: "'s s3api \<Rightarrow> 's view \<Rightarrow> bool" where
  "delete_law cli objs \<longleftrightarrow> (\<forall>b k s err s'. DeleteObject cli b k s = (err, s') \<longrightarrow>
     objs s' = upd2 (objs s) b k None \<or> err \<noteq> None \<and> objs s' = objs s)"

definition list_law :: "'s s3api \<Rightarrow> 's view \<Rightarrow> bool" where
  "list_law cli objs \<longleftrightarrow> (\<forall>b p s pages s'. ListPages cli b p s = (pages, s') \<longrightarrow>
     objs s' = objs s \<and>
     (\<forall>ks. Inr ks \<in> set pages \<longrightarrow> (\<forall>k\<in>set ks. prefix p k \<and> objs s b k \<noteq> None)) \<and>
     ((\<forall>pg\<in>set pages. \<exists>ks. pg = Inr ks) \<longrightarrow>
        (\<forall>k. prefix p k \<and> objs s b k \<noteq> None \<longrightarrow> (\<exists>ks. Inr ks \<in> set pages \<and> k \<in> set ks))))"

definition s3_laws :: "'s s3api \<Rightarrow> 's view \<Rightarrow> bool" where
  "s3_laws cli objs \<longleftrightarrow> head_law cli objs \<and> get_law cli objs \<and> put_law cli objs
     \<and> delete_law cli objs \<and> list_law cli objs"

text \<open>\<open>up\<close> marks the service states in which every call succeeds, and stays true.\<close>

definition s3_up :: "'s s3api \<Rightarrow> 's view \<Rightarrow> ('s \<Rightarrow> bool) \<Rightarrow> bool" where
  "s3_up cli objs up \<longleftrightarrow>
    (\<forall>b k s. up s \<longrightarrow> up (snd (HeadObject cli b k s)) \<and>
       (objs s b k \<noteq> None \<longrightarrow> fst (HeadObject cli b k s) = None)) \<and>
    (\<forall>b k s d. up s \<longrightarrow> up (snd (GetObject cli b k s)) \<and>
       (objs s b k = Some d \<longrightarrow> fst (GetObject cli b k s) = Inr (d, None))) \<and>
    (\<forall>b k d s. up s \<longrightarrow> up (snd (PutObject cli b k d s)) \<and> fst (PutObject cli b k d s) = None) \<and>
    (\<forall>b k s. up s \<longrightarrow> up (snd (DeleteObject cli b k s)) \<and> fst (DeleteObject cli b k s) = None) \<and>
    (\<forall>b p s. up s \<longrightarrow> up (snd (ListPages cli b p s)) \<and>
       (\<forall>pg\<in>set (fst (ListPages cli b p s)). \<exists>ks. pg = Inr ks))"

section \<open>The store's contract\<close>

text \<open>
  What a component that uses the store may rely on: the view of the stored blobs, and how
  each operation changes it whatever its outcome.
\<close>

locale blob_store =
  fixes ok :: "'c \<Rightarrow> bool"
    and view :: "'c \<Rightarrow> 'w \<Rightarrow> string \<Rightarrow> bytes option"
    and stat :: "'c \<Rightarrow> string \<Rightarrow> ('w, bool) prog"
    and cat :: "'c \<Rightarrow> string \<Rightarrow> ('w, bytes) prog"
    and put :: "'c \<Rightarrow> string \<Rightarrow> bytes \<Rightarrow> ('w, unit) prog"
    and del :: "'c \<Rightarrow> string \<Rightarrow> ('w, unit) prog"
  assumes stat_view: "ok c \<Longrightarrow> stat c k w = (r, w') \<Longrightarrow> view c w' = view c w"
    and stat_true: "ok c \<Longrightarrow> stat c k w = (Ret True, w') \<Longrightarrow> view c w k \<noteq> None"
    and stat_returns: "ok c \<Longrightarrow> \<exists>b w'. stat c k w = (Ret b, w')"
    and cat_view: "ok c \<Longrightarrow> cat c k w = (rb, w') \<Longrightarrow> view c w' = view c w"
    and cat_ret: "ok c \<Longrightarrow> cat c k w = (Ret d, w') \<Longrightarrow> view c w k = Some d"
    and put_ret: "ok c \<Longrightarrow> put c k d w = (Ret u, w') \<Longrightarrow> view c w' = (view c w)(k \<mapsto> d)"
    and put_view: "ok c \<Longrightarrow> put c k d w = (ru, w') \<Longrightarrow>
      view c w' = view c w \<or> view c w' = (view c w)(k \<mapsto> d)"
    and del_ret: "ok c \<Longrightarrow> del c k w = (Ret u, w') \<Longrightarrow> view c w' = (view c w)(k := None)"
    and del_view: "ok c \<Longrightarrow> del c k w = (ru, w') \<Longrightarrow>
      view c w' = view c w \<or> view c w' = (view c w)(k := None)"
begin

text \<open>A sequence of deletions that returns has removed exactly its keys.\<close>

lemma del_all_ret:
  "ok c \<Longrightarrow> forM ks (del c) w = (Ret u, w') \<Longrightarrow>
    view c w' k = (if k \<in> set ks then None else view c w k)"
proof (induction ks arbitrary: w)
  case Nil
  then show ?case by (simp add: outcome_simps)
next
  case (Cons a ks)
  then obtain w1 where "del c a w = (Ret (), w1)" "forM ks (del c) w1 = (Ret u, w')"
    by (auto simp: bindM_Ret_iff)
  with Cons show ?case by (auto dest: del_ret)
qed

text \<open>Whatever its outcome, it touches no other key and adds none.\<close>

lemma del_all_view:
  "ok c \<Longrightarrow> forM ks (del c) w = (r, w') \<Longrightarrow>
    view c w' k = view c w k \<or> k \<in> set ks \<and> view c w' k = None"
proof (induction ks arbitrary: w)
  case Nil
  then show ?case by (simp add: outcome_simps)
next
  case (Cons a ks)
  obtain o1 w1 where d: "del c a w = (o1, w1)" by fastforce
  then have v: "view c w1 k = view c w k \<or> k = a \<and> view c w1 k = None"
    using del_view [OF Cons.prems(1) d] by (cases "k = a") auto
  show ?case
  proof (cases "\<exists>u. o1 = Ret u")
    case True
    with Cons.prems(2) d have "forM ks (del c) w1 = (r, w')" by (auto simp: bindM_def)
    from Cons.IH [OF Cons.prems(1) this] v show ?thesis by (auto split: if_splits)
  next
    case False
    with Cons.prems(2) d have "w' = w1" by (auto simp: bindM_def split: outcome.splits)
    with v show ?thesis by auto
  qed
qed

text \<open>
  The upload step of the writers: nothing if the key is there, a put otherwise. When it
  returns, the key is stored; it writes no other key and never the key itself when present.
\<close>

lemma put_absent_view:
  assumes "ok c" and "bindM (stat c k) (\<lambda>b. if b then ret () else put c k d) w = (r, w')"
  shows "view c w' = view c w \<or> view c w' = (view c w)(k \<mapsto> d)"
proof -
  obtain b w1 where s: "stat c k w = (Ret b, w1)" using stat_returns assms(1) by blast
  then have "view c w1 = view c w" by (rule stat_view [OF assms(1)])
  with s assms show ?thesis
    by (cases b) (auto simp: bindM_def ret_def dest: put_view)
qed

lemma put_absent_ret:
  assumes "ok c" and "bindM (stat c k) (\<lambda>b. if b then ret () else put c k d) w = (Ret u, w')"
  shows "view c w' k \<noteq> None"
proof -
  obtain b w1 where s: "stat c k w = (Ret b, w1)" using stat_returns assms(1) by blast
  show ?thesis
  proof (cases b)
    case True
    with s stat_true [OF assms(1), of k w w1] have "view c w k \<noteq> None" by simp
    with put_absent_view [OF assms] show ?thesis by auto
  next
    case False
    with s assms have "put c k d w1 = (Ret u, w')" by (simp add: bindM_def)
    with assms(1) show ?thesis by (auto dest: put_ret)
  qed
qed

end

text \<open>The Storage operations honour the contract whenever the service honours its laws.\<close>

type_synonym 's store = "Config \<times> 's s3api \<times> 's view"

fun store_ok :: "'s store \<Rightarrow> bool" where
  "store_ok (cfg, cli, objs) = s3_laws cli objs"

fun stored :: "'s store \<Rightarrow> ('s, 'z) world_scheme \<Rightarrow> string \<Rightarrow> bytes option" where
  "stored (cfg, cli, objs) w = objs (w_s3 w) (S3Bucket cfg)"

fun store_stat :: "'s store \<Rightarrow> string \<Rightarrow> (('s, 'z) world_scheme, bool) prog" where
  "store_stat (cfg, cli, objs) = Stat cfg cli"

fun store_cat :: "'s store \<Rightarrow> string \<Rightarrow> (('s, 'z) world_scheme, bytes) prog" where
  "store_cat (cfg, cli, objs) = Cat cfg cli"

fun store_put :: "'s store \<Rightarrow> string \<Rightarrow> bytes \<Rightarrow> (('s, 'z) world_scheme, unit) prog" where
  "store_put (cfg, cli, objs) = PutBytes cfg cli"

fun store_del :: "'s store \<Rightarrow> string \<Rightarrow> (('s, 'z) world_scheme, unit) prog" where
  "store_del (cfg, cli, objs) = Delete cfg cli"

lemma Stat_law:
  assumes "s3_laws cli objs" and "Stat cfg cli k w = (r, w')"
  shows "objs (w_s3 w') = objs (w_s3 w)
    \<and> (r = Ret True \<longrightarrow> objs (w_s3 w) (S3Bucket cfg) k \<noteq> None) \<and> (\<exists>b. r = Ret b)"
proof -
  obtain err s' where h: "HeadObject cli (S3Bucket cfg) k (w_s3 w) = (err, s')" by fastforce
  with assms have "objs s' = objs (w_s3 w) \<and> (err = None \<longrightarrow> objs (w_s3 w) (S3Bucket cfg) k \<noteq> None)"
    unfolding s3_laws_def head_law_def by metis
  with h assms(2) show ?thesis by (auto simp: Stat_def bindM_def call_def ret_def)
qed

lemma Cat_law:
  assumes "s3_laws cli objs" and "Cat cfg cli k w = (r, w')"
  shows "objs (w_s3 w') = objs (w_s3 w)
    \<and> (\<forall>d. r = Ret d \<longrightarrow> objs (w_s3 w) (S3Bucket cfg) k = Some d)"
proof -
  obtain g s' where h: "GetObject cli (S3Bucket cfg) k (w_s3 w) = (g, s')" by fastforce
  with assms have "objs s' = objs (w_s3 w)
      \<and> (\<forall>d. g = Inr (d, None) \<longrightarrow> objs (w_s3 w) (S3Bucket cfg) k = Some d)"
    unfolding s3_laws_def get_law_def by metis
  with h assms(2) show ?thesis
    by (auto simp: Cat_def bindM_def call_def outcome_simps Throw2_def Throw_def
        split: sum.splits option.splits)
qed

lemma PutBytes_law:
  assumes "s3_laws cli objs" and "PutBytes cfg cli k d w = (r, w')"
  shows "objs (w_s3 w') = upd2 (objs (w_s3 w)) (S3Bucket cfg) k (Some d)
    \<or> (\<forall>u. r \<noteq> Ret u) \<and> objs (w_s3 w') = objs (w_s3 w)"
proof -
  obtain err s' where h: "PutObject cli (S3Bucket cfg) k d (w_s3 w) = (err, s')" by fastforce
  with assms have "objs s' = upd2 (objs (w_s3 w)) (S3Bucket cfg) k (Some d)
      \<or> err \<noteq> None \<and> objs s' = objs (w_s3 w)"
    unfolding s3_laws_def put_law_def by metis
  with h assms(2) show ?thesis
    by (auto simp: PutBytes_def bindM_def call_def outcome_simps split: option.splits)
qed

lemma Delete_law:
  assumes "s3_laws cli objs" and "Delete cfg cli k w = (r, w')"
  shows "objs (w_s3 w') = upd2 (objs (w_s3 w)) (S3Bucket cfg) k None
    \<or> (\<forall>u. r \<noteq> Ret u) \<and> objs (w_s3 w') = objs (w_s3 w)"
proof -
  obtain err s' where h: "DeleteObject cli (S3Bucket cfg) k (w_s3 w) = (err, s')" by fastforce
  with assms have "objs s' = upd2 (objs (w_s3 w)) (S3Bucket cfg) k None
      \<or> err \<noteq> None \<and> objs s' = objs (w_s3 w)"
    unfolding s3_laws_def delete_law_def by metis
  with h assms(2) show ?thesis
    by (auto simp: Delete_def bindM_def call_def outcome_simps split: option.splits)
qed

interpretation st: blob_store store_ok stored store_stat store_cat store_put store_del
proof (unfold_locales, goal_cases)
  case (1 c k w r w')
  then show ?case by (cases c) (auto dest: Stat_law)
next
  case (2 c k w w')
  then show ?case by (cases c) (auto dest: Stat_law)
next
  case (3 c k w)
  then show ?case
    by (cases c; cases "store_stat c k w") (use Stat_law in fastforce)
next
  case (4 c k w r w')
  then show ?case by (cases c) (auto dest: Cat_law)
next
  case (5 c k w d w')
  then show ?case by (cases c) (auto dest: Cat_law)
next
  case (6 c k d w u w')
  then show ?case by (cases c) (auto dest!: PutBytes_law simp: upd2_def)
next
  case (7 c k d w r w')
  then show ?case by (cases c) (auto dest!: PutBytes_law simp: upd2_def)
next
  case (8 c k w u w')
  then show ?case by (cases c) (auto dest!: Delete_law simp: upd2_def)
next
  case (9 c k w r w')
  then show ?case by (cases c) (auto dest!: Delete_law simp: upd2_def)
qed

section \<open>Listings\<close>

lemma list_pages_state: "list_pages pfx acc pages w = (r, w') \<Longrightarrow> w' = w"
  by (induction pfx acc pages rule: list_pages.induct)
    (auto simp: outcome_simps split: if_splits)

lemma list_pages_sub:
  "list_pages pfx acc pages w = (Ret ks, w') \<Longrightarrow> k \<in> set ks \<Longrightarrow>
    k \<in> set acc \<or> (\<exists>c. Inr c \<in> set pages \<and> k \<in> set c)"
  by (induction pfx acc pages rule: list_pages.induct)
    (auto simp: outcome_simps split: if_splits)

lemma list_pages_all:
  "(\<forall>pg\<in>set pages. \<exists>ks. pg = Inr ks) \<Longrightarrow>
    \<exists>ks. list_pages pfx acc pages w = (Ret ks, w) \<and>
      set ks = set acc \<union> {k. \<exists>c. Inr c \<in> set pages \<and> k \<in> set c}"
proof (induction pfx acc pages rule: list_pages.induct)
  case (3 pfx acc c pages)
  then obtain ks where "list_pages pfx (acc @ c) pages w = (Ret ks, w)"
    "set ks = set (acc @ c) \<union> {k. \<exists>c. Inr c \<in> set pages \<and> k \<in> set c}" by auto
  then show ?case by auto
qed (auto simp: outcome_simps)

lemma list_lawD:
  assumes "s3_laws cli objs" and "ListPages cli b p s = (pages, s')"
  shows "objs s' = objs s"
    and "Inr ks \<in> set pages \<Longrightarrow> k \<in> set ks \<Longrightarrow> prefix p k \<and> objs s b k \<noteq> None"
    and "\<forall>pg\<in>set pages. \<exists>ks. pg = Inr ks \<Longrightarrow> prefix p k \<Longrightarrow> objs s b k \<noteq> None \<Longrightarrow>
      \<exists>ks. Inr ks \<in> set pages \<and> k \<in> set ks"
  using assms unfolding s3_laws_def list_law_def by metis+

lemma List_law:
  assumes "s3_laws cli objs" and "List cfg cli p w = (r, w')"
  shows "objs (w_s3 w') = objs (w_s3 w)"
    and "r = Ret ks \<Longrightarrow> k \<in> set ks \<Longrightarrow> prefix p k \<and> objs (w_s3 w) (S3Bucket cfg) k \<noteq> None"
proof -
  obtain pages s' where h: "ListPages cli (S3Bucket cfg) p (w_s3 w) = (pages, s')" by fastforce
  with assms(2) have l: "list_pages p [] pages (w\<lparr>w_s3 := s'\<rparr>) = (r, w')"
    by (simp add: List_def bindM_def call_def)
  from list_pages_state [OF this] list_lawD(1) [OF assms(1) h]
  show "objs (w_s3 w') = objs (w_s3 w)" by simp
  assume "r = Ret ks" "k \<in> set ks"
  with l list_pages_sub obtain c where "Inr c \<in> set pages" "k \<in> set c" by fastforce
  then show "prefix p k \<and> objs (w_s3 w) (S3Bucket cfg) k \<noteq> None"
    by (rule list_lawD(2) [OF assms(1) h])
qed

section \<open>A service that is up\<close>

lemma s3_upD:
  assumes "s3_up cli objs up" and "up s"
  shows "up (snd (HeadObject cli b k s))"
    and "objs s b k \<noteq> None \<Longrightarrow> fst (HeadObject cli b k s) = None"
    and "up (snd (GetObject cli b k s))"
    and "objs s b k = Some d \<Longrightarrow> fst (GetObject cli b k s) = Inr (d, None)"
    and "up (snd (PutObject cli b k d s))" and "fst (PutObject cli b k d s) = None"
    and "up (snd (DeleteObject cli b k s))" and "fst (DeleteObject cli b k s) = None"
    and "up (snd (ListPages cli b p s))"
    and "\<forall>pg\<in>set (fst (ListPages cli b p s)). \<exists>ks. pg = Inr ks"
  using assms unfolding s3_up_def by simp_all

lemma Cat_keeps_up:
  assumes "s3_up cli objs up" and "up (w_s3 w)" and "Cat cfg cli k w = (r, w')"
  shows "up (w_s3 w')"
proof -
  have "up (snd (GetObject cli (S3Bucket cfg) k (w_s3 w)))" by (rule s3_upD(3) [OF assms(1,2)])
  with assms(3) show ?thesis
    by (auto simp: Cat_def bindM_def call_def outcome_simps Throw2_def Throw_def
        split: sum.splits option.splits prod.splits)
qed

lemma Cat_up:
  assumes "s3_up cli objs up" and "up (w_s3 w)" and "objs (w_s3 w) (S3Bucket cfg) k = Some d"
  shows "\<exists>s'. Cat cfg cli k w = (Ret d, w\<lparr>w_s3 := s'\<rparr>) \<and> up s'"
proof -
  obtain g s' where h: "GetObject cli (S3Bucket cfg) k (w_s3 w) = (g, s')" by fastforce
  with s3_upD(3,4) [OF assms(1,2), of "S3Bucket cfg" k] assms(3)
  have "g = Inr (d, None)" "up s'" by simp_all
  with h have "Cat cfg cli k w = (Ret d, w\<lparr>w_s3 := s'\<rparr>)"
    by (simp add: Cat_def bindM_def call_def outcome_simps)
  with \<open>up s'\<close> show ?thesis by blast
qed

lemma PutBytes_up:
  assumes "s3_up cli objs up" and "up (w_s3 w)"
  shows "\<exists>s'. PutBytes cfg cli k d w = (Ret (), w\<lparr>w_s3 := s', w_puts := w_puts w + 1\<rparr>) \<and> up s'"
proof -
  obtain e s' where h: "PutObject cli (S3Bucket cfg) k d (w_s3 w) = (e, s')" by fastforce
  with s3_upD(5,6) [OF assms, of "S3Bucket cfg" k d] have "e = None" "up s'" by simp_all
  with h have "PutBytes cfg cli k d w = (Ret (), w\<lparr>w_s3 := s', w_puts := w_puts w + 1\<rparr>)"
    by (simp add: PutBytes_def bindM_def call_def outcome_simps)
  with \<open>up s'\<close> show ?thesis by blast
qed

lemma Delete_up:
  assumes "s3_up cli objs up" and "up (w_s3 w)"
  shows "\<exists>s'. Delete cfg cli k w = (Ret (), w\<lparr>w_s3 := s'\<rparr>) \<and> up s'"
proof -
  obtain e s' where h: "DeleteObject cli (S3Bucket cfg) k (w_s3 w) = (e, s')" by fastforce
  with s3_upD(7,8) [OF assms, of "S3Bucket cfg" k] have "e = None" "up s'" by simp_all
  with h have "Delete cfg cli k w = (Ret (), w\<lparr>w_s3 := s'\<rparr>)"
    by (simp add: Delete_def bindM_def call_def outcome_simps)
  with \<open>up s'\<close> show ?thesis by blast
qed

lemma Stat_up:
  assumes "s3_up cli objs up" and "up (w_s3 w)"
  shows "\<exists>b s'. Stat cfg cli k w = (Ret b, w\<lparr>w_s3 := s'\<rparr>) \<and> up s'
    \<and> (objs (w_s3 w) (S3Bucket cfg) k \<noteq> None \<longrightarrow> b)"
proof -
  obtain e s' where h: "HeadObject cli (S3Bucket cfg) k (w_s3 w) = (e, s')" by fastforce
  with s3_upD(1,2) [OF assms, of "S3Bucket cfg" k]
  have "objs (w_s3 w) (S3Bucket cfg) k \<noteq> None \<longrightarrow> e = None" "up s'" by simp_all
  moreover from h have "Stat cfg cli k w = (Ret (e = None), w\<lparr>w_s3 := s'\<rparr>)"
    by (simp add: Stat_def bindM_def call_def outcome_simps)
  ultimately show ?thesis by blast
qed

lemma List_up:
  assumes "s3_up cli objs up" and "s3_laws cli objs" and "up (w_s3 w)"
  shows "\<exists>ks s'. List cfg cli p w = (Ret ks, w\<lparr>w_s3 := s'\<rparr>) \<and> up s'
    \<and> set ks = {k. prefix p k \<and> objs (w_s3 w) (S3Bucket cfg) k \<noteq> None}"
proof -
  obtain pages s' where h: "ListPages cli (S3Bucket cfg) p (w_s3 w) = (pages, s')" by fastforce
  with s3_upD(9,10) [OF assms(1,3), of "S3Bucket cfg" p]
  have up: "up s'" "\<forall>pg\<in>set pages. \<exists>ks. pg = Inr ks" by simp_all
  from list_pages_all [OF up(2), of p "[]" "w\<lparr>w_s3 := s'\<rparr>"] obtain ks where
    l: "list_pages p [] pages (w\<lparr>w_s3 := s'\<rparr>) = (Ret ks, w\<lparr>w_s3 := s'\<rparr>)"
      "set ks = {k. \<exists>c. Inr c \<in> set pages \<and> k \<in> set c}" by auto
  moreover have "set ks = {k. prefix p k \<and> objs (w_s3 w) (S3Bucket cfg) k \<noteq> None}"
    using list_lawD(2) [OF assms(2) h] list_lawD(3) [OF assms(2) h up(2)] l(2) by blast
  ultimately show ?thesis using h up(1) by (auto simp: List_def bindM_def call_def)
qed

section \<open>What an operation leaves alone\<close>

lemma Cat_frame: "Cat cfg cli k w = (r, w') \<Longrightarrow> \<exists>s'. w' = w\<lparr>w_s3 := s'\<rparr>"
  by (auto simp: Cat_def bindM_def call_def outcome_simps Throw2_def Throw_def
      split: sum.splits option.splits prod.splits)

lemma Stat_frame: "Stat cfg cli k w = (r, w') \<Longrightarrow> \<exists>s'. w' = w\<lparr>w_s3 := s'\<rparr>"
  by (auto simp: Stat_def bindM_def call_def outcome_simps split: prod.splits)

lemma Delete_frame: "Delete cfg cli k w = (r, w') \<Longrightarrow> \<exists>s'. w' = w\<lparr>w_s3 := s'\<rparr>"
  by (auto simp: Delete_def bindM_def call_def outcome_simps split: option.splits prod.splits)

lemma List_frame: "List cfg cli p w = (r, w') \<Longrightarrow> \<exists>s'. w' = w\<lparr>w_s3 := s'\<rparr>"
  by (auto simp: List_def bindM_def call_def split: prod.splits dest!: list_pages_state)

text \<open>\<open>Puts\<close> counts exactly the puts reported as successful.\<close>

lemma PutBytes_counts:
  "PutBytes cfg cli k d w = (r, w') \<Longrightarrow> w_puts w' = w_puts w + (if r = Ret () then 1 else 0)"
  by (auto simp: PutBytes_def bindM_def call_def outcome_simps split: option.splits prod.splits)

text \<open>No operation of the store raises anything but an exception of \<^verbatim>\<open>throw.go\<close>.\<close>

lemma Cat_outcome: "Cat cfg cli k w = (r, w') \<Longrightarrow> (\<exists>d. r = Ret d) \<or> (\<exists>e. r = Panicked (PException e))"
  by (auto simp: Cat_def bindM_def call_def outcome_simps Throw2_def Throw_def
      split: sum.splits option.splits prod.splits)

lemma list_pages_outcome:
  "list_pages p acc pages w = (r, w') \<Longrightarrow> (\<exists>d. r = Ret d) \<or> (\<exists>e. r = Panicked (PException e))"
  by (induction p acc pages rule: list_pages.induct) (auto simp: outcome_simps split: if_splits)

lemma List_outcome: "List cfg cli p w = (r, w') \<Longrightarrow> (\<exists>d. r = Ret d) \<or> (\<exists>e. r = Panicked (PException e))"
  by (auto simp: List_def bindM_def call_def split: prod.splits dest!: list_pages_outcome)

section \<open>Listing and streaming\<close>

text \<open>
  The two listings agree on a complete answer and part ways on errors. On a listing
  whose pages all arrive, both give the same keys in the same order. When a page fails with a
  not-found error, \<open>List\<close> drops the keys of the pages before it and \<open>ListStream\<close> delivers
  them; when it fails otherwise, \<open>List\<close> throws, and \<open>ListStream\<close> delivers the keys and
  then ends with a panic in its own goroutine, outside the caller.
\<close>

theorem List_vs_ListStream:
  assumes "ListPages cli (S3Bucket cfg) p (w_s3 w) = (map Inr kss @ err, s')"
  shows "case err of
      [] \<Rightarrow> List cfg cli p w = (Ret (concat kss), w\<lparr>w_s3 := s'\<rparr>)
        \<and> ListStream cfg cli p w = (Ret (concat kss, None), w\<lparr>w_s3 := s'\<rparr>)
    | Inr ks # rest \<Rightarrow> True
    | Inl e # rest \<Rightarrow>
        if isNotFound e then List cfg cli p w = (Ret [], w\<lparr>w_s3 := s'\<rparr>)
          \<and> ListStream cfg cli p w = (Ret (concat kss, None), w\<lparr>w_s3 := s'\<rparr>)
        else \<exists>x. List cfg cli p w = (Panicked (PException x), w\<lparr>w_s3 := s'\<rparr>)
          \<and> ListStream cfg cli p w = (Ret (concat kss, Some x), w\<lparr>w_s3 := s'\<rparr>)"
proof -
  have l: "list_pages p acc (map Inr kss @ err) v = list_pages p (acc @ concat kss) err v" for acc err and v :: "('a, 'b) world_scheme"
    by (induction kss arbitrary: acc) simp_all
  have st: "stream_pages p (map Inr kss @ err) = (concat kss @ fst (stream_pages p err), snd (stream_pages p err))" for err
    by (induction kss) (simp_all split: prod.split)
  from assms have "List cfg cli p w = list_pages p (concat kss) err (w\<lparr>w_s3 := s'\<rparr>)"
    "ListStream cfg cli p w = (Ret (concat kss @ fst (stream_pages p err), snd (stream_pages p err)), w\<lparr>w_s3 := s'\<rparr>)"
    by (simp_all add: List_def ListStream_def bindM_def call_def l st ret_run)
  then show ?thesis
    by (cases err; cases "hd err") (simp_all add: outcome_simps Fmt_def New_def)
qed

text \<open>A service that loses the bucket after the first page of a listing.\<close>

definition lossy_s3 :: "unit s3api" where
  "lossy_s3 = \<lparr>HeadObject = (\<lambda>b k s. (None, s)), PutObject = (\<lambda>b k d s. (None, s)),
     GetObject = (\<lambda>b k s. (Inl EOF, s)), DeleteObject = (\<lambda>b k s. (None, s)),
     ListPages = (\<lambda>b p s. ([Inr [''k1'', ''k2''], Inl (AwsError [NoSuchBucketErr])], s))\<rparr>"

theorem List_vs_ListStream_witness:
  "let cfg = loadCommon (\<lambda>_. ''''); w = \<lparr>w_s3 = (), w_puts = 0\<rparr> in
    List cfg lossy_s3 ''k'' w = (Ret [], w) \<and> ListStream cfg lossy_s3 ''k'' w = (Ret ([''k1'', ''k2''], None), w)"
proof -
  let ?cfg = "loadCommon (\<lambda>_. '''')" and ?w = "\<lparr>w_s3 = (), w_puts = 0\<rparr> :: unit world"
  have "ListPages lossy_s3 (S3Bucket ?cfg) ''k'' (w_s3 ?w)
      = (map Inr [[''k1'', ''k2'']] @ [Inl (AwsError [NoSuchBucketErr])], ())"
    by (simp add: lossy_s3_def)
  from List_vs_ListStream [OF this] show ?thesis by (simp add: isNotFound_def Let_def)
qed

end
