(* ===== verification/Metainfo.thy ===== *)
theory Metainfo
  imports Storage
begin

text \<open>
  The interface of the \<^verbatim>\<open>metainfo\<close> and \<^verbatim>\<open>bencode\<close> packages of
  \<^verbatim>\<open>anacrolix/torrent\<close>, which are not in the repository: their struct types with the
  fields the code reads or writes, and the calls the code makes as the record \<open>metalib\<close>,
  a parameter of every definition that parses or builds a \<open>.torrent\<close> file. Fields the code
  never looks at are one opaque value.
\<close>

section \<open>The parser's types and its interface\<close>

record fileInfo =
  fi_Path :: "string list"
  fi_Length :: int

record Info =
  info_Name :: string
  info_PieceLength :: int
  info_Pieces :: bytes
  info_Length :: int
  info_Files :: "fileInfo list"
  info_Other :: bytes

record MetaInfo =
  mi_InfoBytes :: bytes
  mi_Other :: bytes

text \<open>
  \<open>V1Hash info i\<close> is \<open>info.Piece(i).V1Hash()\<close>: there is none in a pure v2 torrent.
  \<open>HashInfoBytes\<close> is the 20-byte infohash.
\<close>

record metalib =
  Load :: "bytes \<Rightarrow> goerr + MetaInfo"
  UnmarshalInfo :: "MetaInfo \<Rightarrow> goerr + Info"
  HashInfoBytes :: "MetaInfo \<Rightarrow> bytes"
  TotalLength :: "Info \<Rightarrow> int"
  NumPieces :: "Info \<Rightarrow> int"
  V1Hash :: "Info \<Rightarrow> int \<Rightarrow> bytes option"
  Marshal :: "Info \<Rightarrow> goerr + bytes"
  Write :: "MetaInfo \<Rightarrow> goerr + bytes"

section \<open>What the parser promises\<close>

text \<open>\<open>TotalLength\<close> is the sum of the file lengths (a single file has its own field).\<close>

definition total_law :: "metalib \<Rightarrow> bool" where
  "total_law lib \<longleftrightarrow> (\<forall>info. TotalLength lib info =
     (if info_Files info = [] then info_Length info
      else sum_list (map fi_Length (info_Files info))))"

text \<open>Lengths that make sense: none negative, and a total that an \<open>int64\<close> holds.\<close>

definition sane_lengths :: "Info \<Rightarrow> bool" where
  "sane_lengths info \<longleftrightarrow> 0 \<le> info_Length info \<and> info_Length info < 2 ^ 63
     \<and> (\<forall>f\<in>set (info_Files info). 0 \<le> fi_Length f)
     \<and> sum_list (map fi_Length (info_Files info)) < 2 ^ 63"

end
