(* ===== verification/Testbed.thy ===== *)
theory Testbed
  imports Metainfo
begin

text \<open>
  An in-memory object service with a schedule of failures: the concrete service at which
  the witnesses evaluate the properties. Its state is an association list of objects and a
  list of booleans, one per coming call: \<open>True\<close> makes that call fail and leaves the
  objects alone, and once the schedule is used up every call succeeds. It satisfies the
  laws the code relies on, and it is up when no failure is scheduled.
\<close>

type_synonym mem = "((string \<times> string) \<times> bytes) list \<times> bool list"

definition mem_fails :: "mem \<Rightarrow> bool" where
  "mem_fails m = (snd m \<noteq> [] \<and> hd (snd m))"

definition mem_tick :: "mem \<Rightarrow> mem" where
  "mem_tick m = (fst m, tl (snd m))"

definition slow_down :: goerr where
  "slow_down = AwsError [OtherErr ''operation error S3'', APIErr ''SlowDown'']"

definition mem_s3 :: "mem s3api" where
  "mem_s3 = \<lparr>
     HeadObject = (\<lambda>b k m.
       (if mem_fails m then Some slow_down
        else if map_of (fst m) (b, k) = None then Some (AwsError [NotFoundErr]) else None,
        mem_tick m)),
     PutObject = (\<lambda>b k d m.
       if mem_fails m then (Some slow_down, mem_tick m)
       else (None, (((b, k), d) # fst m, tl (snd m)))),
     GetObject = (\<lambda>b k m.
       (if mem_fails m then Inl slow_down
        else (case map_of (fst m) (b, k) of
            None \<Rightarrow> Inl (AwsError [NoSuchKeyErr])
          | Some d \<Rightarrow> Inr (d, None)),
        mem_tick m)),
     DeleteObject = (\<lambda>b k m.
       if mem_fails m then (Some slow_down, mem_tick m)
       else (None, (filter (\<lambda>(bk, d). bk \<noteq> (b, k)) (fst m), tl (snd m)))),
     ListPages = (\<lambda>b p m.
       ([if mem_fails m then Inl slow_down
         else Inr (remdups (map (snd \<circ> fst)
           (filter (\<lambda>((b', k), d). b' = b \<and> strings_HasPrefix k p) (fst m))))],
        mem_tick m))\<rparr>"

definition mem_view :: "mem view" where
  "mem_view m b k = map_of (fst m) (b, k)"

definition mem_up :: "mem \<Rightarrow> bool" where
  "mem_up m \<longleftrightarrow> snd m = []"

lemma map_of_filter_neq:
  "map_of (filter (\<lambda>(x, d). x \<noteq> a) xs) = (map_of xs)(a := None)"
  by (rule ext, induction xs) auto

lemma map_of_pair_Some: "map_of xs k \<noteq> None \<longleftrightarrow> (\<exists>d. (k, d) \<in> set xs)"
  by (metis domIff dom_map_of_conv_image_fst image_iff fst_conv prod.collapse)

lemma mem_head_law: "head_law mem_s3 mem_view"
  by (auto simp: head_law_def mem_s3_def mem_view_def mem_tick_def fun_eq_iff split: if_splits)

lemma mem_get_law: "get_law mem_s3 mem_view"
  by (auto simp: get_law_def mem_s3_def mem_view_def mem_tick_def fun_eq_iff
      split: if_splits option.splits)

lemma mem_put_law: "put_law mem_s3 mem_view"
  by (auto simp: put_law_def mem_s3_def mem_view_def mem_tick_def upd2_def fun_eq_iff
      split: if_splits)

lemma mem_delete_law: "delete_law mem_s3 mem_view"
  by (auto simp: delete_law_def mem_s3_def mem_view_def mem_tick_def upd2_def fun_eq_iff
      map_of_filter_neq split: if_splits)

lemma mem_list_law: "list_law mem_s3 mem_view"
  by (auto simp: list_law_def mem_s3_def mem_view_def mem_tick_def fun_eq_iff HasPrefix_iff
      split: if_splits intro!: image_eqI dest: weak_map_of_SomeI map_of_SomeD)

theorem mem_laws: "s3_laws mem_s3 mem_view"
  by (simp add: s3_laws_def mem_head_law mem_get_law mem_put_law mem_delete_law mem_list_law)

theorem mem_is_up: "s3_up mem_s3 mem_view mem_up"
  by (auto simp: s3_up_def mem_s3_def mem_view_def mem_up_def mem_fails_def mem_tick_def)

text \<open>A configuration for the witnesses.\<close>

definition cfg0 :: Config where
  "cfg0 = (loadCommon (\<lambda>_. ''''))
     \<lparr>AWSKey := ''k'', AWSSecret := ''s'', S3Endpt := ''http://m'', S3Bucket := ''b'', S3Root := ''t''\<rparr>"

lemma cfg0_simps [simp]:
  "S3Bucket cfg0 = ''b''" "S3Root cfg0 = ''t''" "PrefetchDistance cfg0 = 32" "UpSem cfg0 = 128"
  "LRUSize cfg0 = 1000" "InflightPieces cfg0 = 1000" "User cfg0 = ''''" "Pass cfg0 = ''''"
  "AuthKeys cfg0 = ''''"
  by (simp_all add: cfg0_def loadCommon_def)

section \<open>A small torrent format\<close>

text \<open>
  A concrete \<open>metalib\<close> for the witnesses. A torrent is the length of its name and the
  name, the piece length, the number of files, one byte per file length, and 20 bytes per
  piece hash; one file stands for a single-file torrent. Its infohash is its first 20
  bytes, padded. A torrent named \<open>v\<close> has no v1 hashes.
\<close>

definition pad20 :: "bytes \<Rightarrow> bytes" where
  "pad20 d = take 20 (d @ replicate 20 0)"

definition chars :: "bytes \<Rightarrow> string" where
  "chars bs = map (\<lambda>b. char_of (unat b)) bs"

definition info0 :: "bytes \<Rightarrow> goerr + Info" where
  "info0 d = (case d of
      [] \<Rightarrow> Inl (LibError ''bencode: unexpected EOF'')
    | n # d' \<Rightarrow> (case drop (unat n) d' of
        l # k # rest \<Rightarrow> Inr \<lparr>
          info_Name = chars (take (unat n) d'), info_PieceLength = uint l,
          info_Pieces = drop (unat k) rest,
          info_Length = (if k = 1 then sum_list (map uint (take 1 rest)) else 0),
          info_Files = (if k = 1 then []
            else map (\<lambda>(i, b). \<lparr>fi_Path = [''f'', [char_of (97 + i)]], fi_Length = uint b\<rparr>)
                   (enumerate 0 (take (unat k) rest))),
          info_Other = []\<rparr>
      | _ \<Rightarrow> Inl (LibError ''bencode: unexpected EOF'')))"

definition lib0 :: metalib where
  "lib0 = \<lparr>
     Load = (\<lambda>d. if d = [] then Inl (LibError ''bencode: unexpected EOF'')
       else Inr \<lparr>mi_InfoBytes = d, mi_Other = []\<rparr>),
     UnmarshalInfo = (\<lambda>mi. info0 (mi_InfoBytes mi)),
     HashInfoBytes = (\<lambda>mi. pad20 (mi_InfoBytes mi)),
     TotalLength = (\<lambda>info. if info_Files info = [] then info_Length info
       else sum_list (map fi_Length (info_Files info))),
     NumPieces = (\<lambda>info. int (length (info_Pieces info) div 20)),
     V1Hash = (\<lambda>info i. if info_Name info = ''v'' then None
       else Some (take 20 (drop (20 * nat i) (info_Pieces info)))),
     Marshal = (\<lambda>info. Inr (of_nat (length (info_Name info)) # map (\<lambda>c. of_nat (of_char c)) (info_Name info)
       @ of_int (info_PieceLength info)
       # (if info_Files info = [] then [1, of_int (info_Length info)]
          else of_nat (length (info_Files info)) # map (of_int \<circ> fi_Length) (info_Files info))
       @ info_Pieces info)),
     Write = (\<lambda>mi. Inr (mi_InfoBytes mi))\<rparr>"

lemma lib0_total: "total_law lib0"
  by (simp add: total_law_def lib0_def)

text \<open>A store with one object per entry and no failure scheduled.\<close>

definition mem_of :: "(string \<times> bytes) list \<Rightarrow> mem" where
  "mem_of xs = (map (\<lambda>(k, d). ((''b'', k), d)) xs, [])"

lemma mem_up_mem_of [simp]: "mem_up (mem_of xs)"
  by (simp add: mem_up_def mem_of_def)

end
