(* ===== verification/Cache.thy ===== *)
theory Cache
  imports Prelude
begin

text \<open>
  \<^verbatim>\<open>cache.go\<close>: the LRU piece cache. The code keeps a doubly linked list of
  element pointers and a map from keys to those pointers; the model keeps the same two
  structures over an explicit heap of entries. \<open>lru_wf\<close> says how they agree, and
  \<open>lru_abs\<close> reads the cache as an association list, most recently used first. Each
  operation is shown to refine a one-line operation on that list, and the contract a
  reader of the cache relies on is the locale \<open>piece_cache\<close>, interpreted by this code.

  Each method holds the mutex for its whole body, so a method is one atomic step.
\<close>

section \<open>The structure and its operations\<close>

record lruEntry =
  le_key :: string
  le_val :: bytes

record LRU =
  lru_cap :: int
  lru_ll :: "nat list"
  lru_m :: "string \<rightharpoonup> nat"
  lru_heap :: "nat \<Rightarrow> lruEntry"
  lru_next :: nat

definition newLRU :: "int \<Rightarrow> LRU" where
  "newLRU cap = \<lparr>lru_cap = cap, lru_ll = [], lru_m = Map.empty,
     lru_heap = (\<lambda>_. \<lparr>le_key = '''', le_val = []\<rparr>), lru_next = 0\<rparr>"

text \<open>\<open>container/list\<close>: moving an element that is in the list.\<close>

definition MoveToFront :: "nat \<Rightarrow> nat list \<Rightarrow> nat list" where
  "MoveToFront e ll = (if e \<in> set ll then e # removeAll e ll else ll)"

definition LRU_Get :: "string \<Rightarrow> LRU \<Rightarrow> bytes option \<times> LRU" where
  "LRU_Get key c = (case lru_m c key of
      None \<Rightarrow> (None, c)
    | Some e \<Rightarrow> (Some (le_val (lru_heap c e)), c\<lparr>lru_ll := MoveToFront e (lru_ll c)\<rparr>))"

definition LRU_Put :: "string \<Rightarrow> bytes \<Rightarrow> LRU \<Rightarrow> LRU" where
  "LRU_Put key val c = (case lru_m c key of
      Some e \<Rightarrow>
        c\<lparr>lru_ll := MoveToFront e (lru_ll c),
          lru_heap := (lru_heap c)(e := (lru_heap c e)\<lparr>le_val := val\<rparr>)\<rparr>
    | None \<Rightarrow>
        (let e = lru_next c;
             c = c\<lparr>lru_heap := (lru_heap c)(e := \<lparr>le_key = key, le_val = val\<rparr>),
                   lru_next := e + 1,
                   lru_ll := e # lru_ll c\<rparr>;
             c = c\<lparr>lru_m := (lru_m c)(key \<mapsto> e)\<rparr>
         in if int (length (lru_ll c)) > lru_cap c
            then (if lru_ll c \<noteq> [] then
                    (let e = last (lru_ll c)
                     in c\<lparr>lru_ll := butlast (lru_ll c),
                          lru_m := (lru_m c)(le_key (lru_heap c e) := None)\<rparr>)
                  else c)
            else c))"

section \<open>Invariant and abstraction\<close>

definition lru_wf :: "LRU \<Rightarrow> bool" where
  "lru_wf c \<longleftrightarrow> distinct (lru_ll c)
     \<and> (\<forall>k e. lru_m c k = Some e \<longleftrightarrow> e \<in> set (lru_ll c) \<and> le_key (lru_heap c e) = k)
     \<and> (\<forall>e\<in>set (lru_ll c). e < lru_next c)
     \<and> length (lru_ll c) \<le> nat (lru_cap c)"

definition lru_abs :: "LRU \<Rightarrow> (string \<times> bytes) list" where
  "lru_abs c = map (\<lambda>e. (le_key (lru_heap c e), le_val (lru_heap c e))) (lru_ll c)"

definition lru_lookup :: "LRU \<Rightarrow> string \<Rightarrow> bytes option" where
  "lru_lookup c k = map_option (\<lambda>e. le_val (lru_heap c e)) (lru_m c k)"

text \<open>The specification on association lists, most recently used first.\<close>

definition spec_touch :: "string \<Rightarrow> bytes \<Rightarrow> (string \<times> bytes) list \<Rightarrow> (string \<times> bytes) list" where
  "spec_touch k v xs = (k, v) # filter (\<lambda>(k', _). k' \<noteq> k) xs"

definition spec_get :: "string \<Rightarrow> (string \<times> bytes) list \<Rightarrow> bytes option \<times> (string \<times> bytes) list" where
  "spec_get k xs = (case map_of xs k of
      None \<Rightarrow> (None, xs)
    | Some v \<Rightarrow> (Some v, spec_touch k v xs))"

definition spec_put :: "nat \<Rightarrow> string \<Rightarrow> bytes \<Rightarrow> (string \<times> bytes) list \<Rightarrow> (string \<times> bytes) list" where
  "spec_put cap k v xs = take cap (spec_touch k v xs)"

lemma lru_wfD:
  assumes "lru_wf c"
  shows "distinct (lru_ll c)"
    and "lru_m c k = Some e \<longleftrightarrow> e \<in> set (lru_ll c) \<and> le_key (lru_heap c e) = k"
    and "e \<in> set (lru_ll c) \<Longrightarrow> e < lru_next c"
    and "length (lru_ll c) \<le> nat (lru_cap c)"
  using assms by (auto simp: lru_wf_def)

lemma lru_key_inj:
  assumes "lru_wf c" "a \<in> set (lru_ll c)" "b \<in> set (lru_ll c)"
    and "le_key (lru_heap c a) = le_key (lru_heap c b)"
  shows "a = b"
  using assms lru_wfD(2) [OF assms(1)] by (metis option.inject)

lemma distinct_lru_keys: "lru_wf c \<Longrightarrow> distinct (map fst (lru_abs c))"
  using lru_key_inj by (auto simp: lru_abs_def distinct_map comp_def inj_on_def lru_wf_def)

lemma fst_lru_abs: "fst ` set (lru_abs c) = (\<lambda>e. le_key (lru_heap c e)) ` set (lru_ll c)"
  by (simp add: lru_abs_def image_image)

lemma lru_m_None_iff:
  assumes "lru_wf c"
  shows "lru_m c k = None \<longleftrightarrow> k \<notin> fst ` set (lru_abs c)"
proof
  assume "lru_m c k = None"
  with lru_wfD(2) [OF assms, of k] show "k \<notin> fst ` set (lru_abs c)"
    by (auto simp: fst_lru_abs)
next
  assume "k \<notin> fst ` set (lru_abs c)"
  show "lru_m c k = None"
  proof (rule ccontr)
    assume "lru_m c k \<noteq> None"
    then obtain e where "lru_m c k = Some e" by blast
    then have "e \<in> set (lru_ll c)" "le_key (lru_heap c e) = k"
      by (simp_all add: lru_wfD(2) [OF assms])
    with \<open>k \<notin> fst ` set (lru_abs c)\<close> show False by (auto simp: fst_lru_abs)
  qed
qed

lemma map_of_lru_abs:
  assumes wf: "lru_wf c"
  shows "map_of (lru_abs c) k = lru_lookup c k"
proof (cases "lru_m c k")
  case None
  with wf have "map_of (lru_abs c) k = None" by (simp add: lru_m_None_iff map_of_eq_None_iff)
  with None show ?thesis by (simp add: lru_lookup_def)
next
  case (Some e)
  with wf have "e \<in> set (lru_ll c)" "le_key (lru_heap c e) = k"
    using lru_wfD(2) by auto
  then have "(k, le_val (lru_heap c e)) \<in> set (lru_abs c)"
    by (auto simp: lru_abs_def)
  with Some distinct_lru_keys [OF wf] show ?thesis
    by (simp add: lru_lookup_def map_of_is_SomeI)
qed

lemma filter_removeAll: "filter (\<lambda>x. x \<noteq> e) ll = removeAll e ll"
  by (induction ll) auto

lemma lru_abs_move:
  assumes wf: "lru_wf c" and e: "lru_m c k = Some e"
    and h: "\<forall>x\<in>set (lru_ll c) - {e}. h x = lru_heap c x"
  shows "map (\<lambda>x. (le_key (h x), le_val (h x))) (removeAll e (lru_ll c))
    = filter (\<lambda>(k', _). k' \<noteq> k) (lru_abs c)"
proof -
  from wf e have "\<forall>x\<in>set (lru_ll c). (le_key (lru_heap c x) \<noteq> k) = (x \<noteq> e)"
    using lru_key_inj [OF wf] lru_wfD(2) [OF wf] by metis
  then have "filter (\<lambda>(k', _). k' \<noteq> k) (lru_abs c)
      = map (\<lambda>x. (le_key (lru_heap c x), le_val (lru_heap c x))) (filter (\<lambda>x. x \<noteq> e) (lru_ll c))"
    by (simp add: lru_abs_def filter_map comp_def cong: filter_cong)
  with h show ?thesis by (simp add: filter_removeAll)
qed

section \<open>Get\<close>

lemma lru_wf_Get: "lru_wf c \<Longrightarrow> lru_wf (snd (LRU_Get k c))"
  by (auto simp: LRU_Get_def MoveToFront_def lru_wf_def distinct_removeAll length_removeAll_less_eq
      split: option.splits)
    (metis Suc_leI length_removeAll_less order_trans)+

lemma lru_Get_refines:
  assumes wf: "lru_wf c"
  shows "map_prod id lru_abs (LRU_Get k c) = spec_get k (lru_abs c)"
proof (cases "lru_m c k")
  case None
  with map_of_lru_abs [OF wf] show ?thesis
    by (simp add: LRU_Get_def spec_get_def lru_lookup_def)
next
  case (Some e)
  with wf have e: "e \<in> set (lru_ll c)" "le_key (lru_heap c e) = k" using lru_wfD(2) by auto
  from Some map_of_lru_abs [OF wf] have "map_of (lru_abs c) k = Some (le_val (lru_heap c e))"
    by (simp add: lru_lookup_def)
  with Some e lru_abs_move [OF wf Some, of "lru_heap c"] show ?thesis
    by (simp add: LRU_Get_def spec_get_def spec_touch_def MoveToFront_def lru_abs_def)
qed

section \<open>Put\<close>

text \<open>The state after inserting a new entry, before the overflow test.\<close>

definition lru_pushed :: "string \<Rightarrow> bytes \<Rightarrow> LRU \<Rightarrow> LRU" where
  "lru_pushed key val c = c\<lparr>lru_heap := (lru_heap c)(lru_next c := \<lparr>le_key = key, le_val = val\<rparr>),
     lru_next := lru_next c + 1, lru_ll := lru_next c # lru_ll c,
     lru_m := (lru_m c)(key \<mapsto> lru_next c)\<rparr>"

lemma lru_abs_pushed:
  "lru_wf c \<Longrightarrow> lru_abs (lru_pushed k v c) = (k, v) # lru_abs c"
  by (auto simp: lru_abs_def lru_pushed_def dest: lru_wfD(3))

definition lru_evicted :: "LRU \<Rightarrow> LRU" where
  "lru_evicted c = c\<lparr>lru_ll := butlast (lru_ll c),
     lru_m := (lru_m c)(le_key (lru_heap c (last (lru_ll c))) := None)\<rparr>"

lemma lru_abs_evicted: "lru_abs (lru_evicted c) = butlast (lru_abs c)"
  by (simp add: lru_abs_def lru_evicted_def map_butlast)

lemma LRU_Put_new:
  "lru_m c k = None \<Longrightarrow> LRU_Put k v c =
    (if int (length (lru_ll c)) + 1 > lru_cap c then lru_evicted (lru_pushed k v c)
     else lru_pushed k v c)"
  by (simp add: LRU_Put_def lru_pushed_def lru_evicted_def Let_def add.commute)

text \<open>The invariant without its size bound, which the push breaks for one moment.\<close>

definition lru_links :: "LRU \<Rightarrow> bool" where
  "lru_links c \<longleftrightarrow> distinct (lru_ll c)
     \<and> (\<forall>k e. lru_m c k = Some e \<longleftrightarrow> e \<in> set (lru_ll c) \<and> le_key (lru_heap c e) = k)
     \<and> (\<forall>e\<in>set (lru_ll c). e < lru_next c)"

lemma lru_wf_links: "lru_wf c \<longleftrightarrow> lru_links c \<and> length (lru_ll c) \<le> nat (lru_cap c)"
  by (auto simp: lru_wf_def lru_links_def)

lemma lru_links_pushed:
  assumes "lru_links c" and "lru_m c k = None"
  shows "lru_links (lru_pushed k v c)"
proof -
  have fresh: "lru_next c \<notin> set (lru_ll c)"
    using assms(1) by (auto simp: lru_links_def)
  moreover have "\<forall>e\<in>set (lru_ll c). le_key (lru_heap c e) \<noteq> k"
    using assms by (metis lru_links_def option.distinct(1))
  ultimately show ?thesis
    using assms(1) by (auto simp: lru_links_def lru_pushed_def)
qed

lemma lru_links_evicted:
  assumes "lru_links c" and "lru_ll c \<noteq> []"
  shows "lru_links (lru_evicted c)"
proof -
  let ?z = "last (lru_ll c)"
  have ll: "lru_ll c = butlast (lru_ll c) @ [?z]" using assms(2) by simp
  with assms(1) have d: "?z \<notin> set (butlast (lru_ll c))" "distinct (butlast (lru_ll c))"
    unfolding lru_links_def by (metis distinct_append distinct.simps(2) not_distinct_conv_prefix)+
  have mem: "e \<in> set (lru_ll c) \<longleftrightarrow> e \<in> set (butlast (lru_ll c)) \<or> e = ?z" for e
    by (subst ll) auto
  have m: "lru_m c k = Some e \<longleftrightarrow> e \<in> set (lru_ll c) \<and> le_key (lru_heap c e) = k" for k e
    using assms(1) by (simp add: lru_links_def)
  have "\<forall>e\<in>set (butlast (lru_ll c)). le_key (lru_heap c e) \<noteq> le_key (lru_heap c ?z)"
    using m mem d(1) by (metis option.inject)
  with m mem d assms(1) show ?thesis
    by (auto simp: lru_links_def lru_evicted_def)
qed

lemma LRU_Put_known:
  assumes "lru_wf c" and "lru_m c k = Some e"
  shows "lru_wf (LRU_Put k v c)"
    and "lru_abs (LRU_Put k v c) = spec_touch k v (lru_abs c)"
proof -
  have e: "e \<in> set (lru_ll c)" "le_key (lru_heap c e) = k"
    using assms lru_wfD(2) by auto
  then have len: "Suc (length (removeAll e (lru_ll c))) = length (lru_ll c)"
    using lru_wfD(1) [OF assms(1)] distinct_remove1_removeAll [of "lru_ll c" e]
      length_pos_if_in_set [OF e(1)]
    by (simp add: length_remove1 flip: distinct_remove1_removeAll)
  have put: "LRU_Put k v c = c\<lparr>lru_ll := e # removeAll e (lru_ll c),
      lru_heap := (lru_heap c)(e := (lru_heap c e)\<lparr>le_val := v\<rparr>)\<rparr>"
    using assms(2) e(1) by (simp add: LRU_Put_def MoveToFront_def)
  have "x \<in> insert e (set (removeAll e (lru_ll c))) \<longleftrightarrow> x \<in> set (lru_ll c)" for x
    using e(1) by auto
  then show "lru_wf (LRU_Put k v c)"
    using assms(1) len by (simp add: put lru_wf_def distinct_removeAll)
  from lru_abs_move [OF assms, of "(lru_heap c)(e := (lru_heap c e)\<lparr>le_val := v\<rparr>)"] e assms(2)
  show "lru_abs (LRU_Put k v c) = spec_touch k v (lru_abs c)"
    by (simp add: LRU_Put_def MoveToFront_def spec_touch_def lru_abs_def)
qed

lemma spec_touch_absent: "k \<notin> fst ` set xs \<Longrightarrow> spec_touch k v xs = (k, v) # xs"
  by (auto simp: spec_touch_def filter_id_conv image_iff)

lemma length_lru_abs [simp]: "length (lru_abs c) = length (lru_ll c)"
  by (simp add: lru_abs_def)

lemma length_spec_touch: "k \<in> fst ` set xs \<Longrightarrow> length (spec_touch k v xs) \<le> length xs"
  by (induction xs) (auto simp: spec_touch_def less_Suc_eq_le)

lemma lru_Put_refines:
  assumes wf: "lru_wf c"
  shows "lru_wf (LRU_Put k v c) \<and> lru_abs (LRU_Put k v c) = spec_put (nat (lru_cap c)) k v (lru_abs c)"
proof (cases "lru_m c k")
  case (Some e)
  with lru_m_None_iff [OF wf, of k] have "k \<in> fst ` set (lru_abs c)" by simp
  from length_spec_touch [OF this, of v] lru_wfD(4) [OF wf]
  have "length (spec_touch k v (lru_abs c)) \<le> nat (lru_cap c)" by simp
  with LRU_Put_known [OF wf Some] show ?thesis by (simp add: spec_put_def)
next
  case None
  then have abs: "spec_touch k v (lru_abs c) = (k, v) # lru_abs c"
    using wf by (simp add: spec_touch_absent lru_m_None_iff)
  have links: "lru_links (lru_pushed k v c)"
    using wf None by (simp add: lru_wf_links lru_links_pushed)
  have cap: "lru_cap (lru_pushed k v c) = lru_cap c" "lru_cap (lru_evicted d) = lru_cap d"
    "length (lru_ll (lru_pushed k v c)) = Suc (length (lru_ll c))"
    "length (lru_ll (lru_evicted d)) = length (lru_ll d) - 1" for d
    by (simp_all add: lru_pushed_def lru_evicted_def)
  have len: "length (lru_ll c) \<le> nat (lru_cap c)" using wf by (rule lru_wfD(4))
  show ?thesis
  proof (cases "int (length (lru_ll c)) + 1 > lru_cap c")
    case True
    with len have "length (lru_ll c) = nat (lru_cap c)" by linarith
    moreover have "lru_links (lru_evicted (lru_pushed k v c))"
      using links by (rule lru_links_evicted) (simp add: lru_pushed_def)
    ultimately show ?thesis
      using True None lru_abs_pushed [OF wf]
      by (simp add: LRU_Put_new lru_wf_links cap abs lru_abs_evicted spec_put_def butlast_conv_take
          del: butlast.simps)
  next
    case False
    with None links lru_abs_pushed [OF wf] show ?thesis
      by (simp add: LRU_Put_new lru_wf_links cap abs spec_put_def)
  qed
qed

lemma lru_wf_newLRU [simp]: "lru_wf (newLRU n)"
  by (simp add: lru_wf_def newLRU_def)

lemma lru_abs_newLRU [simp]: "lru_abs (newLRU n) = []"
  by (simp add: lru_abs_def newLRU_def)

lemma lru_cap_Put [simp]: "lru_cap (LRU_Put k v c) = lru_cap c"
  by (simp add: LRU_Put_def Let_def split: option.split)

lemma lru_cap_Get [simp]: "lru_cap (snd (LRU_Get k c)) = lru_cap c"
  by (simp add: LRU_Get_def split: option.split)

lemma lru_cap_newLRU [simp]: "lru_cap (newLRU n) = n"
  by (simp add: newLRU_def)

lemmas lru_wf_Put = lru_Put_refines [THEN conjunct1]
lemmas lru_abs_Put = lru_Put_refines [THEN conjunct2]

section \<open>The contract of a piece cache\<close>

text \<open>
  What a reader relies on. A lookup never changes what is stored; an insertion stores the
  new value if there is room at all, and may drop other entries but never changes one.
\<close>

definition agrees :: "('c \<Rightarrow> 'k \<Rightarrow> 'v option) \<Rightarrow> ('k \<Rightarrow> 'v option) \<Rightarrow> 'c \<Rightarrow> bool" where
  "agrees look f c \<longleftrightarrow> (\<forall>k v. look c k = Some v \<longrightarrow> f k = Some v)"

locale piece_cache =
  fixes get :: "'k \<Rightarrow> 'c \<Rightarrow> 'v option \<times> 'c"
    and put :: "'k \<Rightarrow> 'v \<Rightarrow> 'c \<Rightarrow> 'c"
    and look :: "'c \<Rightarrow> 'k \<Rightarrow> 'v option"
    and ok :: "'c \<Rightarrow> bool"
    and roomy :: "'c \<Rightarrow> bool"
  assumes get_value: "ok c \<Longrightarrow> fst (get k c) = look c k"
    and get_ok: "ok c \<Longrightarrow> ok (snd (get k c))"
    and get_look: "ok c \<Longrightarrow> look (snd (get k c)) = look c"
    and get_roomy: "ok c \<Longrightarrow> roomy (snd (get k c)) = roomy c"
    and put_ok: "ok c \<Longrightarrow> ok (put k v c)"
    and put_look: "ok c \<Longrightarrow> look (put k v c) j = Some x \<Longrightarrow> (j = k \<and> x = v) \<or> look c j = Some x"
    and put_hit: "ok c \<Longrightarrow> roomy c \<Longrightarrow> look (put k v c) k = Some v"
    and put_roomy: "ok c \<Longrightarrow> roomy (put k v c) = roomy c"
begin

text \<open>Coherence with the store behind the cache: no operation of a reader loses it.\<close>

lemma agrees_get: "ok c \<Longrightarrow> agrees look f c \<Longrightarrow> agrees look f (snd (get k c))"
  by (simp add: agrees_def get_look)

lemma agrees_put: "ok c \<Longrightarrow> agrees look f c \<Longrightarrow> f k = Some v \<Longrightarrow> agrees look f (put k v c)"
  using put_look by (fastforce simp: agrees_def)

lemma agrees_hit: "ok c \<Longrightarrow> agrees look f c \<Longrightarrow> fst (get k c) = Some v \<Longrightarrow> f k = Some v"
  by (simp add: agrees_def get_value)

text \<open>Inserting the right value and looking it up: the right value or nothing.\<close>

lemma put_then_get:
  assumes "ok c" and "agrees look f c" and "f k = Some v"
  shows "fst (get k (put k v c)) \<in> {None, Some v}"
    and "roomy c \<Longrightarrow> fst (get k (put k v c)) = Some v"
proof -
  have "agrees look f (put k v c)" by (rule agrees_put [OF assms])
  then show "fst (get k (put k v c)) \<in> {None, Some v}"
    using assms by (cases "fst (get k (put k v c))") (auto dest: agrees_hit [OF put_ok])
  show "roomy c \<Longrightarrow> fst (get k (put k v c)) = Some v"
    using assms(1) by (simp add: get_value put_ok put_hit)
qed

end

lemma map_of_take: "distinct (map fst xs) \<Longrightarrow> map_of (take n xs) k = Some v \<Longrightarrow> map_of xs k = Some v"
  by (meson in_set_takeD map_of_SomeD map_of_is_SomeI)

lemma map_of_spec_touch: "map_of (spec_touch k v xs) j = (if j = k then Some v else map_of xs j)"
  by (induction xs) (auto simp: spec_touch_def)

lemma distinct_spec_touch: "distinct (map fst xs) \<Longrightarrow> distinct (map fst (spec_touch k v xs))"
  by (auto simp: spec_touch_def distinct_map_filter)

text \<open>What a Put leaves of the earlier entries, from the refinement.\<close>

lemma lru_lookup_Put:
  assumes "lru_wf c"
  shows "lru_lookup (LRU_Put k v c) j = Some x \<Longrightarrow> (j = k \<and> x = v) \<or> lru_lookup c j = Some x"
    and "0 < lru_cap c \<Longrightarrow> lru_lookup (LRU_Put k v c) k = Some v"
proof -
  note look = map_of_lru_abs [OF lru_wf_Put [OF assms], symmetric] lru_abs_Put [OF assms]
  note d = distinct_spec_touch [OF distinct_lru_keys [OF assms], of k v]
  show "lru_lookup (LRU_Put k v c) j = Some x \<Longrightarrow> (j = k \<and> x = v) \<or> lru_lookup c j = Some x"
  proof -
    assume "lru_lookup (LRU_Put k v c) j = Some x"
    then have "map_of (spec_touch k v (lru_abs c)) j = Some x"
      by (auto simp: look spec_put_def intro: map_of_take [OF d])
    then show ?thesis
      by (simp add: map_of_spec_touch map_of_lru_abs [OF assms] split: if_splits)
  qed
  show "0 < lru_cap c \<Longrightarrow> lru_lookup (LRU_Put k v c) k = Some v"
    by (cases "nat (lru_cap c)") (auto simp: look spec_put_def spec_touch_def)
qed

lemma lru_Get_value: "fst (LRU_Get k c) = lru_lookup c k"
  by (simp add: LRU_Get_def lru_lookup_def split: option.split)

lemma lru_Get_lookup: "lru_lookup (snd (LRU_Get k c)) = lru_lookup c"
  by (rule ext) (simp add: LRU_Get_def lru_lookup_def split: option.split)

interpretation lru: piece_cache LRU_Get LRU_Put lru_lookup lru_wf "\<lambda>c. 0 < lru_cap c"
  by unfold_locales
    (auto simp: lru_Get_value lru_Get_lookup lru_wf_Get lru_wf_Put dest: lru_lookup_Put)

section \<open>Which entries survive\<close>

lemma take_filter_neq:
  assumes "distinct (map fst xs)"
  shows "take n (filter (\<lambda>(k', _). k' \<noteq> k) (take (Suc n) xs)) = take n (filter (\<lambda>(k', _). k' \<noteq> k) xs)"
  using assms
proof (induction xs arbitrary: n)
  case (Cons x xs)
  show ?case
  proof (cases "fst x = k")
    case True
    with Cons.prems have "k \<notin> fst ` set xs" by simp
    then have "\<forall>y\<in>set xs. case y of (k', _) \<Rightarrow> k' \<noteq> k" by force
    then have "filter (\<lambda>(k', _). k' \<noteq> k) xs = xs" "filter (\<lambda>(k', _). k' \<noteq> k) (take n xs) = take n xs"
      by (auto simp: filter_id_conv dest: in_set_takeD)
    with True show ?thesis by (cases x) simp
  next
    case False
    with Cons show ?thesis by (cases n; cases x) auto
  qed
qed simp

lemma take_spec_touch:
  "distinct (map fst xs) \<Longrightarrow> take n (spec_touch k v (take n xs)) = take n (spec_touch k v xs)"
  by (cases n) (simp_all add: spec_touch_def take_filter_neq)

text \<open>
  After any sequence of insertions the cache holds the last value of each of the most
  recently inserted keys, as many as its capacity allows, most recent first.
\<close>

definition lru_puts :: "(string \<times> bytes) list \<Rightarrow> LRU \<Rightarrow> LRU" where
  "lru_puts kvs c = fold (\<lambda>(k, v). LRU_Put k v) kvs c"

definition most_recent :: "(string \<times> bytes) list \<Rightarrow> (string \<times> bytes) list" where
  "most_recent kvs = fold (\<lambda>(k, v). spec_touch k v) kvs []"

lemma distinct_most_recent: "distinct (map fst (most_recent kvs))"
proof (induction kvs rule: rev_induct)
  case (snoc kv kvs)
  then show ?case by (cases kv) (simp add: most_recent_def distinct_spec_touch)
qed (simp add: most_recent_def)

lemma lru_puts_abs:
  "lru_wf (lru_puts kvs (newLRU n)) \<and> lru_cap (lru_puts kvs (newLRU n)) = n
    \<and> lru_abs (lru_puts kvs (newLRU n)) = take (nat n) (most_recent kvs)"
proof (induction kvs rule: rev_induct)
  case Nil
  then show ?case by (simp add: lru_puts_def most_recent_def)
next
  case (snoc kv kvs)
  obtain k v where kv: "kv = (k, v)" by fastforce
  let ?c = "lru_puts kvs (newLRU n)"
  have step: "lru_puts (kvs @ [kv]) (newLRU n) = LRU_Put k v ?c"
    "most_recent (kvs @ [kv]) = spec_touch k v (most_recent kvs)"
    by (simp_all add: lru_puts_def most_recent_def kv)
  from snoc have wf: "lru_wf ?c" by simp
  with snoc show ?case
    by (simp add: step lru_wf_Put lru_abs_Put spec_put_def take_spec_touch distinct_most_recent)
qed

lemma keys_spec_touch: "fst ` set (spec_touch k v xs) = insert k (fst ` set xs)"
  by (induction xs) (auto simp: spec_touch_def)

lemma set_most_recent: "fst ` set (most_recent kvs) = fst ` set kvs"
proof (induction kvs rule: rev_induct)
  case (snoc kv kvs)
  then show ?case by (cases kv) (simp add: most_recent_def keys_spec_touch)
qed (simp add: most_recent_def)

section \<open>How long an entry lasts\<close>

text \<open>
  What a reader that shares the cache needs besides: an entry just used or inserted stays while fewer others
  than there is room for are used or inserted after it. \<open>lasts n k c\<close> says that \<open>k\<close> survives \<open>n\<close> more of them.
\<close>

locale lasting_cache = piece_cache +
  fixes lasts :: "nat \<Rightarrow> 'k \<Rightarrow> 'c \<Rightarrow> bool" and room :: "'c \<Rightarrow> nat"
  assumes lasts_look: "ok c \<Longrightarrow> lasts n k c \<Longrightarrow> look c k \<noteq> None"
    and lasts_put_self: "ok c \<Longrightarrow> n < room c \<Longrightarrow> lasts n k (put k v c)"
    and lasts_get_self: "ok c \<Longrightarrow> n < room c \<Longrightarrow> look c k \<noteq> None \<Longrightarrow> lasts n k (snd (get k c))"
    and lasts_put: "ok c \<Longrightarrow> lasts (Suc n) k c \<Longrightarrow> lasts n k (put j v c)"
    and lasts_get: "ok c \<Longrightarrow> lasts (Suc n) k c \<Longrightarrow> lasts n k (snd (get j c))"
    and lasts_miss: "ok c \<Longrightarrow> look c j = None \<Longrightarrow> lasts n k c \<Longrightarrow> lasts n k (snd (get j c))"
begin

lemma lasts_less: "ok c \<Longrightarrow> lasts (Suc n) k c \<Longrightarrow> look c j = None \<Longrightarrow> lasts n k (put j v (snd (get j c)))"
  by (intro lasts_put get_ok lasts_miss)

end

definition lru_lasts :: "nat \<Rightarrow> string \<Rightarrow> LRU \<Rightarrow> bool" where
  "lru_lasts n k c \<longleftrightarrow> k \<in> fst ` set (take (nat (lru_cap c) - n) (lru_abs c))"

text \<open>Using a key moves every other one back by at most one place.\<close>

lemma touch_moves:
  assumes "k \<in> fst ` set (take m xs)"
  shows "k \<in> fst ` set (take (Suc m) (spec_touch j v xs))"
proof (cases "k = j")
  case False
  let ?P = "\<lambda>(k', _). k' \<noteq> j"
  have "filter ?P xs = filter ?P (take m xs) @ filter ?P (drop m xs)" by (metis append_take_drop_id filter_append)
  moreover have "length (filter ?P (take m xs)) \<le> m" by (metis length_filter_le length_take min.bounded_iff)
  ultimately have "set (filter ?P (take m xs)) \<subseteq> set (take m (filter ?P xs))" by simp
  moreover obtain x where "(k, x) \<in> set (take m xs)" using assms by auto
  with False have "(k, x) \<in> set (filter ?P (take m xs))" by simp
  ultimately have "(k, x) \<in> set (take m (filter ?P xs))" by blast
  then show ?thesis by (auto simp: spec_touch_def intro: rev_image_eqI)
qed (simp add: spec_touch_def)

lemma in_take_put: "k \<in> fst ` set (take m xs) \<Longrightarrow> m < cap \<Longrightarrow> k \<in> fst ` set (take (Suc m) (spec_put cap j v xs))"
  using touch_moves [of k m xs j v] by (simp add: spec_put_def min_def)

lemma lru_abs_Get: "lru_wf c \<Longrightarrow> lru_abs (snd (LRU_Get k c)) = snd (spec_get k (lru_abs c))"
  using lru_Get_refines [of c k] by (cases "LRU_Get k c") (auto dest: arg_cong [where f = snd])

lemma lru_lasts_Suc: "lru_lasts (Suc n) k c \<longleftrightarrow> (\<exists>m. nat (lru_cap c) - n = Suc m \<and> k \<in> fst ` set (take m (lru_abs c)))"
proof -
  have "nat (lru_cap c) - Suc n = (case nat (lru_cap c) - n of 0 \<Rightarrow> 0 | Suc m \<Rightarrow> m)"
    by (simp split: nat.split) arith
  then show ?thesis by (simp add: lru_lasts_def split: nat.split)
qed

interpretation lasting: lasting_cache LRU_Get LRU_Put lru_lookup lru_wf "\<lambda>c. 0 < lru_cap c" lru_lasts "\<lambda>c. nat (lru_cap c)"
proof (unfold_locales, goal_cases)
  case (1 c n k)
  then have "k \<in> fst ` set (lru_abs c)" by (auto simp: lru_lasts_def dest: in_set_takeD)
  with map_of_lru_abs [OF 1(1), of k] show ?case by (metis map_of_eq_None_iff)
next
  case (2 c n k v)
  then obtain m where "nat (lru_cap c) - n = Suc m" by (cases "nat (lru_cap c) - n") auto
  with 2 show ?case by (simp add: lru_lasts_def lru_abs_Put spec_put_def spec_touch_def min_def take_Cons')
next
  case (3 c n k)
  then obtain m where "nat (lru_cap c) - n = Suc m" by (cases "nat (lru_cap c) - n") auto
  with 3 show ?case by (auto simp: lru_lasts_def lru_abs_Get spec_get_def map_of_lru_abs spec_touch_def)
next
  case (4 c n k j v)
  then obtain m where m: "nat (lru_cap c) - n = Suc m" "k \<in> fst ` set (take m (lru_abs c))" by (auto simp: lru_lasts_Suc)
  then have "m < nat (lru_cap c)" by simp
  from in_take_put [OF m(2) this] 4(1) show ?case by (simp add: lru_lasts_def lru_abs_Put m(1))
next
  case (5 c n k j)
  then obtain m where m: "nat (lru_cap c) - n = Suc m" "k \<in> fst ` set (take m (lru_abs c))" by (auto simp: lru_lasts_Suc)
  moreover have "set (take m (lru_abs c)) \<subseteq> set (take (Suc m) (lru_abs c))" by (rule set_take_subset_set_take) simp
  ultimately show ?case using 5(1) touch_moves [OF m(2), of j]
    by (auto simp: lru_lasts_def lru_abs_Get spec_get_def split: option.split)
next
  case (6 c j n k)
  then show ?case by (simp add: lru_lasts_def lru_abs_Get spec_get_def map_of_lru_abs)
qed

section \<open>Properties of the cache\<close>

text \<open>
  C28: the linked list and map of \<open>LRU\<close> implement a bounded list of key-value pairs ordered by
  recency. \<open>Get\<close> answers from that list and moves its key to the front, \<open>Put\<close> puts its
  pair in front and keeps at most as many pairs as the capacity allows, dropping the least
  recently used; both keep the representation invariant, for every capacity, zero and negative included.
\<close>

theorem LRU_refines:
  assumes "lru_wf c"
  shows "lru_wf (snd (LRU_Get k c)) \<and> lru_wf (LRU_Put k v c)
    \<and> (fst (LRU_Get k c), lru_abs (snd (LRU_Get k c))) = spec_get k (lru_abs c)
    \<and> lru_abs (LRU_Put k v c) = spec_put (nat (lru_cap c)) k v (lru_abs c)
    \<and> length (lru_abs (LRU_Put k v c)) \<le> nat (lru_cap c)"
proof -
  have "lru_abs (LRU_Put k v c) = spec_put (nat (lru_cap c)) k v (lru_abs c)"
    by (rule lru_abs_Put [OF assms])
  moreover have "(fst (LRU_Get k c), lru_abs (snd (LRU_Get k c))) = spec_get k (lru_abs c)"
    using lru_Get_refines [OF assms, of k] by (cases "LRU_Get k c") simp
  ultimately show ?thesis
    using lru_wf_Get [OF assms] lru_wf_Put [OF assms] by (simp add: spec_put_def del: length_lru_abs)
qed

theorem LRU_refines_witness:
  "lru_wf (LRU_Put ''a'' [1] (newLRU 2))
    \<and> lru_abs (LRU_Put ''b'' [2] (LRU_Put ''a'' [1] (newLRU 2))) = [(''b'', [2]), (''a'', [1])]"
proof -
  have wf: "lru_wf (LRU_Put ''a'' [1] (newLRU 2))" by (simp add: lru_wf_Put)
  have "lru_abs (LRU_Put ''a'' [1] (newLRU 2)) = [(''a'', [1])]"
    by (simp add: lru_abs_Put spec_put_def spec_touch_def)
  with LRU_refines [OF wf, of "''b''" "[2]"] wf show ?thesis
    by (simp add: spec_put_def spec_touch_def)
qed

text \<open>
  After any sequence of insertions into a new cache of capacity \<open>n\<close>, the cache holds the
  last value of each of the \<open>n\<close> most recently inserted keys, no key twice, and nothing else.
\<close>

theorem LRU_history:
  "lru_abs (lru_puts kvs (newLRU n)) = take (nat n) (most_recent kvs)
    \<and> distinct (map fst (most_recent kvs)) \<and> fst ` set (most_recent kvs) = fst ` set kvs
    \<and> (\<forall>k. map_of (most_recent kvs) k = map_of (rev kvs) k)"
proof -
  have "map_of (most_recent kvs) k = map_of (rev kvs) k" for k
  proof (induction kvs rule: rev_induct)
    case (snoc kv kvs)
    then show ?case by (cases kv) (simp add: most_recent_def map_of_spec_touch)
  qed (simp add: most_recent_def)
  then show ?thesis using lru_puts_abs [of kvs n] distinct_most_recent set_most_recent by simp
qed

end
