(* ===== verification/Meta.thy ===== *)
theory Meta
  imports Testbed Cache
begin

text \<open>
  \<^verbatim>\<open>meta.go\<close>: the in-memory catalogue of torrents. \<open>buildMeta\<close> turns a parsed
  info dictionary into the file table and the list of piece hashes, \<open>Reload\<close> loads the
  torrents under the prefix that are not loaded yet and drops those that are gone.

  The bencode parser of \<^verbatim>\<open>anacrolix/torrent\<close> is a parameter (theory \<open>Metainfo\<close>).
  The order in which Go ranges over a map is a parameter
  too, a function from a map to an enumeration of its keys.

  Each write to the two maps happens under the lock in one block, so the model has one
  step per block; readers between the blocks see one of the states of this sequence.
\<close>

section \<open>File entries and torrents\<close>

record FileEntry =
  Path :: string
  Size :: int
  Offset :: int

record TorrentMeta =
  Infohash :: string
  Name :: string
  DisplayName :: string
  PieceLen :: int
  TotalLen :: int
  Files :: "FileEntry list"
  PieceHashes :: "string list"

text \<open>
  The state of a reading process (\<^verbatim>\<open>serve\<close>, \<^verbatim>\<open>get\<close>, \<^verbatim>\<open>repack\<close>): the
  store, its piece cache, and the hashes of the prefetch goroutines it has launched and
  that have not run yet. The catalogue's two maps extend it.
\<close>

record 's cworld = "'s world" +
  rw_cache :: LRU
  rw_spawned :: "string list"

record 's mworld = "'s cworld" +
  m_byName :: "string \<rightharpoonup> TorrentMeta"
  m_byHash :: "string \<rightharpoonup> TorrentMeta"

type_synonym maporder = "(string \<rightharpoonup> TorrentMeta) \<Rightarrow> string list"

definition sanitizeName :: "string \<Rightarrow> string" where
  "sanitizeName n =
     (let n = strings_Trim n ''/''
      in if n = '''' \<or> n = ''.'' \<or> n = ''..'' then ''torrent'' else n)"

text \<open>The loop over \<open>info.Files\<close>, with the running \<open>int64\<close> offset.\<close>

fun build_files :: "int \<Rightarrow> fileInfo list \<Rightarrow> FileEntry list" where
  "build_files offset [] = []"
| "build_files offset (f # fs) =
     \<lparr>Path = strings_Join (fi_Path f) ''/'', Size = fi_Length f, Offset = offset\<rparr>
       # build_files (wrap64 (offset + fi_Length f)) fs"

text \<open>
  \<open>info.Piece(i).V1Hash().Unwrap().HexString()\<close> for each \<open>i\<close>: \<open>Unwrap\<close> of an empty
  option panics with a value of its own package.
\<close>

fun piece_hashes :: "metalib \<Rightarrow> Info \<Rightarrow> int list \<Rightarrow> ('w, string list) prog" where
  "piece_hashes lib info [] = ret []"
| "piece_hashes lib info (i # is) =
     (case V1Hash lib info i of
        None \<Rightarrow> panic (PForeign ''unwrap of an empty option'')
      | Some h \<Rightarrow> bindM (piece_hashes lib info is) (\<lambda>hs. ret (hex_EncodeToString h # hs)))"

definition buildMeta :: "metalib \<Rightarrow> Info \<Rightarrow> string \<Rightarrow> ('w, TorrentMeta) prog" where
  "buildMeta lib info infohash =
     (let tm = \<lparr>Infohash = infohash, Name = sanitizeName (info_Name info), DisplayName = '''',
                PieceLen = info_PieceLength info, TotalLen = TotalLength lib info,
                Files = [], PieceHashes = []\<rparr>;
          tm = (if info_Files info = []
                then tm\<lparr>Files := [\<lparr>Path = Name tm, Size = info_Length info, Offset = 0\<rparr>]\<rparr>
                else tm\<lparr>Files := build_files 0 (info_Files info)\<rparr>);
          n = NumPieces lib info
      in if n < 0 then panic (PRuntime ''makeslice: len out of range'')
         else bindM (piece_hashes lib info [0..n - 1]) (\<lambda>hs. ret (tm\<lparr>PieceHashes := hs\<rparr>)))"

section \<open>The catalogue\<close>

definition uniqueName :: "string \<Rightarrow> string \<Rightarrow> (('s, 'z) mworld_scheme, string) prog" where
  "uniqueName name infohash =
     bindM (getM m_byName) (\<lambda>byName.
       if byName name = None then ret name
       else ret (name @ ''-'' @ (if length infohash > 8 then take 8 infohash else infohash)))"

definition loadOne ::
  "Config \<Rightarrow> 's s3api \<Rightarrow> metalib \<Rightarrow> string \<Rightarrow> (('s, 'z) mworld_scheme, unit) prog" where
  "loadOne cfg cli lib infohash =
     bindM (Cat cfg cli (KeyTorrent cfg infohash)) (\<lambda>data.
     bindM (ThrowE (Load lib data)) (\<lambda>mi.
     bindM (ThrowE (UnmarshalInfo lib mi)) (\<lambda>info.
     bindM (buildMeta lib info infohash) (\<lambda>tm.
     bindM (uniqueName (Name tm) (Infohash tm)) (\<lambda>dn.
       let tm = tm\<lparr>DisplayName := dn\<rparr> in
       modifyM (\<lambda>w. w\<lparr>m_byHash := (m_byHash w)(infohash \<mapsto> tm),
                      m_byName := (m_byName w)(DisplayName tm \<mapsto> tm)\<rparr>))))))"

text \<open>One turn of the loop over the old keys of \<open>byHash\<close>.\<close>

definition prune_one :: "string set \<Rightarrow> string \<Rightarrow> (('s, 'z) mworld_scheme, unit) prog" where
  "prune_one seen ih =
     modifyM (\<lambda>w. case m_byHash w ih of
         None \<Rightarrow> w
       | Some tm \<Rightarrow>
           if ih \<in> seen then w
           else w\<lparr>m_byHash := (m_byHash w)(ih := None),
                  m_byName := (m_byName w)(DisplayName tm := None)\<rparr>)"

definition pruneGone :: "maporder \<Rightarrow> string set \<Rightarrow> (('s, 'z) mworld_scheme, unit) prog" where
  "pruneGone order seen =
     bindM (getM m_byHash) (\<lambda>byHash. forM (order byHash) (prune_one seen))"

definition reload_one ::
  "Config \<Rightarrow> 's s3api \<Rightarrow> metalib \<Rightarrow> string \<Rightarrow> (('s, 'z) mworld_scheme, unit) prog" where
  "reload_one cfg cli lib k =
     (let ih = path_Base k in
      bindM (getM (\<lambda>w. m_byHash w ih)) (\<lambda>already.
        if already \<noteq> None then ret ()
        else bindM (Try (loadOne cfg cli lib ih)) (\<lambda>exc. Catch exc (\<lambda>_. ret ()))))"

definition Reload ::
  "Config \<Rightarrow> 's s3api \<Rightarrow> metalib \<Rightarrow> maporder \<Rightarrow> (('s, 'z) mworld_scheme, unit) prog" where
  "Reload cfg cli lib order =
     bindM (List cfg cli (PrefixTorrents cfg)) (\<lambda>keys.
     bindM (forM keys (reload_one cfg cli lib)) (\<lambda>_.
       pruneGone order (set (map path_Base keys))))"

definition Names :: "maporder \<Rightarrow> (('s, 'z) mworld_scheme, string list) prog" where
  "Names order = getM (\<lambda>w. order (m_byName w))"

definition ByName :: "string \<Rightarrow> (('s, 'z) mworld_scheme, TorrentMeta option) prog" where
  "ByName name = getM (\<lambda>w. m_byName w name)"

text \<open>The state at the start of \<open>runServe\<close> and \<open>runGet\<close>: \<open>newLRU\<close> and \<open>newMeta\<close>.\<close>

definition newMeta :: "Config \<Rightarrow> 's \<Rightarrow> 's mworld" where
  "newMeta cfg s = \<lparr>w_s3 = s, w_puts = 0, rw_cache = newLRU (LRUSize cfg), rw_spawned = [],
     m_byName = Map.empty, m_byHash = Map.empty\<rparr>"

section \<open>buildMeta as a function of its input\<close>

definition files_of :: "Info \<Rightarrow> FileEntry list" where
  "files_of info =
     (if info_Files info = []
      then [\<lparr>Path = sanitizeName (info_Name info), Size = info_Length info, Offset = 0\<rparr>]
      else build_files 0 (info_Files info))"

definition hashes_of :: "metalib \<Rightarrow> Info \<Rightarrow> string list" where
  "hashes_of lib info =
     map (\<lambda>i. hex_EncodeToString (the (V1Hash lib info i))) [0..NumPieces lib info - 1]"

definition has_v1 :: "metalib \<Rightarrow> Info \<Rightarrow> bool" where
  "has_v1 lib info \<longleftrightarrow> (\<forall>i\<in>set [0..NumPieces lib info - 1]. V1Hash lib info i \<noteq> None)"

definition meta_of :: "metalib \<Rightarrow> Info \<Rightarrow> string \<Rightarrow> TorrentMeta" where
  "meta_of lib info ih =
     \<lparr>Infohash = ih, Name = sanitizeName (info_Name info), DisplayName = [],
      PieceLen = info_PieceLength info, TotalLen = TotalLength lib info,
      Files = files_of info, PieceHashes = hashes_of lib info\<rparr>"

lemma piece_hashes_run:
  "(\<forall>i\<in>set is. V1Hash lib info i \<noteq> None) \<Longrightarrow> piece_hashes lib info is w =
     (Ret (map (\<lambda>i. hex_EncodeToString (the (V1Hash lib info i))) is), w)"
  by (induction "is") (auto simp: outcome_simps)

lemma piece_hashes_v2:
  "i \<in> set is \<Longrightarrow> V1Hash lib info i = None \<Longrightarrow> piece_hashes lib info is w =
     (Panicked (PForeign ''unwrap of an empty option''), w)"
  by (induction "is") (auto simp: outcome_simps split: option.splits)

lemma buildMeta_run:
  assumes "0 \<le> NumPieces lib info" and "has_v1 lib info"
  shows "buildMeta lib info ih w = (Ret (meta_of lib info ih), w)"
proof -
  have "piece_hashes lib info [0..NumPieces lib info - 1] w = (Ret (hashes_of lib info), w)"
    using assms(2) by (simp add: piece_hashes_run has_v1_def hashes_of_def)
  with assms(1) show ?thesis
    by (simp add: buildMeta_def Let_def meta_of_def files_of_def bindM_def ret_def)
qed

lemma buildMeta_v2:
  assumes "0 \<le> NumPieces lib info" and "\<not> has_v1 lib info"
  shows "buildMeta lib info ih w = (Panicked (PForeign ''unwrap of an empty option''), w)"
proof -
  from assms(2) obtain i where "i \<in> set [0..NumPieces lib info - 1]" "V1Hash lib info i = None"
    by (auto simp: has_v1_def)
  from piece_hashes_v2 [OF this, of w] assms(1) show ?thesis
    by (simp add: buildMeta_def Let_def bindM_def)
qed

lemma buildMeta_negative:
  "NumPieces lib info < 0 \<Longrightarrow>
    buildMeta lib info ih w = (Panicked (PRuntime ''makeslice: len out of range''), w)"
  by (simp add: buildMeta_def Let_def outcome_simps)

section \<open>The file table tiles the stream\<close>

fun tiles :: "int \<Rightarrow> FileEntry list \<Rightarrow> int \<Rightarrow> bool" where
  "tiles pos [] fin = (pos = fin)"
| "tiles pos (f # fs) fin = (Offset f = pos \<and> 0 \<le> Size f \<and> tiles (pos + Size f) fs fin)"

lemma tiles_mono: "tiles pos fs fin \<Longrightarrow> pos \<le> fin"
  by (induction pos fs fin rule: tiles.induct) auto

lemma tiles_bounds:
  "tiles pos fs fin \<Longrightarrow> f \<in> set fs \<Longrightarrow> pos \<le> Offset f \<and> 0 \<le> Size f \<and> Offset f + Size f \<le> fin"
  by (induction pos fs fin rule: tiles.induct) (auto dest: tiles_mono)

lemma build_files_tiles:
  "0 \<le> pos \<Longrightarrow> (\<forall>f\<in>set fs. 0 \<le> fi_Length f) \<Longrightarrow> pos + sum_list (map fi_Length fs) < 2 ^ 63 \<Longrightarrow>
    tiles pos (build_files pos fs) (pos + sum_list (map fi_Length fs))"
proof (induction fs arbitrary: pos)
  case (Cons f fs)
  then have "0 \<le> sum_list (map fi_Length fs)" by (auto intro!: sum_list_nonneg)
  with Cons.prems have w: "wrap64 (pos + fi_Length f) = pos + fi_Length f"
    by (intro wrap64_nonneg) auto
  have "tiles (pos + fi_Length f) (build_files (pos + fi_Length f) fs)
      (pos + fi_Length f + sum_list (map fi_Length fs))"
    using Cons.prems by (intro Cons.IH) auto
  with Cons.prems w show ?case by (simp add: add.assoc)
qed simp

lemma files_of_tiles:
  "total_law lib \<Longrightarrow> sane_lengths info \<Longrightarrow> tiles 0 (files_of info) (TotalLength lib info)"
  using build_files_tiles [of 0 "info_Files info"]
  by (simp add: files_of_def total_law_def sane_lengths_def)

lemma length_hashes_of: "0 \<le> NumPieces lib info \<Longrightarrow> int (length (hashes_of lib info)) = NumPieces lib info"
  by (simp add: hashes_of_def)

lemma sanitizeName_ok: "sanitizeName n \<noteq> '''' \<and> sanitizeName n \<noteq> ''.'' \<and> sanitizeName n \<noteq> ''..''"
  by (simp add: sanitizeName_def Let_def)

section \<open>Pruning\<close>

lemma prune_one_run:
  "prune_one seen ih w = (Ret (), case m_byHash w ih of
       None \<Rightarrow> w
     | Some tm \<Rightarrow>
         if ih \<in> seen then w
         else w\<lparr>m_byHash := (m_byHash w)(ih := None),
                m_byName := (m_byName w)(DisplayName tm := None)\<rparr>)"
  by (simp add: prune_one_def outcome_simps)

definition doomed :: "(string \<rightharpoonup> TorrentMeta) \<Rightarrow> string set \<Rightarrow> string set \<Rightarrow> string set" where
  "doomed byHash gone seen = {DisplayName tm | ih tm. ih \<in> gone \<and> ih \<notin> seen \<and> byHash ih = Some tm}"

lemma doomed_Cons:
  assumes "m_byHash w x = Some tm" and "x \<notin> seen"
  shows "doomed (m_byHash w) (set (x # xs)) seen = insert (DisplayName tm)
    (doomed (m_byHash (w\<lparr>m_byHash := (m_byHash w)(x := None), m_byName := f\<rparr>)) (set xs) seen)"
    (is "?L = insert _ ?R")
proof (rule set_eqI)
  fix n
  have "n \<in> ?R \<longleftrightarrow> (\<exists>ih t. n = DisplayName t \<and> ih \<in> set xs \<and> ih \<notin> seen \<and> ih \<noteq> x \<and> m_byHash w ih = Some t)"
    by (auto simp: doomed_def)
  moreover have "n \<in> ?L \<longleftrightarrow> (\<exists>ih t. n = DisplayName t \<and> (ih = x \<or> ih \<in> set xs) \<and> ih \<notin> seen \<and> m_byHash w ih = Some t)"
    by (auto simp: doomed_def)
  ultimately show "n \<in> ?L \<longleftrightarrow> n \<in> insert (DisplayName tm) ?R"
    using assms by (metis insert_iff option.inject)
qed

lemma forM_prune:
  "forM xs (prune_one seen) w = (Ret (), w\<lparr>
     m_byHash := (\<lambda>ih. if ih \<in> set xs \<and> ih \<notin> seen then None else m_byHash w ih),
     m_byName := (\<lambda>n. if n \<in> doomed (m_byHash w) (set xs) seen then None else m_byName w n)\<rparr>)"
proof (induction xs arbitrary: w)
  case Nil
  then show ?case by (simp add: outcome_simps doomed_def)
next
  case (Cons x xs)
  show ?case
  proof (cases "m_byHash w x = None \<or> x \<in> seen")
    case True
    then have "prune_one seen x w = (Ret (), w)"
      by (auto simp: prune_one_run split: option.splits)
    moreover have "(if ih \<in> set xs \<and> ih \<notin> seen then None else m_byHash w ih)
        = (if ih \<in> set (x # xs) \<and> ih \<notin> seen then None else m_byHash w ih)" for ih
      using True by auto
    moreover have "doomed (m_byHash w) (set (x # xs)) seen = doomed (m_byHash w) (set xs) seen"
      using True by (auto simp: doomed_def)
    ultimately show ?thesis by (simp only: forM.simps bindM_Ret Cons.IH)
  next
    case False
    then obtain tm where tm: "m_byHash w x = Some tm" "x \<notin> seen" by auto
    let ?w = "w\<lparr>m_byHash := (m_byHash w)(x := None), m_byName := (m_byName w)(DisplayName tm := None)\<rparr>"
    from tm have run: "prune_one seen x w = (Ret (), ?w)" by (simp add: prune_one_run)
    have "doomed (m_byHash w) (set (x # xs)) seen
        = insert (DisplayName tm) (doomed (m_byHash ?w) (set xs) seen)"
      by (rule doomed_Cons [OF tm])
    then have names: "(if n \<in> doomed (m_byHash ?w) (set xs) seen then None else m_byName ?w n)
        = (if n \<in> doomed (m_byHash w) (set (x # xs)) seen then None else m_byName w n)" for n
      by simp
    have hashes: "(if ih \<in> set xs \<and> ih \<notin> seen then None else m_byHash ?w ih)
        = (if ih \<in> set (x # xs) \<and> ih \<notin> seen then None else m_byHash w ih)" for ih
      using tm by auto
    have "forM (x # xs) (prune_one seen) w = forM xs (prune_one seen) ?w"
      by (simp add: bindM_def run)
    then show ?thesis
      unfolding Cons.IH names hashes by simp
  qed
qed

text \<open>Go enumerates each key of a map once, in an order of its choice.\<close>

definition order_law :: "maporder \<Rightarrow> bool" where
  "order_law order \<longleftrightarrow> (\<forall>m. finite (dom m) \<longrightarrow> set (order m) = dom m \<and> distinct (order m))"

lemma pruneGone_run:
  assumes "order_law order" and "finite (dom (m_byHash w))"
  shows "pruneGone order seen w = (Ret (), w\<lparr>m_byHash := m_byHash w |` seen,
    m_byName := (\<lambda>n. if n \<in> doomed (m_byHash w) UNIV seen then None else m_byName w n)\<rparr>)"
proof -
  have s: "set (order (m_byHash w)) = dom (m_byHash w)" using assms by (simp add: order_law_def)
  have "(\<lambda>ih. if ih \<in> dom (m_byHash w) \<and> ih \<notin> seen then None else m_byHash w ih) = m_byHash w |` seen"
    by (rule ext) (auto simp: restrict_map_def)
  moreover have "doomed (m_byHash w) (dom (m_byHash w)) seen = doomed (m_byHash w) UNIV seen"
    by (auto simp: doomed_def)
  ultimately show ?thesis by (simp add: pruneGone_def forM_prune s)
qed

section \<open>Loading one torrent\<close>

definition parsed :: "metalib \<Rightarrow> bytes \<Rightarrow> Info option" where
  "parsed lib d = (case Load lib d of Inl _ \<Rightarrow> None
     | Inr mi \<Rightarrow> (case UnmarshalInfo lib mi of Inl _ \<Rightarrow> None | Inr info \<Rightarrow> Some info))"

definition v1_info :: "metalib \<Rightarrow> Info \<Rightarrow> bool" where
  "v1_info lib info \<longleftrightarrow> 0 \<le> NumPieces lib info \<and> has_v1 lib info"

definition unique_of :: "(string \<rightharpoonup> TorrentMeta) \<Rightarrow> string \<Rightarrow> string \<Rightarrow> string" where
  "unique_of byName name ih =
     (if byName name = None then name
      else name @ ''-'' @ (if length ih > 8 then take 8 ih else ih))"

definition install :: "metalib \<Rightarrow> Info \<Rightarrow> string \<Rightarrow> ('s, 'z) mworld_scheme \<Rightarrow> ('s, 'z) mworld_scheme" where
  "install lib info ih w =
     (let tm = (meta_of lib info ih)
            \<lparr>DisplayName := unique_of (m_byName w) (sanitizeName (info_Name info)) ih\<rparr>
      in w\<lparr>m_byHash := (m_byHash w)(ih \<mapsto> tm), m_byName := (m_byName w)(DisplayName tm \<mapsto> tm)\<rparr>)"

lemma uniqueName_run: "uniqueName name ih w = (Ret (unique_of (m_byName w) name ih), w)"
  by (simp add: uniqueName_def unique_of_def outcome_simps)

lemma parsed_SomeD:
  "parsed lib d = Some info \<Longrightarrow> \<exists>mi. Load lib d = Inr mi \<and> UnmarshalInfo lib mi = Inr info"
  by (auto simp: parsed_def split: sum.splits)

lemma loadOne_run:
  assumes "Cat cfg cli (KeyTorrent cfg ih) w = (Ret d, w1)"
    and "parsed lib d = Some info" and "v1_info lib info"
  shows "loadOne cfg cli lib ih w = (Ret (), install lib info ih w1)"
proof -
  obtain mi where "Load lib d = Inr mi" "UnmarshalInfo lib mi = Inr info"
    using parsed_SomeD [OF assms(2)] by blast
  moreover have "buildMeta lib info ih w1 = (Ret (meta_of lib info ih), w1)"
    using assms(3) buildMeta_run by (auto simp: v1_info_def)
  ultimately show ?thesis
    using assms(1)
    by (simp add: loadOne_def bindM_def ThrowE_run uniqueName_run modifyM_run install_def Let_def meta_of_def)
qed

lemma loadOne_bad:
  assumes "Cat cfg cli (KeyTorrent cfg ih) w = (Ret d, w1)" and "parsed lib d = None"
  shows "\<exists>e. loadOne cfg cli lib ih w = (Panicked (PException e), w1)"
  using assms
  by (auto simp: loadOne_def bindM_def ThrowE_run parsed_def split: sum.splits)

lemma loadOne_v2:
  assumes "Cat cfg cli (KeyTorrent cfg ih) w = (Ret d, w1)"
    and "parsed lib d = Some info" and "\<not> v1_info lib info"
  shows "\<exists>p. loadOne cfg cli lib ih w = (Panicked p, w1) \<and> (\<forall>e. p \<noteq> PException e)"
proof -
  obtain mi where "Load lib d = Inr mi" "UnmarshalInfo lib mi = Inr info"
    using parsed_SomeD [OF assms(2)] by blast
  moreover have "\<exists>p. buildMeta lib info ih w1 = (Panicked p, w1) \<and> (\<forall>e. p \<noteq> PException e)"
    using assms(3) buildMeta_v2 [of lib info ih w1] buildMeta_negative [of lib info ih w1]
    by (cases "0 \<le> NumPieces lib info") (auto simp: v1_info_def)
  ultimately show ?thesis
    using assms(1) by (auto simp: loadOne_def bindM_def ThrowE_run)
qed

lemma loadOne_noread:
  assumes "Cat cfg cli (KeyTorrent cfg ih) w = (r, w1)" and "\<forall>d. r \<noteq> Ret d"
  shows "\<exists>e. loadOne cfg cli lib ih w = (Panicked (PException e), w1)"
  using assms Cat_outcome [OF assms(1)] by (auto simp: loadOne_def bindM_def)

text \<open>All four ways it can end: only the first one changes the catalogue.\<close>

lemma loadOne_cases:
  assumes "loadOne cfg cli lib ih w = (r, w')"
  shows "(\<exists>d info w1. Cat cfg cli (KeyTorrent cfg ih) w = (Ret d, w1) \<and> parsed lib d = Some info
        \<and> v1_info lib info \<and> r = Ret () \<and> w' = install lib info ih w1)
    \<or> (\<exists>rc. Cat cfg cli (KeyTorrent cfg ih) w = (rc, w') \<and> (\<forall>u. r \<noteq> Ret u))"
proof -
  obtain rc w1 where cat: "Cat cfg cli (KeyTorrent cfg ih) w = (rc, w1)" by fastforce
  show ?thesis
  proof (cases "\<exists>d. rc = Ret d")
    case False
    with loadOne_noread [OF cat, of lib] assms cat show ?thesis by auto
  next
    case True
    then obtain d where d: "rc = Ret d" by blast
    show ?thesis
    proof (cases "parsed lib d")
      case None
      from loadOne_bad [OF cat [unfolded d] None] assms cat d show ?thesis by auto
    next
      case (Some info)
      show ?thesis
      proof (cases "v1_info lib info")
        case True
        with loadOne_run [OF cat [unfolded d] Some] assms cat d Some show ?thesis by simp
      next
        case False
        with loadOne_v2 [OF cat [unfolded d] Some] assms cat d show ?thesis by auto
      qed
    qed
  qed
qed

section \<open>The catalogue's invariant\<close>

text \<open>
  Both maps are keyed by what they say, and every name leads to a torrent that is loaded.
\<close>

definition meta_wf :: "('s, 'z) mworld_scheme \<Rightarrow> bool" where
  "meta_wf w \<longleftrightarrow> finite (dom (m_byHash w))
     \<and> (\<forall>ih tm. m_byHash w ih = Some tm \<longrightarrow> Infohash tm = ih)
     \<and> (\<forall>n tm. m_byName w n = Some tm \<longrightarrow>
          DisplayName tm = n \<and> m_byHash w (Infohash tm) = Some tm)"

lemma meta_wf_s3 [simp]: "meta_wf (w\<lparr>w_s3 := s\<rparr>) = meta_wf w"
  by (simp add: meta_wf_def)

lemma meta_wf_install:
  assumes "meta_wf w" and "m_byHash w ih = None"
  shows "meta_wf (install lib info ih w)"
proof -
  have "Infohash tm \<noteq> ih" if "m_byName w n = Some tm" for n tm
    using assms that by (auto simp: meta_wf_def)
  with assms(1) show ?thesis by (auto simp: meta_wf_def install_def Let_def meta_of_def)
qed

lemma Cat_maps:
  fixes w :: "('s, 'z) mworld_scheme"
  assumes "Cat cfg cli k w = (r, w1)"
  shows "m_byHash w1 = m_byHash w" and "m_byName w1 = m_byName w" and "meta_wf w1 = meta_wf w"
  using Cat_frame [OF assms] by auto

lemma keeps_meta_reload_one: "keeps meta_wf (reload_one cfg cli lib k)"
proof (rule keepsI)
  fix w r w'
  assume wf: "meta_wf w" and run: "reload_one cfg cli lib k w = (r, w')"
  show "meta_wf w'"
  proof (cases "m_byHash w (path_Base k)")
    case (Some tm)
    with run wf show ?thesis by (simp add: reload_one_def Let_def ret_def)
  next
    case None
    obtain rl wl where l: "loadOne cfg cli lib (path_Base k) w = (rl, wl)" by fastforce
    from loadOne_cases [OF l] have "meta_wf wl"
    proof (elim disjE exE conjE)
      fix d info w1
      assume "Cat cfg cli (KeyTorrent cfg (path_Base k)) w = (Ret d, w1)"
        and wl: "wl = install lib info (path_Base k) w1"
      from Cat_maps [OF this(1)] wf None show ?thesis
        unfolding wl by (intro meta_wf_install) simp_all
    next
      fix rc assume "Cat cfg cli (KeyTorrent cfg (path_Base k)) w = (rc, wl)"
      from Cat_maps(3) [OF this] wf show ?thesis by simp
    qed
    moreover have "w' = wl"
      using run None l
      by (auto simp: reload_one_def Let_def bindM_def getM_def Try_def Catch_def ret_def
          split: outcome.splits panicval.splits)
    ultimately show ?thesis by simp
  qed
qed

lemma meta_wf_pruned:
  assumes "meta_wf w"
  shows "meta_wf (w\<lparr>m_byHash := m_byHash w |` seen,
    m_byName := (\<lambda>n. if n \<in> doomed (m_byHash w) UNIV seen then None else m_byName w n)\<rparr>)"
proof -
  have "(m_byHash w |` seen) (Infohash tm) = Some tm"
    if "m_byName w n = Some tm" "n \<notin> doomed (m_byHash w) UNIV seen" for n tm
  proof -
    from that assms have "DisplayName tm = n" "m_byHash w (Infohash tm) = Some tm"
      by (simp_all add: meta_wf_def)
    moreover from this that(2) have "Infohash tm \<in> seen" by (auto simp: doomed_def)
    ultimately show ?thesis by simp
  qed
  moreover have "finite (dom (m_byHash w |` seen))"
    using assms by (simp add: meta_wf_def)
  ultimately show ?thesis
    using assms by (auto simp: meta_wf_def restrict_map_def split: if_splits)
qed

lemma keeps_meta_pruneGone:
  assumes "order_law order"
  shows "keeps meta_wf (pruneGone order seen)"
proof (rule keepsI)
  fix w r w'
  assume "meta_wf w" and "pruneGone order seen w = (r, w')"
  moreover from this have "finite (dom (m_byHash w))" by (simp add: meta_wf_def)
  ultimately show "meta_wf w'"
    using pruneGone_run [OF assms, of w seen] meta_wf_pruned [of w seen] by simp
qed

lemma keeps_meta_List: "keeps meta_wf (List cfg cli p)"
  by (rule keepsI) (auto dest: List_frame)

lemma keeps_meta_Reload: "order_law order \<Longrightarrow> keeps meta_wf (Reload cfg cli lib order)"
  unfolding Reload_def
  by (intro keeps_bindM keeps_forM keeps_meta_List keeps_meta_reload_one keeps_meta_pruneGone)

lemma meta_wf_newMeta: "meta_wf (newMeta cfg s)"
  by (simp add: meta_wf_def newMeta_def)

section \<open>A reload against a service that is up\<close>

text \<open>The info dictionary stored under a torrent key, if it is there and parses.\<close>

definition torrent_at :: "Config \<Rightarrow> metalib \<Rightarrow> (string \<Rightarrow> bytes option) \<Rightarrow> string \<Rightarrow> Info option" where
  "torrent_at cfg lib f ih = (case f (KeyTorrent cfg ih) of None \<Rightarrow> None | Some d \<Rightarrow> parsed lib d)"

definition same_torrent :: "metalib \<Rightarrow> Info \<Rightarrow> string \<Rightarrow> TorrentMeta \<Rightarrow> bool" where
  "same_torrent lib info ih tm \<longleftrightarrow> tm\<lparr>DisplayName := []\<rparr> = meta_of lib info ih"

text \<open>The entry a hash has after a pass over some keys, from the entry it had before.\<close>

definition after_pass ::
  "metalib \<Rightarrow> Info option \<Rightarrow> bool \<Rightarrow> string \<Rightarrow> TorrentMeta option \<Rightarrow> TorrentMeta option \<Rightarrow> bool" where
  "after_pass lib info listed ih old new \<longleftrightarrow>
     (case old of Some tm \<Rightarrow> new = Some tm
      | None \<Rightarrow> (case (listed, info) of
            (True, Some i) \<Rightarrow> (\<exists>tm. new = Some tm \<and> same_torrent lib i ih tm)
          | _ \<Rightarrow> new = None))"

text \<open>A torrent that is not there, or does not parse, is left out; the error stays in the \<open>Try\<close>.\<close>

lemma loadOne_absent:
  assumes cat: "Cat cfg cli (KeyTorrent cfg ih) w = (rc, w1)" and laws: "s3_laws cli objs"
    and "torrent_at cfg lib (objs (w_s3 w) (S3Bucket cfg)) ih = None"
  shows "\<exists>e. loadOne cfg cli lib ih w = (Panicked (PException e), w1)"
proof (cases "\<exists>d. rc = Ret d")
  case True
  then obtain d where d: "rc = Ret d" by blast
  with Cat_law [OF laws cat] assms(3) have "parsed lib d = None" by (simp add: torrent_at_def)
  with loadOne_bad cat d show ?thesis by blast
next
  case False
  with loadOne_noread [OF cat] show ?thesis by simp
qed

lemma loadOne_present:
  assumes cat: "Cat cfg cli (KeyTorrent cfg ih) w = (rc, w1)" and "s3_up cli objs up" and "up (w_s3 w)"
    and t: "torrent_at cfg lib (objs (w_s3 w) (S3Bucket cfg)) ih = Some info" and "v1_info lib info"
  shows "loadOne cfg cli lib ih w = (Ret (), install lib info ih w1)"
proof -
  obtain d where d: "objs (w_s3 w) (S3Bucket cfg) (KeyTorrent cfg ih) = Some d" "parsed lib d = Some info"
    using t by (auto simp: torrent_at_def split: option.splits)
  with Cat_up [OF assms(2,3) d(1)] cat have "rc = Ret d" by auto
  with loadOne_run cat d(2) assms(5) show ?thesis by blast
qed

lemma reload_one_up:
  assumes s3: "s3_laws cli objs" "s3_up cli objs up" and up: "up (w_s3 w)"
    and v1: "\<forall>ih info. torrent_at cfg lib (objs (w_s3 w) (S3Bucket cfg)) ih = Some info \<longrightarrow> v1_info lib info"
  shows "\<exists>w'. reload_one cfg cli lib k w = (Ret (), w') \<and> up (w_s3 w') \<and> objs (w_s3 w') = objs (w_s3 w)
    \<and> (\<forall>ih. after_pass lib (torrent_at cfg lib (objs (w_s3 w) (S3Bucket cfg)) ih) (ih = path_Base k) ih
          (m_byHash w ih) (m_byHash w' ih))"
proof (cases "m_byHash w (path_Base k)")
  case (Some tm)
  with up show ?thesis
    by (auto simp: reload_one_def Let_def ret_def after_pass_def split: option.splits bool.splits)
next
  case None
  let ?ih = "path_Base k" and ?f = "objs (w_s3 w) (S3Bucket cfg)"
  obtain rc w1 where cat: "Cat cfg cli (KeyTorrent cfg ?ih) w = (rc, w1)" by fastforce
  have same: "objs (w_s3 w1) = objs (w_s3 w)" "m_byHash w1 = m_byHash w" "up (w_s3 w1)"
    using Cat_law [OF s3(1) cat] Cat_maps(1) [OF cat] Cat_keeps_up [OF s3(2) up cat] by auto
  show ?thesis
  proof (cases "torrent_at cfg lib ?f ?ih")
    case (Some info)
    with v1 have "loadOne cfg cli lib ?ih w = (Ret (), install lib info ?ih w1)"
      by (intro loadOne_present [OF cat s3(2) up]) simp_all
    with None have "reload_one cfg cli lib k w = (Ret (), install lib info ?ih w1)"
      by (simp add: reload_one_def Let_def bindM_def getM_def Try_def Catch_def ret_def)
    moreover have "same_torrent lib info ?ih ((meta_of lib info ?ih)\<lparr>DisplayName := n\<rparr>)" for n
      by (simp add: same_torrent_def meta_of_def)
    ultimately show ?thesis
      using same None Some by (auto simp: install_def Let_def after_pass_def split: option.splits bool.splits)
  next
    case absent: None
    from loadOne_absent [OF cat s3(1) absent] None have "reload_one cfg cli lib k w = (Ret (), w1)"
      by (auto simp: reload_one_def Let_def bindM_def getM_def Try_def Catch_def ret_def)
    with same None absent show ?thesis
      by (auto simp: after_pass_def split: option.splits bool.splits)
  qed
qed

lemma after_pass_trans:
  "after_pass lib info l1 ih old mid \<Longrightarrow> after_pass lib info l2 ih mid new \<Longrightarrow>
    after_pass lib info (l1 \<or> l2) ih old new"
  by (cases l1; cases l2; cases info; cases old; cases mid) (auto simp: after_pass_def)

lemma reload_keys_up:
  assumes s3: "s3_laws cli objs" "s3_up cli objs up"
  shows "up (w_s3 w) \<Longrightarrow>
    (\<forall>ih info. torrent_at cfg lib (objs (w_s3 w) (S3Bucket cfg)) ih = Some info \<longrightarrow> v1_info lib info) \<Longrightarrow>
    \<exists>w'. forM keys (reload_one cfg cli lib) w = (Ret (), w') \<and> up (w_s3 w')
      \<and> objs (w_s3 w') = objs (w_s3 w)
      \<and> (\<forall>ih. after_pass lib (torrent_at cfg lib (objs (w_s3 w) (S3Bucket cfg)) ih)
            (ih \<in> path_Base ` set keys) ih (m_byHash w ih) (m_byHash w' ih))"
proof (induction keys arbitrary: w)
  case Nil
  then show ?case by (auto simp: ret_def after_pass_def split: option.splits)
next
  case (Cons k keys)
  let ?t = "torrent_at cfg lib (objs (w_s3 w) (S3Bucket cfg))"
  from reload_one_up [OF s3 Cons.prems] obtain w1 where
    w1: "reload_one cfg cli lib k w = (Ret (), w1)" "up (w_s3 w1)" "objs (w_s3 w1) = objs (w_s3 w)"
      "\<And>ih. after_pass lib (?t ih) (ih = path_Base k) ih (m_byHash w ih) (m_byHash w1 ih)"
    by blast
  from Cons.IH [of w1] w1(2,3) Cons.prems(2) obtain w2 where
    w2: "forM keys (reload_one cfg cli lib) w1 = (Ret (), w2)" "up (w_s3 w2)"
      "objs (w_s3 w2) = objs (w_s3 w)"
      "\<And>ih. after_pass lib (?t ih) (ih \<in> path_Base ` set keys) ih (m_byHash w1 ih) (m_byHash w2 ih)"
    by (simp only:) metis
  have "after_pass lib (?t ih) (ih \<in> path_Base ` set (k # keys)) ih (m_byHash w ih) (m_byHash w2 ih)" for ih
    using after_pass_trans [OF w1(4) w2(4), of ih] by simp
  moreover have "forM (k # keys) (reload_one cfg cli lib) w = (Ret (), w2)"
    using w1(1) w2(1) by (simp add: bindM_def)
  ultimately show ?case using w2(2,3) by blast
qed

definition listed :: "Config \<Rightarrow> (string \<Rightarrow> bytes option) \<Rightarrow> string \<Rightarrow> bool" where
  "listed cfg f ih \<longleftrightarrow> ih \<in> path_Base ` {k. prefix (PrefixTorrents cfg) k \<and> f k \<noteq> None}"

lemma Reload_up:
  assumes s3: "s3_laws cli objs" "s3_up cli objs up" and up: "up (w_s3 w)"
    and v1: "\<forall>ih info. torrent_at cfg lib (objs (w_s3 w) (S3Bucket cfg)) ih = Some info \<longrightarrow> v1_info lib info"
    and order: "order_law order" and wf: "meta_wf w"
  shows "\<exists>w'. Reload cfg cli lib order w = (Ret (), w') \<and>
    (\<forall>ih. if listed cfg (objs (w_s3 w) (S3Bucket cfg)) ih
       then after_pass lib (torrent_at cfg lib (objs (w_s3 w) (S3Bucket cfg)) ih) True ih
              (m_byHash w ih) (m_byHash w' ih)
       else m_byHash w' ih = None)"
proof -
  let ?f = "objs (w_s3 w) (S3Bucket cfg)"
  from List_up [OF s3(2,1) up, of cfg "PrefixTorrents cfg"] obtain keys s1 where
    l: "List cfg cli (PrefixTorrents cfg) w = (Ret keys, w\<lparr>w_s3 := s1\<rparr>)" "up s1"
      "set keys = {k. prefix (PrefixTorrents cfg) k \<and> ?f k \<noteq> None}" by blast
  have o1: "objs s1 = objs (w_s3 w)" using List_law(1) [OF s3(1) l(1)] by simp
  from reload_keys_up [OF s3, of "w\<lparr>w_s3 := s1\<rparr>" cfg lib keys] l(2) v1 o1 obtain w1 where
    w1: "forM keys (reload_one cfg cli lib) (w\<lparr>w_s3 := s1\<rparr>) = (Ret (), w1)"
      "\<And>ih. after_pass lib (torrent_at cfg lib ?f ih) (ih \<in> path_Base ` set keys) ih
          (m_byHash w ih) (m_byHash w1 ih)"
    by auto
  have "meta_wf w1"
    using keepsD [OF keeps_forM [OF keeps_meta_reload_one] _ w1(1)] wf by simp
  then have fin: "finite (dom (m_byHash w1))" by (simp add: meta_wf_def)
  let ?seen = "set (map path_Base keys)"
  obtain w2 where w2: "pruneGone order ?seen w1 = (Ret (), w2)" "m_byHash w2 = m_byHash w1 |` ?seen"
    using pruneGone_run [OF order fin, of ?seen] by simp
  have "Reload cfg cli lib order w = (Ret (), w2)"
    using l(1) w1(1) w2(1) by (simp add: Reload_def bindM_def)
  moreover have "listed cfg ?f ih \<longleftrightarrow> ih \<in> ?seen" for ih
    using l(3) by (simp add: listed_def)
  moreover have "after_pass lib (torrent_at cfg lib ?f ih) True ih (m_byHash w ih) (m_byHash w2 ih)"
    if "ih \<in> ?seen" for ih
    using w1(2) [of ih] w2(2) that by simp
  moreover have "m_byHash w2 ih = None" if "ih \<notin> ?seen" for ih
    using w2(2) that by simp
  ultimately show ?thesis by (intro exI [of _ w2]) simp
qed

section \<open>Names that collide\<close>

text \<open>Every loaded torrent can be found under its display name.\<close>

definition meta_reach :: "('s, 'z) mworld_scheme \<Rightarrow> bool" where
  "meta_reach w \<longleftrightarrow> (\<forall>ih tm. m_byHash w ih = Some tm \<longrightarrow> m_byName w (DisplayName tm) = Some tm)"

lemma meta_reach_install:
  assumes "meta_reach w" and "m_byName w (unique_of (m_byName w) (sanitizeName (info_Name info)) ih) = None"
  shows "meta_reach (install lib info ih w)"
proof -
  have "DisplayName tm \<noteq> unique_of (m_byName w) (sanitizeName (info_Name info)) ih"
    if "m_byHash w i = Some tm" for i tm
    using assms that by (metis meta_reach_def option.distinct(1))
  with assms(1) show ?thesis by (auto simp: meta_reach_def install_def Let_def)
qed

lemma meta_reach_pruned:
  assumes "meta_wf w" and "meta_reach w"
  shows "meta_reach (w\<lparr>m_byHash := m_byHash w |` seen,
    m_byName := (\<lambda>n. if n \<in> doomed (m_byHash w) UNIV seen then None else m_byName w n)\<rparr>)"
proof -
  have "DisplayName tm \<notin> doomed (m_byHash w) UNIV seen"
    if "m_byHash w ih = Some tm" "ih \<in> seen" for ih tm
  proof
    assume "DisplayName tm \<in> doomed (m_byHash w) UNIV seen"
    then obtain ih' tm' where g: "DisplayName tm' = DisplayName tm" "ih' \<notin> seen" "m_byHash w ih' = Some tm'"
      by (auto simp: doomed_def)
    with assms(2) that(1) have "tm' = tm" unfolding meta_reach_def by (metis option.inject)
    with g that assms(1) show False unfolding meta_wf_def by metis
  qed
  with assms(2) show ?thesis by (auto simp: meta_reach_def restrict_map_def split: if_splits)
qed

section \<open>Properties\<close>

lemma buildMeta_RetD:
  assumes "buildMeta lib info ih w = (Ret tm, w')"
  shows "v1_info lib info \<and> tm = meta_of lib info ih \<and> w' = w"
proof -
  have "v1_info lib info"
    using assms buildMeta_v2 [of lib info ih w] buildMeta_negative [of lib info ih w]
    by (cases "0 \<le> NumPieces lib info") (auto simp: v1_info_def)
  with assms buildMeta_run [of lib info ih w] show ?thesis by (simp add: v1_info_def)
qed

text \<open>
  The file table of \<open>buildMeta\<close> tiles the piece stream: with the parser's documented
  total length and lengths that are not negative and fit an \<open>int64\<close>, the files lie one
  after the other from offset 0 to the total length without gap or overlap (so the 64-bit
  additions of the loop never wrap), every file ends inside the stream, there is one piece
  hash per piece, and the root name is never empty, \<open>.\<close> or \<open>..\<close>.
\<close>

theorem buildMeta_layout:
  assumes "total_law lib" and "sane_lengths info"
    and "buildMeta lib info ih w = (Ret tm, w')"
  shows "tiles 0 (Files tm) (TotalLen tm)
    \<and> (\<forall>f\<in>set (Files tm). 0 \<le> Offset f \<and> 0 \<le> Size f \<and> Offset f + Size f \<le> TotalLen tm)
    \<and> int (length (PieceHashes tm)) = NumPieces lib info
    \<and> Name tm \<noteq> [] \<and> Name tm \<noteq> ''.'' \<and> Name tm \<noteq> ''..'' \<and> w' = w"
proof -
  from buildMeta_RetD [OF assms(3)] have tm: "tm = meta_of lib info ih" "w' = w" "0 \<le> NumPieces lib info"
    by (simp_all add: v1_info_def)
  have t: "tiles 0 (Files tm) (TotalLen tm)"
    using files_of_tiles [OF assms(1,2)] by (simp add: tm(1) meta_of_def)
  moreover from tiles_bounds [OF this]
  have "\<forall>f\<in>set (Files tm). 0 \<le> Offset f \<and> 0 \<le> Size f \<and> Offset f + Size f \<le> TotalLen tm" by blast
  ultimately show ?thesis
    using tm(2,3) sanitizeName_ok [of "info_Name info"] length_hashes_of [of lib info]
    by (simp add: tm(1) meta_of_def)
qed

text \<open>A torrent of two files of 3 and 2 bytes in pieces of 4.\<close>

definition two_files :: Info where
  "two_files = \<lparr>info_Name = ''a'', info_PieceLength = 4, info_Pieces = replicate 20 1 @ replicate 20 2,
     info_Length = 0, info_Files = [\<lparr>fi_Path = [''x''], fi_Length = 3\<rparr>, \<lparr>fi_Path = [''d'', ''y''], fi_Length = 2\<rparr>],
     info_Other = []\<rparr>"

theorem buildMeta_layout_witness:
  "\<exists>tm. buildMeta lib0 two_files ''h'' () = (Ret tm, ()) \<and> tiles 0 (Files tm) (TotalLen tm)
    \<and> length (PieceHashes tm) = 2"
proof -
  have v1: "v1_info lib0 two_files" by (simp add: v1_info_def has_v1_def lib0_def two_files_def)
  then have run: "buildMeta lib0 two_files ''h'' () = (Ret (meta_of lib0 two_files ''h''), ())"
    by (simp add: v1_info_def buildMeta_run)
  have "sane_lengths two_files" by (simp add: sane_lengths_def two_files_def)
  note layout = buildMeta_layout [OF lib0_total this run]
  have "NumPieces lib0 two_files = 2" by (simp add: lib0_def two_files_def)
  with layout show ?thesis by (intro exI [of _ "meta_of lib0 two_files ''h''"]) (simp add: run)
qed

definition order0 :: maporder where
  "order0 m = sorted_list_of_set (dom m)"

lemma order0_law: "order_law order0"
  by (simp add: order_law_def order0_def)

text \<open>
  C25: the catalogue's invariant holds after any number of reloads, in every order of the
  map iterations and whatever the service and the stored torrents make of each reload
  (errors, malformed torrents, panics): a name in \<open>byName\<close> always leads to a torrent with
  that display name which is loaded under its own infohash, and \<open>byHash\<close> is keyed by the
  infohash of its torrents.
\<close>

theorem Reload_invariant:
  assumes "order_law order"
  shows "meta_wf (((\<lambda>w. snd (Reload cfg cli lib order w)) ^^ n) (newMeta cfg s))"
proof (induction n)
  case (Suc n)
  then show ?case by (simp add: keeps_meta_Reload [OF assms, unfolded keeps_def, rule_format])
qed (simp add: meta_wf_newMeta)

theorem Reload_invariant_witness:
  "meta_wf (((\<lambda>w. snd (Reload cfg0 mem_s3 lib0 order0 w)) ^^ 2) (newMeta cfg0 (mem_of [])))"
  by (rule Reload_invariant [OF order0_law])

text \<open>A torrent in the format of the test library.\<close>

definition tor_a :: bytes where
  "tor_a = [1, 97, 4, 2, 3, 2] @ replicate 20 1 @ replicate 20 2"

lemma lib0_v1: "info_Name info \<noteq> ''v'' \<Longrightarrow> v1_info lib0 info"
  by (simp add: v1_info_def has_v1_def lib0_def)

lemma char_of_a: "char_of (97 :: nat) = CHR ''a''"
  by code_simp

lemma parsed_tor_a: "\<exists>info. parsed lib0 tor_a = Some info \<and> info_Name info = ''a''"
  by (simp add: parsed_def lib0_def info0_def tor_a_def chars_def char_of_a)

lemma parsed_Nil: "parsed lib0 [] = None"
  by (simp add: parsed_def lib0_def)

text \<open>
  When the listing itself fails, the catalogue is as before and the exception reaches
  the caller; when the listing reports a missing bucket or key on any page, the reload
  returns and the catalogue is emptied.
\<close>

theorem Reload_list_errors:
  assumes "order_law order" and "meta_wf w"
    and "ListPages cli (S3Bucket cfg) (PrefixTorrents cfg) (w_s3 w) = (pre @ Inl err # post, s')"
    and "\<forall>pg\<in>set pre. \<exists>ks. pg = Inr ks"
  shows "if isNotFound err
    then \<exists>w'. Reload cfg cli lib order w = (Ret (), w')
      \<and> m_byHash w' = Map.empty \<and> m_byName w' = Map.empty
    else \<exists>e. Reload cfg cli lib order w = (Panicked (PException e), w\<lparr>w_s3 := s'\<rparr>)"
proof -
  have pages: "list_pages p acc (pre @ Inl err # post) v =
      (if isNotFound err then (Ret [], v)
       else (Panicked (PException (Exception (Errorf ''s3 ListObjectsV2 %s: %v'' [AStr p, AErr err]))), v))"
    for p acc and v :: "('a, 'b) mworld_scheme"
    using assms(4) by (induction pre arbitrary: acc) (auto simp: outcome_simps)
  show ?thesis
  proof (cases "isNotFound err")
    case False
    with pages assms(3) show ?thesis by (simp add: Reload_def List_def bindM_def call_def)
  next
    case nf: True
  let ?w = "w\<lparr>w_s3 := s'\<rparr>"
  have fin: "finite (dom (m_byHash ?w))" using assms(2) by (simp add: meta_wf_def)
  have "\<forall>n tm. m_byName w n = Some tm \<longrightarrow> n \<in> doomed (m_byHash w) UNIV {}"
    using assms(2) by (simp add: meta_wf_def doomed_def) metis
  then have "(\<lambda>n. if n \<in> doomed (m_byHash ?w) UNIV {} then None else m_byName ?w n) = Map.empty"
    by (intro ext) (auto split: if_splits)
  then have "pruneGone order {} ?w = (Ret (), ?w\<lparr>m_byHash := Map.empty, m_byName := Map.empty\<rparr>)"
    using pruneGone_run [OF assms(1) fin, of "{}"] by (simp only:) simp
  moreover have "Reload cfg cli lib order w = pruneGone order {} ?w"
    using pages nf assms(3) by (simp add: Reload_def List_def bindM_def call_def ret_def)
  ultimately show ?thesis using nf by auto
  qed
qed

theorem Reload_list_errors_witness:
  "\<not> isNotFound slow_down
    \<and> (\<exists>e. Reload cfg0 mem_s3 lib0 order0 (newMeta cfg0 ([], [True]))
          = (Panicked (PException e), (newMeta cfg0 ([], [True]))\<lparr>w_s3 := ([], [])\<rparr>))"
proof -
  have pages: "ListPages mem_s3 (S3Bucket cfg0) (PrefixTorrents cfg0) (w_s3 (newMeta cfg0 ([], [True])))
      = ([] @ Inl slow_down # [], ([], []))"
    by (simp add: mem_s3_def mem_fails_def mem_tick_def newMeta_def)
  have nf: "\<not> isNotFound slow_down" by (simp add: isNotFound_def slow_down_def)
  from Reload_list_errors [OF order0_law meta_wf_newMeta pages, of lib0] nf show ?thesis by simp
qed

text \<open>
  A stored torrent that parses but has no v1 hash for some piece ends the reload with a
  panic that \<open>Try\<close> does not catch: neither the \<open>Try\<close> around the single load nor one around
  the whole reload stops it.
\<close>

theorem Reload_v2_escapes:
  assumes "List cfg cli (PrefixTorrents cfg) w = (Ret (k # ks), w1)"
    and "m_byHash w1 (path_Base k) = None"
    and "Cat cfg cli (KeyTorrent cfg (path_Base k)) w1 = (Ret d, w2)"
    and "parsed lib d = Some info" and "\<not> has_v1 lib info"
  shows "\<exists>p. Try (Reload cfg cli lib order) w = (Panicked p, w2) \<and> (\<forall>e. p \<noteq> PException e)"
proof -
  from loadOne_v2 [OF assms(3,4)] assms(5) obtain p where
    p: "loadOne cfg cli lib (path_Base k) w1 = (Panicked p, w2)" "\<forall>e. p \<noteq> PException e"
    by (auto simp: v1_info_def)
  then have "Reload cfg cli lib order w = (Panicked p, w2)"
    using assms(1,2)
    by (cases p) (simp_all add: Reload_def reload_one_def Let_def bindM_def getM_def Try_def)
  with p(2) show ?thesis by (cases p) (simp_all add: Try_def)
qed

definition tor_v2 :: bytes where
  "tor_v2 = [1, 118, 4, 1, 3] @ replicate 20 1"

lemma parsed_v2: "parsed lib0 tor_v2 = Some \<lparr>info_Name = ''v'', info_PieceLength = 4,
    info_Pieces = replicate 20 1, info_Length = 3, info_Files = [], info_Other = []\<rparr>"
proof -
  have "char_of (118 :: nat) = CHR ''v''" by code_simp
  then show ?thesis by (simp add: parsed_def lib0_def info0_def tor_v2_def chars_def)
qed

theorem Reload_v2_escapes_witness:
  "\<exists>p w2. Try (Reload cfg0 mem_s3 lib0 order0) (newMeta cfg0 (mem_of [(''t/torrents/h'', tor_v2)]))
    = (Panicked p, w2) \<and> (\<forall>e. p \<noteq> PException e)"
proof -
  let ?w = "newMeta cfg0 (mem_of [(''t/torrents/h'', tor_v2)])"
  have base: "path_Base ''t/torrents/h'' = ''h''"
    using path_Base_append(1) [of "''h''" "''t/torrents''"] by simp
  have l: "List cfg0 mem_s3 (PrefixTorrents cfg0) ?w = (Ret [''t/torrents/h''], ?w)"
    by (simp add: List_def bindM_def call_def mem_s3_def mem_fails_def mem_tick_def mem_of_def
        newMeta_def ret_def PrefixTorrents_def strings_HasPrefix_def)
  have c: "Cat cfg0 mem_s3 (KeyTorrent cfg0 (path_Base ''t/torrents/h'')) ?w = (Ret tor_v2, ?w)"
    by (simp add: Cat_def bindM_def call_def mem_s3_def mem_fails_def mem_tick_def mem_of_def
        newMeta_def Throw2_run KeyTorrent_def base)
  have "\<not> has_v1 lib0 \<lparr>info_Name = ''v'', info_PieceLength = 4,
    info_Pieces = replicate 20 1, info_Length = 3, info_Files = [], info_Other = []\<rparr>"
    by (simp add: has_v1_def lib0_def)
  from Reload_v2_escapes [OF l _ c parsed_v2 this, of order0] show ?thesis
    by (auto simp: newMeta_def)
qed

text \<open>
  \<open>uniqueName\<close> does not make names unique. When the plain name is taken and the name
  with the suffix is taken too, by another torrent, loading a third one succeeds and takes
  the other torrent's name away: that torrent stays loaded but no name leads to it any more.
\<close>

theorem uniqueName_clash_hides:
  assumes "meta_wf w" and "m_byHash w ih = None"
    and "m_byName w (sanitizeName (info_Name info)) \<noteq> None"
    and "m_byName w (sanitizeName (info_Name info) @ ''-'' @ take 8 ih) = Some other"
    and "Cat cfg cli (KeyTorrent cfg ih) w = (Ret d, w1)"
    and "parsed lib d = Some info" and "v1_info lib info"
  shows "\<exists>w'. loadOne cfg cli lib ih w = (Ret (), w')
    \<and> m_byHash w' (Infohash other) = Some other \<and> (\<forall>n. m_byName w' n \<noteq> Some other)"
proof -
  let ?n = "sanitizeName (info_Name info) @ ''-'' @ take 8 ih"
  have u: "unique_of (m_byName w) (sanitizeName (info_Name info)) ih = ?n"
    using assms(3) by (simp add: unique_of_def)
  have o: "DisplayName other = ?n" "m_byHash w (Infohash other) = Some other"
    using assms(1,4) by (simp_all add: meta_wf_def)
  have ne: "Infohash other \<noteq> ih" using o(2) assms(2) by auto
  have only: "m_byName w n = Some other \<Longrightarrow> n = ?n" for n
    using assms(1) o(1) by (auto simp: meta_wf_def)
  have maps: "m_byHash w1 = m_byHash w" "m_byName w1 = m_byName w"
    using Cat_maps [OF assms(5)] by simp_all
  have "m_byHash (install lib info ih w1) (Infohash other) = Some other"
    using ne o(2) maps by (simp add: install_def Let_def)
  moreover have "m_byName (install lib info ih w1) n \<noteq> Some other" for n
    using ne only [of n] maps u by (auto simp: install_def Let_def meta_of_def)
  ultimately show ?thesis using loadOne_run [OF assms(5-7)] by blast
qed

definition clash_world :: "mem mworld" where
  "clash_world =
     (let t1 = (meta_of lib0 two_files ''h1'')\<lparr>DisplayName := ''a''\<rparr>;
          t2 = (meta_of lib0 two_files ''h2'')\<lparr>DisplayName := ''a-h3''\<rparr>
      in \<lparr>w_s3 = mem_of [(''t/torrents/h3'', tor_a)], w_puts = 0,
          rw_cache = newLRU 1000, rw_spawned = [],
          m_byName = [''a'' \<mapsto> t1, ''a-h3'' \<mapsto> t2], m_byHash = [''h1'' \<mapsto> t1, ''h2'' \<mapsto> t2]\<rparr>)"

theorem uniqueName_clash_hides_witness:
  "\<exists>w' other. loadOne cfg0 mem_s3 lib0 ''h3'' clash_world = (Ret (), w')
    \<and> m_byHash w' ''h2'' = Some other \<and> (\<forall>n. m_byName w' n \<noteq> Some other)"
proof -
  obtain info where info: "parsed lib0 tor_a = Some info" "info_Name info = ''a''"
    using parsed_tor_a by blast
  have san: "sanitizeName (info_Name info) = ''a''"
    by (simp add: info(2) sanitizeName_def go_defs)
  have wf: "meta_wf clash_world"
    by (auto simp: meta_wf_def clash_world_def Let_def meta_of_def split: if_splits)
  have c: "Cat cfg0 mem_s3 (KeyTorrent cfg0 ''h3'') clash_world = (Ret tor_a, clash_world)"
    by (simp add: Cat_def bindM_def call_def mem_s3_def mem_fails_def mem_tick_def mem_of_def
        clash_world_def Throw2_run KeyTorrent_def Let_def)
  have names: "m_byHash clash_world ''h3'' = None" "m_byName clash_world ''a'' \<noteq> None"
    "m_byName clash_world (''a'' @ ''-'' @ take 8 ''h3'')
      = Some ((meta_of lib0 two_files ''h2'')\<lparr>DisplayName := ''a-h3''\<rparr>)"
    by (simp_all add: clash_world_def Let_def)
  have ih: "Infohash ((meta_of lib0 two_files ''h2'')\<lparr>DisplayName := ''a-h3''\<rparr>) = ''h2''"
    by (simp add: meta_of_def)
  from uniqueName_clash_hides [OF wf names(1) _ _ c info(1) lib0_v1, unfolded san, OF names(2,3)]
  show ?thesis unfolding ih by (auto simp: info(2))
qed

end
