(* ===== verification/Reader.thy ===== *)
theory Reader
  imports Meta
begin

text \<open>
  The read path of \<^verbatim>\<open>sftp.go\<close>: \<open>virtualFile.ReadAt\<close> over \<open>getPiece\<close>, which goes
  through the LRU cache, the singleflight group and the store. The SFTP daemon,
  \<^verbatim>\<open>samogon get\<close> and (with its own variant) \<^verbatim>\<open>samogon repack\<close> read
  through this code.

  A call of \<open>group.Do\<close> runs its function and returns; when the function panics, \<open>Do\<close>
  panics too, with a value of its own package. That value is the parameter \<open>sf\<close>, a function
  of the panic it stands for. A prefetch goroutine is recorded in \<open>rw_spawned\<close> when it is
  launched, and \<open>prefetch\<close> is its body.

  The theorems show that a read never returns a wrong byte, whatever the service does and
  whatever else runs in between as long as it keeps the cache coherent, and that with the
  service up and room for one piece it returns exactly the bytes asked for.
\<close>

section \<open>Cache steps and singleflight\<close>

definition cacheGet :: "string \<Rightarrow> (('s, 'z) cworld_scheme, bytes option) prog" where
  "cacheGet key w = (case LRU_Get key (rw_cache w) of (r, c) \<Rightarrow> (Ret r, w\<lparr>rw_cache := c\<rparr>))"

definition cachePut :: "string \<Rightarrow> bytes \<Rightarrow> (('s, 'z) cworld_scheme, unit) prog" where
  "cachePut key val = modifyM (\<lambda>w. w\<lparr>rw_cache := LRU_Put key val (rw_cache w)\<rparr>)"

definition sf_Do :: "(panicval \<Rightarrow> panicval) \<Rightarrow> ('w, unit) prog \<Rightarrow> ('w, unit) prog" where
  "sf_Do sf fn w = (case fn w of
      (Ret x, w') \<Rightarrow> (Ret x, w')
    | (Panicked p, w') \<Rightarrow> (Panicked (sf p), w')
    | (Blocked, w') \<Rightarrow> (Blocked, w'))"

definition spawn :: "string \<Rightarrow> (('s, 'z) cworld_scheme, unit) prog" where
  "spawn hash = modifyM (\<lambda>w. w\<lparr>rw_spawned := rw_spawned w @ [hash]\<rparr>)"

text \<open>\<open>xs[i]\<close> of Go.\<close>

definition go_index :: "'a list \<Rightarrow> int \<Rightarrow> ('w, 'a) prog" where
  "go_index xs i = (if 0 \<le> i \<and> i < int (length xs) then ret (xs ! nat i)
     else panic (PRuntime ''index out of range''))"

section \<open>getPiece\<close>

text \<open>The function given to \<open>Do\<close> by a foreground read, and the body of a prefetch goroutine.\<close>

definition fillPiece ::
  "Config \<Rightarrow> 's s3api \<Rightarrow> string \<Rightarrow> (('s, 'z) cworld_scheme, unit) prog" where
  "fillPiece cfg cli hash =
     bindM (cacheGet hash) (\<lambda>hit.
       if hit \<noteq> None then ret ()
       else bindM (Cat cfg cli (KeyPiece cfg hash)) (\<lambda>data. cachePut hash data))"

definition prefetch ::
  "(panicval \<Rightarrow> panicval) \<Rightarrow> Config \<Rightarrow> 's s3api \<Rightarrow> string \<Rightarrow> (('s, 'z) cworld_scheme, unit) prog" where
  "prefetch sf cfg cli hash =
     sf_Do sf (bindM (cacheGet hash) (\<lambda>hit.
       if hit \<noteq> None then ret ()
       else bindM (Try (bindM (Cat cfg cli (KeyPiece cfg hash)) (\<lambda>data. cachePut hash data)))
              (\<lambda>_. ret ())))"

definition getPiece ::
  "(panicval \<Rightarrow> panicval) \<Rightarrow> Config \<Rightarrow> 's s3api \<Rightarrow> string list \<Rightarrow> int
    \<Rightarrow> (('s, 'z) cworld_scheme, bytes) prog" where
  "getPiece sf cfg cli hashes idx =
     (let d = PrefetchDistance cfg in
      bindM (if d > 0 \<and> wrap64 (idx + d) < int (length hashes)
             then bindM (go_index hashes (wrap64 (idx + d))) (\<lambda>hash. spawn hash)
             else ret ()) (\<lambda>_.
      bindM (go_index hashes idx) (\<lambda>hash.
      bindM (cacheGet hash) (\<lambda>hit. case hit of
          Some data \<Rightarrow> ret data
        | None \<Rightarrow>
            bindM (sf_Do sf (fillPiece cfg cli hash)) (\<lambda>_.
            bindM (cacheGet hash) (\<lambda>r. ret (case r of Some data \<Rightarrow> data | None \<Rightarrow> [])))))))"

section \<open>ReadAt\<close>

text \<open>
  The loop of \<open>ReadAt\<close>: \<open>plen\<close> is \<open>len(p)\<close> after clipping, \<open>acc\<close> the \<open>total\<close> bytes of \<open>p\<close>
  filled so far. \<open>get\<close> is \<open>v.getPiece\<close>. Each turn adds at least one byte.
\<close>

function read_loop ::
  "(int \<Rightarrow> ('w, bytes) prog) \<Rightarrow> nat \<Rightarrow> int \<Rightarrow> nat \<Rightarrow> int \<Rightarrow> bytes \<Rightarrow> ('w, bytes) prog" where
  "read_loop get n pieceLen plen streamOff acc w =
     (if length acc < plen then
        if pieceLen = 0 then (Panicked (PRuntime ''integer divide by zero''), w)
        else
          let pieceIdx = streamOff sdiv pieceLen in
          if int n \<le> pieceIdx then (Ret acc, w)
          else
            let pieceOff = streamOff smod pieceLen in
            (case get pieceIdx w of
               (Ret piece, w') \<Rightarrow>
                 if int (length piece) \<le> pieceOff then (Ret acc, w')
                 else if pieceOff < 0 then (Panicked (PRuntime ''slice bounds out of range''), w')
                 else
                   let c = take (plen - length acc) (drop (nat pieceOff) piece) in
                   if c = [] then (Ret acc, w')
                   else read_loop get n pieceLen plen (wrap64 (streamOff + int (length c))) (acc @ c) w'
             | (Panicked p, w') \<Rightarrow> (Panicked p, w')
             | (Blocked, w') \<Rightarrow> (Blocked, w'))
      else (Ret acc, w))"
  by pat_completeness auto
termination
  by (relation "measure (\<lambda>(get, n, pieceLen, plen, streamOff, acc, w). plen - length acc)") auto

declare read_loop.simps [simp del]

text \<open>A \<open>virtualFile\<close>: the torrent and the file entry; the rest of it is the process state.\<close>

record virtualFile =
  vf_tm :: TorrentMeta
  vf_file :: FileEntry

text \<open>
  \<open>ReadAt(p, off)\<close> with \<open>len(p) = plen\<close>: the bytes it put into \<open>p\<close>, and the error.
  \<open>get\<close> stands for \<open>v.getPiece\<close>.
\<close>

definition ReadAt_with ::
  "(int \<Rightarrow> ('w, bytes) prog) \<Rightarrow> virtualFile \<Rightarrow> nat \<Rightarrow> int \<Rightarrow> ('w, bytes \<times> goerr option) prog" where
  "ReadAt_with get v plen off =
     (if off < 0 then ret ([], Some (Errorf ''negative offset'' []))
      else if off \<ge> Size (vf_file v) then ret ([], Some EOF)
      else
        let remaining = Size (vf_file v) - off;
            plen = (if int plen > remaining then nat remaining else plen);
            streamOff = wrap64 (Offset (vf_file v) + off)
        in bindM (read_loop get
                    (length (PieceHashes (vf_tm v))) (PieceLen (vf_tm v)) plen streamOff [])
             (\<lambda>p. let total = length p in
               if int total < remaining \<and> total < plen then ret (p, Some EOF)
               else if wrap64 (off + int total) \<ge> Size (vf_file v) then ret (p, Some EOF)
               else ret (p, None)))"

definition ReadAt ::
  "(panicval \<Rightarrow> panicval) \<Rightarrow> Config \<Rightarrow> 's s3api \<Rightarrow> virtualFile \<Rightarrow> nat \<Rightarrow> int
    \<Rightarrow> (('s, 'z) cworld_scheme, bytes \<times> goerr option) prog" where
  "ReadAt sf cfg cli v = ReadAt_with (getPiece sf cfg cli (PieceHashes (vf_tm v))) v"

section \<open>getPiece in a process where others use the cache\<close>

text \<open>
  A call of \<open>getPiece\<close> is not alone: prefetch goroutines, of this session and of others, work on the same
  cache while it runs. \<open>ot_runs\<close> says which of them run at each of its steps: before the first lookup
  (\<open>Looking\<close>), before \<open>Do\<close> (\<open>Calling\<close>), inside its function before the second lookup (\<open>Checking\<close>), before the
  fetch (\<open>Loading\<close>) and between the fetch and the \<open>Put\<close> (\<open>Storing\<close>), and between \<open>Do\<close> and the last
  lookup (\<open>Returning\<close>). \<open>ot_call\<close> says whether \<open>Do\<close> runs the caller's function, joins the flight of a prefetch of the
  same piece, or joins one whose function is already over.
\<close>

datatype moment = Looking | Calling | Checking | Loading | Storing | Returning

datatype call_turn = Leads | Joins | Joins_late

record others =
  ot_runs :: "moment \<Rightarrow> string list"
  ot_call :: call_turn

definition alone :: others where
  "alone = \<lparr>ot_runs = (\<lambda>_. []), ot_call = Leads\<rparr>"

text \<open>
  The steps that \<open>getPiece\<close> and the piece stream of \<^verbatim>\<open>repack.go\<close> share: \<open>cat\<close> fetches a piece, \<open>pre\<close> is
  the body of a prefetch goroutine. \<open>busy_call\<close> is the call of \<open>Do\<close>; in \<open>busy_cache\<close>, \<open>None\<close> stands for the piece
  that is not in the cache at the end.
\<close>

definition busy_call ::
  "(panicval \<Rightarrow> panicval) \<Rightarrow> (string \<Rightarrow> (('s, 'z) cworld_scheme, bytes) prog)
    \<Rightarrow> (string \<Rightarrow> (('s, 'z) cworld_scheme, unit) prog) \<Rightarrow> others \<Rightarrow> string \<Rightarrow> (('s, 'z) cworld_scheme, unit) prog" where
  "busy_call sf cat pre ot hash = (case ot_call ot of
       Leads \<Rightarrow> sf_Do sf (
         bindM (forM (ot_runs ot Checking) pre) (\<lambda>_.
         bindM (cacheGet hash) (\<lambda>hit.
           if hit \<noteq> None then ret ()
           else
             bindM (forM (ot_runs ot Loading) pre) (\<lambda>_.
             bindM (cat hash) (\<lambda>data.
             bindM (forM (ot_runs ot Storing) pre) (\<lambda>_. cachePut hash data))))))
     | Joins \<Rightarrow> pre hash
     | Joins_late \<Rightarrow> ret ())"

definition busy_cache ::
  "(panicval \<Rightarrow> panicval) \<Rightarrow> Config \<Rightarrow> (string \<Rightarrow> (('s, 'z) cworld_scheme, bytes) prog)
    \<Rightarrow> (string \<Rightarrow> (('s, 'z) cworld_scheme, unit) prog) \<Rightarrow> others \<Rightarrow> string list \<Rightarrow> int
    \<Rightarrow> (('s, 'z) cworld_scheme, bytes option) prog" where
  "busy_cache sf cfg cat pre ot hashes idx =
     (let d = PrefetchDistance cfg in
      bindM (if d > 0 \<and> wrap64 (idx + d) < int (length hashes)
             then bindM (go_index hashes (wrap64 (idx + d))) (\<lambda>hash. spawn hash)
             else ret ()) (\<lambda>_.
      bindM (go_index hashes idx) (\<lambda>hash.
      bindM (forM (ot_runs ot Looking) pre) (\<lambda>_.
      bindM (cacheGet hash) (\<lambda>hit. case hit of
          Some data \<Rightarrow> ret (Some data)
        | None \<Rightarrow>
            bindM (forM (ot_runs ot Calling) pre) (\<lambda>_.
            bindM (busy_call sf cat pre ot hash) (\<lambda>_.
            bindM (forM (ot_runs ot Returning) pre) (\<lambda>_. cacheGet hash))))))))"

text \<open>\<open>bg idx\<close> is what the others do during the call for piece \<open>idx\<close>.\<close>

definition getPiece_busy ::
  "(panicval \<Rightarrow> panicval) \<Rightarrow> Config \<Rightarrow> 's s3api \<Rightarrow> (int \<Rightarrow> others) \<Rightarrow> string list \<Rightarrow> int
    \<Rightarrow> (('s, 'z) cworld_scheme, bytes) prog" where
  "getPiece_busy sf cfg cli bg hashes idx =
     bindM (busy_cache sf cfg (\<lambda>hash. Cat cfg cli (KeyPiece cfg hash)) (prefetch sf cfg cli) (bg idx) hashes idx)
       (\<lambda>r. ret (case r of Some data \<Rightarrow> data | None \<Rightarrow> []))"

lemma bindM_case_option:
  "bindM (case x of None \<Rightarrow> m | Some y \<Rightarrow> f y) g = (case x of None \<Rightarrow> bindM m g | Some y \<Rightarrow> bindM (f y) g)"
  by (cases x) simp_all

text \<open>With nobody else at work it is \<open>getPiece\<close>.\<close>

lemma getPiece_busy_idle: "getPiece_busy sf cfg cli (\<lambda>_. alone) hashes = getPiece sf cfg cli hashes"
  by (simp add: fun_eq_iff getPiece_busy_def busy_cache_def busy_call_def getPiece_def fillPiece_def alone_def Let_def bindM_assoc
      bindM_case_option bindM_ret cong: option.case_cong if_cong)

text \<open>
  The room an exact read needs: from the moment a piece comes into the cache to the read of it, fewer of
  the others use the cache than it has entries.
\<close>

definition leaves_room :: "Config \<Rightarrow> (int \<Rightarrow> others) \<Rightarrow> bool" where
  "leaves_room cfg bg \<longleftrightarrow> (\<forall>i. int (length (ot_runs (bg i) Returning)) < LRUSize cfg \<and> ot_call (bg i) \<noteq> Joins_late)"

lemma leaves_room_some: "leaves_room cfg bg \<Longrightarrow> 0 < LRUSize cfg"
  unfolding leaves_room_def by (meson le_less_trans of_nat_0_le_iff)

lemma leaves_room_alone [simp]: "leaves_room cfg (\<lambda>_. alone) \<longleftrightarrow> 0 < LRUSize cfg"
  by (simp add: leaves_room_def alone_def)

section \<open>A source of pieces\<close>

text \<open>What one piece adds to a read: the stream goes on by the bytes taken from it.\<close>

lemma read_extends:
  assumes u: "uniform L ps" and pos: "start + length acc < length (concat ps)"
    and acc: "acc = slice start (length acc) (concat ps)"
    and c: "c = take m (drop ((start + length acc) mod L) (ps ! ((start + length acc) div L)))"
  shows "acc @ c = slice start (length (acc @ c)) (concat ps)"
proof -
  let ?pos = "start + length acc"
  let ?d = "ps ! (?pos div L)"
  have short: "take (length c) (drop (?pos mod L) ?d) = c" by (simp add: c min_def)
  have "length c \<le> length ?d - ?pos mod L" by (simp add: c)
  from uniform_locate_slice [OF u pos this] have "c = slice ?pos (length c) (concat ps)" by (rule trans [OF short [symmetric]])
  then show ?thesis unfolding length_append slice_append by (rule arg_cong2 [OF acc])
qed

text \<open>
  One turn of the loop at a position inside the stream. A piece that is there moves the loop on by at
  least one byte; when nothing came, or the call did not return, that ends it.
\<close>

lemma read_loop_turn:
  assumes u: "uniform L ps" and L: "0 < L" and pos: "start + length acc < length (concat ps)" and more: "length acc < plen"
  shows "read_loop piece (length ps) (int L) plen (int (start + length acc)) acc w =
    (case piece (int ((start + length acc) div L)) w of
       (Ret d, w') \<Rightarrow>
         if length d \<le> (start + length acc) mod L then (Ret acc, w')
         else let c = take (plen - length acc) (drop ((start + length acc) mod L) d) in
           if c = [] then (Ret acc, w')
           else read_loop piece (length ps) (int L) plen (wrap64 (int (start + length acc) + int (length c))) (acc @ c) w'
     | (Panicked p, w') \<Rightarrow> (Panicked p, w') | (Blocked, w') \<Rightarrow> (Blocked, w'))"
proof -
  let ?pos = "start + length acc"
  have dm: "int ?pos sdiv int L = int (?pos div L)" "int ?pos smod int L = int (?pos mod L)"
    using L by (simp_all add: sdiv_nat smod_nat del: of_nat_add)
  obtain rp wp where get: "piece (int (?pos div L)) w = (rp, wp)" by fastforce
  from L more uniform_locate_index [OF u pos] get show ?thesis
    by (subst read_loop.simps) (cases rp; simp add: dm Let_def del: of_nat_add)
qed

lemma read_loop_miss:
  assumes "uniform L ps" and "0 < L" and "start + length acc < length (concat ps)" and "length acc < plen"
    and "piece (int ((start + length acc) div L)) w = (rp, wp)" and "\<nexists>d. rp = Ret d \<and> d \<noteq> []"
  shows "read_loop piece (length ps) (int L) plen (int (start + length acc)) acc w
    = (case rp of Ret _ \<Rightarrow> Ret acc | Panicked p \<Rightarrow> Panicked p | Blocked \<Rightarrow> Blocked, wp)"
  using assms(5,6) by (subst read_loop_turn [OF assms(1-4)]) (cases rp; auto)

lemma read_loop_hit:
  fixes acc :: bytes and ps :: "bytes list"
  defines "c \<equiv> \<lambda>L start plen. take (plen - length acc) (drop ((start + length acc) mod L) (ps ! ((start + length acc) div L)))"
  assumes u: "uniform L ps" and L: "0 < L" and b: "length (concat ps) < 2 ^ 63" and within: "start + plen \<le> length (concat ps)"
    and more: "length acc < plen"
    and get: "piece (int ((start + length acc) div L)) w = (Ret (ps ! ((start + length acc) div L)), wp)"
  shows "length (acc @ c L start plen) \<le> plen" and "plen - length (acc @ c L start plen) < plen - length acc"
    and "read_loop piece (length ps) (int L) plen (int (start + length acc)) acc w
      = read_loop piece (length ps) (int L) plen (int (start + length (acc @ c L start plen))) (acc @ c L start plen) wp"
proof -
  let ?c = "c L start plen"
  from more within have pos: "start + length acc < length (concat ps)" by simp
  note off = uniform_locate_offset [OF u pos]
  with more have ne: "?c \<noteq> []" by (simp add: c_def)
  from more show len: "length (acc @ ?c) \<le> plen" by (simp add: c_def)
  from more ne show "plen - length (acc @ ?c) < plen - length acc" by (cases ?c) auto
  have "wrap64 (int (start + length acc) + int (length ?c)) = int (start + length (acc @ ?c))"
    using b within len by (subst wrap64_nonneg) auto
  with off ne get show "read_loop piece (length ps) (int L) plen (int (start + length acc)) acc w
      = read_loop piece (length ps) (int L) plen (int (start + length (acc @ ?c))) (acc @ ?c) wp"
    by (subst read_loop_turn [OF u L pos more]) (simp add: c_def Let_def del: of_nat_add length_append)
qed

text \<open>
  What the reading loops rely on. \<open>I\<close> is an invariant under which the pieces are \<open>ps\<close>; a
  call that returns keeps it and returns the piece or nothing. \<open>J\<close> marks the states from
  which calls do return the piece.
\<close>

locale piece_source =
  fixes piece :: "'c \<Rightarrow> int \<Rightarrow> ('w, bytes) prog"
    and I :: "'c \<Rightarrow> bytes list \<Rightarrow> 'w \<Rightarrow> bool"
  assumes piece_inv: "I c ps w \<Longrightarrow> 0 \<le> i \<Longrightarrow> i < int (length ps) \<Longrightarrow> piece c i w = (r, w') \<Longrightarrow> I c ps w'"
    and piece_right: "I c ps w \<Longrightarrow> 0 \<le> i \<Longrightarrow> i < int (length ps) \<Longrightarrow> piece c i w = (Ret d, w') \<Longrightarrow>
      d = ps ! nat i \<or> d = []"
begin

lemma read_loop_prefix:
  assumes "I c ps w" and "uniform L ps" and "0 < L"
    and "length (concat ps) < 2 ^ 63"
    and "start + plen \<le> length (concat ps)"
    and "acc = slice start (length acc) (concat ps)" and "length acc \<le> plen"
    and "read_loop (piece c) (length ps) (int L) plen (int (start + length acc)) acc w = (r, w')"
  shows "I c ps w' \<and> (\<forall>out. r = Ret out \<longrightarrow> prefix out (slice start plen (concat ps)))"
  using assms
proof (induction "plen - length acc" arbitrary: acc w rule: less_induct)
  case less
  let ?S = "concat ps" and ?pos = "start + length acc"
  have acc_prefix: "prefix acc (slice start plen ?S)"
    using less.prems(6,7) slice_prefix [of start "length acc" ?S "plen - length acc"] by simp
  show ?case
  proof (cases "length acc < plen")
    case False
    with less.prems(1,8) acc_prefix show ?thesis by (subst (asm) read_loop.simps) auto
  next
    case True
    with less.prems(5) have pos: "?pos < length ?S" by simp
    note idx = uniform_locate_index [OF less.prems(2) pos]
    obtain rp wp where get: "piece c (int (?pos div L)) w = (rp, wp)" by fastforce
    have inv: "I c ps wp" using piece_inv [OF less.prems(1) _ _ get] idx by simp
    show ?thesis
    proof (cases "\<exists>d. rp = Ret d \<and> d \<noteq> []")
      case False
      from read_loop_miss [where piece = "piece c", OF less.prems(2,3) pos True get False] less.prems(8) inv acc_prefix show ?thesis
        by (cases rp) auto
    next
      case hit: True
      then obtain d where d: "rp = Ret d" "d \<noteq> []" by blast
      with piece_right [OF less.prems(1) _ _ get [unfolded d(1)]] idx
      have "rp = Ret (ps ! (?pos div L))" by simp
      note on = read_loop_hit [where piece = "piece c", OF less.prems(2-5) True get [unfolded this]]
      note acc' = read_extends [OF less.prems(2) pos less.prems(6) refl, of "plen - length acc"]
      from less.hyps [OF on(2) inv less.prems(2-5) acc' on(1)] less.prems(8) on(3) show ?thesis by simp
    qed
  qed
qed

end

text \<open>A source that also delivers: in the states \<open>J\<close> every piece is returned.\<close>

locale live_source = piece_source +
  fixes J :: "'c \<Rightarrow> bytes list \<Rightarrow> 'w \<Rightarrow> bool"
  assumes piece_live: "I c ps w \<Longrightarrow> J c ps w \<Longrightarrow> 0 \<le> i \<Longrightarrow> i < int (length ps) \<Longrightarrow>
      \<exists>w'. piece c i w = (Ret (ps ! nat i), w') \<and> J c ps w'"
begin

lemma read_loop_exact:
  assumes "I c ps w" and "J c ps w" and "uniform L ps" and "0 < L"
    and "length (concat ps) < 2 ^ 63"
    and "start + plen \<le> length (concat ps)"
    and "length acc \<le> plen"
  shows "\<exists>out w'. read_loop (piece c) (length ps) (int L) plen (int (start + length acc)) acc w = (Ret out, w')
    \<and> length out = plen \<and> J c ps w'"
  using assms
proof (induction "plen - length acc" arbitrary: acc w rule: less_induct)
  case less
  let ?S = "concat ps" and ?pos = "start + length acc"
  show ?case
  proof (cases "length acc < plen")
    case False
    with less.prems(2,7) show ?thesis by (subst read_loop.simps) auto
  next
    case True
    with less.prems(6) have pos: "?pos < length ?S" by simp
    note idx = uniform_locate_index [OF less.prems(3) pos]
    from piece_live [OF less.prems(1,2), of "int (?pos div L)"] idx obtain wp where
      get: "piece c (int (?pos div L)) w = (Ret (ps ! (?pos div L)), wp)" and J: "J c ps wp" by auto
    have inv: "I c ps wp" using piece_inv [OF less.prems(1) _ _ get] idx by simp
    note on = read_loop_hit [where piece = "piece c", OF less.prems(3-6) True get]
    from less.hyps [OF on(2) inv J less.prems(3-6) on(1)] on(3) show ?thesis by simp
  qed
qed

end

section \<open>getPiece as a source of pieces\<close>

text \<open>
  What the pieces should be: \<open>content\<close> gives the bytes that belong to a hash. The store is
  sound for it when every piece it holds is right; the cache is coherent when every entry
  is. Neither says that a piece is there.
\<close>

definition sound_store ::
  "Config \<Rightarrow> 's view \<Rightarrow> (string \<Rightarrow> bytes option) \<Rightarrow> 's \<Rightarrow> bool" where
  "sound_store cfg objs content s \<longleftrightarrow>
     (\<forall>h d. objs s (S3Bucket cfg) (KeyPiece cfg h) = Some d \<longrightarrow> content h = Some d)"

definition coherent ::
  "Config \<Rightarrow> 's s3api \<Rightarrow> 's view \<Rightarrow> (string \<Rightarrow> bytes option) \<Rightarrow> ('s, 'z) cworld_scheme \<Rightarrow> bool" where
  "coherent cfg cli objs content w \<longleftrightarrow> s3_laws cli objs \<and> sound_store cfg objs content (w_s3 w)
     \<and> lru_wf (rw_cache w) \<and> agrees lru_lookup content (rw_cache w)"

text \<open>The service is up, the cache holds the configured number of pieces, at least one, and the pieces are stored.\<close>

definition serving ::
  "Config \<Rightarrow> 's s3api \<Rightarrow> 's view \<Rightarrow> ('s \<Rightarrow> bool) \<Rightarrow> string list \<Rightarrow> ('s, 'z) cworld_scheme \<Rightarrow> bool" where
  "serving cfg cli objs up hashes w \<longleftrightarrow> s3_up cli objs up \<and> up (w_s3 w) \<and> lru_cap (rw_cache w) = LRUSize cfg \<and> 0 < LRUSize cfg
     \<and> (\<forall>h\<in>set hashes. objs (w_s3 w) (S3Bucket cfg) (KeyPiece cfg h) \<noteq> None)"

lemma cacheGet_run:
  "cacheGet key w = (Ret (fst (LRU_Get key (rw_cache w))), w\<lparr>rw_cache := snd (LRU_Get key (rw_cache w))\<rparr>)"
  by (simp add: cacheGet_def split: prod.split)

lemma keeps_cacheGet [keeps_intros]: "keeps (coherent cfg cli objs content) (cacheGet k)"
  by (simp add: keeps_def cacheGet_run coherent_def lru.get_ok lru.agrees_get)

lemma keeps_spawn [keeps_intros]: "keeps (coherent cfg cli objs content) (spawn k)"
  by (simp add: keeps_def spawn_def modifyM_run coherent_def)

lemma keeps_sf_Do [keeps_intros]: "keeps I m \<Longrightarrow> keeps I (sf_Do sf m)"
  by (rule keepsI) (auto simp: sf_Do_def dest: keepsD split: outcome.splits prod.splits)

lemma keeps_go_index [keeps_intros]: "keeps I (go_index xs i)"
  by (simp add: go_index_def keeps_intros)

lemma coherent_Cat:
  assumes "coherent cfg cli objs content w" and "Cat cfg cli (KeyPiece cfg h) w = (r, w')"
  shows "coherent cfg cli objs content w' \<and> (\<forall>d. r = Ret d \<longrightarrow> content h = Some d)"
proof -
  have laws: "s3_laws cli objs" using assms(1) by (simp add: coherent_def)
  from Cat_law [OF laws assms(2)] Cat_frame [OF assms(2)] assms(1) show ?thesis
    by (auto simp: coherent_def sound_store_def)
qed

text \<open>Fetching a piece and putting it into the cache, with anything that keeps \<open>I\<close> in between.\<close>

lemma keeps_fetched:
  fixes m :: "(('s, 'z) cworld_scheme, unit) prog"
  assumes co: "\<And>w. I w \<Longrightarrow> coherent cfg cli objs content w"
    and cat: "\<And>w r w'. I w \<Longrightarrow> Cat cfg cli (KeyPiece cfg h) w = (r, w') \<Longrightarrow> I w'"
    and put: "\<And>w d. I w \<Longrightarrow> content h = Some d \<Longrightarrow> I (w\<lparr>rw_cache := LRU_Put h d (rw_cache w)\<rparr>)"
    and m: "keeps I m"
  shows "keeps I (bindM (Cat cfg cli (KeyPiece cfg h)) (\<lambda>d. bindM m (\<lambda>_. cachePut h d)))"
proof (rule keepsI)
  fix w r w' assume I: "I w" and run: "bindM (Cat cfg cli (KeyPiece cfg h)) (\<lambda>d. bindM m (\<lambda>_. cachePut h d)) w = (r, w')"
  obtain x w1 where c: "Cat cfg cli (KeyPiece cfg h) w = (x, w1)" by fastforce
  have d: "\<And>d. x = Ret d \<Longrightarrow> content h = Some d" using coherent_Cat [OF co [OF I] c] by blast
  have I1: "I w1" using I c by (rule cat)
  obtain y w2 where m2: "m w1 = (y, w2)" by fastforce
  have "I w2" by (rule keepsD [OF m I1 m2])
  with run c m2 d I1 put show "I w'" by (cases x; cases y) (auto simp: bindM_def cachePut_def modifyM_run)
qed

lemma keeps_Cat_Put [keeps_intros]:
  fixes m :: "(('s, 'z) cworld_scheme, unit) prog"
  assumes "keeps (coherent cfg cli objs content) m"
  shows "keeps (coherent cfg cli objs content) (bindM (Cat cfg cli (KeyPiece cfg h)) (\<lambda>d. bindM m (\<lambda>_. cachePut h d)))"
proof (rule keeps_fetched [OF _ _ _ assms])
  show "coherent cfg cli objs content w \<Longrightarrow> Cat cfg cli (KeyPiece cfg h) w = (r, w') \<Longrightarrow> coherent cfg cli objs content w'"
    for w :: "('s, 'z) cworld_scheme" and r w' using coherent_Cat by blast
qed (auto simp: coherent_def lru.put_ok lru.agrees_put)

lemma keeps_Cat_Put_now [keeps_intros]:
  "keeps (coherent cfg cli objs content) (bindM (Cat cfg cli (KeyPiece cfg h)) (\<lambda>d. cachePut h d))"
  using keeps_Cat_Put [OF keeps_ret, of cfg cli objs content h "()"] by simp

lemma keeps_fillPiece [keeps_intros]: "keeps (coherent cfg cli objs content) (fillPiece cfg cli h)"
  unfolding fillPiece_def by (intro keeps_intros)

lemma keeps_prefetch [keeps_intros]: "keeps (coherent cfg cli objs content) (prefetch sf cfg cli h)"
  unfolding prefetch_def by (intro keeps_intros)

lemma keeps_pre:
  assumes "\<And>h. keeps I (spawn h)"
  shows "keeps I
     (if 0 < d \<and> wrap64 (idx + d) < int (length hashes)
      then bindM (go_index hashes (wrap64 (idx + d))) (\<lambda>hash. spawn hash) else ret ())"
  by (intro keeps_intros assms)

lemma keeps_busy_call:
  assumes get: "\<And>h. keeps I (cacheGet h)" and pre: "\<And>h. keeps I (pre h)"
    and put: "\<And>h (m :: (('s, 'z) cworld_scheme, unit) prog). keeps I m \<Longrightarrow> keeps I (bindM (cat h) (\<lambda>d. bindM m (\<lambda>_. cachePut h d)))"
  shows "keeps I (busy_call sf cat pre ot h)"
proof -
  have wait: "keeps I (forM hs pre)" for hs by (intro keeps_forM pre)
  have "keeps I (sf_Do sf (bindM (forM hs pre) (\<lambda>_. bindM (cacheGet h) (\<lambda>hit. if hit \<noteq> None then ret ()
      else bindM (forM hs' pre) (\<lambda>_. bindM (cat h) (\<lambda>d. bindM (forM hs'' pre) (\<lambda>_. cachePut h d)))))))" for hs hs' hs''
    by (intro keeps_sf_Do keeps_bindM [OF wait] keeps_bindM [OF get] keeps_if keeps_ret) (rule put [OF wait])
  then show ?thesis by (cases "ot_call ot") (simp_all add: busy_call_def pre keeps_ret)
qed

lemma keeps_busy_cache:
  assumes "\<And>h. keeps I (spawn h)" and "\<And>h. keeps I (cacheGet h)" and "\<And>h. keeps I (pre h)"
    and "\<And>h (m :: (('s, 'z) cworld_scheme, unit) prog). keeps I m \<Longrightarrow> keeps I (bindM (cat h) (\<lambda>d. bindM m (\<lambda>_. cachePut h d)))"
  shows "keeps I (busy_cache sf cfg cat pre ot hashes idx)"
  unfolding busy_cache_def Let_def
  by (intro keeps_bindM [OF keeps_pre] keeps_bindM [OF keeps_go_index])
    (auto split: option.split intro!: keeps_bindM keeps_ret keeps_forM keeps_busy_call assms)

lemma keeps_getPiece_busy:
  assumes "\<And>h. keeps I (spawn h)" and "\<And>h. keeps I (cacheGet h)" and "\<And>h. keeps I (prefetch sf cfg cli h)"
    and "\<And>h (m :: (('s, 'z) cworld_scheme, unit) prog). keeps I m \<Longrightarrow> keeps I (bindM (Cat cfg cli (KeyPiece cfg h)) (\<lambda>d. bindM m (\<lambda>_. cachePut h d)))"
  shows "keeps I (getPiece_busy sf cfg cli bg hashes idx)"
  unfolding getPiece_busy_def by (rule keeps_bindM [OF keeps_busy_cache [OF assms] keeps_ret])

lemma keeps_coherent_busy [keeps_intros]: "keeps (coherent cfg cli objs content) (getPiece_busy sf cfg cli bg hashes idx)"
  by (rule keeps_getPiece_busy [OF keeps_spawn keeps_cacheGet keeps_prefetch keeps_Cat_Put])

lemma keeps_getPiece [keeps_intros]:
  "keeps (coherent cfg cli objs content) (getPiece sf cfg cli hashes idx)"
  using keeps_coherent_busy [where bg = "\<lambda>_. alone"] by (simp add: getPiece_busy_idle)

text \<open>What it returns it found in the cache, and that cache satisfies every invariant of the steps.\<close>

lemma busy_cache_from:
  assumes "I w" and "\<And>h. keeps I (spawn h)" and get: "\<And>h. keeps I (cacheGet h)" and "\<And>h. keeps I (pre h)"
    and "\<And>h (m :: (('s, 'z) cworld_scheme, unit) prog). keeps I m \<Longrightarrow> keeps I (bindM (cat h) (\<lambda>d. bindM m (\<lambda>_. cachePut h d)))"
    and i: "0 \<le> idx" "idx < int (length hashes)"
    and run: "busy_cache sf cfg cat pre ot hashes idx w = (Ret (Some d), w')"
  shows "\<exists>v. I v \<and> fst (LRU_Get (hashes ! nat idx) (rw_cache v)) = Some d"
proof -
  let ?h = "hashes ! nat idx"
  have wait: "keeps I (forM hs pre)" for hs by (intro keeps_forM assms(4))
  note call = keeps_busy_call [OF get assms(4,5)]
  from run i obtain w1 w2 w3 hit where pre: "(if 0 < PrefetchDistance cfg \<and> wrap64 (idx + PrefetchDistance cfg) < int (length hashes)
        then bindM (go_index hashes (wrap64 (idx + PrefetchDistance cfg))) (\<lambda>hash. spawn hash) else ret ()) w = (Ret (), w1)"
    and look: "forM (ot_runs ot Looking) pre w1 = (Ret (), w2)" and g: "cacheGet ?h w2 = (Ret hit, w3)"
    and rest: "(case hit of Some data \<Rightarrow> ret (Some data) | None \<Rightarrow>
        bindM (forM (ot_runs ot Calling) pre) (\<lambda>_. bindM (busy_call sf cat pre ot ?h) (\<lambda>_. bindM (forM (ot_runs ot Returning) pre) (\<lambda>_. cacheGet ?h)))) w3
      = (Ret (Some d), w')"
    by (auto simp: busy_cache_def Let_def bindM_Ret_iff go_index_def)
  have in1: "I w1" using keeps_pre [OF assms(2)] assms(1) pre by (rule keepsD)
  have in2: "I w2" by (rule keepsD [OF wait in1 look])
  have in3: "I w3" by (rule keepsD [OF get in2 g])
  show ?thesis
  proof (cases hit)
    case (Some x)
    with rest g in2 show ?thesis by (auto simp: ret_run cacheGet_run)
  next
    case None
    with rest obtain w4 w5 w6 where w4: "forM (ot_runs ot Calling) pre w3 = (Ret (), w4)" and w5: "busy_call sf cat pre ot ?h w4 = (Ret (), w5)"
      and w6: "forM (ot_runs ot Returning) pre w5 = (Ret (), w6)" and g': "cacheGet ?h w6 = (Ret (Some d), w')"
      by (auto simp: bindM_Ret_iff)
    have "I w4" by (rule keepsD [OF wait in3 w4])
    from keepsD [OF call this w5] have "I w5" .
    from keepsD [OF wait this w6] g' show ?thesis by (auto simp: cacheGet_run)
  qed
qed

lemma getPiece_busy_from:
  assumes "I w" and "\<And>h. keeps I (spawn h)" and "\<And>h. keeps I (cacheGet h)" and "\<And>h. keeps I (prefetch sf cfg cli h)"
    and "\<And>h (m :: (('s, 'z) cworld_scheme, unit) prog). keeps I m \<Longrightarrow> keeps I (bindM (Cat cfg cli (KeyPiece cfg h)) (\<lambda>d. bindM m (\<lambda>_. cachePut h d)))"
    and i: "0 \<le> idx" "idx < int (length hashes)"
    and run: "getPiece_busy sf cfg cli bg hashes idx w = (Ret d, w')"
  shows "d = [] \<or> (\<exists>v. I v \<and> fst (LRU_Get (hashes ! nat idx) (rw_cache v)) = Some d)"
proof -
  from run obtain r where
    r: "busy_cache sf cfg (\<lambda>hash. Cat cfg cli (KeyPiece cfg hash)) (prefetch sf cfg cli) (bg idx) hashes idx w = (Ret r, w')"
    and d: "d = (case r of Some data \<Rightarrow> data | None \<Rightarrow> [])"
    by (auto simp: getPiece_busy_def bindM_Ret_iff ret_run)
  show ?thesis
  proof (cases r)
    case (Some x)
    from busy_cache_from [OF assms(1-5) i r [unfolded this]] d Some show ?thesis by simp
  qed (simp add: d)
qed

lemma getPiece_busy_right:
  assumes "coherent cfg cli objs content w" and "0 \<le> idx" "idx < int (length hashes)"
    and "getPiece_busy sf cfg cli bg hashes idx w = (Ret d, w')"
  shows "content (hashes ! nat idx) = Some d \<or> d = []"
  using getPiece_busy_from [OF assms(1) keeps_spawn keeps_cacheGet keeps_prefetch keeps_Cat_Put assms(2-4)]
  by (auto simp: coherent_def dest: lru.agrees_hit)

lemma serving_cache:
  "coherent cfg cli objs content w \<Longrightarrow> serving cfg cli objs up hs w \<Longrightarrow> cacheGet k w = (r, w') \<Longrightarrow> serving cfg cli objs up hs w'"
  by (auto simp: cacheGet_run serving_def coherent_def lru.get_roomy)

section \<open>Prefetching\<close>

text \<open>A prefetch goroutine always ends normally: its errors stay in the \<open>Try\<close>.\<close>

lemma prefetch_returns: "\<exists>w'. prefetch sf cfg cli h w = (Ret (), w')"
proof -
  let ?w = "w\<lparr>rw_cache := snd (LRU_Get h (rw_cache w))\<rparr>"
  obtain r w1 where c: "Cat cfg cli (KeyPiece cfg h) ?w = (r, w1)" by fastforce
  with Cat_outcome [OF c] show ?thesis
    by (auto simp: prefetch_def sf_Do_def bindM_def cacheGet_run ret_run Try_def cachePut_def
        modifyM_run split: if_splits)
qed

text \<open>
  What one leaves behind: the bucket as it was, every entry at most one place further back and, with the service up,
  its own piece in front.
\<close>

lemma prefetch_effect:
  assumes co: "coherent cfg cli objs content w" and run: "prefetch sf cfg cli h w = (r, w')"
  shows "objs (w_s3 w') = objs (w_s3 w) \<and> lru_cap (rw_cache w') = lru_cap (rw_cache w)
    \<and> (lru_lasts (Suc n) k (rw_cache w) \<longrightarrow> lru_lasts n k (rw_cache w'))
    \<and> (s3_up cli objs up \<and> up (w_s3 w) \<longrightarrow> up (w_s3 w')
      \<and> (objs (w_s3 w) (S3Bucket cfg) (KeyPiece cfg h) \<noteq> None \<and> m < nat (lru_cap (rw_cache w)) \<longrightarrow> lru_lasts m h (rw_cache w')))"
proof -
  let ?c = "rw_cache w"
  let ?w = "w\<lparr>rw_cache := snd (LRU_Get h ?c)\<rparr>"
  have ok: "lru_wf ?c" and laws: "s3_laws cli objs" using co by (simp_all add: coherent_def)
  have g: "cacheGet h w = (Ret (lru_lookup ?c h), ?w)" by (simp add: cacheGet_run lru_Get_value)
  show ?thesis
  proof (cases "lru_lookup ?c h")
    case (Some x)
    with run g have "w' = ?w" by (simp add: prefetch_def sf_Do_def bindM_def ret_run)
    with Some ok show ?thesis by (auto intro: lasting.lasts_get lasting.lasts_get_self)
  next
    case None
    obtain x w1 where c: "Cat cfg cli (KeyPiece cfg h) ?w = (x, w1)" by fastforce
    obtain s' where w1: "w1 = ?w\<lparr>w_s3 := s'\<rparr>" using Cat_frame [OF c] by blast
    have same: "objs s' = objs (w_s3 w)" using Cat_law [OF laws c] w1 by simp
    have up: "s3_up cli objs up \<Longrightarrow> up (w_s3 w) \<Longrightarrow> up s'" using Cat_keeps_up [OF _ _ c] w1 by simp
    from Cat_outcome [OF c] consider d where "x = Ret d" | e where "x = Panicked (PException e)" by blast
    then show ?thesis
    proof cases
      case 1
      with run None g c have w': "w' = w1\<lparr>rw_cache := LRU_Put h d (rw_cache w1)\<rparr>"
        by (simp add: prefetch_def sf_Do_def bindM_def ret_run Try_def cachePut_def modifyM_run)
      have "lru_wf (snd (LRU_Get h ?c))" using ok by (rule lru.get_ok)
      then have "m < nat (lru_cap ?c) \<Longrightarrow> lru_lasts m h (LRU_Put h d (snd (LRU_Get h ?c)))"
        by (simp add: lasting.lasts_put_self)
      with w' w1 same up None ok show ?thesis by (auto intro: lasting.lasts_less)
    next
      case 2
      with run None g c have w': "w' = w1" by (simp add: prefetch_def sf_Do_def bindM_def ret_run Try_def)
      have "\<not> (s3_up cli objs up \<and> up (w_s3 w) \<and> objs (w_s3 w) (S3Bucket cfg) (KeyPiece cfg h) \<noteq> None)"
        using Cat_up [of cli objs up ?w cfg "KeyPiece cfg h"] c 2 by fastforce
      moreover have "lru_lasts (Suc n) k ?c \<longrightarrow> lru_lasts n k (snd (LRU_Get h ?c))" using ok by (auto intro: lasting.lasts_get)
      ultimately show ?thesis using w' w1 same up by auto
    qed
  qed
qed

lemma prefetch_serving:
  assumes "coherent cfg cli objs content w" and "serving cfg cli objs up hs w" and "prefetch sf cfg cli h w = (Ret u, w')"
  shows "serving cfg cli objs up hs w'"
  using prefetch_effect [OF assms(1,3), where up = up] assms(2) by (auto simp: serving_def)

text \<open>Prefetch goroutines that run one after another; \<open>k\<close> survives them when it can last that long.\<close>

lemma prefetches_run:
  "coherent cfg cli objs content w \<Longrightarrow> \<exists>w'. forM hs (prefetch sf cfg cli) w = (Ret (), w')
    \<and> coherent cfg cli objs content w'
    \<and> (serving cfg cli objs up hashes w \<longrightarrow> serving cfg cli objs up hashes w')
    \<and> (lru_lasts (length hs + n) k (rw_cache w) \<longrightarrow> lru_lasts n k (rw_cache w'))"
proof (induction hs arbitrary: w)
  case (Cons h hs)
  obtain w1 where p: "prefetch sf cfg cli h w = (Ret (), w1)" using prefetch_returns by blast
  have co1: "coherent cfg cli objs content w1" by (rule keepsD [OF keeps_prefetch Cons.prems p])
  from Cons.IH [OF this] obtain w' where "forM hs (prefetch sf cfg cli) w1 = (Ret (), w')"
    "coherent cfg cli objs content w'"
    "serving cfg cli objs up hashes w1 \<longrightarrow> serving cfg cli objs up hashes w'"
    "lru_lasts (length hs + n) k (rw_cache w1) \<longrightarrow> lru_lasts n k (rw_cache w')" by blast
  with prefetch_serving [OF Cons.prems _ p] prefetch_effect [OF Cons.prems p, of "length hs + n" k] p show ?case
    by (auto simp: bindM_def)
qed (simp add: ret_run)

section \<open>A piece that is served\<close>

text \<open>The states a reader goes through while the service is up.\<close>

definition ready ::
  "Config \<Rightarrow> 's s3api \<Rightarrow> 's view \<Rightarrow> (string \<Rightarrow> bytes option) \<Rightarrow> ('s \<Rightarrow> bool) \<Rightarrow> string list \<Rightarrow> ('s, 'z) cworld_scheme \<Rightarrow> bool" where
  "ready cfg cli objs content up hashes w \<longleftrightarrow> coherent cfg cli objs content w \<and> serving cfg cli objs up hashes w"

lemma ready_wait:
  assumes "ready cfg cli objs content up hashes w"
  obtains w' where "forM hs (prefetch sf cfg cli) w = (Ret (), w')" "ready cfg cli objs content up hashes w'"
    "lru_lasts (length hs + n) k (rw_cache w) \<longrightarrow> lru_lasts n k (rw_cache w')"
  using prefetches_run [of cfg cli objs content w hs sf up hashes n k] assms by (auto simp: ready_def)

lemma ready_look:
  assumes "ready cfg cli objs content up hashes w"
  obtains w' where "cacheGet h w = (Ret (lru_lookup (rw_cache w) h), w')" "ready cfg cli objs content up hashes w'"
    "lru_lookup (rw_cache w) h \<noteq> None \<and> n < nat (LRUSize cfg) \<longrightarrow> lru_lasts n h (rw_cache w')"
proof -
  let ?w' = "w\<lparr>rw_cache := snd (LRU_Get h (rw_cache w))\<rparr>"
  have g: "cacheGet h w = (Ret (lru_lookup (rw_cache w) h), ?w')" by (simp add: cacheGet_run lru_Get_value)
  moreover have "ready cfg cli objs content up hashes ?w'"
    using assms keepsD [OF keeps_cacheGet _ g] by (auto simp: ready_def serving_def)
  ultimately show ?thesis
    using assms lasting.lasts_get_self [of "rw_cache w" n h] by (intro that) (auto simp: ready_def coherent_def serving_def)
qed

lemma ready_prefetch:
  assumes "ready cfg cli objs content up hashes w" and "h \<in> set hashes" and "n < nat (LRUSize cfg)"
  obtains w' where "prefetch sf cfg cli h w = (Ret (), w')" "ready cfg cli objs content up hashes w'" "lru_lasts n h (rw_cache w')"
proof -
  obtain w' where p: "prefetch sf cfg cli h w = (Ret (), w')" using prefetch_returns by blast
  have co: "coherent cfg cli objs content w" and sv: "serving cfg cli objs up hashes w" using assms(1) by (simp_all add: ready_def)
  have "ready cfg cli objs content up hashes w'"
    using keepsD [OF keeps_prefetch co p] prefetch_serving [OF co sv p] by (simp add: ready_def)
  moreover have "lru_lasts n h (rw_cache w')"
    using prefetch_effect [OF co p, where up = up and m = n] sv assms(2,3) by (simp add: serving_def)
  ultimately show ?thesis using p that by blast
qed

lemma ready_cat:
  assumes "ready cfg cli objs content up hashes w" and "h \<in> set hashes"
  obtains d w' where "Cat cfg cli (KeyPiece cfg h) w = (Ret d, w')" "content h = Some d" "ready cfg cli objs content up hashes w'"
proof -
  have co: "coherent cfg cli objs content w" and sv: "serving cfg cli objs up hashes w" using assms(1) by (simp_all add: ready_def)
  from sv assms(2) obtain d where d: "objs (w_s3 w) (S3Bucket cfg) (KeyPiece cfg h) = Some d" by (auto simp: serving_def)
  obtain s' where c: "Cat cfg cli (KeyPiece cfg h) w = (Ret d, w\<lparr>w_s3 := s'\<rparr>)" and up': "up s'"
    using Cat_up [of cli objs up w cfg "KeyPiece cfg h" d] d sv by (auto simp: serving_def)
  have "objs s' = objs (w_s3 w)" using Cat_law [OF _ c] co by (simp add: coherent_def)
  with coherent_Cat [OF co c] up' sv have "content h = Some d" "ready cfg cli objs content up hashes (w\<lparr>w_s3 := s'\<rparr>)"
    by (simp_all add: ready_def serving_def)
  with c show ?thesis by (rule that)
qed

lemma ready_put:
  assumes "ready cfg cli objs content up hashes w" and "content h = Some d" and "n < nat (LRUSize cfg)"
  obtains w' where "cachePut h d w = (Ret (), w')" "ready cfg cli objs content up hashes w'" "lru_lasts n h (rw_cache w')"
proof -
  let ?w' = "w\<lparr>rw_cache := LRU_Put h d (rw_cache w)\<rparr>"
  have "cachePut h d w = (Ret (), ?w')" by (simp add: cachePut_def modifyM_run)
  moreover have "ready cfg cli objs content up hashes ?w'" "lru_lasts n h (rw_cache ?w')"
    using assms by (auto simp: ready_def coherent_def serving_def lru.put_ok lru.agrees_put intro: lasting.lasts_put_self)
  ultimately show ?thesis by (rule that)
qed

text \<open>The call of \<open>Do\<close> brings the piece in.\<close>

lemma ready_call:
  assumes rd: "ready cfg cli objs content up hashes w" and h: "h \<in> set hashes" and n: "n < nat (LRUSize cfg)" and ot: "ot_call ot \<noteq> Joins_late"
  obtains w' where "busy_call sf (\<lambda>hash. Cat cfg cli (KeyPiece cfg hash)) (prefetch sf cfg cli) ot h w = (Ret (), w')"
    "ready cfg cli objs content up hashes w'" "lru_lasts n h (rw_cache w')"
proof (cases "ot_call ot")
  case Joins
  with ready_prefetch [OF rd h n, of sf] that show ?thesis by (auto simp: busy_call_def)
next
  case Leads
  obtain w1 where w1: "forM (ot_runs ot Checking) (prefetch sf cfg cli) w = (Ret (), w1)" "ready cfg cli objs content up hashes w1"
    using ready_wait [OF rd] by blast
  from w1(2) obtain w2 where w2: "cacheGet h w1 = (Ret (lru_lookup (rw_cache w1) h), w2)" "ready cfg cli objs content up hashes w2"
      "lru_lookup (rw_cache w1) h \<noteq> None \<and> n < nat (LRUSize cfg) \<longrightarrow> lru_lasts n h (rw_cache w2)"
    by (rule ready_look [where h = h and n = n])
  show ?thesis
  proof (cases "lru_lookup (rw_cache w1) h")
    case (Some x)
    with w1 w2 n Leads show ?thesis by (intro that) (auto simp: busy_call_def sf_Do_def bindM_def ret_run)
  next
    case None
    obtain w3 where w3: "forM (ot_runs ot Loading) (prefetch sf cfg cli) w2 = (Ret (), w3)" "ready cfg cli objs content up hashes w3"
      using ready_wait [OF w2(2)] by blast
    from w3(2) h obtain d w4 where w4: "Cat cfg cli (KeyPiece cfg h) w3 = (Ret d, w4)" "content h = Some d"
        "ready cfg cli objs content up hashes w4" by (rule ready_cat)
    obtain w5 where w5: "forM (ot_runs ot Storing) (prefetch sf cfg cli) w4 = (Ret (), w5)" "ready cfg cli objs content up hashes w5"
      using ready_wait [OF w4(3)] by blast
    from w5(2) w4(2) n obtain w6 where w6: "cachePut h d w5 = (Ret (), w6)" "ready cfg cli objs content up hashes w6"
        "lru_lasts n h (rw_cache w6)" by (rule ready_put)
    with w1 w2 w3 w4 w5 None Leads show ?thesis by (intro that) (auto simp: busy_call_def sf_Do_def bindM_def ret_run)
  qed
qed (use ot in simp)

lemma busy_cache_live:
  fixes w :: "('s, 'z) cworld_scheme"
  assumes rd: "ready cfg cli objs content up hashes w"
    and i: "0 \<le> idx" "idx < int (length hashes)"
    and pd: "PrefetchDistance cfg + int (length hashes) < 2 ^ 63"
    and room: "int (length (ot_runs ot Returning)) < LRUSize cfg" "ot_call ot \<noteq> Joins_late"
  shows "\<exists>d w'. busy_cache sf cfg (\<lambda>hash. Cat cfg cli (KeyPiece cfg hash)) (prefetch sf cfg cli) ot hashes idx w = (Ret (Some d), w')
    \<and> content (hashes ! nat idx) = Some d \<and> ready cfg cli objs content up hashes w'"
proof -
  let ?h = "hashes ! nat idx" and ?rd = "ready cfg cli objs content up hashes" and ?d = "PrefetchDistance cfg"
  let ?pre = "if 0 < ?d \<and> wrap64 (idx + ?d) < int (length hashes)
    then bindM (go_index hashes (wrap64 (idx + ?d))) (\<lambda>hash. spawn hash) else ret ()"
  have right: "lru_lookup (rw_cache v) ?h = Some x \<Longrightarrow> ?rd v \<Longrightarrow> content ?h = Some x" for v :: "('s, 'z) cworld_scheme" and x
    by (simp add: ready_def coherent_def agrees_def)
  have w64: "0 < ?d \<Longrightarrow> wrap64 (idx + ?d) = idx + ?d" using i pd by (intro wrap64_nonneg) auto
  have "\<exists>w1. ?pre w = (Ret (), w1) \<and> ?rd w1"
    using rd i w64 by (simp add: go_index_def spawn_def modifyM_run ret_run ready_def coherent_def serving_def)
  then obtain w1 where w1: "?pre w = (Ret (), w1)" "?rd w1" by blast
  obtain w2 where w2: "forM (ot_runs ot Looking) (prefetch sf cfg cli) w1 = (Ret (), w2)" "?rd w2"
    using ready_wait [OF w1(2)] by blast
  from w2(2) obtain w3 where w3: "cacheGet ?h w2 = (Ret (lru_lookup (rw_cache w2) ?h), w3)" "?rd w3" by (rule ready_look)
  have idx: "go_index hashes idx = ret ?h" and hm: "?h \<in> set hashes" using i by (simp_all add: go_index_def)
  show ?thesis
  proof (cases "lru_lookup (rw_cache w2) ?h")
    case (Some x)
    with w1 w2 w3 right show ?thesis by (simp add: busy_cache_def Let_def idx bindM_def ret_run)
  next
    case None
    obtain w4 where w4: "forM (ot_runs ot Calling) (prefetch sf cfg cli) w3 = (Ret (), w4)" "?rd w4"
      using ready_wait [OF w3(2)] by blast
    let ?n = "length (ot_runs ot Returning)"
    have n: "?n < nat (LRUSize cfg)" using room(1) by simp
    obtain w5 where w5: "?rd w5" "lru_lasts ?n ?h (rw_cache w5)" and
      call: "busy_call sf (\<lambda>hash. Cat cfg cli (KeyPiece cfg hash)) (prefetch sf cfg cli) ot ?h w4 = (Ret (), w5)"
      using ready_call [OF w4(2) hm n room(2), of sf] by metis
    obtain w6 where w6: "forM (ot_runs ot Returning) (prefetch sf cfg cli) w5 = (Ret (), w6)" "?rd w6" "lru_lasts 0 ?h (rw_cache w6)"
      using ready_wait [OF w5(1), of "ot_runs ot Returning" sf 0 ?h] w5(2) by auto
    then obtain x where x: "lru_lookup (rw_cache w6) ?h = Some x"
      using lasting.lasts_look by (fastforce simp: ready_def coherent_def)
    from w6(2) obtain w7 where w7: "cacheGet ?h w6 = (Ret (lru_lookup (rw_cache w6) ?h), w7)" "?rd w7" by (rule ready_look)
    have "busy_cache sf cfg (\<lambda>hash. Cat cfg cli (KeyPiece cfg hash)) (prefetch sf cfg cli) ot hashes idx w = (Ret (Some x), w7)"
      unfolding busy_cache_def Let_def idx
      by (simp add: bindM_def w1(1) w2(1) w3(1) w4(1) w6(1) w7(1) None x ret_run call)
    with right [OF x w6(2)] w7(2) show ?thesis by blast
  qed
qed

section \<open>The read path is a source of pieces\<close>

type_synonym 's reader =
  "(panicval \<Rightarrow> panicval) \<times> Config \<times> 's s3api \<times> 's view \<times> (string \<Rightarrow> bytes option)
    \<times> ('s \<Rightarrow> bool) \<times> (int \<Rightarrow> others) \<times> string list"

fun reader_piece :: "'s reader \<Rightarrow> int \<Rightarrow> (('s, 'z) cworld_scheme, bytes) prog" where
  "reader_piece (sf, cfg, cli, objs, content, up, bg, hashes) = getPiece_busy sf cfg cli bg hashes"

fun reader_ok :: "'s reader \<Rightarrow> bytes list \<Rightarrow> ('s, 'z) cworld_scheme \<Rightarrow> bool" where
  "reader_ok (sf, cfg, cli, objs, content, up, bg, hashes) ps w \<longleftrightarrow>
     coherent cfg cli objs content w \<and> map content hashes = map Some ps"

fun reader_live :: "'s reader \<Rightarrow> bytes list \<Rightarrow> ('s, 'z) cworld_scheme \<Rightarrow> bool" where
  "reader_live (sf, cfg, cli, objs, content, up, bg, hashes) ps w \<longleftrightarrow>
     serving cfg cli objs up hashes w \<and> leaves_room cfg bg \<and> PrefetchDistance cfg + int (length hashes) < 2 ^ 63"

lemma map_Some_nth: "map f xs = map Some ys \<Longrightarrow> length xs = length ys \<and> (\<forall>i<length ys. f (xs ! i) = Some (ys ! i))"
  by (metis length_map nth_map)

interpretation rd: live_source reader_piece reader_ok reader_live
proof (unfold_locales, goal_cases)
  case (1 c ps w i r w')
  obtain sf cfg cli objs content up bg hashes where c: "c = (sf, cfg, cli, objs, content, up, bg, hashes)"
    by (cases c) auto
  from keepsD [OF keeps_coherent_busy, of cfg cli objs content w sf bg hashes i r w'] 1 c show ?case by simp
next
  case (2 c ps w i d w')
  obtain sf cfg cli objs content up bg hashes where c: "c = (sf, cfg, cli, objs, content, up, bg, hashes)"
    by (cases c) auto
  have co: "coherent cfg cli objs content w" and m: "map content hashes = map Some ps"
    using 2(1) c by simp_all
  have "getPiece_busy sf cfg cli bg hashes i w = (Ret d, w')" using 2(4) c by simp
  from getPiece_busy_right [OF co _ _ this] 2(2,3) map_Some_nth [OF m] show ?case by auto
next
  case (3 c ps w i)
  obtain sf cfg cli objs content up bg hashes where c: "c = (sf, cfg, cli, objs, content, up, bg, hashes)"
    by (cases c) auto
  have m: "map content hashes = map Some ps" using 3(1) c by simp
  have rd: "ready cfg cli objs content up hashes w" and pd: "PrefetchDistance cfg + int (length hashes) < 2 ^ 63"
    and room: "leaves_room cfg bg" using 3(1,2) c by (simp_all add: ready_def)
  have "i < int (length hashes)" using 3(4) map_Some_nth [OF m] by simp
  with busy_cache_live [OF rd 3(3) _ pd, of "bg i" sf] room obtain d w' where
    "getPiece_busy sf cfg cli bg hashes i w = (Ret d, w')" "content (hashes ! nat i) = Some d"
    "ready cfg cli objs content up hashes w'"
    by (auto simp: getPiece_busy_def leaves_room_def bindM_def ret_run)
  moreover have "content (hashes ! nat i) = Some (ps ! nat i)" using map_Some_nth [OF m] 3(3,4) by simp
  ultimately show ?case using pd room c by (simp add: ready_def)
qed

section \<open>What ReadAt returns\<close>

text \<open>
  The file lies inside the stream \<open>concat ps\<close> of its torrent's pieces, cut in pieces of
  \<open>L\<close> bytes with a last piece that may be shorter.
\<close>

definition file_in ::
  "virtualFile \<Rightarrow> (string \<Rightarrow> bytes option) \<Rightarrow> nat \<Rightarrow> bytes list \<Rightarrow> bool" where
  "file_in v content L ps \<longleftrightarrow> PieceLen (vf_tm v) = int L \<and> 0 < L \<and> uniform L ps
     \<and> map content (PieceHashes (vf_tm v)) = map Some ps
     \<and> 0 \<le> Offset (vf_file v) \<and> 0 \<le> Size (vf_file v)
     \<and> Offset (vf_file v) + Size (vf_file v) \<le> int (length (concat ps))
     \<and> length (concat ps) < 2 ^ 63"

definition file_bytes :: "virtualFile \<Rightarrow> bytes list \<Rightarrow> bytes" where
  "file_bytes v ps = slice (nat (Offset (vf_file v))) (nat (Size (vf_file v))) (concat ps)"

lemma file_in_length: "file_in v content L ps \<Longrightarrow> length (PieceHashes (vf_tm v)) = length ps"
  by (auto simp: file_in_def dest: map_Some_nth)

lemma file_slice:
  assumes "file_in v content L ps" and "0 \<le> off" and "off < Size (vf_file v)"
  shows "slice (nat (Offset (vf_file v) + off)) (nat (min (int plen) (Size (vf_file v) - off))) (concat ps)
    = slice (nat off) plen (file_bytes v ps)"
proof -
  have "nat (Offset (vf_file v) + off) = nat off + nat (Offset (vf_file v))"
    "nat (min (int plen) (Size (vf_file v) - off)) = min plen (nat (Size (vf_file v)) - nat off)"
    using assms by (simp_all add: file_in_def nat_add_distrib)
  then show ?thesis by (simp add: file_bytes_def slice_slice)
qed

lemma ReadAt_with_in:
  assumes "file_in v content L ps" and "0 \<le> off" and "off < Size (vf_file v)"
  shows "ReadAt_with get v plen off =
    bindM (read_loop get (length ps) (int L) (nat (min (int plen) (Size (vf_file v) - off)))
             (int (nat (Offset (vf_file v) + off) + length ([] :: bytes))) [])
      (\<lambda>p. if int (length p) < Size (vf_file v) - off \<and> length p < nat (min (int plen) (Size (vf_file v) - off))
        then ret (p, Some EOF)
        else if Size (vf_file v) \<le> wrap64 (off + int (length p)) then ret (p, Some EOF) else ret (p, None))"
proof -
  have "wrap64 (Offset (vf_file v) + off) = int (nat (Offset (vf_file v) + off))"
    using assms by (subst wrap64_nonneg) (auto simp: file_in_def)
  moreover have "(if Size (vf_file v) - off < int plen then nat (Size (vf_file v) - off) else plen)
      = nat (min (int plen) (Size (vf_file v) - off))" by auto
  ultimately show ?thesis using assms file_in_length [OF assms(1)]
    by (simp add: ReadAt_with_def Let_def file_in_def del: int_nat_eq)
qed

text \<open>The error \<open>ReadAt\<close> reports for the bytes it returns.\<close>

definition read_error :: "virtualFile \<Rightarrow> nat \<Rightarrow> int \<Rightarrow> bytes \<Rightarrow> goerr option" where
  "read_error v plen off p =
     (if length p < plen \<or> Size (vf_file v) \<le> off + int (length p) then Some EOF else None)"

lemma ReadAt_result:
  assumes "file_in v content L ps" and "0 \<le> off" and "off < Size (vf_file v)"
    and "length p \<le> nat (min (int plen) (Size (vf_file v) - off))"
  shows "(if int (length p) < Size (vf_file v) - off \<and> length p < nat (min (int plen) (Size (vf_file v) - off))
        then ret (p, Some EOF)
        else if Size (vf_file v) \<le> wrap64 (off + int (length p)) then ret (p, Some EOF) else ret (p, None))
    = ret (p, read_error v plen off p)"
proof -
  have "Size (vf_file v) < 2 ^ 63" using assms(1) by (simp add: file_in_def)
  then have "wrap64 (off + int (length p)) = off + int (length p)"
    using assms by (intro wrap64_nonneg) auto
  with assms show ?thesis by (auto simp: read_error_def min_def split: if_splits)
qed

lemma ReadAt_returns:
  assumes "coherent cfg cli objs content w" and "file_in v content L ps"
    and "0 \<le> off" and "off < Size (vf_file v)"
    and "ReadAt_with (getPiece_busy sf cfg cli bg (PieceHashes (vf_tm v))) v plen off w = (Ret (p, err), w')"
  shows "prefix p (slice (nat off) plen (file_bytes v ps)) \<and> err = read_error v plen off p
    \<and> coherent cfg cli objs content w'"
proof -
  define n where "n = nat (min (int plen) (Size (vf_file v) - off))"
  define st where "st = nat (Offset (vf_file v) + off)"
  define c where "c = (sf, cfg, cli, objs, content, (\<lambda>_. True) :: 'a \<Rightarrow> bool, bg, PieceHashes (vf_tm v))"
  have ok: "reader_ok c ps w" using assms(1,2) by (simp add: c_def file_in_def)
  have fit: "st + n \<le> length (concat ps)" "0 < L" "uniform L ps" "length (concat ps) < 2 ^ 63"
    using assms(2-4) by (auto simp: st_def n_def file_in_def)
  have get: "getPiece_busy sf cfg cli bg (PieceHashes (vf_tm v)) = reader_piece c" by (simp add: c_def)
  from assms(5) [unfolded ReadAt_with_in [OF assms(2-4)] get, folded n_def st_def] obtain q w1 where
    l: "read_loop (reader_piece c) (length ps) (int L) n (int (st + length ([] :: bytes))) [] w = (Ret q, w1)"
    and res: "(if int (length q) < Size (vf_file v) - off \<and> length q < n
        then ret (q, Some EOF)
        else if Size (vf_file v) \<le> wrap64 (off + int (length q)) then ret (q, Some EOF) else ret (q, None)) w1
      = (Ret (p, err), w')"
    by (auto simp: bindM_Ret_iff)
  from rd.read_loop_prefix [OF ok fit(3,2,4,1) _ _ l] have
    q: "reader_ok c ps w1" "prefix q (slice st n (concat ps))" by simp_all
  have "length q \<le> n" using prefix_length_le [OF q(2)] by simp
  note res [unfolded ReadAt_result [OF assms(2-4) this [unfolded n_def], folded n_def]]
  with q file_slice [OF assms(2-4), of plen] show ?thesis
    by (auto simp: ret_run n_def st_def c_def)
qed

text \<open>
  C1: no read returns a wrong byte. Whatever the service does (as long as it keeps to the laws), whatever prefetch
  goroutines run at each step of it and whichever flight it joins, whatever the cache size and the evictions: if
  \<open>ReadAt\<close> returns, the bytes are a prefix of the part of the file asked for, a read
  that returns less reports \<open>EOF\<close>, and the cache is still coherent.
\<close>

theorem ReadAt_safe:
  assumes "coherent cfg cli objs content w" and "file_in v content L ps"
    and "0 \<le> off" and "off < Size (vf_file v)"
    and "ReadAt_with (getPiece_busy sf cfg cli bg (PieceHashes (vf_tm v))) v plen off w = (Ret (p, err), w')"
  shows "prefix p (slice (nat off) plen (file_bytes v ps)) \<and> err = read_error v plen off p
    \<and> coherent cfg cli objs content w'"
  by (rule ReadAt_returns [OF assms])

text \<open>A one-file torrent of two pieces, as the witnesses use it.\<close>

definition two_pieces :: "bytes list" where
  "two_pieces = [[1, 2], [3]]"

definition content0 :: "string \<Rightarrow> bytes option" where
  "content0 = [''p0'' \<mapsto> [1, 2], ''p1'' \<mapsto> [3]]"

definition vf0 :: virtualFile where
  "vf0 = \<lparr>vf_tm = \<lparr>Infohash = ''h'', Name = ''a'', DisplayName = ''a'', PieceLen = 2, TotalLen = 3,
      Files = [\<lparr>Path = ''a'', Size = 3, Offset = 0\<rparr>], PieceHashes = [''p0'', ''p1'']\<rparr>,
    vf_file = \<lparr>Path = ''a'', Size = 3, Offset = 0\<rparr>\<rparr>"

definition bucket_p :: mem where
  "bucket_p = mem_of [(''t/pieces/p0'', [1, 2]), (''t/pieces/p1'', [3])]"

definition reader0 :: "mem \<Rightarrow> int \<Rightarrow> mem cworld" where
  "reader0 m cap = \<lparr>w_s3 = m, w_puts = 0, rw_cache = newLRU cap, rw_spawned = []\<rparr>"

lemma view_bucket_p: "mem_view bucket_p ''b'' = [''t/pieces/p0'' \<mapsto> [1, 2], ''t/pieces/p1'' \<mapsto> [3]]"
  by (rule ext) (simp add: mem_view_def bucket_p_def mem_of_def)

lemma file_in_vf0: "file_in vf0 content0 2 two_pieces"
  by (simp add: file_in_def vf0_def two_pieces_def content0_def)

lemma lru_lookup_newLRU [simp]: "lru_lookup (newLRU n) k = None"
  by (simp add: lru_lookup_def newLRU_def)

lemma coherent_reader0: "coherent cfg0 mem_s3 mem_view content0 (reader0 bucket_p cap)"
  by (auto simp: coherent_def mem_laws sound_store_def reader0_def agrees_def view_bucket_p
      content0_def KeyPiece_def split: if_splits)

text \<open>A configuration with room for \<open>n\<close> pieces, and others who prefetch \<open>hs\<close> at the step \<open>m\<close> of every call.\<close>

definition cfg_lru :: "int \<Rightarrow> Config" where
  "cfg_lru n = cfg0\<lparr>LRUSize := n\<rparr>"

definition others_at :: "moment \<Rightarrow> string list \<Rightarrow> others" where
  "others_at m hs = \<lparr>ot_runs = (\<lambda>m'. if m' = m then hs else []), ot_call = Leads\<rparr>"

lemma cfg_lru_simps [simp]:
  "LRUSize (cfg_lru n) = n" "S3Bucket (cfg_lru n) = S3Bucket cfg0" "S3Root (cfg_lru n) = S3Root cfg0"
  "PrefetchDistance (cfg_lru n) = PrefetchDistance cfg0"
  "KeyPiece (cfg_lru n) h = KeyPiece cfg0 h"
  by (simp_all add: cfg_lru_def KeyPiece_def)

lemma coherent_cfg_lru [simp]: "coherent (cfg_lru n) cli objs content w \<longleftrightarrow> coherent cfg0 cli objs content w"
  by (simp add: coherent_def sound_store_def)

lemma serving_reader0:
  "0 < n \<Longrightarrow> serving (cfg_lru n) mem_s3 mem_view mem_up [''p0'', ''p1''] (reader0 bucket_p n)"
  by (simp add: serving_def mem_is_up reader0_def view_bucket_p KeyPiece_def bucket_p_def)
     (simp flip: bucket_p_def add: view_bucket_p)

lemma busy_read_vf0:
  "fst (ReadAt_with (getPiece_busy id cfg0 mem_s3 (\<lambda>_. others_at Storing [''p1'']) [''p0'', ''p1'']) vf0 3 1 (reader0 bucket_p 5))
    = Ret ([2, 3], Some EOF)"
  by code_simp

text \<open>
  With room for one piece, a prefetch of another piece that runs between the end of the fetch and the last lookup
  pushes the piece out: the read gets nothing and reports \<open>EOF\<close>.
\<close>

lemma read_evicted:
  "fst (ReadAt_with (getPiece_busy id (cfg_lru 1) mem_s3 (\<lambda>_. others_at Returning [''p1'']) [''p0'', ''p1'']) vf0 2 0 (reader0 bucket_p 1))
    = Ret ([], Some EOF)"
  by code_simp

theorem ReadAt_safe_witness:
  "\<exists>w'. ReadAt_with (getPiece_busy id cfg0 mem_s3 (\<lambda>_. others_at Storing [''p1'']) [''p0'', ''p1'']) vf0 3 1 (reader0 bucket_p 5)
      = (Ret ([2, 3], Some EOF), w')
    \<and> coherent cfg0 mem_s3 mem_view content0 w'"
proof -
  have h: "PieceHashes (vf_tm vf0) = [''p0'', ''p1'']" "1 < Size (vf_file vf0)"
    by (simp_all add: vf0_def)
  obtain w' where "ReadAt_with (getPiece_busy id cfg0 mem_s3 (\<lambda>_. others_at Storing [''p1'']) [''p0'', ''p1'']) vf0 3 1
      (reader0 bucket_p 5) = (Ret ([2, 3], Some EOF), w')"
    using busy_read_vf0 by (metis prod.collapse)
  with ReadAt_safe [OF coherent_reader0 file_in_vf0 _ h(2), unfolded h(1), OF _ this] show ?thesis by simp
qed

lemma ReadAt_up:
  assumes "coherent cfg cli objs content w" and "file_in v content L ps"
    and "serving cfg cli objs up (PieceHashes (vf_tm v)) w"
    and "leaves_room cfg bg" and "PrefetchDistance cfg + int (length (PieceHashes (vf_tm v))) < 2 ^ 63"
    and "0 \<le> off" and "off < Size (vf_file v)"
  shows "\<exists>w'. ReadAt_with (getPiece_busy sf cfg cli bg (PieceHashes (vf_tm v))) v plen off w
      = (Ret (slice (nat off) plen (file_bytes v ps),
              if Size (vf_file v) \<le> off + int plen then Some EOF else None), w')
    \<and> coherent cfg cli objs content w' \<and> serving cfg cli objs up (PieceHashes (vf_tm v)) w'"
proof -
  define n where "n = nat (min (int plen) (Size (vf_file v) - off))"
  define st where "st = nat (Offset (vf_file v) + off)"
  define c where "c = (sf, cfg, cli, objs, content, up, bg, PieceHashes (vf_tm v))"
  have ok: "reader_ok c ps w" "reader_live c ps w" using assms(1-5) by (simp_all add: c_def file_in_def)
  have fit: "st + n \<le> length (concat ps)" "0 < L" "uniform L ps" "length (concat ps) < 2 ^ 63"
    using assms(2,6,7) by (auto simp: st_def n_def file_in_def)
  have get: "getPiece_busy sf cfg cli bg (PieceHashes (vf_tm v)) = reader_piece c" by (simp add: c_def)
  from rd.read_loop_exact [OF ok fit(3,2,4,1), of "[]"] obtain out w1 where
    l: "read_loop (reader_piece c) (length ps) (int L) n (int (st + length ([] :: bytes))) [] w = (Ret out, w1)"
    and out: "length out = n" "reader_live c ps w1" by auto
  from rd.read_loop_prefix [OF ok(1) fit(3,2,4,1) _ _ l] have
    q: "reader_ok c ps w1" "prefix out (slice st n (concat ps))" by simp_all
  obtain zs where zs: "slice st n (concat ps) = out @ zs" using q(2) by (auto simp: prefix_def)
  have "length (out @ zs) = n" unfolding zs [symmetric] using fit(1) by simp
  with zs out(1) have "out = slice st n (concat ps)" by simp
  then have s: "out = slice (nat off) plen (file_bytes v ps)"
    using file_slice [OF assms(2,6,7), of plen] by (simp add: n_def st_def)
  have e: "read_error v plen off out = (if Size (vf_file v) \<le> off + int plen then Some EOF else None)"
    using out(1) assms(6,7) by (auto simp: read_error_def n_def)
  have le: "length out \<le> nat (min (int plen) (Size (vf_file v) - off))" using out(1) by (simp add: n_def)
  have "ReadAt_with (reader_piece c) v plen off w = ret (out, read_error v plen off out) w1"
    unfolding ReadAt_with_in [OF assms(2,6,7)] n_def [symmetric] st_def [symmetric]
    unfolding bindM_Ret [where m = "read_loop _ _ _ _ _ _", OF l]
    by (simp only: ReadAt_result [OF assms(2,6,7) le, folded n_def])
  then show ?thesis using q(1) out(2) unfolding get s [symmetric] e [symmetric]
    by (simp add: c_def ret_run)
qed

text \<open>
  C12: with the service up and the pieces stored, every read inside the file returns, and it returns exactly
  the bytes asked for, clipped at the end of the file; \<open>EOF\<close> comes exactly when the read reaches the end or was
  clipped. Any prefetch goroutines may run at every step of the read, on one condition (\<open>leaves_room\<close>): between the
  moment a piece comes into the cache and the moment the read looks it up, fewer of them use the cache than it has
  entries (and the read joins no flight that is already over). The process is ready for the next read afterwards.
  \<open>read_evicted\<close> shows that the condition is needed.
\<close>

theorem ReadAt_exact:
  assumes "coherent cfg cli objs content w" and "file_in v content L ps"
    and "serving cfg cli objs up (PieceHashes (vf_tm v)) w"
    and "leaves_room cfg bg" and "PrefetchDistance cfg + int (length (PieceHashes (vf_tm v))) < 2 ^ 63"
    and "0 \<le> off" and "off < Size (vf_file v)"
  shows "\<exists>w'. ReadAt_with (getPiece_busy sf cfg cli bg (PieceHashes (vf_tm v))) v plen off w
      = (Ret (slice (nat off) plen (file_bytes v ps),
              if Size (vf_file v) \<le> off + int plen then Some EOF else None), w')
    \<and> coherent cfg cli objs content w' \<and> serving cfg cli objs up (PieceHashes (vf_tm v)) w'"
  by (rule ReadAt_up [OF assms])

theorem ReadAt_exact_witness:
  "\<exists>w'. ReadAt_with (getPiece_busy id (cfg_lru 2) mem_s3 (\<lambda>_. others_at Returning [''p1'']) (PieceHashes (vf_tm vf0))) vf0 2 0
      (reader0 bucket_p 2) = (Ret ([1, 2], None), w')"
proof -
  have h: "PieceHashes (vf_tm vf0) = [''p0'', ''p1'']" "0 < Size (vf_file vf0)"
    by (simp_all add: vf0_def)
  have sv: "serving (cfg_lru 2) mem_s3 mem_view mem_up (PieceHashes (vf_tm vf0)) (reader0 bucket_p 2)"
    using serving_reader0 [of 2] by (simp add: h)
  have room: "leaves_room (cfg_lru 2) (\<lambda>_. others_at Returning [''p1''])" by (simp add: leaves_room_def others_at_def)
  have co: "coherent (cfg_lru 2) mem_s3 mem_view content0 (reader0 bucket_p 2)" by (simp add: coherent_reader0)
  have "slice (nat 0) 2 (file_bytes vf0 two_pieces) = [1, 2]" "\<not> Size (vf_file vf0) \<le> 0 + int 2"
    by (simp_all add: file_bytes_def vf0_def two_pieces_def slice_def)
  with ReadAt_exact [OF co file_in_vf0 sv room _ _ h(2), of id 2]
  show ?thesis by (auto simp: h(1))
qed

text \<open>
  Prefetching is harmless. The body of a prefetch goroutine returns from every state,
  also when the service fails; it keeps the cache coherent, and it keeps a process that can
  serve reads able to serve them.
\<close>

theorem prefetch_harmless:
  "\<exists>w'. prefetch sf cfg cli h w = (Ret (), w')
    \<and> (coherent cfg cli objs content w \<longrightarrow> coherent cfg cli objs content w'
        \<and> (serving cfg cli objs up hs w \<longrightarrow> serving cfg cli objs up hs w'))"
  using prefetch_returns [of sf cfg cli h w] keepsD [OF keeps_prefetch] prefetch_serving by metis

theorem prefetch_harmless_witness:
  "\<exists>w'. prefetch id (cfg_lru 1) mem_s3 ''p1'' (reader0 bucket_p 1) = (Ret (), w')
    \<and> serving (cfg_lru 1) mem_s3 mem_view mem_up [''p0'', ''p1''] w'"
  using prefetch_harmless [of id "cfg_lru 1" mem_s3 "''p1''" "reader0 bucket_p 1" mem_view content0 mem_up "[''p0'', ''p1'']"]
    coherent_reader0 [of 1] serving_reader0 [of 1] by auto

section \<open>Reads that go wrong\<close>

lemma no_room_lookup: "lru_wf c \<Longrightarrow> lru_cap c \<le> 0 \<Longrightarrow> lru_lookup c k = None"
  by (auto simp: lru_wf_links lru_lookup_def lru_links_def split: option.splits)

definition roomless ::
  "Config \<Rightarrow> 's s3api \<Rightarrow> 's view \<Rightarrow> (string \<Rightarrow> bytes option) \<Rightarrow> ('s, 'z) cworld_scheme \<Rightarrow> bool" where
  "roomless cfg cli objs content w \<longleftrightarrow> coherent cfg cli objs content w \<and> lru_cap (rw_cache w) \<le> 0"

lemma keeps_roomless:
  "keeps (roomless cfg cli objs content) (spawn h)"
  "keeps (roomless cfg cli objs content) (cacheGet h)"
  "keeps (roomless cfg cli objs content) (prefetch sf cfg cli h)"
proof -
  show "keeps (roomless cfg cli objs content) (spawn h)"
    using keeps_spawn [of cfg cli objs content h]
    by (auto simp: keeps_def roomless_def spawn_def modifyM_run)
  show "keeps (roomless cfg cli objs content) (cacheGet h)"
    using keeps_cacheGet [of cfg cli objs content h]
    by (auto simp: keeps_def roomless_def cacheGet_run)
  show "keeps (roomless cfg cli objs content) (prefetch sf cfg cli h)"
  proof (rule keepsI)
    fix w r w' assume rl: "roomless cfg cli objs content w" and p: "prefetch sf cfg cli h w = (r, w')"
    then have co: "coherent cfg cli objs content w" by (simp add: roomless_def)
    with rl prefetch_effect [OF co p] keepsD [OF keeps_prefetch co p] show "roomless cfg cli objs content w'"
      by (simp add: roomless_def)
  qed
qed

lemma keeps_roomless_put:
  fixes m :: "(('s, 'z) cworld_scheme, unit) prog"
  assumes "keeps (roomless cfg cli objs content) m"
  shows "keeps (roomless cfg cli objs content) (bindM (Cat cfg cli (KeyPiece cfg h)) (\<lambda>d. bindM m (\<lambda>_. cachePut h d)))"
proof (rule keeps_fetched [OF _ _ _ assms])
  fix w r w' assume rl: "roomless cfg cli objs content w" and c: "Cat cfg cli (KeyPiece cfg h) w = (r, w')"
  then have "coherent cfg cli objs content w" by (simp add: roomless_def)
  from coherent_Cat [OF this c] Cat_frame [OF c] rl show "roomless cfg cli objs content w'" by (auto simp: roomless_def)
qed (auto simp: roomless_def coherent_def lru.put_ok lru.agrees_put)

lemma getPiece_no_room:
  assumes "roomless cfg cli objs content w" and "0 \<le> idx" "idx < int (length hashes)"
    and "getPiece sf cfg cli hashes idx w = (Ret d, w')"
  shows "d = []"
  using getPiece_busy_from [OF assms(1) keeps_roomless keeps_roomless_put assms(2,3) assms(4) [folded getPiece_busy_idle]]
  by (auto simp: roomless_def coherent_def lru.get_value no_room_lookup)

text \<open>
  With \<^verbatim>\<open>--lru 0\<close> nothing can be read: a piece does not survive its own insertion, so
  every read inside a file that returns yields no byte and reports \<open>EOF\<close>.
\<close>

theorem ReadAt_no_room:
  assumes "coherent cfg cli objs content w" and "lru_cap (rw_cache w) \<le> 0"
    and "file_in v content L ps" and "0 \<le> off" and "off < Size (vf_file v)" and "0 < plen"
    and "ReadAt sf cfg cli v plen off w = (Ret (p, err), w')"
  shows "p = [] \<and> err = Some EOF"
proof -
  let ?get = "getPiece sf cfg cli (PieceHashes (vf_tm v))"
  let ?n = "nat (min (int plen) (Size (vf_file v) - off))" and ?st = "nat (Offset (vf_file v) + off)"
  have pos: "?st < length (concat ps)" "0 < ?n" "uniform L ps" "0 < L"
    using assms(3-6) by (auto simp: file_in_def)
  note idx = uniform_locate_index [OF pos(3,1)]
  obtain r w1 where g: "?get (int (?st div L)) w = (r, w1)" by fastforce
  have e: "r = Ret d \<Longrightarrow> d = []" for d
    using getPiece_no_room [of cfg cli objs content w "int (?st div L)" "PieceHashes (vf_tm v)" sf d w1]
      g assms(1,2) idx file_in_length [OF assms(3)]
    by (simp add: roomless_def)
  have "int ?st sdiv int L = int (?st div L)" "int ?st smod int L = int (?st mod L)"
    using pos(4) by (simp_all add: sdiv_nat smod_nat del: int_nat_eq)
  then have loop: "read_loop ?get (length ps) (int L) ?n (int ?st) [] w
      = (case r of Ret d \<Rightarrow> (Ret [], w1) | Panicked x \<Rightarrow> (Panicked x, w1) | Blocked \<Rightarrow> (Blocked, w1))"
    using pos(2,4) idx g e by (subst read_loop.simps) (cases r; simp add: Let_def del: int_nat_eq)
  from assms(7) [unfolded ReadAt_def ReadAt_with_in [OF assms(3-5)]]
  obtain q w2 where l: "read_loop ?get (length ps) (int L) ?n (int ?st) [] w = (Ret q, w2)"
    and res: "(if int (length q) < Size (vf_file v) - off \<and> length q < ?n then ret (q, Some EOF)
        else if Size (vf_file v) \<le> wrap64 (off + int (length q)) then ret (q, Some EOF) else ret (q, None)) w2
      = (Ret (p, err), w')"
    by (auto simp: bindM_Ret_iff)
  have "q = []" using l loop by (cases r) auto
  with res assms(5,6) show ?thesis by (auto simp: ret_run split: if_splits)
qed

lemma no_room_read_vf0: "fst (ReadAt id cfg0 mem_s3 vf0 2 0 (reader0 bucket_p 0)) = Ret ([], Some EOF)"
  by code_simp

theorem ReadAt_no_room_witness:
  "fst (ReadAt id cfg0 mem_s3 vf0 2 0 (reader0 bucket_p 0)) = Ret ([], Some EOF)
    \<and> ([] :: bytes) = [] \<and> Some EOF = Some EOF"
proof -
  have h: "0 < Size (vf_file vf0)" "lru_cap (rw_cache (reader0 bucket_p 0)) \<le> 0"
    by (simp_all add: vf0_def reader0_def newLRU_def)
  obtain w' where "ReadAt id cfg0 mem_s3 vf0 2 0 (reader0 bucket_p 0) = (Ret ([], Some EOF), w')"
    using no_room_read_vf0 by (metis prod.collapse)
  from ReadAt_no_room [OF coherent_reader0 h(2) file_in_vf0 _ h(1) _ this] no_room_read_vf0
  show ?thesis by simp
qed

lemma getPiece_store_error:
  assumes "0 \<le> idx" "idx < int (length hashes)"
    and "PrefetchDistance cfg + int (length hashes) < 2 ^ 63"
    and "lru_lookup (rw_cache w) (hashes ! nat idx) = None"
    and "fst (GetObject cli (S3Bucket cfg) (KeyPiece cfg (hashes ! nat idx)) (w_s3 w)) = Inl e"
  shows "\<exists>x w'. getPiece sf cfg cli hashes idx w = (Panicked (sf (PException x)), w')"
proof -
  let ?h = "hashes ! nat idx" and ?d = "PrefetchDistance cfg"
  let ?pre = "if 0 < ?d \<and> wrap64 (idx + ?d) < int (length hashes)
    then bindM (go_index hashes (wrap64 (idx + ?d))) (\<lambda>hash. spawn hash) else ret ()"
  have w64: "0 < ?d \<Longrightarrow> wrap64 (idx + ?d) = idx + ?d" using assms(1-3) by (intro wrap64_nonneg) auto
  have "\<exists>xs. ?pre w = (Ret (), w\<lparr>rw_spawned := xs\<rparr>)"
    using assms(1,2) w64 by (auto simp: go_index_def spawn_def modifyM_run ret_run intro: exI [of _ "rw_spawned w"])
  then obtain xs where pre: "?pre w = (Ret (), w\<lparr>rw_spawned := xs\<rparr>)" by blast
  have idx: "go_index hashes idx = ret ?h" using assms(1,2) by (simp add: go_index_def)
  have miss: "fst (LRU_Get ?h (rw_cache w)) = None"
    "fst (LRU_Get ?h (snd (LRU_Get ?h (rw_cache w)))) = None"
    using assms(4) by (simp_all add: lru_Get_value lru_Get_lookup)
  have run: "getPiece sf cfg cli hashes idx w =
      bindM (sf_Do sf (fillPiece cfg cli ?h)) (\<lambda>_.
        bindM (cacheGet ?h) (\<lambda>r. ret (case r of Some data \<Rightarrow> data | None \<Rightarrow> [])))
        (w\<lparr>rw_spawned := xs, rw_cache := snd (LRU_Get ?h (rw_cache w))\<rparr>)"
    unfolding getPiece_def Let_def idx bindM_ret
    by (subst bindM_def) (simp only: pre prod.case outcome.case, subst bindM_def,
        simp add: cacheGet_run miss)
  obtain s' where "GetObject cli (S3Bucket cfg) (KeyPiece cfg ?h) (w_s3 w) = (Inl e, s')"
    using assms(5) by (metis prod.collapse)
  then show ?thesis
    unfolding run by (auto simp: bindM_def sf_Do_def fillPiece_def cacheGet_run miss Cat_def call_def
        ThrowFmt_run)
qed

text \<open>
  An error of the service in a foreground read is not an error of \<open>ReadAt\<close>. When the
  piece is not cached and fetching it fails, \<open>ReadAt\<close> panics; the panic has passed through
  the singleflight group, so not even a \<open>Try\<close> around the read catches it.
\<close>

theorem ReadAt_store_error:
  assumes "0 \<le> off" and "off < Size (vf_file v)" and "0 < plen"
    and "0 \<le> Offset (vf_file v)" and "Offset (vf_file v) + off < 2 ^ 63" and "0 < PieceLen (vf_tm v)"
    and "i = (Offset (vf_file v) + off) div PieceLen (vf_tm v)"
    and "i < int (length (PieceHashes (vf_tm v)))"
    and "PrefetchDistance cfg + int (length (PieceHashes (vf_tm v))) < 2 ^ 63"
    and "lru_lookup (rw_cache w) (PieceHashes (vf_tm v) ! nat i) = None"
    and "fst (GetObject cli (S3Bucket cfg) (KeyPiece cfg (PieceHashes (vf_tm v) ! nat i)) (w_s3 w)) = Inl e"
    and "\<And>x y. sf (PException x) \<noteq> PException y"
  shows "\<exists>p w'. Try (ReadAt sf cfg cli v plen off) w = (Panicked p, w')"
proof -
  let ?so = "Offset (vf_file v) + off" and ?n = "nat (min (int plen) (Size (vf_file v) - off))"
  have so: "wrap64 ?so = ?so" using assms(1,4,5) by (intro wrap64_nonneg) auto
  have i: "?so sdiv PieceLen (vf_tm v) = i" "0 \<le> i"
    using assms(1,4,6,7) sdiv_nat [of "nat (PieceLen (vf_tm v))" "nat ?so"]
    by (auto simp: zdiv_int pos_imp_zdiv_nonneg_iff)
  from getPiece_store_error [OF i(2) assms(8-11)] obtain x w' where
    g: "getPiece sf cfg cli (PieceHashes (vf_tm v)) i w = (Panicked (sf (PException x)), w')" by blast
  have "read_loop (getPiece sf cfg cli (PieceHashes (vf_tm v))) (length (PieceHashes (vf_tm v)))
      (PieceLen (vf_tm v)) n (?so) [] w = (Panicked (sf (PException x)), w')" if "0 < n" for n
    using that assms(6,8) g by (subst read_loop.simps) (simp add: i Let_def)
  then have "ReadAt sf cfg cli v plen off w = (Panicked (sf (PException x)), w')"
    using assms(1-3) by (auto simp: ReadAt_def ReadAt_with_def Let_def so bindM_def)
  with assms(12) [of x] show ?thesis
    by (cases "sf (PException x)") (auto simp: Try_def)
qed

definition wrap_panic :: "panicval \<Rightarrow> panicval" where
  "wrap_panic p = PForeign ''panicError''"

theorem ReadAt_store_error_witness:
  "\<exists>p w'. Try (ReadAt wrap_panic cfg0 mem_s3 vf0 2 0) (reader0 (fst bucket_p, [True]) 5) = (Panicked p, w')"
  by (rule ReadAt_store_error [where i = 0 and e = slow_down])
    (simp_all add: vf0_def reader0_def wrap_panic_def mem_s3_def mem_fails_def)

text \<open>
  A torrent whose piece length is zero makes every read inside its files panic with a
  division by zero, which no \<open>Try\<close> catches.
\<close>

theorem ReadAt_zero_piece_length:
  assumes "PieceLen (vf_tm v) = 0" and "0 \<le> off" and "off < Size (vf_file v)" and "0 < plen"
  shows "Try (ReadAt sf cfg cli v plen off) w = (Panicked (PRuntime ''integer divide by zero''), w)"
proof -
  have "read_loop get n 0 k so [] w = (Panicked (PRuntime ''integer divide by zero''), w)"
    if "0 < k" for get n k so
    using that by (subst read_loop.simps) simp
  with assms show ?thesis
    by (auto simp: ReadAt_def ReadAt_with_def Let_def bindM_def Try_def)
qed

theorem ReadAt_zero_piece_length_witness:
  "fst (Try (ReadAt id cfg0 mem_s3 (vf0\<lparr>vf_tm := (vf_tm vf0)\<lparr>PieceLen := 0\<rparr>\<rparr>) 2 0) (reader0 bucket_p 5))
    = Panicked (PRuntime ''integer divide by zero'')"
  by (subst ReadAt_zero_piece_length) (simp_all add: vf0_def)

end
