(* ===== verification/Sftp.thy ===== *)
theory Sftp
  imports Reader "HOL-Library.List_Lexorder" "HOL-Library.Char_ord" "HOL-Library.Multiset"
begin

text \<open>
  The SFTP handlers of \<^verbatim>\<open>sftp.go\<close>: paths, directory listings, attributes, opening a file,
  and the answers to the four kinds of requests the server library sends. Reading an opened file is
  in theory \<open>Reader\<close>.

  The handlers only look at the catalogue, so they leave every state as it is; their errors
  are the errors the library reports to the client. \<open>sort.Slice\<close> is not stable, so it is a
  parameter: some function that sorts.
\<close>

section \<open>Paths\<close>

definition splitPath :: "string \<Rightarrow> string \<times> string" where
  "splitPath p =
     (let p = path_Clean (''/'' @ p);
          p = strings_TrimPrefix p ''/''
      in if p = '''' \<or> p = ''.'' then ('''', '''')
         else (let i = strings_Index p (CHR ''/'')
               in if i \<ge> 0 then (take (nat i) p, drop (nat i + 1) p) else (p, '''')))"

section \<open>File attributes\<close>

record vInfo =
  vi_name :: string
  vi_size :: int
  vi_dir :: bool

definition newInfo :: "string \<Rightarrow> int \<Rightarrow> bool \<Rightarrow> vInfo" where
  "newInfo name sz dir = \<lparr>vi_name = name, vi_size = sz, vi_dir = dir\<rparr>"

lemma newInfo_simps [simp]:
  "vi_name (newInfo n s d) = n" "vi_size (newInfo n s d) = s" "vi_dir (newInfo n s d) = d"
  by (simp_all add: newInfo_def)

unbundle bit_operations_syntax

definition ModeDir :: "32 word" where
  "ModeDir = push_bit 31 1"

definition Mode :: "vInfo \<Rightarrow> 32 word" where
  "Mode i = (if vi_dir i then ModeDir OR 365 else 292)"

type_synonym sorter = "vInfo list \<Rightarrow> vInfo list"

text \<open>\<open>ListAt(out, off)\<close> with \<open>len(out) = n\<close>: the entries copied and the error.\<close>

definition ListAt :: "vInfo list \<Rightarrow> nat \<Rightarrow> int \<Rightarrow> ('w, vInfo list \<times> goerr option) prog" where
  "ListAt l n off =
     (if off \<ge> int (length l) then ret ([], Some EOF)
      else if off < 0 then panic (PRuntime ''slice bounds out of range'')
      else (let out = take n (drop (nat off) l)
            in ret (out, if length out < n then Some EOF else None)))"

section \<open>Listing, attributes, opening\<close>

text \<open>The loop over the files of a torrent: \<open>seen\<close> is \<open>seenDir\<close>.\<close>

fun list_loop :: "string \<Rightarrow> string set \<Rightarrow> FileEntry list \<Rightarrow> vInfo list" where
  "list_loop pre seen [] = []"
| "list_loop pre seen (f # fs) =
     (if \<not> strings_HasPrefix (Path f) pre then list_loop pre seen fs
      else (let rest = drop (length pre) (Path f) in
        if rest = '''' then list_loop pre seen fs
        else (let idx = strings_Index rest (CHR ''/'') in
          if idx \<ge> 0 then
            (let dname = take (nat idx) rest in
             if dname \<in> seen then list_loop pre seen fs
             else newInfo dname 0 True # list_loop pre (insert dname seen) fs)
          else newInfo rest (Size f) False # list_loop pre seen fs)))"

definition sftp_list ::
  "maporder \<Rightarrow> sorter \<Rightarrow> string \<Rightarrow> (('s, 'z) mworld_scheme, vInfo list) prog" where
  "sftp_list order srt p =
     (case splitPath p of (tname, fpath) \<Rightarrow>
        if tname = '''' then
          bindM (Names order) (\<lambda>names. ret (map (\<lambda>n. newInfo n 0 True) (sort names)))
        else bindM (ByName tname) (\<lambda>r. case r of
            None \<Rightarrow> ThrowFmt ''no such torrent: %s'' [AStr tname]
          | Some tm \<Rightarrow>
              let pre = (if fpath \<noteq> '''' then fpath @ ''/'' else '''')
              in ret (srt (list_loop pre {} (Files tm)))))"

definition sftp_stat :: "string \<Rightarrow> (('s, 'z) mworld_scheme, vInfo list) prog" where
  "sftp_stat p =
     (case splitPath p of (tname, fpath) \<Rightarrow>
        if tname = '''' then ret [newInfo ''/'' 0 True]
        else bindM (ByName tname) (\<lambda>r. case r of
            None \<Rightarrow> ThrowFmt ''no such torrent: %s'' [AStr tname]
          | Some tm \<Rightarrow>
              if fpath = '''' then ret [newInfo tname (TotalLen tm) True]
              else (case List.find (\<lambda>f. Path f = fpath) (Files tm) of
                  Some f \<Rightarrow> ret [newInfo (path_Base fpath) (Size f) False]
                | None \<Rightarrow>
                    (case List.find (\<lambda>f. strings_HasPrefix (Path f) (fpath @ ''/'')) (Files tm) of
                        Some f \<Rightarrow> ret [newInfo (path_Base fpath) 0 True]
                      | None \<Rightarrow> ThrowFmt ''no such path: %s'' [AStr p]))))"

definition openFile :: "string \<Rightarrow> (('s, 'z) mworld_scheme, virtualFile) prog" where
  "openFile p =
     (case splitPath p of (tname, fpath) \<Rightarrow>
        if tname = '''' \<or> fpath = '''' then ThrowFmt ''not a file: %s'' [AStr p]
        else bindM (ByName tname) (\<lambda>r. case r of
            None \<Rightarrow> ThrowFmt ''no such torrent: %s'' [AStr tname]
          | Some tm \<Rightarrow>
              (case List.find (\<lambda>f. Path f = fpath) (Files tm) of
                  Some f \<Rightarrow> ret \<lparr>vf_tm = tm, vf_file = f\<rparr>
                | None \<Rightarrow> ThrowFmt ''no such file: %s'' [AStr p])))"

section \<open>The four handlers\<close>

text \<open>\<open>exc.Unwrap()\<close> of a caught exception is the error of the answer.\<close>

definition answer :: "exception + 'a \<Rightarrow> goerr + 'a" where
  "answer r = (case r of Inl exc \<Rightarrow> Inl (Unwrap exc) | Inr out \<Rightarrow> Inr out)"

definition Fileread :: "string \<Rightarrow> (('s, 'z) mworld_scheme, goerr + virtualFile) prog" where
  "Fileread fpath = bindM (Try (openFile fpath)) (\<lambda>r. ret (answer r))"

definition Filewrite :: "string \<Rightarrow> ('w, goerr) prog" where
  "Filewrite fpath = ret ErrPermission"

definition Filecmd :: "string \<Rightarrow> ('w, goerr) prog" where
  "Filecmd fpath = ret ErrPermission"

definition Filelist ::
  "maporder \<Rightarrow> sorter \<Rightarrow> string \<Rightarrow> string \<Rightarrow> (('s, 'z) mworld_scheme, goerr + vInfo list) prog" where
  "Filelist order srt mthd fpath =
     bindM (Try (
       if mthd = ''List'' then sftp_list order srt fpath
       else if mthd = ''Stat'' then sftp_stat fpath
       else if mthd = ''Readlink'' then ThrowFmt ''readlink not supported: %s'' [AStr fpath]
       else ThrowFmt ''unknown Filelist method %q'' [AStr mthd])) (\<lambda>r. ret (answer r))"

section \<open>Facts about paths\<close>

definition join_path :: "string list \<Rightarrow> string" where
  "join_path cs = strings_Join cs ''/''"

definition split_comps :: "string list \<Rightarrow> string \<times> string" where
  "split_comps cs = (case cs of [] \<Rightarrow> ('''', '''') | t # fs \<Rightarrow> (t, join_path fs))"

lemma join_path_eq_Nil: "\<forall>c\<in>set cs. proper_comp c \<Longrightarrow> join_path cs = '''' \<longleftrightarrow> cs = []"
  by (cases cs; cases "tl cs") (auto simp: join_path_def proper_comp_def)

lemma splitPath_clean:
  assumes "path_Clean (''/'' @ p) = ''/'' @ join_path cs" and "\<forall>c\<in>set cs. proper_comp c"
  shows "splitPath p = split_comps cs"
proof (cases cs)
  case Nil
  then show ?thesis using assms(1) by (simp add: splitPath_def split_comps_def join_path_def go_defs)
next
  case (Cons t fs)
  have t: "t \<noteq> ''''" "t \<noteq> ''.''" "CHR ''/'' \<notin> set t" using assms(2) Cons by (auto simp: proper_comp_def)
  show ?thesis
  proof (cases fs)
    case Nil
    then show ?thesis using assms(1) Cons t
      by (simp add: splitPath_def split_comps_def join_path_def strings_TrimPrefix_def
          strings_HasPrefix_def Index_absent)
  next
    case (Cons f fs')
    then have j: "join_path (t # fs) = t @ CHR ''/'' # join_path fs"
      by (simp add: join_path_def)
    then have "join_path (t # fs) \<noteq> ''.''" using t by (cases t) auto
    then show ?thesis using assms(1) \<open>cs = t # fs\<close> t
      by (simp add: splitPath_def split_comps_def j strings_TrimPrefix_def strings_HasPrefix_def Index_append Let_def)
  qed
qed

text \<open>
  Whatever a client sends, the path is read as a list of proper components: none is empty,
  \<open>.\<close> or \<open>..\<close>, and none holds a slash.
\<close>

lemma splitPath_proper:
  "\<exists>cs. splitPath p = split_comps cs \<and> (\<forall>c\<in>set cs. proper_comp c)
    \<and> path_Clean (''/'' @ p) = ''/'' @ join_path cs"
  using path_Clean_rooted [of p] splitPath_clean [of p] by (auto simp: join_path_def)

lemma splitPath_join:
  assumes "\<forall>c\<in>set cs. proper_comp c"
  shows "splitPath (join_path cs) = split_comps cs" and "splitPath (''/'' @ join_path cs) = split_comps cs"
proof -
  have "path_Clean (''/'' @ join_path cs) = ''/'' @ join_path cs"
    using path_Clean_proper [OF assms] by (simp add: join_path_def)
  then show "splitPath (join_path cs) = split_comps cs" by (rule splitPath_clean [OF _ assms])
  have "path_Clean (''/'' @ ''/'' @ join_path cs) = ''/'' @ join_path cs"
    using path_Clean_slashes path_Clean_proper [OF assms] by (simp add: join_path_def)
  then show "splitPath (''/'' @ join_path cs) = split_comps cs" by (rule splitPath_clean [OF _ assms])
qed

text \<open>
  C39: a client cannot name anything outside the catalogue's tree, and can name everything
  in it. Every path splits into a torrent name and a file path without empty, \<open>.\<close> or \<open>..\<close>
  components; two paths with the same clean form split alike; and a path made of
  proper components, with or without the leading slash, splits back into them.
\<close>

theorem splitPath_confined:
  "(\<exists>cs. (\<forall>c\<in>set cs. proper_comp c) \<and> splitPath p = split_comps cs
      \<and> splitPath (join_path cs) = splitPath p \<and> splitPath (''/'' @ join_path cs) = splitPath p)
    \<and> (\<forall>t fs. (\<forall>c\<in>set (t # fs). proper_comp c) \<longrightarrow>
        splitPath (join_path (t # fs)) = (t, join_path fs)
        \<and> splitPath (''/'' @ join_path (t # fs)) = (t, join_path fs))"
proof -
  obtain cs where "splitPath p = split_comps cs" "\<forall>c\<in>set cs. proper_comp c"
    using splitPath_proper by blast
  with splitPath_join [of cs] have
    "\<exists>cs. (\<forall>c\<in>set cs. proper_comp c) \<and> splitPath p = split_comps cs
      \<and> splitPath (join_path cs) = splitPath p \<and> splitPath (''/'' @ join_path cs) = splitPath p"
    by metis
  moreover have "(\<forall>c\<in>set (t # fs). proper_comp c) \<longrightarrow>
        splitPath (join_path (t # fs)) = (t, join_path fs)
        \<and> splitPath (''/'' @ join_path (t # fs)) = (t, join_path fs)" for t fs
    using splitPath_join [of "t # fs"] by (simp add: split_comps_def)
  ultimately show ?thesis by blast
qed

theorem splitPath_confined_witness:
  "splitPath ''a/d/y'' = (''a'', ''d/y'') \<and> splitPath ''/../../a/./d/../x'' = (''a'', ''x'')"
proof
  have "\<forall>c\<in>set [''a'', ''d'', ''y'']. proper_comp c" by (simp add: proper_comp_def)
  with conjunct2 [OF splitPath_confined, rule_format, of "''a''" "[''d'', ''y'']"]
  show "splitPath ''a/d/y'' = (''a'', ''d/y'')" by (simp add: join_path_def)
qed code_simp

section \<open>What a listing shows\<close>

text \<open>
  The entry the listing of the directory \<open>pre\<close> makes for one file, if any: the file itself
  when it lies directly in it, and otherwise the directory on the way to it.
\<close>

definition entry_of :: "string \<Rightarrow> FileEntry \<Rightarrow> vInfo option" where
  "entry_of pre f =
     (if prefix pre (Path f) \<and> Path f \<noteq> pre
      then (let rest = drop (length pre) (Path f)
            in if CHR ''/'' \<in> set rest
               then Some (newInfo (takeWhile (\<lambda>c. c \<noteq> CHR ''/'') rest) 0 True)
               else Some (newInfo rest (Size f) False))
      else None)"

lemma take_Index: "CHR ''/'' \<in> set s \<Longrightarrow> take (nat (strings_Index s (CHR ''/''))) s = takeWhile (\<lambda>c. c \<noteq> CHR ''/'') s"
  using Index_present [of "CHR ''/''" s] by (auto simp: takeWhile_append)

lemma list_loop_Cons:
  "list_loop pre seen (f # fs) = (case entry_of pre f of
      None \<Rightarrow> list_loop pre seen fs
    | Some e \<Rightarrow> if vi_dir e then (if vi_name e \<in> seen then list_loop pre seen fs
                                 else e # list_loop pre (insert (vi_name e) seen) fs)
        else e # list_loop pre seen fs)"
proof -
  have "drop (length pre) (Path f) = '''' \<longleftrightarrow> Path f = pre" if "prefix pre (Path f)"
    using that by (auto simp: prefix_def)
  then show ?thesis
    by (auto simp: entry_of_def HasPrefix_iff Index_nonneg_iff take_Index newInfo_def Let_def)
qed

declare list_loop.simps(2) [simp del]
declare list_loop_Cons [simp]

lemma entry_dir: "entry_of pre f = Some e \<Longrightarrow> vi_dir e \<Longrightarrow> e = newInfo (vi_name e) 0 True"
  by (auto simp: entry_of_def newInfo_def Let_def split: if_splits)

lemma set_list_loop:
  "e \<in> set (list_loop pre seen fs) \<longleftrightarrow>
    (\<exists>f\<in>set fs. entry_of pre f = Some e) \<and> \<not> (vi_dir e \<and> vi_name e \<in> seen)"
proof (induction fs arbitrary: seen)
  case (Cons f fs)
  show ?case
  proof (cases "entry_of pre f")
    case (Some x)
    have eq: "entry_of pre f = Some x \<Longrightarrow> entry_of pre g = Some e \<Longrightarrow> vi_dir x \<Longrightarrow> vi_dir e \<Longrightarrow> vi_name e = vi_name x \<Longrightarrow> e = x" for g
      using entry_dir by metis
    show ?thesis using Some eq by (auto simp: Cons.IH)
  qed (simp add: Cons.IH)
qed simp

lemma distinct_dirs_list_loop:
  "distinct (map vi_name (filter vi_dir (list_loop pre seen fs)))"
proof (induction fs arbitrary: seen)
  case (Cons f fs)
  then show ?case by (auto simp: set_list_loop split: option.split)
qed simp

text \<open>\<open>sort.Slice\<close> with the names as keys: the same entries, in order of their names.\<close>

definition sorter_law :: "sorter \<Rightarrow> bool" where
  "sorter_law srt \<longleftrightarrow> (\<forall>xs. mset (srt xs) = mset xs \<and> sorted (map vi_name (srt xs)))"

lemma sorter_law_sort_key: "sorter_law (sort_key vi_name)"
  by (simp add: sorter_law_def)

lemma sorter_set: "sorter_law srt \<Longrightarrow> set (srt xs) = set xs"
  by (metis sorter_law_def mset_eq_setD)

lemma sorter_distinct:
  assumes "sorter_law srt" and "distinct (map vi_name (filter vi_dir xs))"
  shows "distinct (map vi_name (filter vi_dir (srt xs)))"
proof -
  have "mset (map vi_name (filter vi_dir (srt xs))) = mset (map vi_name (filter vi_dir xs))"
    using assms(1) by (simp add: sorter_law_def)
  with assms(2) show ?thesis by (metis mset_eq_imp_distinct_iff)
qed

text \<open>
  A listing is complete and exact. For a path inside a torrent it holds one entry for
  every file directly in that directory, with its size, one directory entry for every name
  that leads on to a deeper file, and nothing else; no directory appears twice, and the
  entries are sorted by name. The root lists one directory for each name of the catalogue.
  Nothing changes in the state.
\<close>

theorem sftp_list_exact:
  assumes "sorter_law srt" and "order_law order" and "splitPath p = (tname, fpath)"
  shows "if tname = '''' then
      finite (dom (m_byName w)) \<longrightarrow>
      (\<exists>ns. sftp_list order srt p w = (Ret (map (\<lambda>n. newInfo n 0 True) ns), w)
        \<and> sorted ns \<and> distinct ns \<and> set ns = dom (m_byName w))
    else (case m_byName w tname of
      None \<Rightarrow> \<exists>e. sftp_list order srt p w = (Panicked (PException e), w)
    | Some tm \<Rightarrow> \<exists>es. sftp_list order srt p w = (Ret es, w)
        \<and> set es = {e. \<exists>f\<in>set (Files tm). entry_of (if fpath = '''' then '''' else fpath @ ''/'') f = Some e}
        \<and> sorted (map vi_name es) \<and> distinct (map vi_name (filter vi_dir es)))"
proof (cases "tname = ''''")
  case True
  have "sftp_list order srt p w = (Ret (map (\<lambda>n. newInfo n 0 True) (sort (order (m_byName w)))), w)"
    using True assms(3) by (simp add: sftp_list_def Names_def ret_run)
  with True assms(2) show ?thesis by (auto simp: order_law_def intro!: exI [of _ "sort (order (m_byName w))"])
next
  case False
  show ?thesis
  proof (cases "m_byName w tname")
    case None
    with False assms(3) show ?thesis by (simp add: sftp_list_def ByName_def outcome_simps)
  next
    case (Some tm)
    let ?pre = "if fpath = '''' then '''' else fpath @ ''/''"
    let ?es = "srt (list_loop ?pre {} (Files tm))"
    have "sftp_list order srt p w = (Ret ?es, w)"
      using False Some assms(3) by (simp add: sftp_list_def ByName_def ret_run Let_def)
    moreover have "set ?es = {e. \<exists>f\<in>set (Files tm). entry_of ?pre f = Some e}"
      using sorter_set [OF assms(1)] by (auto simp: set_list_loop)
    moreover have "sorted (map vi_name ?es)" using assms(1) by (simp add: sorter_law_def)
    moreover have "distinct (map vi_name (filter vi_dir ?es))"
      by (rule sorter_distinct [OF assms(1) distinct_dirs_list_loop])
    ultimately show ?thesis using False Some by auto
  qed
qed

section \<open>Paths as lists of components\<close>

text \<open>The components of a path that is cleaned as a rooted one.\<close>

definition comps :: "string \<Rightarrow> string list" where
  "comps p = rev (foldl (clean_step True) [] (strings_Split p (CHR ''/'')))"

lemma comps_proper: "c \<in> set (comps p) \<Longrightarrow> proper_comp c"
proof -
  have "\<forall>c\<in>set (foldl (clean_step True) [] (strings_Split p (CHR ''/''))). proper_comp c"
    by (rule clean_fold_rooted_proper) (auto dest: Split_no_sep)
  then show "c \<in> set (comps p) \<Longrightarrow> proper_comp c" by (simp add: comps_def)
qed

lemma path_Clean_comps: "path_Clean (''/'' @ p) = ''/'' @ join_path (comps p)"
  by (simp add: path_Clean_def strings_HasPrefix_def Let_def comps_def join_path_def)

lemma splitPath_comps: "splitPath p = split_comps (comps p)"
  by (rule splitPath_clean [OF path_Clean_comps]) (simp add: comps_proper)

lemma Split_append: "strings_Split (s @ c # t) c = strings_Split s c @ strings_Split t c"
proof (induction s)
  case (Cons x s)
  then show ?case by (cases "strings_Split s c") auto
qed simp

lemma comps_child: "proper_comp c \<Longrightarrow> comps (p @ ''/'' @ c) = comps p @ [c]"
  by (simp add: comps_def Split_append Split_no_occ proper_comp_def)

definition dir_prefix :: "string list \<Rightarrow> string" where
  "dir_prefix fs = concat (map (\<lambda>c. c @ ''/'') fs)"

lemma join_path_append: "rest \<noteq> [] \<Longrightarrow> join_path (fs @ rest) = dir_prefix fs @ join_path rest"
  by (induction fs) (simp_all add: join_path_def dir_prefix_def Join_Cons)

lemma dir_prefix_join: "fs \<noteq> [] \<Longrightarrow> dir_prefix fs = join_path fs @ ''/''"
proof (induction fs)
  case (Cons c fs)
  then show ?case by (cases fs) (simp_all add: dir_prefix_def join_path_def)
qed simp

lemma no_slash_prefix:
  "CHR ''/'' \<notin> set a \<Longrightarrow> CHR ''/'' \<notin> set x \<Longrightarrow> prefix (a @ CHR ''/'' # r) (x @ CHR ''/'' # s) \<longleftrightarrow> a = x \<and> prefix r s"
proof (induction a arbitrary: x)
  case Nil
  then show ?case by (cases x) auto
next
  case (Cons y a)
  then show ?case by (cases x) auto
qed

lemma prefix_dir_prefix:
  "\<forall>c\<in>set fs. proper_comp c \<Longrightarrow> \<forall>c\<in>set cs. proper_comp c \<Longrightarrow>
    prefix (dir_prefix fs) (join_path cs) \<longleftrightarrow> fs = [] \<or> (\<exists>rest. rest \<noteq> [] \<and> cs = fs @ rest)"
proof (induction fs arbitrary: cs)
  case Nil
  then show ?case by (simp add: dir_prefix_def)
next
  case (Cons a fs)
  show ?case
  proof (cases cs)
    case Nil
    then show ?thesis by (simp add: dir_prefix_def join_path_def)
  next
    case (Cons x xs)
    note IH = Cons.IH [of xs]
    have sl: "CHR ''/'' \<notin> set a" "CHR ''/'' \<notin> set x"
      using Cons.prems Cons by (simp_all add: proper_comp_def)
    show ?thesis
    proof (cases xs)
      case Nil
      have "\<not> prefix (dir_prefix (a # fs)) (join_path cs)"
        using sl Nil \<open>cs = x # xs\<close> by (auto simp: dir_prefix_def join_path_def prefix_def)
      with Nil \<open>cs = x # xs\<close> show ?thesis by (auto simp: append_eq_Cons_conv)
    next
      case (Cons y ys)
      then have "join_path cs = x @ CHR ''/'' # join_path xs"
        using \<open>cs = x # xs\<close> by (simp add: join_path_def)
      then have "prefix (dir_prefix (a # fs)) (join_path cs) \<longleftrightarrow> a = x \<and> prefix (dir_prefix fs) (join_path xs)"
        using no_slash_prefix [OF sl, of "dir_prefix fs" "join_path xs"] by (simp add: dir_prefix_def)
      with IH Cons.prems \<open>cs = x # xs\<close> Cons show ?thesis by auto
    qed
  qed
qed

lemma takeWhile_join: "CHR ''/'' \<notin> set c \<Longrightarrow> takeWhile (\<lambda>x. x \<noteq> CHR ''/'') (join_path (c # rest)) = c"
proof -
  assume "CHR ''/'' \<notin> set c"
  then have "\<forall>x\<in>set c. x \<noteq> CHR ''/''" by auto
  then show ?thesis by (cases rest) (simp_all add: join_path_def)
qed

text \<open>The entry of a file in a directory, by their components.\<close>

lemma entry_of_join:
  assumes "\<forall>c\<in>set fs. proper_comp c" and "\<forall>c\<in>set cs. proper_comp c" and "cs \<noteq> []"
    and "Path f = join_path cs"
  shows "entry_of (dir_prefix fs) f = Some e \<longleftrightarrow>
    (\<exists>c rest. cs = fs @ c # rest \<and> e = (if rest = [] then newInfo c (Size f) False else newInfo c 0 True))"
proof -
  have in_dir: "prefix (dir_prefix fs) (Path f) \<longleftrightarrow> (\<exists>rest. rest \<noteq> [] \<and> cs = fs @ rest)"
    using prefix_dir_prefix [OF assms(1,2)] assms(3,4) by auto
  have entry: "entry_of (dir_prefix fs) f = Some (if rest = [] then newInfo c (Size f) False else newInfo c 0 True)"
    if "cs = fs @ c # rest" for c rest
  proof -
    have c: "CHR ''/'' \<notin> set c" "c \<noteq> ''''" and pr: "\<forall>c\<in>set (c # rest). proper_comp c"
      using that assms(2) by (simp_all add: proper_comp_def)
    have j: "Path f = dir_prefix fs @ join_path (c # rest)"
      using assms(4) that join_path_append [of "c # rest" fs] by simp
    have ne: "join_path (c # rest) \<noteq> []" using join_path_eq_Nil [OF pr] by simp
    have "CHR ''/'' \<in> set (join_path (c # rest)) \<longleftrightarrow> rest \<noteq> []"
      using c by (cases rest) (simp_all add: join_path_def)
    then show ?thesis using j ne takeWhile_join [OF c(1), of rest]
      by (auto simp: entry_of_def Let_def join_path_def)
  qed
  show ?thesis
  proof
    assume some: "entry_of (dir_prefix fs) f = Some e"
    then have "prefix (dir_prefix fs) (Path f)" by (auto simp: entry_of_def split: if_splits)
    then obtain c rest where "cs = fs @ c # rest" using in_dir by (auto simp: neq_Nil_conv)
    with entry [OF this] some
    show "\<exists>c rest. cs = fs @ c # rest \<and> e = (if rest = [] then newInfo c (Size f) False else newInfo c 0 True)"
      by auto
  next
    assume "\<exists>c rest. cs = fs @ c # rest \<and> e = (if rest = [] then newInfo c (Size f) False else newInfo c 0 True)"
    with entry show "entry_of (dir_prefix fs) f = Some e" by metis
  qed
qed

section \<open>Listing and attributes agree\<close>

text \<open>
  File tables as torrents have them: every path is made of proper components, no two files
  have one path, and no file's path is a directory on the way to another.
\<close>

definition tree_files :: "FileEntry list \<Rightarrow> bool" where
  "tree_files fs \<longleftrightarrow> (\<forall>f\<in>set fs. \<exists>cs. cs \<noteq> [] \<and> (\<forall>c\<in>set cs. proper_comp c) \<and> Path f = join_path cs)
     \<and> (\<forall>f\<in>set fs. \<forall>g\<in>set fs. (Path f = Path g \<longrightarrow> f = g) \<and> \<not> prefix (Path f @ ''/'') (Path g))"

lemma find_Some_unique:
  assumes "f \<in> set fs" and "P f" and "\<forall>g\<in>set fs. P g \<longrightarrow> g = f"
  shows "List.find P fs = Some f"
proof (cases "List.find P fs")
  case None
  with assms(1,2) show ?thesis by (auto simp: find_None_iff)
next
  case (Some g)
  then have "g \<in> set fs \<and> P g" by (metis find_Some_iff nth_mem)
  with assms(3) Some show ?thesis by simp
qed

lemma find_None: "(\<forall>g\<in>set fs. \<not> P g) \<Longrightarrow> List.find P fs = None"
  by (simp add: find_None_iff)

lemma find_Some_ex: "f \<in> set fs \<Longrightarrow> P f \<Longrightarrow> \<exists>g. List.find P fs = Some g"
  by (cases "List.find P fs") (auto simp: find_None_iff)

lemma dir_pre: "(if fpath = '''' then '''' else fpath @ ''/'') = dir_prefix fs"
  if "fpath = join_path fs" and "\<forall>c\<in>set fs. proper_comp c"
proof (cases "fs = []")
  case False
  have "fpath \<noteq> ''''" using join_path_eq_Nil [OF that(2)] that(1) False by simp
  then show ?thesis by (simp add: that(1) dir_prefix_join [OF False])
qed (simp add: that(1) dir_prefix_def join_path_def)

lemma path_Base_child: "proper_comp c \<Longrightarrow> path_Base (join_path (fs @ [c])) = c"
proof (cases "fs = []")
  case False
  assume "proper_comp c"
  then show ?thesis using path_Base_append(1) [of c "join_path fs"] dir_prefix_join [OF False]
    by (simp add: join_path_append proper_comp_def) (simp add: join_path_def)
qed (use path_Base_append(2) in \<open>simp add: join_path_def proper_comp_def\<close>)

lemma stat_of_entry:
  assumes tree: "tree_files (Files tm)" and name: "m_byName w t = Some tm"
    and p: "comps p = t # fs" and f: "f \<in> set (Files tm)" and e: "entry_of (dir_prefix fs) f = Some e"
  shows "sftp_stat (p @ ''/'' @ vi_name e) w = (Ret [e], w)
    \<and> (\<not> vi_dir e \<longrightarrow> openFile (p @ ''/'' @ vi_name e) w = (Ret \<lparr>vf_tm = tm, vf_file = f\<rparr>, w))"
proof -
  have fs: "\<forall>c\<in>set fs. proper_comp c" "proper_comp t" using comps_proper [of _ p] p by auto
  obtain cs where cs: "cs \<noteq> []" "\<forall>c\<in>set cs. proper_comp c" "Path f = join_path cs"
    using tree f by (auto simp: tree_files_def)
  from e entry_of_join [OF fs(1) cs(2,1,3)] obtain c rest where
    split: "cs = fs @ c # rest" and ev: "e = (if rest = [] then newInfo c (Size f) False else newInfo c 0 True)"
    by blast
  have vn: "vi_name e = c" by (simp add: ev newInfo_def)
  have c: "proper_comp c" using cs(2) split by simp
  have cp: "comps (p @ ''/'' @ c) = t # fs @ [c]" using comps_child [OF c, of p] p by simp
  let ?q = "join_path (fs @ [c])"
  have q: "?q \<noteq> ''''" using join_path_eq_Nil [of "fs @ [c]"] fs(1) c by auto
  have t: "t \<noteq> ''''" using fs(2) by (simp add: proper_comp_def)
  have sp: "splitPath (p @ CHR ''/'' # c) = (t, ?q)"
    using splitPath_comps [of "p @ ''/'' @ c"] cp by (simp add: split_comps_def)
  note base = path_Base_child [OF c, of fs]
  show ?thesis
  proof (cases "rest = []")
    case True
    then have "Path f = ?q" using cs(3) split by simp
    then have "List.find (\<lambda>g. Path g = ?q) (Files tm) = Some f"
      using tree f by (intro find_Some_unique) (auto simp: tree_files_def)
    then show ?thesis using True t q name base
      by (simp add: sftp_stat_def openFile_def vn sp ByName_def ret_run ev)
  next
    case False
    have pf: "Path f = (?q @ ''/'') @ join_path rest"
      using cs(3) split join_path_append [OF False, of "fs @ [c]"] dir_prefix_join [of "fs @ [c]"] by simp
    have "\<not> prefix (Path g @ ''/'') (Path f)" if "g \<in> set (Files tm)" for g
      using tree f that by (simp add: tree_files_def)
    with pf have none: "List.find (\<lambda>g. Path g = ?q) (Files tm) = None"
      by (intro find_None) (metis prefixI)
    obtain g where some: "List.find (\<lambda>g. strings_HasPrefix (Path g) (?q @ ''/'')) (Files tm) = Some g"
      using find_Some_ex [of f "Files tm" "\<lambda>g. strings_HasPrefix (Path g) (?q @ ''/'')"] f pf
      by (auto simp: HasPrefix_iff)
    show ?thesis using False t q name base none some
      by (simp add: sftp_stat_def vn sp ByName_def ret_run ev)
  qed
qed

lemma entry_of_child:
  assumes "c \<noteq> ''''" and "CHR ''/'' \<notin> set c"
  shows "Path f = pre @ c \<Longrightarrow> entry_of pre f = Some (newInfo c (Size f) False)"
    and "Path f = pre @ c @ ''/'' @ rest \<Longrightarrow> entry_of pre f = Some (newInfo c 0 True)"
proof -
  have "takeWhile (\<lambda>x. x \<noteq> CHR ''/'') (c @ CHR ''/'' # rest) = c"
    using assms(2) by (subst takeWhile_append2) auto
  with assms show "Path f = pre @ c \<Longrightarrow> entry_of pre f = Some (newInfo c (Size f) False)"
    and "Path f = pre @ c @ ''/'' @ rest \<Longrightarrow> entry_of pre f = Some (newInfo c 0 True)"
    by (simp_all add: entry_of_def)
qed

text \<open>
  C24: listings, attributes and the files that can be opened agree with the file table. Take any path inside a torrent whose file
  table is a proper tree, and list it as a directory. Every file directly in it is an entry, with its size; every
  name that leads on to a deeper file is an entry, a directory; and every entry is what \<open>Stat\<close> answers for the
  path of that entry. If it is a file, opening that path gives a file of the table of this size with this
  torrent's pieces.
\<close>

theorem list_stat_open_agree:
  assumes "sorter_law srt" and "splitPath p = (tname, fpath)" and "tname \<noteq> ''''"
    and "m_byName w tname = Some tm" and "tree_files (Files tm)"
    and "pre = (if fpath = '''' then '''' else fpath @ ''/'')"
  shows "\<exists>es. sftp_list order srt p w = (Ret es, w)
    \<and> (\<forall>f\<in>set (Files tm). \<forall>c rest. c \<noteq> '''' \<and> CHR ''/'' \<notin> set c \<longrightarrow>
        (Path f = pre @ c \<longrightarrow> newInfo c (Size f) False \<in> set es)
        \<and> (Path f = pre @ c @ ''/'' @ rest \<longrightarrow> newInfo c 0 True \<in> set es))
    \<and> (\<forall>e\<in>set es. sftp_stat (p @ ''/'' @ vi_name e) w = (Ret [e], w)
        \<and> (\<not> vi_dir e \<longrightarrow> (\<exists>v. openFile (p @ ''/'' @ vi_name e) w = (Ret v, w)
              \<and> Size (vf_file v) = vi_size e \<and> vf_file v \<in> set (Files tm) \<and> vf_tm v = tm)))"
proof -
  obtain fs where cp: "comps p = tname # fs" and fp: "fpath = join_path fs"
    using assms(2,3) splitPath_comps [of p] by (cases "comps p") (auto simp: split_comps_def)
  have fs: "\<forall>c\<in>set fs. proper_comp c" using comps_proper [of _ p] cp by auto
  have pre: "pre = dir_prefix fs" using assms(6) dir_pre [OF fp fs] by simp
  let ?es = "srt (list_loop pre {} (Files tm))"
  have run: "sftp_list order srt p w = (Ret ?es, w)"
    using assms(2,3,4,6) by (simp add: sftp_list_def ByName_def ret_run Let_def)
  have es: "e \<in> set ?es \<longleftrightarrow> (\<exists>f\<in>set (Files tm). entry_of pre f = Some e)" for e
    using sorter_set [OF assms(1)] by (simp add: set_list_loop)
  have agree: "sftp_stat (p @ ''/'' @ vi_name e) w = (Ret [e], w)
      \<and> (\<not> vi_dir e \<longrightarrow> (\<exists>v. openFile (p @ ''/'' @ vi_name e) w = (Ret v, w)
            \<and> Size (vf_file v) = vi_size e \<and> vf_file v \<in> set (Files tm) \<and> vf_tm v = tm))" if "e \<in> set ?es" for e
  proof -
    from that es obtain f where f: "f \<in> set (Files tm)" "entry_of (dir_prefix fs) f = Some e" by (auto simp: pre)
    have "\<not> vi_dir e \<Longrightarrow> Size f = vi_size e"
      using f(2) by (auto simp: entry_of_def newInfo_def Let_def split: if_splits)
    with stat_of_entry [OF assms(5,4) cp f] f(1) show ?thesis by auto
  qed
  have "newInfo c (Size f) False \<in> set ?es" if "f \<in> set (Files tm)" "c \<noteq> ''''" "CHR ''/'' \<notin> set c" "Path f = pre @ c" for f c
    using es entry_of_child(1) [OF that(2-4)] that(1) by blast
  moreover have "newInfo c 0 True \<in> set ?es"
    if "f \<in> set (Files tm)" "c \<noteq> ''''" "CHR ''/'' \<notin> set c" "Path f = pre @ c @ ''/'' @ rest" for f c rest
    using es entry_of_child(2) [OF that(2-4)] that(1) by blast
  ultimately show ?thesis using run agree by blast
qed

section \<open>The handlers\<close>

lemma openFile_outcome:
  "openFile p w = (case splitPath p of (tname, fpath) \<Rightarrow>
     if tname = '''' \<or> fpath = '''' then (Panicked (PException (Exception (Errorf ''not a file: %s'' [AStr p]))), w)
     else (case m_byName w tname of
         None \<Rightarrow> (Panicked (PException (Exception (Errorf ''no such torrent: %s'' [AStr tname]))), w)
       | Some tm \<Rightarrow> (case List.find (\<lambda>f. Path f = fpath) (Files tm) of
             Some f \<Rightarrow> (Ret \<lparr>vf_tm = tm, vf_file = f\<rparr>, w)
           | None \<Rightarrow> (Panicked (PException (Exception (Errorf ''no such file: %s'' [AStr p]))), w))))"
  by (auto simp: openFile_def ByName_def outcome_simps split: prod.split option.split)

lemma sftp_list_outcome:
  "(\<exists>es. sftp_list order srt p w = (Ret es, w)) \<or> (\<exists>e. sftp_list order srt p w = (Panicked (PException e), w))"
  by (auto simp: sftp_list_def ByName_def Names_def outcome_simps Let_def split: prod.split option.split)

lemma sftp_stat_outcome:
  "(\<exists>es. sftp_stat p w = (Ret es, w)) \<or> (\<exists>e. sftp_stat p w = (Panicked (PException e), w))"
  by (auto simp: sftp_stat_def ByName_def outcome_simps split: prod.split option.split)

lemma answer_run:
  assumes "(\<exists>x. m w = (Ret x, w)) \<or> (\<exists>e. m w = (Panicked (PException e), w))"
  shows "\<exists>r. bindM (Try m) (\<lambda>r. ret (answer r)) w = (Ret r, w)"
  using assms by (auto simp: bindM_def Try_def ret_run)

lemma handlers_run:
  "(\<exists>r. Fileread p w = (Ret r, w)) \<and> (\<exists>r. Filelist order srt mthd p w = (Ret r, w))
    \<and> Filewrite p w = (Ret ErrPermission, w) \<and> Filecmd p w = (Ret ErrPermission, w)"
proof -
  have "(\<exists>x. openFile p w = (Ret x, w)) \<or> (\<exists>e. openFile p w = (Panicked (PException e), w))"
    by (auto simp: openFile_outcome split: prod.split option.split)
  then have "\<exists>r. Fileread p w = (Ret r, w)" unfolding Fileread_def by (rule answer_run)
  moreover have "\<exists>r. Filelist order srt mthd p w = (Ret r, w)"
    unfolding Filelist_def
    by (rule answer_run)
      (use sftp_list_outcome [of order srt p w] sftp_stat_outcome [of p w] in \<open>simp add: ThrowFmt_run\<close>)
  ultimately show ?thesis by (simp add: Filewrite_def Filecmd_def ret_run)
qed

text \<open>
  The handlers answer every request and change nothing. For any path and any method,
  known or not, \<open>Fileread\<close>, \<open>Filelist\<close>, \<open>Filewrite\<close> and \<open>Filecmd\<close> return (they never
  panic), the state after is the state before, and the two that would write always
  refuse.
\<close>

theorem handlers_total_readonly:
  "(\<exists>r. Fileread p w = (Ret r, w)) \<and> (\<exists>r. Filelist order srt mthd p w = (Ret r, w))
    \<and> Filewrite p w = (Ret ErrPermission, w) \<and> Filecmd p w = (Ret ErrPermission, w)"
  by (rule handlers_run)

text \<open>
  \<open>Fileread\<close> opens a path exactly when it names a file: it answers with the first file
  of the torrent's table that has this path, and with an error for the root, a torrent
  itself, a directory, and everything unknown.
\<close>

theorem Fileread_exact:
  assumes "splitPath p = (tname, fpath)"
  shows "(case Fileread p w of
      (Ret (Inr v), w') \<Rightarrow> w' = w \<and> m_byName w tname = Some (vf_tm v) \<and> fpath \<noteq> ''''
        \<and> List.find (\<lambda>f. Path f = fpath) (Files (vf_tm v)) = Some (vf_file v) \<and> Path (vf_file v) = fpath
    | (Ret (Inl e), w') \<Rightarrow> w' = w
        \<and> (tname = '''' \<or> fpath = '''' \<or> m_byName w tname = None
            \<or> (\<exists>tm. m_byName w tname = Some tm \<and> fpath \<notin> Path ` set (Files tm)))
    | _ \<Rightarrow> False)"
proof -
  have "List.find (\<lambda>f. Path f = fpath) fs = Some f \<Longrightarrow> Path f = fpath" for f fs
    by (metis (mono_tags, lifting) find_Some_iff)
  then show ?thesis using assms
    by (auto simp: Fileread_def bindM_def Try_def openFile_outcome answer_def ret_run Unwrap_def find_None_iff
        split: option.split)
qed

section \<open>Pagination\<close>

text \<open>
  The server library reads a listing batch by batch until it sees an error: this client
  loop, with a batch size \<open>n\<close> and fuel.
\<close>

fun read_all :: "vInfo list \<Rightarrow> nat \<Rightarrow> nat \<Rightarrow> nat \<Rightarrow> vInfo list outcome" where
  "read_all l n off 0 = Blocked"
| "read_all l n off (Suc k) = (case fst (ListAt l n (int off) ()) of
      Ret (out, None) \<Rightarrow> (case read_all l n (off + length out) k of
          Ret rest \<Rightarrow> Ret (out @ rest) | r \<Rightarrow> r)
    | Ret (out, Some e) \<Rightarrow> Ret out
    | Panicked p \<Rightarrow> Panicked p
    | Blocked \<Rightarrow> Blocked)"

lemma read_all_mono: "read_all l n a i = Ret x \<Longrightarrow> i \<le> j \<Longrightarrow> read_all l n a j = Ret x"
proof (induction i arbitrary: a j x)
  case (Suc i)
  obtain j' where j: "j = Suc j'" "i \<le> j'" using Suc.prems(2) by (cases j) auto
  show ?case
  proof (cases "fst (ListAt l n (int a) ())")
    case (Ret r)
    obtain out err where r: "r = (out, err)" by fastforce
    show ?thesis
    proof (cases err)
      case None
      with Suc.prems(1) Ret r obtain y where y: "read_all l n (a + length out) i = Ret y" "x = out @ y"
        by (cases "read_all l n (a + length out) i") auto
      from Suc.IH [OF y(1) j(2)] None Ret r y(2) j(1) show ?thesis by simp
    qed (use Suc.prems(1) Ret r j in simp)
  qed (use Suc.prems(1) j in simp_all)
qed simp

lemma read_all_drop:
  assumes "0 < n" and "length l < k" and "off \<le> length l"
  shows "read_all l n off (k - off) = Ret (drop off l)"
  using assms
proof (induction "length l - off" arbitrary: off rule: less_induct)
  case less
  obtain m where m: "k - off = Suc m" "m = k - Suc off" using less.prems by (cases "k - off") auto
  let ?out = "take n (drop off l)"
  show ?case
  proof (cases "off < length l \<and> length ?out = n")
    case False
    with less.prems m show ?thesis by (auto simp: ListAt_def ret_run Let_def)
  next
    case True
    have IH: "read_all l n (off + n) (k - (off + n)) = Ret (drop (off + n) l)"
      using True less.prems by (intro less.hyps) auto
    have "read_all l n (off + n) m = Ret (drop (off + n) l)"
      by (rule read_all_mono [OF IH]) (use m(2) less.prems(1) in simp)
    moreover obtain o' where o': "o' = ?out" "length o' = n" using True by blast
    moreover have "fst (ListAt l n (int off) ()) = Ret (o', None)"
      using True o' by (simp add: ListAt_def ret_run Let_def)
    ultimately have "read_all l n off (k - off) = Ret (o' @ drop (off + n) l)" by (simp add: m(1))
    also have "drop (off + n) l = drop n (drop off l)" by (simp add: add.commute)
    finally show ?thesis unfolding o'(1) append_take_drop_id .
  qed
qed

text \<open>
  A client that reads a listing in batches of any positive size gets every entry once,
  in order, and the reading ends: \<open>ListAt\<close> reports \<open>EOF\<close> exactly when nothing is left, and a full
  batch at the end is followed by an empty one.
\<close>

theorem ListAt_pages:
  assumes "0 < n"
  shows "read_all l n 0 (length l + 1) = Ret l"
  using read_all_drop [OF assms, of l "length l + 1" 0] by simp

theorem ListAt_pages_witness:
  "read_all [newInfo ''a'' 1 False, newInfo ''b'' 2 False] 2 0 3 = Ret [newInfo ''a'' 1 False, newInfo ''b'' 2 False]"
  using ListAt_pages [of 2 "[newInfo ''a'' 1 False, newInfo ''b'' 2 False]"]
  by (simp add: numeral_3_eq_3 del: read_all.simps)

section \<open>A catalogue for the witnesses\<close>

definition tm0 :: TorrentMeta where
  "tm0 = (meta_of lib0 two_files ''h1'')\<lparr>DisplayName := ''a''\<rparr>"

definition served0 :: "mem mworld" where
  "served0 = (newMeta cfg0 (mem_of []))\<lparr>m_byName := [''a'' \<mapsto> tm0], m_byHash := [''h1'' \<mapsto> tm0]\<rparr>"

lemma Files_tm0: "Files tm0 = [\<lparr>Path = ''x'', Size = 3, Offset = 0\<rparr>, \<lparr>Path = ''d/y'', Size = 2, Offset = 3\<rparr>]"
  by (simp add: tm0_def meta_of_def files_of_def two_files_def wrap64_def)

lemma byName_served0: "m_byName served0 = [''a'' \<mapsto> tm0]"
  by (simp add: served0_def)

lemma splits0: "splitPath ''/a'' = (''a'', '''')" "splitPath ''/a/x'' = (''a'', ''x'')"
  by code_simp+

lemma tree_tm0: "tree_files (Files tm0)"
proof -
  have "\<exists>cs. cs \<noteq> [] \<and> (\<forall>c\<in>set cs. proper_comp c) \<and> ''x'' = join_path cs"
    by (rule exI [of _ "[''x'']"]) (simp add: join_path_def proper_comp_def)
  moreover have "\<exists>cs. cs \<noteq> [] \<and> (\<forall>c\<in>set cs. proper_comp c) \<and> ''d/y'' = join_path cs"
    by (rule exI [of _ "[''d'', ''y'']"]) (simp add: join_path_def proper_comp_def)
  ultimately show ?thesis by (simp add: tree_files_def Files_tm0)
qed

lemma entries_tm0: "{e. \<exists>f\<in>set (Files tm0). entry_of '''' f = Some e} = {newInfo ''x'' 3 False, newInfo ''d'' 0 True}"
  by (auto simp: Files_tm0 entry_of_def)

theorem sftp_list_exact_witness:
  "\<exists>es. sftp_list order0 (sort_key vi_name) ''/a'' served0 = (Ret es, served0)
    \<and> set es = {newInfo ''x'' 3 False, newInfo ''d'' 0 True}"
  using sftp_list_exact [OF sorter_law_sort_key order0_law splits0(1), of served0]
  by (auto simp: byName_served0 entries_tm0)

theorem list_stat_open_agree_witness:
  "\<exists>es. sftp_list order0 (sort_key vi_name) ''/a'' served0 = (Ret es, served0)
    \<and> newInfo ''x'' 3 False \<in> set es \<and> newInfo ''d'' 0 True \<in> set es
    \<and> sftp_stat ''/a/x'' served0 = (Ret [newInfo ''x'' 3 False], served0)"
proof -
  have tm: "m_byName served0 ''a'' = Some tm0" "'''' = (if '''' = '''' then '''' else '''' @ ''/'')" by (simp_all add: byName_served0)
  note agree = list_stat_open_agree [OF sorter_law_sort_key splits0(1) _ tm(1) tree_tm0 tm(2), of order0]
  have "''a'' \<noteq> ''''" by simp
  from agree [OF this] obtain es where
    run: "sftp_list order0 (sort_key vi_name) ''/a'' served0 = (Ret es, served0)"
    and all: "\<forall>f\<in>set (Files tm0). \<forall>c rest. c \<noteq> '''' \<and> CHR ''/'' \<notin> set c \<longrightarrow>
        (Path f = '''' @ c \<longrightarrow> newInfo c (Size f) False \<in> set es)
        \<and> (Path f = '''' @ c @ ''/'' @ rest \<longrightarrow> newInfo c 0 True \<in> set es)"
    and st: "\<forall>e\<in>set es. sftp_stat (''/a'' @ ''/'' @ vi_name e) served0 = (Ret [e], served0)
        \<and> (\<not> vi_dir e \<longrightarrow> (\<exists>v. openFile (''/a'' @ ''/'' @ vi_name e) served0 = (Ret v, served0)
              \<and> Size (vf_file v) = vi_size e \<and> vf_file v \<in> set (Files tm0) \<and> vf_tm v = tm0))"
    by (elim exE conjE)
  have x: "newInfo ''x'' 3 False \<in> set es"
    using all [rule_format, of "\<lparr>Path = ''x'', Size = 3, Offset = 0\<rparr>" "''x''"] by (simp add: Files_tm0)
  moreover have "newInfo ''d'' 0 True \<in> set es"
    using all [rule_format, of "\<lparr>Path = ''d/y'', Size = 2, Offset = 3\<rparr>" "''d''" "''y''"] by (simp add: Files_tm0)
  ultimately show ?thesis using run st [rule_format, OF x] by simp
qed

theorem Fileread_exact_witness:
  "case Fileread ''/a/x'' served0 of
      (Ret (Inr v), w') \<Rightarrow> w' = served0 \<and> Path (vf_file v) = ''x'' | _ \<Rightarrow> False"
proof -
  obtain r w' where r: "Fileread ''/a/x'' served0 = (r, w')" by fastforce
  note spec = Fileread_exact [OF splits0(2), of served0, unfolded r]
  show ?thesis
  proof (cases r)
    case (Ret x)
    with spec r show ?thesis by (cases x) (simp_all add: byName_served0 Files_tm0)
  qed (use spec in simp_all)
qed

text \<open>
  A torrent whose display name has a slash inside is listed in the root, and nothing can
  be done with it: no path leads to it, so it can be neither listed nor opened.
\<close>

theorem slash_name_unreachable:
  assumes "CHR ''/'' \<in> set n" and "order_law order" and "finite (dom (m_byName w))"
    and "m_byName w n = Some tm"
  shows "(\<exists>es. sftp_list order srt ''/'' w = (Ret es, w) \<and> newInfo n 0 True \<in> set es)
    \<and> (\<forall>p. fst (splitPath p) \<noteq> n)"
proof -
  have "fst (splitPath p) \<noteq> n" for p
  proof -
    have "CHR ''/'' \<notin> set (fst (splitPath p))"
      using comps_proper [of _ p] by (cases "comps p") (auto simp: splitPath_comps split_comps_def proper_comp_def)
    with assms(1) show ?thesis by blast
  qed
  moreover have "splitPath ''/'' = ('''', '''')" by code_simp
  then have "sftp_list order srt ''/'' w = (Ret (map (\<lambda>n. newInfo n 0 True) (sort (order (m_byName w)))), w)"
    by (simp add: sftp_list_def Names_def ret_run)
  moreover have "n \<in> set (order (m_byName w))" using assms(2-4) by (auto simp: order_law_def)
  ultimately show ?thesis by auto
qed

theorem slash_name_unreachable_witness:
  "\<forall>p. fst (splitPath p) \<noteq> ''a/b''"
proof -
  have "finite (dom (m_byName (served0\<lparr>m_byName := [''a/b'' \<mapsto> tm0]\<rparr>)))"
    "m_byName (served0\<lparr>m_byName := [''a/b'' \<mapsto> tm0]\<rparr>) ''a/b'' = Some tm0" by simp_all
  from slash_name_unreachable [OF _ order0_law this, of "sort_key vi_name"] show ?thesis by simp
qed

end
