(* ===== verification/Steps.thy ===== *)
theory Steps
  imports Prelude
begin

text \<open>
  What the step relations of the development have in common. Goroutines that interleave are an inductive
  relation on the state they share; each component shows that one step keeps its invariant, that one
  step lessens the work left, and where a state is that has no step. The three contracts below turn that into
  facts about whole runs.
\<close>

locale kept_by_steps =
  fixes step :: "'s \<Rightarrow> 's \<Rightarrow> bool" and inv :: "'s \<Rightarrow> bool"
  assumes inv_step: "step s s' \<Longrightarrow> inv s \<Longrightarrow> inv s'"
begin

lemma inv_run: "step\<^sup>*\<^sup>* s s' \<Longrightarrow> inv s \<Longrightarrow> inv s'"
  by (induction rule: rtranclp_induct) (auto intro: inv_step)

end

locale works_off =
  fixes step :: "'s \<Rightarrow> 's \<Rightarrow> bool" and work :: "'s \<Rightarrow> nat"
  assumes work_step: "step s s' \<Longrightarrow> work s' < work s"
begin

lemma steps_wf: "wfp (\<lambda>s' s. step s s')"
  by (rule wfp_if_convertible_to_nat [of _ work]) (rule work_step)

lemma run_length: "(step ^^ n) s s' \<Longrightarrow> n + work s' \<le> work s"
proof (induction n arbitrary: s')
  case (Suc n)
  then obtain s1 where "(step ^^ n) s s1" "step s1 s'" by auto
  with Suc.IH [of s1] work_step [of s1 s'] show ?case by simp
qed simp

lemma run_to_end: "\<exists>s'. step\<^sup>*\<^sup>* s s' \<and> (\<nexists>s2. step s' s2)"
proof (induction s rule: measure_induct_rule [of work])
  case (less s)
  then show ?case by (cases "\<exists>s1. step s s1") (blast intro: work_step converse_rtranclp_into_rtranclp)+
qed

end

text \<open>Both, and \<open>goal\<close> describes the states of the invariant that have no step.\<close>

locale runs_to_goal = kept_by_steps step inv + works_off step work
  for step :: "'s \<Rightarrow> 's \<Rightarrow> bool" and inv :: "'s \<Rightarrow> bool" and work :: "'s \<Rightarrow> nat" +
  fixes goal :: "'s \<Rightarrow> bool"
  assumes stuck: "inv s \<Longrightarrow> \<nexists>s'. step s s' \<Longrightarrow> goal s"
begin

lemma goal_at_end: "step\<^sup>*\<^sup>* s s' \<Longrightarrow> inv s \<Longrightarrow> \<nexists>s2. step s' s2 \<Longrightarrow> inv s' \<and> goal s'"
  using inv_run stuck by blast

lemma run_to_goal: "inv s \<Longrightarrow> \<exists>s'. step\<^sup>*\<^sup>* s s' \<and> inv s' \<and> goal s'"
  using run_to_end [of s] goal_at_end by blast

end

end
