(* ===== verification/Pmap.thy ===== *)
theory Pmap
  imports Throw Steps "HOL-Library.Multiset"
begin

text \<open>
  \<open>pmap\<close> of \<^verbatim>\<open>gc.go\<close>: a pool of worker goroutines that take items from one
  channel. The step relation lets any idle worker take the next item and any busy one
  finish, in every order; a callback takes effect as one step, when its worker finishes (the
  callback of \<^verbatim>\<open>gc.go\<close> reads one object and then stores its hashes into a concurrent set; the
  steps of two callbacks are not interleaved here, and a crash does not cut one in half). The executable
  \<open>pmap\<close> runs the callbacks one after the other in the order a schedule gives. The
  theorems show that the pool finishes every item exactly once, that its final states are
  among those of sequential runs over a permutation of the items, and that it always ends.
\<close>

section \<open>The pool as a step relation\<close>

text \<open>Items not sent yet, items being worked on, items finished in order, and the shared state.\<close>

datatype ('a, 'w) pool =
    Pool "'a list" "'a list" "'a list" 'w
  | Crash panicval 'w

inductive pool_step :: "nat \<Rightarrow> ('a \<Rightarrow> ('w, unit) prog) \<Rightarrow> ('a, 'w) pool \<Rightarrow> ('a, 'w) pool \<Rightarrow> bool"
  for workers :: nat and fn :: "'a \<Rightarrow> ('w, unit) prog" where
  take_item: "length busy < workers \<Longrightarrow>
    pool_step workers fn (Pool (x # todo) busy log w) (Pool todo (busy @ [x]) log w)"
| finish_item: "x \<in> set busy \<Longrightarrow> fn x w = (Ret (), w') \<Longrightarrow>
    pool_step workers fn (Pool todo busy log w) (Pool todo (remove1 x busy) (log @ [x]) w')"
| crash_item: "x \<in> set busy \<Longrightarrow> fn x w = (Panicked p, w') \<Longrightarrow>
    pool_step workers fn (Pool todo busy log w) (Crash p w')"

inductive_cases pool_stepE: "pool_step workers fn (Pool todo busy log w) s'"
inductive_simps pool_step_Crash: "pool_step workers fn (Crash p w) s'"

abbreviation pool_run :: "nat \<Rightarrow> ('a \<Rightarrow> ('w, unit) prog) \<Rightarrow> ('a, 'w) pool \<Rightarrow> ('a, 'w) pool \<Rightarrow> bool" where
  "pool_run workers fn \<equiv> (pool_step workers fn)\<^sup>*\<^sup>*"

section \<open>pmap\<close>

text \<open>
  \<open>sched\<close> is the order in which the items finish. Without workers the first send on the
  channel blocks for ever.
\<close>

definition pmap :: "('a list \<Rightarrow> 'a list) \<Rightarrow> 'a list \<Rightarrow> int \<Rightarrow> ('a \<Rightarrow> ('w, unit) prog) \<Rightarrow> ('w, unit) prog" where
  "pmap sched items workers fn =
     (if workers \<le> 0 \<and> items \<noteq> [] then block else forM (sched items) fn)"

definition sched_law :: "('a list \<Rightarrow> 'a list) \<Rightarrow> bool" where
  "sched_law sched \<longleftrightarrow> (\<forall>xs. mset (sched xs) = mset xs)"

lemma sched_set: "sched_law sched \<Longrightarrow> set (sched xs) = set xs"
  by (metis sched_law_def mset_eq_setD)

lemma sched_length: "sched_law sched \<Longrightarrow> length (sched xs) = length xs"
  by (metis sched_law_def size_mset)

lemma sched_law_id [simp]: "sched_law (\<lambda>xs. xs)" and sched_law_rev [simp]: "sched_law rev"
  by (simp_all add: sched_law_def)

section \<open>What every run of the pool keeps\<close>

definition pool_inv :: "('a \<Rightarrow> ('w, unit) prog) \<Rightarrow> nat \<Rightarrow> 'a list \<Rightarrow> 'w \<Rightarrow> ('a, 'w) pool \<Rightarrow> bool" where
  "pool_inv fn workers items w0 s \<longleftrightarrow> (case s of
      Pool todo busy log w \<Rightarrow> mset todo + mset busy + mset log = mset items
        \<and> length busy \<le> workers \<and> forM log fn w0 = (Ret (), w)
    | Crash p w \<Rightarrow> \<exists>xs. mset xs \<subseteq># mset items \<and> forM xs fn w0 = (Panicked p, w))"

lemma forM_snoc: "forM log fn w0 = (Ret (), w) \<Longrightarrow> forM (log @ [x]) fn w0 = fn x w"
proof -
  assume log: "forM log fn w0 = (Ret (), w)"
  have "bindM (fn x) (\<lambda>_. ret ()) v = fn x v" for v
    by (cases "fn x v"; cases "fst (fn x v)") (auto simp: bindM_def ret_def)
  then show ?thesis unfolding forM_append forM.simps by (subst bindM_def) (simp add: log)
qed

lemma pool_inv_step:
  assumes "pool_inv fn workers items w0 s" and "pool_step workers fn s s'"
  shows "pool_inv fn workers items w0 s'"
  using assms(2,1)
proof (induction rule: pool_step.induct)
  case (take_item busy x todo log w)
  then show ?case by (simp add: pool_inv_def)
next
  case (finish_item x busy w w' todo log)
  from finish_item.hyps(1) obtain B where B: "mset busy = add_mset x B"
    by (metis multi_member_split set_mset_mset)
  then have "mset (remove1 x busy) = B" by simp
  moreover have "length (remove1 x busy) \<le> length busy" by (simp add: length_remove1)
  moreover have "forM (log @ [x]) fn w0 = (Ret (), w')"
    using finish_item by (simp add: pool_inv_def forM_snoc)
  ultimately show ?case using finish_item.prems B by (simp add: pool_inv_def)
next
  case (crash_item x busy w p w' todo log)
  then have "{#x#} \<subseteq># mset todo + mset busy" by (intro mset_subset_eq_single) simp
  from mset_subset_eq_mono_add [OF this subset_mset.order_refl]
  have "mset (log @ [x]) \<subseteq># mset todo + mset busy + mset log" by (simp add: union_commute)
  with crash_item show ?case by (auto simp: pool_inv_def forM_snoc intro!: exI [of _ "log @ [x]"])
qed

text \<open>A measure of the work left, and where a pool stops whose callbacks do not block.\<close>

definition pool_size :: "('a, 'w) pool \<Rightarrow> nat" where
  "pool_size s = (case s of Pool todo busy log w \<Rightarrow> 1 + 2 * length todo + length busy | Crash p w \<Rightarrow> 0)"

definition pool_over :: "('a, 'w) pool \<Rightarrow> bool" where
  "pool_over s = (case s of Pool todo busy log w \<Rightarrow> todo = [] \<and> busy = [] | Crash p w \<Rightarrow> True)"

lemma pool_size_step: "pool_step workers fn s s' \<Longrightarrow> pool_size s' < pool_size s"
  by (induction rule: pool_step.induct) (auto simp: pool_size_def length_remove1 dest: length_pos_if_in_set)

lemma pool_progress:
  assumes "0 < workers" and "\<forall>x v. fst (fn x v) \<noteq> Blocked" and "\<nexists>s'. pool_step workers fn s s'"
  shows "pool_over s"
proof (cases s)
  case (Pool todo busy log w)
  have "busy = []"
  proof (rule ccontr)
    assume "busy \<noteq> []"
    then obtain x where x: "x \<in> set busy" by (cases busy) auto
    obtain q v where q: "fn x w = (q, v)" by fastforce
    with assms(2) have "q \<noteq> Blocked" by (metis fst_conv)
    with q x Pool assms(3) show False
      using finish_item [OF x, of fn w v workers todo log] crash_item [OF x, of fn w _ v workers todo log] by (cases q) auto
  qed
  moreover from this have "todo = []"
    using assms(1,3) Pool take_item [of "[]" workers fn _ _ log w] by (cases todo) auto
  ultimately show ?thesis using Pool by (simp add: pool_over_def)
qed (simp add: pool_over_def)

text \<open>The pool keeps its invariant, works off its items, and stops when they are done.\<close>

interpretation pool: runs_to_goal "pool_step workers fn"
    "\<lambda>s. 0 < workers \<and> (\<forall>x v. fst (fn x v) \<noteq> Blocked) \<and> pool_inv fn workers items w0 s" pool_size pool_over
  for workers fn items w0
  by (unfold_locales, blast intro: pool_inv_step, erule pool_size_step, elim conjE, erule (2) pool_progress)

interpretation pool_any: kept_by_steps "pool_step workers fn" "pool_inv fn workers items w0" for workers fn items w0
  by unfold_locales (rule pool_inv_step)

lemma pool_inv_start: "pool_inv fn workers items w0 (Pool items [] [] w0)"
  by (simp add: pool_inv_def ret_run)

section \<open>Runs of the pool\<close>

text \<open>
  Every run of the pool is covered by the sequential \<open>pmap\<close>. With at least one worker, in
  every interleaving: a run that ends has called the callback exactly once for each item,
  with the effect of \<open>pmap\<close> under some schedule; a panic of a callback comes after a
  sequence of the items; and while items are left and no callback blocks, some goroutine can go on.
  This is one direction, the one the collector needs, and for callbacks that take effect in
  one step.
\<close>

theorem pmap_pool:
  assumes "0 < workers" and "pool_run (nat workers) fn (Pool items [] [] w) s"
  shows "case s of
      Pool todo busy log w' \<Rightarrow>
        (if todo = [] \<and> busy = []
         then mset log = mset items \<and> (\<exists>sched. sched_law sched \<and> pmap sched items workers fn w = (Ret (), w'))
         else (\<forall>x v. fst (fn x v) \<noteq> Blocked) \<longrightarrow> (\<exists>s'. pool_step (nat workers) fn s s'))
    | Crash p w' \<Rightarrow> \<exists>xs. mset xs \<subseteq># mset items \<and> forM xs fn w = (Panicked p, w')"
proof -
  note inv = pool_any.inv_run [OF assms(2) pool_inv_start]
  show ?thesis
  proof (cases s)
    case (Crash p w')
    with inv show ?thesis by (simp add: pool_inv_def)
  next
    case (Pool todo busy log w')
    show ?thesis
    proof (cases "todo = [] \<and> busy = []")
      case True
      with inv Pool have log: "mset log = mset items" "forM log fn w = (Ret (), w')"
        by (simp_all add: pool_inv_def)
      then have "sched_law (\<lambda>xs. if xs = items then log else xs)" by (simp add: sched_law_def)
      moreover have "pmap (\<lambda>xs. if xs = items then log else xs) items workers fn w = (Ret (), w')"
        using assms(1) log(2) by (simp add: pmap_def)
      ultimately show ?thesis using True Pool log(1) by auto
    next
      case False
      with Pool pool_progress [of "nat workers" fn s] assms(1) show ?thesis by (auto simp: pool_over_def)
    qed
  qed
qed

text \<open>
  The pool does not run for ever: no sequence of steps is infinite, and with no worker no step is
  possible while items wait, which is where \<open>pmap\<close> blocks.
\<close>

theorem pmap_terminates:
  "wfp (\<lambda>s' s. pool_step workers fn s s')
    \<and> (items \<noteq> [] \<longrightarrow> (\<nexists>s'. pool_step 0 fn (Pool items [] [] w) s') \<and> pmap sched items 0 fn w = (Blocked, w))"
  using pool.steps_wf [of workers fn] by (auto elim: pool_stepE simp: pmap_def block_run)

text \<open>The witness: two workers, and the second item finishes first.\<close>

definition tally :: "nat \<Rightarrow> (nat list, unit) prog" where
  "tally x = modifyM (\<lambda>xs. xs @ [x])"

theorem pmap_pool_witness:
  "\<exists>sched. sched_law sched \<and> pmap sched [1, 2] 2 tally [] = (Ret (), [2, 1])"
proof -
  let ?st = "pool_step (nat 2) tally"
  have "?st (Pool [1, 2] [] [] []) (Pool [2] ([] @ [1]) [] [])" by (rule take_item) simp
  moreover have "?st (Pool [2] ([] @ [1]) [] []) (Pool [] (([] @ [1]) @ [2]) [] [])" by (rule take_item) simp
  moreover have "?st (Pool [] (([] @ [1]) @ [2]) [] []) (Pool [] (remove1 2 (([] @ [1]) @ [2])) ([] @ [2]) [2])"
    by (rule finish_item) (simp_all add: tally_def modifyM_run)
  moreover have "?st (Pool [] (remove1 2 (([] @ [1]) @ [2])) ([] @ [2]) [2])
      (Pool [] (remove1 1 (remove1 2 (([] @ [1]) @ [2]))) (([] @ [2]) @ [1]) [2, 1])"
    by (rule finish_item) (simp_all add: tally_def modifyM_run)
  ultimately have "pool_run (nat 2) tally (Pool [1, 2] [] [] []) (Pool [] (remove1 1 (remove1 2 (([] @ [1]) @ [2]))) (([] @ [2]) @ [1]) [2, 1])"
    by (meson rtranclp.rtrancl_into_rtrancl rtranclp.rtrancl_refl)
  from pmap_pool [OF _ this] show ?thesis by simp
qed

theorem pmap_terminates_witness:
  "pmap rev [1 :: nat] 0 tally [] = (Blocked, [])"
  using pmap_terminates [of 0 tally "[1]" "[]" rev] by simp

end
