(* ===== verification/Gc.thy ===== *)
theory Gc
  imports Meta Pmap
begin

text \<open>
  \<^verbatim>\<open>gc.go\<close>: the collector marks every piece hash of every torrent it can load, then
  deletes each object under the piece prefix whose base name is not marked.

  Marking and deleting run in worker pools: their order is a schedule (theory \<open>Pmap\<close>).
  The listing of the sweep is taken before the first deletion. If the goroutine of the
  listing panics, the process ends after \<open>ncut\<close> of the deletions. Progress output is left out.
\<close>

section \<open>The collector's state\<close>

record 's gworld = "'s world" +
  gc_alive :: "string set"
  gc_loaded :: int
  gc_skipped :: int
  gc_scanned :: int
  gc_kept :: int
  gc_deleted :: int

definition gc_start :: "'s \<Rightarrow> 's gworld" where
  "gc_start s = \<lparr>w_s3 = s, w_puts = 0, gc_alive = {}, gc_loaded = 0, gc_skipped = 0,
     gc_scanned = 0, gc_kept = 0, gc_deleted = 0\<rparr>"

section \<open>Mark\<close>

definition mark_piece :: "metalib \<Rightarrow> Info \<Rightarrow> int \<Rightarrow> (('s, 'z) gworld_scheme, unit) prog" where
  "mark_piece lib info i = (case V1Hash lib info i of
      None \<Rightarrow> panic (PForeign ''unwrap of an empty option'')
    | Some h \<Rightarrow> modifyM (\<lambda>w. w\<lparr>gc_alive := insert (hex_EncodeToString h) (gc_alive w)\<rparr>))"

definition mark_load ::
  "Config \<Rightarrow> 's s3api \<Rightarrow> metalib \<Rightarrow> string \<Rightarrow> (('s, 'z) gworld_scheme, unit) prog" where
  "mark_load cfg cli lib key =
     bindM (Cat cfg cli key) (\<lambda>raw.
     bindM (ThrowE (Load lib raw)) (\<lambda>mi.
     bindM (ThrowE (UnmarshalInfo lib mi)) (\<lambda>info.
     bindM (forM [0..NumPieces lib info - 1] (mark_piece lib info)) (\<lambda>_.
       modifyM (\<lambda>w. w\<lparr>gc_loaded := gc_loaded w + 1\<rparr>)))))"

definition mark_one ::
  "Config \<Rightarrow> 's s3api \<Rightarrow> metalib \<Rightarrow> string \<Rightarrow> (('s, 'z) gworld_scheme, unit) prog" where
  "mark_one cfg cli lib key =
     bindM (Try (mark_load cfg cli lib key)) (\<lambda>exc.
       Catch exc (\<lambda>_. modifyM (\<lambda>w. w\<lparr>gc_skipped := gc_skipped w + 1\<rparr>)))"

text \<open>The torrents that load, in the order the workers take them: those whose closure comes to its end.\<close>

fun loaded_keys :: "Config \<Rightarrow> 's s3api \<Rightarrow> metalib \<Rightarrow> string list \<Rightarrow> ('s, 'z) gworld_scheme \<Rightarrow> string list" where
  "loaded_keys cfg cli lib [] w = []"
| "loaded_keys cfg cli lib (k # ks) w =
     (case fst (mark_load cfg cli lib k w) of Ret _ \<Rightarrow> [k] | _ \<Rightarrow> []) @ loaded_keys cfg cli lib ks (snd (mark_one cfg cli lib k w))"

section \<open>Sweep\<close>

definition sweep_one :: "Config \<Rightarrow> 's s3api \<Rightarrow> string \<Rightarrow> (('s, 'z) gworld_scheme, unit) prog" where
  "sweep_one cfg cli k =
     uncaught (bindM (Delete cfg cli k) (\<lambda>_. modifyM (\<lambda>w. w\<lparr>gc_deleted := gc_deleted w + 1\<rparr>)))"

definition is_stale :: "string set \<Rightarrow> string \<Rightarrow> bool" where
  "is_stale alive k \<longleftrightarrow> path_Base k \<notin> alive"

text \<open>
  The main goroutine counts the listed keys and hands the stale ones to the workers; with no
  worker the first of them blocks it.
\<close>

definition sweep ::
  "(string list \<Rightarrow> string list) \<Rightarrow> nat \<Rightarrow> Config \<Rightarrow> 's s3api \<Rightarrow> string list \<times> exception option
    \<Rightarrow> (('s, 'z) gworld_scheme, unit) prog" where
  "sweep sched ncut cfg cli listing =
     bindM (getM gc_alive) (\<lambda>alive.
       let keys = fst listing; stale = filter (is_stale alive) keys in
       if wrap64 (UpSem cfg * 2) < 0 then panic (PRuntime ''makechan: size out of range'')
       else
         bindM (modifyM (\<lambda>w. w\<lparr>gc_scanned := gc_scanned w + int (length keys),
                               gc_kept := gc_kept w + int (length keys - length stale)\<rparr>)) (\<lambda>_.
         if UpSem cfg \<le> 0 \<and> stale \<noteq> [] then block
         else (case snd listing of
             None \<Rightarrow> forM (sched stale) (sweep_one cfg cli)
           | Some e \<Rightarrow> bindM (forM (take ncut (sched stale)) (sweep_one cfg cli)) (\<lambda>_. uncaught (throw e)))))"

definition runGc ::
  "(string list \<Rightarrow> string list) \<Rightarrow> (string list \<Rightarrow> string list) \<Rightarrow> nat \<Rightarrow> Config \<Rightarrow> 's s3api \<Rightarrow> metalib
    \<Rightarrow> (('s, 'z) gworld_scheme, unit) prog" where
  "runGc sched1 sched2 ncut cfg cli lib =
     bindM (List cfg cli (PrefixTorrents cfg)) (\<lambda>torrentKeys.
     bindM (pmap sched1 torrentKeys (UpSem cfg) (mark_one cfg cli lib)) (\<lambda>_.
     bindM (ListStream cfg cli (PrefixPieces cfg)) (\<lambda>listing.
       sweep sched2 ncut cfg cli listing)))"

section \<open>Marking does not touch the store, and only adds marks\<close>

text \<open>\<open>f\<close> is what the bucket holds.\<close>

definition holds :: "Config \<Rightarrow> 's view \<Rightarrow> (string \<Rightarrow> bytes option) \<Rightarrow> ('s, 'z) world_scheme \<Rightarrow> bool" where
  "holds cfg objs f w \<longleftrightarrow> objs (w_s3 w) (S3Bucket cfg) = f"

lemma holds_update [simp]:
  "holds cfg objs f (gc_alive_update a w) = holds cfg objs f w"
  "holds cfg objs f (gc_loaded_update b w) = holds cfg objs f w"
  "holds cfg objs f (gc_skipped_update b w) = holds cfg objs f w"
  "holds cfg objs f (gc_scanned_update b w) = holds cfg objs f w"
  "holds cfg objs f (gc_kept_update b w) = holds cfg objs f w"
  "holds cfg objs f (gc_deleted_update b w) = holds cfg objs f w"
  by (simp_all add: holds_def)

lemma keeps_holds_Cat: "s3_laws cli objs \<Longrightarrow> keeps (holds cfg objs f) (Cat cfg cli k)"
  by (rule keepsI) (auto simp: holds_def dest: Cat_law)

lemma keeps_holds_mark_one:
  assumes "s3_laws cli objs"
  shows "keeps (holds cfg objs f) (mark_one cfg cli lib key)"
  unfolding mark_one_def mark_load_def
  by (intro keeps_intros keeps_holds_Cat assms keeps_modifyM)
    (auto simp: mark_piece_def split: option.split intro!: keeps_intros keeps_modifyM)

lemma keeps_pmap: "(\<And>x. keeps I (fn x)) \<Longrightarrow> keeps I (pmap sched items n fn)"
  by (auto simp: pmap_def intro: keeps_intros)

text \<open>The counters of the sweep are still zero.\<close>

definition unswept :: "('s, 'z) gworld_scheme \<Rightarrow> bool" where
  "unswept w \<longleftrightarrow> gc_scanned w = 0 \<and> gc_kept w = 0 \<and> gc_deleted w = 0"

lemma keeps_unswept_mark_one: "keeps unswept (mark_one cfg cli lib key)"
proof -
  have "keeps unswept (Cat cfg cli key)"
    by (rule keepsI) (auto simp: unswept_def dest!: Cat_frame)
  then show ?thesis unfolding mark_one_def mark_load_def
    by (intro keeps_intros keeps_modifyM)
      (auto simp: mark_piece_def unswept_def split: option.split intro!: keeps_intros keeps_modifyM)
qed

text \<open>Marks are never taken back.\<close>

definition marked :: "string set \<Rightarrow> ('s, 'z) gworld_scheme \<Rightarrow> bool" where
  "marked A w \<longleftrightarrow> A \<subseteq> gc_alive w"

lemma keeps_marked_mark_piece: "keeps (marked A) (mark_piece lib info i)"
  by (auto simp: mark_piece_def marked_def split: option.split intro!: keeps_intros keeps_modifyM)

lemma keeps_marked_Cat: "keeps (marked A) (Cat cfg cli k)"
  by (rule keepsI) (auto simp: marked_def dest!: Cat_frame)

lemma keeps_marked_mark_one: "keeps (marked A) (mark_one cfg cli lib key)"
  unfolding mark_one_def mark_load_def
  by (intro keeps_intros keeps_marked_Cat keeps_marked_mark_piece keeps_modifyM)
    (simp_all add: marked_def)

section \<open>One torrent\<close>

lemma mark_pieces_run:
  "(\<forall>i\<in>set is. V1Hash lib info i \<noteq> None) \<Longrightarrow> forM is (mark_piece lib info) w =
    (Ret (), w\<lparr>gc_alive := (\<lambda>i. hex_EncodeToString (the (V1Hash lib info i))) ` set is \<union> gc_alive w\<rparr>)"
proof (induction "is" arbitrary: w)
  case (Cons i "is")
  then obtain h where "V1Hash lib info i = Some h" by auto
  with Cons show ?case by (simp add: bindM_def mark_piece_def modifyM_run insert_commute Un_assoc)
qed (simp add: ret_run)

lemma mark_pieces_v2:
  "\<not> (\<forall>i\<in>set is. V1Hash lib info i \<noteq> None) \<Longrightarrow>
    \<exists>w'. forM is (mark_piece lib info) w = (Panicked (PForeign ''unwrap of an empty option''), w')"
proof (induction "is" arbitrary: w)
  case (Cons i "is")
  show ?case
  proof (cases "V1Hash lib info i")
    case None
    then show ?thesis by (simp add: bindM_def mark_piece_def panic_run)
  next
    case (Some h)
    with Cons show ?thesis by (simp add: bindM_def mark_piece_def modifyM_run)
  qed
qed simp

lemma mark_load_good:
  assumes "Cat cfg cli key w = (Ret d, w1)" and "parsed lib d = Some info" and "has_v1 lib info"
  shows "mark_load cfg cli lib key w = (Ret (), w1\<lparr>
    gc_alive := set (hashes_of lib info) \<union> gc_alive w1, gc_loaded := gc_loaded w1 + 1\<rparr>)"
proof -
  obtain mi where mi: "Load lib d = Inr mi" "UnmarshalInfo lib mi = Inr info"
    using parsed_SomeD [OF assms(2)] by blast
  have v1: "\<forall>i\<in>set [0..NumPieces lib info - 1]. V1Hash lib info i \<noteq> None"
    using assms(3) by (simp add: has_v1_def)
  show ?thesis
    using assms(1) mi mark_pieces_run [OF v1, of w1]
    by (simp add: mark_load_def bindM_def ThrowE_run modifyM_run ret_run hashes_of_def)
qed

lemma mark_one_good:
  assumes "Cat cfg cli key w = (Ret d, w1)" and "parsed lib d = Some info" and "has_v1 lib info"
  shows "mark_one cfg cli lib key w = (Ret (), w1\<lparr>
    gc_alive := set (hashes_of lib info) \<union> gc_alive w1, gc_loaded := gc_loaded w1 + 1\<rparr>)"
  using mark_load_good [OF assms] by (simp add: mark_one_def bindM_def Try_def ret_run)

lemma mark_load_bad:
  assumes "Cat cfg cli key w = (r, w1)" and "\<And>d. r = Ret d \<Longrightarrow> parsed lib d = None"
  shows "\<exists>e. mark_load cfg cli lib key w = (Panicked (PException e), w1)"
proof (cases r)
  case (Ret d)
  with assms have "parsed lib d = None" by simp
  then show ?thesis using assms(1) Ret
    by (auto simp: mark_load_def bindM_def ThrowE_run parsed_def split: sum.splits)
next
  case (Panicked p)
  with Cat_outcome [OF assms(1)] assms(1) show ?thesis by (auto simp: mark_load_def bindM_def)
qed (use Cat_outcome [OF assms(1)] in auto)

lemma mark_one_bad:
  assumes "Cat cfg cli key w = (r, w1)" and "\<And>d. r = Ret d \<Longrightarrow> parsed lib d = None"
  shows "mark_one cfg cli lib key w = (Ret (), w1\<lparr>gc_skipped := gc_skipped w1 + 1\<rparr>)"
  using mark_load_bad [OF assms] by (auto simp: mark_one_def bindM_def modifyM_run Try_def)

lemma mark_one_v2:
  assumes "Cat cfg cli key w = (Ret d, w1)" and "parsed lib d = Some info" and "\<not> has_v1 lib info"
  shows "\<exists>w'. mark_one cfg cli lib key w = (Panicked (PForeign ''unwrap of an empty option''), w')"
proof -
  obtain mi where mi: "Load lib d = Inr mi" "UnmarshalInfo lib mi = Inr info"
    using parsed_SomeD [OF assms(2)] by blast
  have v2: "\<not> (\<forall>i\<in>set [0..NumPieces lib info - 1]. V1Hash lib info i \<noteq> None)"
    using assms(3) by (simp add: has_v1_def)
  then show ?thesis
    using assms(1) mi mark_pieces_v2 [OF v2, of w1]
    by (auto simp: mark_one_def mark_load_def bindM_def ThrowE_run Try_def)
qed

text \<open>A torrent that loads is there, and marked; another one that does not end the process counts as skipped.\<close>

lemma mark_one_returns:
  assumes "s3_laws cli objs" and "mark_one cfg cli lib key w = (Ret (), w')"
  shows "case fst (mark_load cfg cli lib key w) of
      Ret _ \<Rightarrow> gc_skipped w' = gc_skipped w
        \<and> (\<exists>d info. objs (w_s3 w) (S3Bucket cfg) key = Some d \<and> parsed lib d = Some info
              \<and> set (hashes_of lib info) \<subseteq> gc_alive w')
    | _ \<Rightarrow> gc_skipped w' = gc_skipped w + 1"
proof -
  obtain r w1 where c: "Cat cfg cli key w = (r, w1)" by fastforce
  have sk: "gc_skipped w1 = gc_skipped w" using Cat_frame [OF c] by auto
  show ?thesis
  proof (cases "\<exists>d info. r = Ret d \<and> parsed lib d = Some info")
    case True
    then obtain d info where d: "r = Ret d" "parsed lib d = Some info" by blast
    show ?thesis
    proof (cases "has_v1 lib info")
      case True
      from mark_load_good [OF c [unfolded d(1)] d(2) True] mark_one_good [OF c [unfolded d(1)] d(2) True]
        assms(2) sk Cat_law [OF assms(1) c] d
      show ?thesis by auto
    next
      case False
      from mark_one_v2 [OF c [unfolded d(1)] d(2) False] assms(2) show ?thesis by auto
    qed
  next
    case False
    then have bad: "r = Ret d \<Longrightarrow> parsed lib d = None" for d by (cases "parsed lib d") auto
    from mark_load_bad [OF c bad] mark_one_bad [OF c bad] assms(2) sk show ?thesis by auto
  qed
qed

section \<open>The mark phase\<close>

lemma marks_returned:
  assumes laws: "s3_laws cli objs"
  shows "forM keys (mark_one cfg cli lib) w = (Ret (), w') \<Longrightarrow> holds cfg objs f w \<Longrightarrow>
    gc_skipped w' = gc_skipped w + int (length keys) - int (length (loaded_keys cfg cli lib keys w))
    \<and> (\<forall>key\<in>set (loaded_keys cfg cli lib keys w). \<exists>d info. f key = Some d \<and> parsed lib d = Some info
          \<and> set (hashes_of lib info) \<subseteq> gc_alive w')"
proof (induction keys arbitrary: w)
  case (Cons k keys)
  then obtain w1 where w1: "mark_one cfg cli lib k w = (Ret (), w1)"
    "forM keys (mark_one cfg cli lib) w1 = (Ret (), w')" by (auto simp: bindM_Ret_iff)
  have h1: "holds cfg objs f w1" by (rule keepsD [OF keeps_holds_mark_one [OF laws] Cons.prems(2) w1(1)])
  note IH = Cons.IH [OF w1(2) h1]
  have mono: "A \<subseteq> gc_alive w1 \<Longrightarrow> A \<subseteq> gc_alive w'" for A
    using keepsD [OF keeps_forM [OF keeps_marked_mark_one] _ w1(2), of A] by (simp add: marked_def)
  have now: "objs (w_s3 w) (S3Bucket cfg) = f" using Cons.prems(2) by (simp add: holds_def)
  show ?case
  proof (cases "fst (mark_load cfg cli lib k w)")
    case (Ret u)
    with mark_one_returns [OF laws w1(1)] obtain d info where
      one: "gc_skipped w1 = gc_skipped w" "f k = Some d" "parsed lib d = Some info" "set (hashes_of lib info) \<subseteq> gc_alive w1"
      by (auto simp: now)
    with IH mono [OF one(4)] Ret w1(1) show ?thesis by auto
  qed (use mark_one_returns [OF laws w1(1)] IH w1(1) in auto)
qed (auto simp: ret_run)

text \<open>What the torrents of a bucket mark.\<close>

definition live_hashes :: "metalib \<Rightarrow> (string \<Rightarrow> bytes option) \<Rightarrow> string set \<Rightarrow> string set" where
  "live_hashes lib f keys =
     {h. \<exists>k\<in>keys. \<exists>d info. f k = Some d \<and> parsed lib d = Some info \<and> h \<in> set (hashes_of lib info)}"

lemma live_hashes_insert:
  "live_hashes lib f (insert k keys) =
    (case f k of None \<Rightarrow> {} | Some d \<Rightarrow> (case parsed lib d of None \<Rightarrow> {} | Some info \<Rightarrow> set (hashes_of lib info)))
    \<union> live_hashes lib f keys"
  by (auto simp: live_hashes_def split: option.splits)

lemma marks_up:
  assumes laws: "s3_laws cli objs" "s3_up cli objs up"
  shows "set keys \<subseteq> dom f \<Longrightarrow>
    (\<forall>k\<in>set keys. \<forall>d info. f k = Some d \<and> parsed lib d = Some info \<longrightarrow> has_v1 lib info) \<Longrightarrow> up (w_s3 w) \<Longrightarrow> holds cfg objs f w \<Longrightarrow>
    \<exists>w'. forM keys (mark_one cfg cli lib) w = (Ret (), w') \<and> up (w_s3 w') \<and> holds cfg objs f w'
      \<and> gc_alive w' = live_hashes lib f (set keys) \<union> gc_alive w"
proof (induction keys arbitrary: w)
  case Nil
  then show ?case by (simp add: ret_run live_hashes_def)
next
  case (Cons k keys)
  then obtain d where d: "f k = Some d" by auto
  then obtain s' where c: "Cat cfg cli k w = (Ret d, w\<lparr>w_s3 := s'\<rparr>)" and up': "up s'"
    using Cat_up [OF laws(2) Cons.prems(3), of cfg k d] Cons.prems(4) by (auto simp: holds_def)
  have "objs s' = objs (w_s3 w)" using Cat_law [OF laws(1) c] by simp
  with Cons.prems(4) have h': "objs s' (S3Bucket cfg) = f" by (simp add: holds_def)
  have "\<exists>w1. mark_one cfg cli lib k w = (Ret (), w1) \<and> w_s3 w1 = s'
    \<and> gc_alive w1 = (case parsed lib d of None \<Rightarrow> {} | Some info \<Rightarrow> set (hashes_of lib info)) \<union> gc_alive w"
  proof (cases "parsed lib d")
    case None
    then show ?thesis using mark_one_bad [OF c] by simp
  next
    case (Some info)
    with Cons.prems(2) d have "has_v1 lib info" by simp
    from mark_one_good [OF c Some this] Some show ?thesis by simp
  qed
  then obtain w1 where w1: "mark_one cfg cli lib k w = (Ret (), w1)" "w_s3 w1 = s'"
    "gc_alive w1 = (case parsed lib d of None \<Rightarrow> {} | Some info \<Rightarrow> set (hashes_of lib info)) \<union> gc_alive w" by blast
  from Cons.IH [of w1] Cons.prems(1,2) w1(2) up' h' obtain w' where
    w': "forM keys (mark_one cfg cli lib) w1 = (Ret (), w')" "up (w_s3 w')" "holds cfg objs f w'"
      "gc_alive w' = live_hashes lib f (set keys) \<union> gc_alive w1" by (auto simp: holds_def)
  then show ?case using w1(1,3) d by (auto simp: bindM_def live_hashes_insert)
qed

section \<open>The sweep phase\<close>

text \<open>
  \<open>swept f K\<close>: the bucket holds \<open>f\<close> without some of the keys in \<open>K\<close>.
\<close>

definition swept :: "Config \<Rightarrow> 's view \<Rightarrow> (string \<Rightarrow> bytes option) \<Rightarrow> string set \<Rightarrow> ('s, 'z) world_scheme \<Rightarrow> bool" where
  "swept cfg objs f K w \<longleftrightarrow> (\<forall>k. objs (w_s3 w) (S3Bucket cfg) k = f k \<or> k \<in> K \<and> objs (w_s3 w) (S3Bucket cfg) k = None)"

lemma swept_update [simp]:
  "swept cfg objs f K (gc_scanned_update b w) = swept cfg objs f K w"
  "swept cfg objs f K (gc_kept_update b w) = swept cfg objs f K w"
  "swept cfg objs f K (gc_deleted_update b w) = swept cfg objs f K w"
  by (simp_all add: swept_def)

lemma keeps_swept_one:
  assumes "s3_laws cli objs" and "k \<in> K"
  shows "keeps (swept cfg objs f K) (sweep_one cfg cli k)"
proof -
  have "keeps (swept cfg objs f K) (Delete cfg cli k)"
  proof (rule keepsI)
    fix w r w' assume sw: "swept cfg objs f K w" and "Delete cfg cli k w = (r, w')"
    from Delete_law [OF assms(1) this(2)]
    have "objs (w_s3 w') (S3Bucket cfg) = (objs (w_s3 w) (S3Bucket cfg))(k := None)
      \<or> objs (w_s3 w') (S3Bucket cfg) = objs (w_s3 w) (S3Bucket cfg)"
      by (auto simp: upd2_def)
    with sw assms(2) show "swept cfg objs f K w'" unfolding swept_def by (metis fun_upd_apply)
  qed
  then show ?thesis unfolding sweep_one_def by (intro keeps_intros keeps_modifyM) simp_all
qed

lemma keeps_swept_sweep:
  assumes "s3_laws cli objs" and "sched_law sched"
    and "\<forall>k\<in>set (fst listing). is_stale A k \<longrightarrow> k \<in> K"
  shows "gc_alive w = A \<Longrightarrow> swept cfg objs f K w \<Longrightarrow> sweep sched n cfg cli listing w = (r, w') \<Longrightarrow> swept cfg objs f K w'"
proof -
  assume A: "gc_alive w = A" and sw: "swept cfg objs f K w" and run: "sweep sched n cfg cli listing w = (r, w')"
  have del: "keeps (swept cfg objs f K) (forM ks (sweep_one cfg cli))"
    if "set ks \<subseteq> set (sched (filter (is_stale A) (fst listing)))" for ks
  proof (rule keeps_forM)
    fix k assume "k \<in> set ks"
    with that sched_set [OF assms(2)] assms(3) have "k \<in> K" by fastforce
    then show "keeps (swept cfg objs f K) (sweep_one cfg cli k)" by (rule keeps_swept_one [OF assms(1)])
  qed
  have all: "keeps (swept cfg objs f K) (forM (sched (filter (is_stale A) (fst listing))) (sweep_one cfg cli))"
    by (rule del) simp
  have some: "keeps (swept cfg objs f K) (forM (take n (sched (filter (is_stale A) (fst listing)))) (sweep_one cfg cli))"
    by (rule del) (rule set_take_subset)
  have tail: "keeps (swept cfg objs f K) (case snd listing of
      None \<Rightarrow> forM (sched (filter (is_stale A) (fst listing))) (sweep_one cfg cli)
    | Some e \<Rightarrow> bindM (forM (take n (sched (filter (is_stale A) (fst listing)))) (sweep_one cfg cli)) (\<lambda>_. uncaught (throw e)))"
    by (cases "snd listing") (use all in simp, simp, rule keeps_bindM [OF some keeps_uncaught [OF keeps_throw]])
  let ?k = "\<lambda>A. let keys = fst listing; stale = filter (is_stale A) keys in
       if wrap64 (UpSem cfg * 2) < 0 then panic (PRuntime ''makechan: size out of range'')
       else
         bindM (modifyM (\<lambda>w. w\<lparr>gc_scanned := gc_scanned w + int (length keys),
                               gc_kept := gc_kept w + int (length keys - length stale)\<rparr>)) (\<lambda>_.
         if UpSem cfg \<le> 0 \<and> stale \<noteq> [] then block
         else (case snd listing of
             None \<Rightarrow> forM (sched stale) (sweep_one cfg cli)
           | Some e \<Rightarrow> bindM (forM (take n (sched stale)) (sweep_one cfg cli)) (\<lambda>_. uncaught (throw e))))"
  have kA: "keeps (swept cfg objs f K) (?k A)"
    unfolding Let_def
    by (rule keeps_if, rule keeps_panic, rule keeps_bindM, rule keeps_modifyM, simp, rule keeps_if,
        rule keeps_block, rule tail)
  have "?k A w = (r, w')" using run by (simp only: sweep_def bindM_getM A)
  with kA sw show ?thesis by (rule keepsD)
qed

lemma sweep_deletes_up:
  assumes laws: "s3_laws cli objs" "s3_up cli objs up"
  shows "up (w_s3 w) \<Longrightarrow> holds cfg objs f w \<Longrightarrow>
    \<exists>w'. forM ks (sweep_one cfg cli) w = (Ret (), w') \<and> up (w_s3 w')
      \<and> holds cfg objs (\<lambda>k. if k \<in> set ks then None else f k) w' \<and> gc_alive w' = gc_alive w
      \<and> gc_deleted w' = gc_deleted w + int (length ks) \<and> gc_scanned w' = gc_scanned w \<and> gc_kept w' = gc_kept w"
proof (induction ks arbitrary: w f)
  case Nil
  then show ?case by (simp add: ret_run)
next
  case (Cons k ks)
  obtain s' where d: "Delete cfg cli k w = (Ret (), w\<lparr>w_s3 := s'\<rparr>)" and up': "up s'"
    using Delete_up [OF laws(2) Cons.prems(1)] by blast
  let ?w1 = "w\<lparr>w_s3 := s', gc_deleted := gc_deleted w + 1\<rparr>"
  have one: "sweep_one cfg cli k w = (Ret (), ?w1)"
    using d by (simp add: sweep_one_def uncaught_def bindM_def modifyM_run)
  have "holds cfg objs (f(k := None)) ?w1"
    using Delete_law [OF laws(1) d] Cons.prems(2) by (auto simp: holds_def upd2_def)
  from Cons.IH [OF _ this] up' obtain w' where
    w': "forM ks (sweep_one cfg cli) ?w1 = (Ret (), w')" "up (w_s3 w')"
      "holds cfg objs (\<lambda>j. if j \<in> set ks then None else (f(k := None)) j) w'"
      "gc_alive w' = gc_alive w" "gc_deleted w' = gc_deleted w + 1 + int (length ks)"
      "gc_scanned w' = gc_scanned w" "gc_kept w' = gc_kept w" by auto
  moreover have "(\<lambda>j. if j \<in> set ks then None else (f(k := None)) j) = (\<lambda>j. if j \<in> set (k # ks) then None else f j)"
    by (rule ext) auto
  ultimately show ?case using one by (auto simp: bindM_def)
qed

section \<open>What the collector may delete\<close>

lemma runGc_split:
  assumes "List cfg cli (PrefixTorrents cfg) w = (Ret keys, w1)"
  shows "runGc sched1 sched2 n cfg cli lib w =
    bindM (pmap sched1 keys (UpSem cfg) (mark_one cfg cli lib)) (\<lambda>_.
      bindM (ListStream cfg cli (PrefixPieces cfg)) (\<lambda>listing. sweep sched2 n cfg cli listing)) w1"
  using assms by (simp add: runGc_def bindM_def)

lemma List_holds:
  assumes "s3_laws cli objs" and "holds cfg objs f w" and "List cfg cli p w = (r, w')"
  shows "holds cfg objs f w'"
  using List_law(1) [OF assms(1,3)] assms(2) by (simp add: holds_def)

lemma ListStream_law:
  assumes "s3_laws cli objs" and "holds cfg objs f w" and "ListStream cfg cli p w = (Ret listing, w')"
  shows "holds cfg objs f w' \<and> (\<exists>s'. w' = w\<lparr>w_s3 := s'\<rparr>) \<and> (\<forall>k\<in>set (fst listing). prefix p k)"
proof -
  obtain pages s' where h: "ListPages cli (S3Bucket cfg) p (w_s3 w) = (pages, s')" by fastforce
  then have l: "listing = stream_pages p pages" "w' = w\<lparr>w_s3 := s'\<rparr>"
    using assms(3) by (simp_all add: ListStream_def bindM_def call_def ret_run)
  have "k \<in> set (fst (stream_pages p pages)) \<Longrightarrow> \<exists>c. Inr c \<in> set pages \<and> k \<in> set c" for k
    by (induction p pages rule: stream_pages.induct) (auto split: if_splits prod.splits)
  with l list_lawD(1,2) [OF assms(1) h] assms(2) show ?thesis by (auto simp: holds_def) blast
qed

lemma ListStream_total: "\<exists>listing w'. ListStream cfg cli p w = (Ret listing, w')"
  by (auto simp: ListStream_def bindM_def call_def ret_run split: prod.split)

lemma pmap_ret:
  assumes "sched_law sched" and "pmap sched items n fn w = (Ret u, w')"
  shows "forM (sched items) fn w = (Ret (), w') \<and> length (sched items) = length items"
  using assms(2) sched_length [OF assms(1)] by (auto simp: pmap_def block_run split: if_splits)

text \<open>However the run ends, only unmarked piece keys are gone, and nothing unless the mark phase came to its end.\<close>

lemma runGc_ended:
  assumes laws: "s3_laws cli objs" "sched_law sched2" and f: "holds cfg objs f w"
    and run: "runGc sched1 sched2 n cfg cli lib w = (r, w')"
  shows "case List cfg cli (PrefixTorrents cfg) w of
      (Ret keys, w1) \<Rightarrow>
        (case pmap sched1 keys (UpSem cfg) (mark_one cfg cli lib) w1 of
           (Ret _, w2) \<Rightarrow> swept cfg objs f {k. prefix (PrefixPieces cfg) k \<and> path_Base k \<notin> gc_alive w2} w'
         | _ \<Rightarrow> holds cfg objs f w')
    | _ \<Rightarrow> holds cfg objs f w'"
proof -
  obtain rl w1 where l: "List cfg cli (PrefixTorrents cfg) w = (rl, w1)" by fastforce
  have h1: "holds cfg objs f w1" by (rule List_holds [OF laws(1) f l])
  show ?thesis
  proof (cases rl)
    case (Ret keys)
    obtain rm w2 where m: "pmap sched1 keys (UpSem cfg) (mark_one cfg cli lib) w1 = (rm, w2)" by fastforce
    have h2: "holds cfg objs f w2"
      by (rule keepsD [OF keeps_pmap [OF keeps_holds_mark_one [OF laws(1)]] h1 m])
    show ?thesis
    proof (cases rm)
      case r: (Ret u)
      obtain listing w3 where s: "ListStream cfg cli (PrefixPieces cfg) w2 = (Ret listing, w3)"
        using ListStream_total by blast
      then have 3: "holds cfg objs f w3" "gc_alive w3 = gc_alive w2" "\<forall>k\<in>set (fst listing). prefix (PrefixPieces cfg) k"
        using ListStream_law [OF laws(1) h2 s] by auto
      let ?K = "{k. prefix (PrefixPieces cfg) k \<and> path_Base k \<notin> gc_alive w2}"
      have "sweep sched2 n cfg cli listing w3 = (r, w')"
        using run runGc_split [OF l [unfolded Ret]] m r s by (simp add: bindM_def)
      moreover have "swept cfg objs f ?K w3" using 3(1) by (simp add: holds_def swept_def)
      moreover have "\<forall>k\<in>set (fst listing). is_stale (gc_alive w2) k \<longrightarrow> k \<in> ?K"
        using 3(3) by (simp add: is_stale_def)
      ultimately have "swept cfg objs f ?K w'" using keeps_swept_sweep [OF laws _ 3(2)] by blast
      with l m Ret r show ?thesis by simp
    qed (use run runGc_split [OF l [unfolded Ret]] m l h2 Ret in \<open>auto simp: bindM_def\<close>)
  qed (use run l h1 in \<open>auto simp: runGc_def bindM_def\<close>)
qed

lemma runGc_swept:
  assumes "s3_laws cli objs" "sched_law sched2" and "holds cfg objs f w"
    and "runGc sched1 sched2 n cfg cli lib w = (r, w')"
  shows "swept cfg objs f {k. prefix (PrefixPieces cfg) k} w'"
proof -
  have stay: "holds cfg objs f v \<Longrightarrow> swept cfg objs f K v" for K v by (simp add: holds_def swept_def)
  have less: "swept cfg objs f {k. prefix (PrefixPieces cfg) k \<and> P k} w' \<Longrightarrow> ?thesis" for P
    unfolding swept_def by blast
  obtain rl w1 where l: "List cfg cli (PrefixTorrents cfg) w = (rl, w1)" by fastforce
  note ended = runGc_ended [OF assms, unfolded l prod.case]
  show ?thesis
  proof (cases rl)
    case (Ret keys)
    obtain rm w2 where m: "pmap sched1 keys (UpSem cfg) (mark_one cfg cli lib) w1 = (rm, w2)" by fastforce
    show ?thesis using ended [unfolded Ret outcome.case m prod.case] stay less by (cases rm) auto
  qed (use ended stay in auto)
qed

text \<open>
  C2: the collector is safe. Whatever the service does, in whatever order the workers run
  and however the run ends (it returns, a goroutine panics, it blocks): no object outside
  the piece prefix changes, no object is added or overwritten. If the mark phase does not come to its end, nothing
  changes at all. If it does, then for each torrent that loaded, whether or not others were skipped, its object was there and
  parsed, and not one object with the name of one of its pieces is touched; every other listed torrent counts as skipped.
\<close>

theorem gc_safe:
  assumes "s3_laws cli objs" and "sched_law sched1" and "sched_law sched2" and "f = objs (w_s3 w) (S3Bucket cfg)"
    and "runGc sched1 sched2 n cfg cli lib w = (r, w')" and "f' = objs (w_s3 w') (S3Bucket cfg)"
  shows "(\<forall>k. f' k = f k \<or> f' k = None \<and> prefix (PrefixPieces cfg) k)
    \<and> (case List cfg cli (PrefixTorrents cfg) w of
        (Ret keys, w1) \<Rightarrow>
          (case pmap sched1 keys (UpSem cfg) (mark_one cfg cli lib) w1 of
             (Ret _, w2) \<Rightarrow>
               (let loaded = loaded_keys cfg cli lib (sched1 keys) w1 in
                 gc_skipped w2 = gc_skipped w + int (length keys) - int (length loaded)
                 \<and> (\<forall>tk\<in>set loaded. \<exists>d info. f tk = Some d \<and> parsed lib d = Some info
                       \<and> (\<forall>k. path_Base k \<in> set (hashes_of lib info) \<longrightarrow> f' k = f k)))
           | _ \<Rightarrow> f' = f)
      | _ \<Rightarrow> f' = f)"
proof
  have f: "holds cfg objs f w" using assms(4) by (simp add: holds_def)
  note ended = runGc_ended [OF assms(1,3) f assms(5)]
  show "\<forall>k. f' k = f k \<or> f' k = None \<and> prefix (PrefixPieces cfg) k"
    using runGc_swept [OF assms(1,3) f assms(5)] assms(6) by (auto simp: swept_def)
  obtain rl w1 where l: "List cfg cli (PrefixTorrents cfg) w = (rl, w1)" by fastforce
  show "case List cfg cli (PrefixTorrents cfg) w of
        (Ret keys, w1) \<Rightarrow>
          (case pmap sched1 keys (UpSem cfg) (mark_one cfg cli lib) w1 of
             (Ret _, w2) \<Rightarrow>
               (let loaded = loaded_keys cfg cli lib (sched1 keys) w1 in
                 gc_skipped w2 = gc_skipped w + int (length keys) - int (length loaded)
                 \<and> (\<forall>tk\<in>set loaded. \<exists>d info. f tk = Some d \<and> parsed lib d = Some info
                       \<and> (\<forall>k. path_Base k \<in> set (hashes_of lib info) \<longrightarrow> f' k = f k)))
           | _ \<Rightarrow> f' = f)
      | _ \<Rightarrow> f' = f"
  proof (cases rl)
    case (Ret keys)
    obtain rm w2 where m: "pmap sched1 keys (UpSem cfg) (mark_one cfg cli lib) w1 = (rm, w2)" by fastforce
    show ?thesis
    proof (cases rm)
      case r: (Ret u)
      have m': "forM (sched1 keys) (mark_one cfg cli lib) w1 = (Ret (), w2)" and len: "length (sched1 keys) = length keys"
        using pmap_ret [OF assms(2) m [unfolded r]] by simp_all
      have "gc_skipped w1 = gc_skipped w" using List_frame [OF l] by auto
      from marks_returned [OF assms(1) m' List_holds [OF assms(1) f l]] len this have
        sk: "gc_skipped w2 = gc_skipped w + int (length keys) - int (length (loaded_keys cfg cli lib (sched1 keys) w1))"
        and ld: "\<forall>tk\<in>set (loaded_keys cfg cli lib (sched1 keys) w1). \<exists>d info. f tk = Some d \<and> parsed lib d = Some info
          \<and> set (hashes_of lib info) \<subseteq> gc_alive w2" by simp_all
      have sw: "swept cfg objs f {k. prefix (PrefixPieces cfg) k \<and> path_Base k \<notin> gc_alive w2} w'"
        using ended by (simp add: l m Ret r)
      have kept: "f' k = f k" if "path_Base k \<in> A" "A \<subseteq> gc_alive w2" for k A
        using sw that unfolding swept_def assms(6) by blast
      have "\<exists>d info. f tk = Some d \<and> parsed lib d = Some info \<and> (\<forall>k. path_Base k \<in> set (hashes_of lib info) \<longrightarrow> f' k = f k)"
        if "tk \<in> set (loaded_keys cfg cli lib (sched1 keys) w1)" for tk
      proof -
        from ld that obtain d info where "f tk = Some d" "parsed lib d = Some info" "set (hashes_of lib info) \<subseteq> gc_alive w2" by blast
        with kept show ?thesis by blast
      qed
      with sk show ?thesis unfolding l m Ret r prod.case outcome.case Let_def by (intro conjI ballI)
    qed (use ended l m Ret in \<open>simp_all add: holds_def assms(6)\<close>)
  qed (use ended l in \<open>simp_all add: holds_def assms(6)\<close>)
qed

section \<open>What the collector does delete\<close>

lemma ListStream_up:
  assumes "s3_laws cli objs" "s3_up cli objs up" and "up (w_s3 w)" and "holds cfg objs f w"
  shows "\<exists>keys s'. ListStream cfg cli p w = (Ret (keys, None), w\<lparr>w_s3 := s'\<rparr>) \<and> up s'
    \<and> objs s' = objs (w_s3 w) \<and> set keys = {k. prefix p k \<and> f k \<noteq> None}"
proof -
  obtain pages s' where h: "ListPages cli (S3Bucket cfg) p (w_s3 w) = (pages, s')" by fastforce
  with s3_upD(9,10) [OF assms(2,3), of "S3Bucket cfg" p]
  have up: "up s'" "\<forall>pg\<in>set pages. \<exists>ks. pg = Inr ks" by simp_all
  have st: "(\<forall>pg\<in>set pages. \<exists>ks. pg = Inr ks) \<Longrightarrow> \<exists>keys. stream_pages p pages = (keys, None)
      \<and> set keys = {k. \<exists>c. Inr c \<in> set pages \<and> k \<in> set c}"
    by (induction p pages rule: stream_pages.induct) auto
  obtain keys where keys: "stream_pages p pages = (keys, None)" "set keys = {k. \<exists>c. Inr c \<in> set pages \<and> k \<in> set c}"
    using st [OF up(2)] by blast
  have "set keys = {k. prefix p k \<and> objs (w_s3 w) (S3Bucket cfg) k \<noteq> None}"
    using list_lawD(2) [OF assms(1) h] list_lawD(3) [OF assms(1) h up(2)] keys(2) by blast
  with keys(1) h up(1) list_lawD(1) [OF assms(1) h] assms(4) show ?thesis
    by (auto simp: ListStream_def bindM_def call_def ret_run holds_def)
qed

lemma sweep_up:
  assumes laws: "s3_laws cli objs" "s3_up cli objs up" "sched_law sched"
    and n: "0 < UpSem cfg" "UpSem cfg * 2 < 2 ^ 63"
    and w: "up (w_s3 w)" "holds cfg objs f w"
  shows "\<exists>w'. sweep sched m cfg cli (keys, None) w = (Ret (), w')
    \<and> holds cfg objs (\<lambda>k. if k \<in> set keys \<and> path_Base k \<notin> gc_alive w then None else f k) w'
    \<and> gc_alive w' = gc_alive w
    \<and> gc_deleted w' = gc_deleted w + int (length (filter (is_stale (gc_alive w)) keys))
    \<and> gc_kept w' - gc_kept w + (gc_deleted w' - gc_deleted w) = gc_scanned w' - gc_scanned w"
proof -
  let ?A = "gc_alive w"
  let ?st = "filter (is_stale ?A) keys"
  let ?w = "w\<lparr>gc_scanned := gc_scanned w + int (length keys), gc_kept := gc_kept w + int (length keys - length ?st)\<rparr>"
  have w64: "\<not> wrap64 (UpSem cfg * 2) < 0" using n by (simp add: wrap64_nonneg)
  have "up (w_s3 ?w)" "holds cfg objs f ?w" using w by (simp_all add: holds_def)
  from sweep_deletes_up [OF laws(1,2) this, of "sched ?st"] obtain w' where
    w': "forM (sched ?st) (sweep_one cfg cli) ?w = (Ret (), w')"
      "holds cfg objs (\<lambda>k. if k \<in> set (sched ?st) then None else f k) w'" "gc_alive w' = ?A"
      "gc_deleted w' = gc_deleted w + int (length (sched ?st))"
      "gc_scanned w' = gc_scanned w + int (length keys)" "gc_kept w' = gc_kept w + int (length keys - length ?st)"
    by auto
  have len: "length (sched ?st) = length ?st" by (rule sched_length [OF laws(3)])
  have mem: "set (sched ?st) = {k. k \<in> set keys \<and> path_Base k \<notin> ?A}"
    using sched_set [OF laws(3)] by (auto simp: is_stale_def)
  have "sweep sched m cfg cli (keys, None) w = (Ret (), w')"
    unfolding sweep_def bindM_getM using w64 n(1) w'(1) by (simp add: Let_def)
  moreover have "length ?st \<le> length keys" by simp
  ultimately show ?thesis using w'(2-6) len mem by (auto simp: of_nat_diff)
qed

text \<open>The whole run with the service up.\<close>

lemma gc_up:
  assumes "s3_laws cli objs" and "s3_up cli objs up" and "sched_law sched1" and "sched_law sched2"
    and "0 < UpSem cfg" and "UpSem cfg * 2 < 2 ^ 63" and "up s" and "f = objs s (S3Bucket cfg)"
    and "\<forall>k d info. prefix (PrefixTorrents cfg) k \<and> f k = Some d \<and> parsed lib d = Some info \<longrightarrow> has_v1 lib info"
  shows "\<exists>w'. runGc sched1 sched2 n cfg cli lib (gc_start s) = (Ret (), w')
    \<and> objs (w_s3 w') (S3Bucket cfg) = (\<lambda>k.
        if prefix (PrefixPieces cfg) k \<and> path_Base k \<notin> live_hashes lib f {k. prefix (PrefixTorrents cfg) k}
        then None else f k)
    \<and> gc_kept w' + gc_deleted w' = gc_scanned w'"
proof -
  let ?w = "gc_start s" and ?live = "live_hashes lib f {k. prefix (PrefixTorrents cfg) k}"
  have w: "up (w_s3 ?w)" "holds cfg objs f ?w" using assms(7,8) by (simp_all add: gc_start_def holds_def)
  from List_up [OF assms(2,1) w(1), of cfg "PrefixTorrents cfg"] obtain keys s1 where
    l: "List cfg cli (PrefixTorrents cfg) ?w = (Ret keys, ?w\<lparr>w_s3 := s1\<rparr>)" and up1: "up s1"
      and keys: "set keys = {k. prefix (PrefixTorrents cfg) k \<and> f k \<noteq> None}"
    using w(2) by (auto simp: holds_def)
  let ?w1 = "?w\<lparr>w_s3 := s1\<rparr>"
  have h1: "holds cfg objs f ?w1" by (rule List_holds [OF assms(1) w(2) l])
  have mset: "set (sched1 keys) = set keys" by (rule sched_set [OF assms(3)])
  have dom: "set (sched1 keys) \<subseteq> dom f" using keys mset by auto
  have v1: "\<forall>k\<in>set (sched1 keys). \<forall>d info. f k = Some d \<and> parsed lib d = Some info \<longrightarrow> has_v1 lib info"
    using assms(9) keys mset by auto
  have up1': "up (w_s3 ?w1)" using up1 by simp
  from marks_up [OF assms(1,2) dom v1 up1' h1] obtain w2 where
    m: "forM (sched1 keys) (mark_one cfg cli lib) ?w1 = (Ret (), w2)" and w2: "up (w_s3 w2)" "holds cfg objs f w2"
      and a2: "gc_alive w2 = live_hashes lib f (set keys)"
    by (auto simp: mset gc_start_def)
  have live: "gc_alive w2 = ?live" using keys a2 by (auto simp: live_hashes_def)
  from m assms(5) have pm: "pmap sched1 keys (UpSem cfg) (mark_one cfg cli lib) ?w1 = (Ret (), w2)"
    by (simp add: pmap_def)
  from ListStream_up [OF assms(1,2) w2, of "PrefixPieces cfg"] obtain pk s3 where
    st: "ListStream cfg cli (PrefixPieces cfg) w2 = (Ret (pk, None), w2\<lparr>w_s3 := s3\<rparr>)" "up s3" "objs s3 = objs (w_s3 w2)"
      "set pk = {k. prefix (PrefixPieces cfg) k \<and> f k \<noteq> None}" by blast
  let ?w3 = "w2\<lparr>w_s3 := s3\<rparr>"
  have w3: "up (w_s3 ?w3)" "holds cfg objs f ?w3" using st(2,3) w2(2) by (simp_all add: holds_def)
  from sweep_up [OF assms(1,2,4,5,6) w3, of n pk] obtain w' where
    sw: "sweep sched2 n cfg cli (pk, None) ?w3 = (Ret (), w')"
      "holds cfg objs (\<lambda>k. if k \<in> set pk \<and> path_Base k \<notin> gc_alive w2 then None else f k) w'"
      "gc_kept w' - gc_kept w2 + (gc_deleted w' - gc_deleted w2) = gc_scanned w' - gc_scanned w2" by auto
  have "unswept ?w1" by (simp add: unswept_def gc_start_def)
  with keeps_pmap [OF keeps_unswept_mark_one] have "unswept w2" using pm by (rule keepsD)
  then have zero: "gc_kept w2 = 0 \<and> gc_deleted w2 = 0 \<and> gc_scanned w2 = 0" by (simp add: unswept_def)
  have "runGc sched1 sched2 n cfg cli lib ?w = (Ret (), w')"
    unfolding runGc_split [OF l] using pm st(1) sw(1) by (simp add: bindM_def)
  moreover have "(\<lambda>k. if k \<in> set pk \<and> path_Base k \<notin> gc_alive w2 then None else f k)
      = (\<lambda>k. if prefix (PrefixPieces cfg) k \<and> path_Base k \<notin> ?live then None else f k)"
    by (rule ext) (auto simp: st(4) live)
  ultimately show ?thesis using sw(2,3) zero by (auto simp: holds_def)
qed

text \<open>
  C19: the collector is exact. Against a service that is up, with at least one worker, when
  every stored torrent that parses has v1 hashes: the run returns in every order of the
  workers, no torrent is touched, and a piece object remains exactly when its name is the
  hash of a piece of some stored torrent that parses; the counters add up.
\<close>

theorem gc_exact:
  assumes "s3_laws cli objs" and "s3_up cli objs up" and "sched_law sched1" and "sched_law sched2"
    and "0 < UpSem cfg" and "UpSem cfg * 2 < 2 ^ 63" and "up s" and "f = objs s (S3Bucket cfg)"
    and "\<forall>k d info. prefix (PrefixTorrents cfg) k \<and> f k = Some d \<and> parsed lib d = Some info \<longrightarrow> has_v1 lib info"
  shows "\<exists>w'. runGc sched1 sched2 n cfg cli lib (gc_start s) = (Ret (), w')
    \<and> objs (w_s3 w') (S3Bucket cfg) = (\<lambda>k.
        if prefix (PrefixPieces cfg) k \<and> path_Base k \<notin> live_hashes lib f {k. prefix (PrefixTorrents cfg) k}
        then None else f k)
    \<and> gc_kept w' + gc_deleted w' = gc_scanned w'"
  by (rule gc_up [OF assms])

section \<open>Concrete buckets\<close>

text \<open>One torrent and one piece that no torrent has.\<close>

definition bucket_gc :: mem where
  "bucket_gc = mem_of [(''t/torrents/h'', tor_a), (''t/pieces/zz'', [9])]"

lemma view_bucket_gc: "mem_view bucket_gc ''b'' = [''t/torrents/h'' \<mapsto> tor_a, ''t/pieces/zz'' \<mapsto> [9]]"
  by (rule ext) (simp add: mem_view_def bucket_gc_def mem_of_def)

lemma zz_no_hash: "''zz'' \<noteq> hex_EncodeToString x"
proof
  assume "''zz'' = hex_EncodeToString x"
  then have "hex_DecodeString ''zz'' = Inr x" using hex_roundtrip [of x] by simp
  then show False by (simp add: hex_val_def hex_digits_def)
qed

lemma base_zz: "path_Base ''t/pieces/zz'' = ''zz''"
  using path_Base_append(1) [of "''zz''" "''t/pieces''"] by simp

lemma v1_bucket_gc:
  "\<forall>k d info. prefix (PrefixTorrents cfg0) k \<and> mem_view bucket_gc ''b'' k = Some d \<and> parsed lib0 d = Some info
    \<longrightarrow> has_v1 lib0 info"
proof (intro allI impI)
  fix k d info
  assume a: "prefix (PrefixTorrents cfg0) k \<and> mem_view bucket_gc ''b'' k = Some d \<and> parsed lib0 d = Some info"
  have "\<not> prefix (PrefixTorrents cfg0) ''t/pieces/zz''" by (simp add: PrefixTorrents_def)
  with a have "d = tor_a" by (auto simp: view_bucket_gc split: if_splits)
  with a parsed_tor_a have "info_Name info \<noteq> ''v''" by auto
  then show "has_v1 lib0 info" using lib0_v1 by (simp add: v1_info_def)
qed

text \<open>A torrent with one piece, an object among the torrents that does not parse, and a piece that no torrent has.\<close>

definition tor_k :: bytes where "tor_k = [1, 97, 2, 1, 2] @ replicate 20 7"

definition bucket_k :: mem where
  "bucket_k = mem_of [(''t/torrents/k'', tor_k), (''t/torrents/x'', []),
     (''t/pieces/'' @ hex_EncodeToString (replicate 20 7), [4, 5]), (''t/pieces/zz'', [9])]"

lemma run_bucket_k:
  "case List cfg0 mem_s3 (PrefixTorrents cfg0) (gc_start bucket_k) of
      (Ret keys, w1) \<Rightarrow> (case pmap rev keys (UpSem cfg0) (mark_one cfg0 mem_s3 lib0) w1 of
          (Ret _, w2) \<Rightarrow> gc_skipped w2 = 1 \<and> loaded_keys cfg0 mem_s3 lib0 (rev keys) w1 = [''t/torrents/k'']
        | _ \<Rightarrow> False)
    | _ \<Rightarrow> False"
  by code_simp

theorem gc_safe_witness:
  "let w' = snd (runGc rev rev 0 cfg0 mem_s3 lib0 (gc_start bucket_k)) in
    mem_view (w_s3 w') ''b'' ''t/torrents/k'' = Some tor_k
    \<and> mem_view (w_s3 w') ''b'' (''t/pieces/'' @ hex_EncodeToString (replicate 20 7)) = Some [4, 5]"
proof -
  let ?h = "hex_EncodeToString (replicate 20 (7 :: byte))" and ?f = "mem_view (w_s3 (gc_start bucket_k)) (S3Bucket cfg0)"
  have view: "?f ''t/torrents/k'' = Some tor_k" "?f (''t/pieces/'' @ ?h) = Some [4, 5]"
    by (simp_all add: gc_start_def bucket_k_def mem_view_def mem_of_def)
  obtain r w' where run: "runGc rev rev 0 cfg0 mem_s3 lib0 (gc_start bucket_k) = (r, w')" by fastforce
  note safe = gc_safe [OF mem_laws sched_law_rev sched_law_rev refl run refl]
  have "\<not> prefix (PrefixPieces cfg0) ''t/torrents/k''" by (simp add: PrefixPieces_def)
  with safe view(1) have t: "mem_view (w_s3 w') (S3Bucket cfg0) ''t/torrents/k'' = Some tor_k" by force
  from run_bucket_k obtain keys w1 w2 where l: "List cfg0 mem_s3 (PrefixTorrents cfg0) (gc_start bucket_k) = (Ret keys, w1)"
    and m: "pmap rev keys (UpSem cfg0) (mark_one cfg0 mem_s3 lib0) w1 = (Ret (), w2)"
    and ld: "loaded_keys cfg0 mem_s3 lib0 (rev keys) w1 = [''t/torrents/k'']"
    by (cases "List cfg0 mem_s3 (PrefixTorrents cfg0) (gc_start bucket_k)"; cases "fst (List cfg0 mem_s3 (PrefixTorrents cfg0) (gc_start bucket_k))")
      (fastforce split: prod.splits outcome.splits)+
  from safe [THEN conjunct2, unfolded l prod.case outcome.case m Let_def ld] obtain d info where
    d: "?f ''t/torrents/k'' = Some d" "parsed lib0 d = Some info"
    and kept: "\<forall>k. path_Base k \<in> set (hashes_of lib0 info) \<longrightarrow> mem_view (w_s3 w') (S3Bucket cfg0) k = ?f k" by auto
  have "hashes_of lib0 (the (parsed lib0 tor_k)) = [?h]" by code_simp
  with d view(1) have "hashes_of lib0 info = [?h]" by simp
  moreover have "path_Base (''t/pieces/'' @ ?h) = ?h" by code_simp
  ultimately have "mem_view (w_s3 w') (S3Bucket cfg0) (''t/pieces/'' @ ?h) = Some [4, 5]" using kept view(2) by simp
  with t show ?thesis by (simp add: run)
qed

theorem gc_exact_witness:
  "\<exists>w'. runGc rev rev 0 cfg0 mem_s3 lib0 (gc_start bucket_gc) = (Ret (), w')
    \<and> mem_view (w_s3 w') ''b'' ''t/pieces/zz'' = None \<and> mem_view (w_s3 w') ''b'' ''t/torrents/h'' = Some tor_a"
proof -
  have up: "mem_up bucket_gc" by (simp add: bucket_gc_def)
  have n: "0 < UpSem cfg0" "UpSem cfg0 * 2 < 2 ^ 63" by simp_all
  have v1: "\<forall>k d info. prefix (PrefixTorrents cfg0) k \<and> mem_view bucket_gc (S3Bucket cfg0) k = Some d
      \<and> parsed lib0 d = Some info \<longrightarrow> has_v1 lib0 info"
    using v1_bucket_gc by simp
  have "''zz'' \<notin> live_hashes lib0 f K" for f K
    using zz_no_hash by (auto simp: live_hashes_def hashes_of_def)
  with gc_exact [OF mem_laws mem_is_up sched_law_rev sched_law_rev n up refl v1, of 0] show ?thesis
    by (auto simp: base_zz PrefixPieces_def view_bucket_gc)
qed

section \<open>Two ways to lose\<close>

text \<open>
  A torrent that could not be read is treated as if it were not there. When the only
  torrent fails to load because of one failed request, and the service works again
  afterwards, the run skips it, returns normally, and has deleted every piece of the bucket.
\<close>

theorem gc_skip_deletes:
  assumes "s3_laws cli objs" and "s3_up cli objs up" and "sched_law sched1" and "sched_law sched2"
    and "0 < UpSem cfg" and "UpSem cfg * 2 < 2 ^ 63" and "gc_alive w = {}"
    and "List cfg cli (PrefixTorrents cfg) w = (Ret [tk], w1)"
    and "Cat cfg cli tk w1 = (Panicked (PException e), w2)" and "up (w_s3 w2)"
  shows "\<exists>w'. runGc sched1 sched2 n cfg cli lib w = (Ret (), w')
    \<and> (\<forall>k. prefix (PrefixPieces cfg) k \<longrightarrow> objs (w_s3 w') (S3Bucket cfg) k = None)"
proof -
  have "mset (sched1 [tk]) = {#tk#}" using assms(3) by (simp add: sched_law_def)
  then have one: "sched1 [tk] = [tk]" by simp
  let ?w2 = "w2\<lparr>gc_skipped := gc_skipped w2 + 1\<rparr>"
  have "mark_one cfg cli lib tk w1 = (Ret (), ?w2)" by (rule mark_one_bad [OF assms(9)]) simp
  then have pm: "pmap sched1 [tk] (UpSem cfg) (mark_one cfg cli lib) w1 = (Ret (), ?w2)"
    using assms(5) by (simp add: pmap_def one bindM_def ret_run)
  have alive: "gc_alive ?w2 = {}"
    using List_frame [OF assms(8)] Cat_frame [OF assms(9)] assms(7) by auto
  define f where "f = objs (w_s3 ?w2) (S3Bucket cfg)"
  have up2: "up (w_s3 ?w2)" "holds cfg objs f ?w2" using assms(10) by (simp_all add: holds_def f_def)
  from ListStream_up [OF assms(1,2) up2, of "PrefixPieces cfg"] obtain pk s3 where
    st: "ListStream cfg cli (PrefixPieces cfg) ?w2 = (Ret (pk, None), ?w2\<lparr>w_s3 := s3\<rparr>)" "up s3" "objs s3 = objs (w_s3 ?w2)"
      "set pk = {k. prefix (PrefixPieces cfg) k \<and> f k \<noteq> None}" by blast
  let ?w3 = "?w2\<lparr>w_s3 := s3\<rparr>"
  have w3: "up (w_s3 ?w3)" "holds cfg objs f ?w3" using st(2,3) up2(2) by (simp_all add: holds_def)
  from sweep_up [OF assms(1,2,4,5,6) w3, of n pk] obtain w' where
    sw: "sweep sched2 n cfg cli (pk, None) ?w3 = (Ret (), w')"
      "holds cfg objs (\<lambda>k. if k \<in> set pk \<and> path_Base k \<notin> gc_alive ?w3 then None else f k) w'" by auto
  have "runGc sched1 sched2 n cfg cli lib w = (Ret (), w')"
    unfolding runGc_split [OF assms(8)] using pm st(1) sw(1) by (simp add: bindM_def)
  then show ?thesis using sw(2) st(4) alive by (auto simp: holds_def)
qed

theorem gc_skip_deletes_witness:
  "\<exists>w'. runGc rev rev 0 cfg0 mem_s3 lib0 (gc_start (fst bucket_gc, [False, True])) = (Ret (), w')
    \<and> (\<forall>k. prefix (PrefixPieces cfg0) k \<longrightarrow> mem_view (w_s3 w') ''b'' k = None)"
proof -
  let ?w = "gc_start (fst bucket_gc, [False, True])"
  let ?w1 = "gc_start (fst bucket_gc, [True])" and ?w2 = "gc_start (fst bucket_gc, [])"
  have l: "List cfg0 mem_s3 (PrefixTorrents cfg0) ?w = (Ret [''t/torrents/h''], ?w1)"
    by (simp add: List_def bindM_def call_def mem_s3_def mem_fails_def mem_tick_def bucket_gc_def mem_of_def
        gc_start_def ret_run PrefixTorrents_def strings_HasPrefix_def)
  have c: "\<exists>e. Cat cfg0 mem_s3 ''t/torrents/h'' ?w1 = (Panicked (PException e), ?w2)"
    by (simp add: Cat_def bindM_def call_def mem_s3_def mem_fails_def mem_tick_def gc_start_def ThrowFmt_run)
  then obtain e where c: "Cat cfg0 mem_s3 ''t/torrents/h'' ?w1 = (Panicked (PException e), ?w2)" by blast
  have up: "mem_up (w_s3 ?w2)" by (simp add: mem_up_def gc_start_def)
  from gc_skip_deletes [OF mem_laws mem_is_up sched_law_rev sched_law_rev _ _ _ l c up, of 0 lib0] show ?thesis
    by (simp add: gc_start_def)
qed

text \<open>
  With \<^verbatim>\<open>--max-inflight 0\<close> the collector hangs before it has done anything as
  soon as there is one torrent: the first send to the pool has no receiver.
\<close>

theorem gc_no_workers:
  assumes "UpSem cfg \<le> 0" and "List cfg cli (PrefixTorrents cfg) w = (Ret keys, w1)" and "keys \<noteq> []"
  shows "runGc sched1 sched2 n cfg cli lib w = (Blocked, w1)"
  using assms unfolding runGc_split [OF assms(2)] by (simp add: pmap_def bindM_def block_run)

theorem gc_no_workers_witness:
  "runGc rev rev 0 (cfg0\<lparr>UpSem := 0\<rparr>) mem_s3 lib0 (gc_start bucket_gc) = (Blocked, gc_start bucket_gc)"
proof (rule gc_no_workers)
  show "List (cfg0\<lparr>UpSem := 0\<rparr>) mem_s3 (PrefixTorrents (cfg0\<lparr>UpSem := 0\<rparr>)) (gc_start bucket_gc)
      = (Ret [''t/torrents/h''], gc_start bucket_gc)"
    by (simp add: List_def bindM_def call_def mem_s3_def mem_fails_def mem_tick_def bucket_gc_def mem_of_def
        gc_start_def ret_run PrefixTorrents_def strings_HasPrefix_def)
qed simp_all

end
