(* ===== verification/Fetch.thy ===== *)
theory Fetch
  imports Meta "HOL-Library.Multiset"
begin

text \<open>
  \<^verbatim>\<open>fetch.go\<close>: the storage backend that the BitTorrent client of
  \<^verbatim>\<open>anacrolix/torrent\<close> writes pieces to, and \<open>runFetch\<close>, which runs that client and then
  publishes the torrent.

  Each operation is a program, one call at a time; theory \<open>Slots\<close> has
  the calls of many goroutines interleaved at their locks and channel operations, as a step relation.
  The client is not in the repository: it appears as the sequence of the calls it makes and the result
  of \<open>WaitAll\<close>.
\<close>

section \<open>State\<close>

record pieceState =
  ps_hash :: string
  ps_length :: int
  ps_buf :: "bytes option"
  ps_complete :: bool

text \<open>\<open>fw_tokens\<close> is the number of elements in \<open>bufSem\<close>.\<close>

record 's samogonStorage = "'s world" +
  fw_known :: "string set"
  fw_states :: "int \<rightharpoonup> pieceState"
  fw_tokens :: int

section \<open>The piece store\<close>

definition stateFor :: "int \<Rightarrow> string \<Rightarrow> int \<Rightarrow> (('s, 'z) samogonStorage_scheme, unit) prog" where
  "stateFor idx hash len = modifyM (\<lambda>w. case fw_states w idx of
      Some ps \<Rightarrow> w
    | None \<Rightarrow> w\<lparr>fw_states := (fw_states w)(idx \<mapsto>
        \<lparr>ps_hash = hash, ps_length = len, ps_buf = None, ps_complete = False\<rparr>)\<rparr>)"

text \<open>The function \<open>OpenTorrent\<close> hands to the client: called for every access to a piece.\<close>

definition pieceFn :: "int \<Rightarrow> int \<Rightarrow> bytes option \<Rightarrow> (('s, 'z) samogonStorage_scheme, unit) prog" where
  "pieceFn idx len pieceHash = (case pieceHash of
      None \<Rightarrow> ThrowFmt ''samogon: piece hash unavailable (pure v2 torrent?); only v1/hybrid supported'' []
    | Some h \<Rightarrow> stateFor idx (hex_EncodeToString h) len)"

text \<open>The state behind a facade, and its update.\<close>

definition pieceOf :: "int \<Rightarrow> (('s, 'z) samogonStorage_scheme, pieceState) prog" where
  "pieceOf idx = bindM (getM (\<lambda>w. fw_states w idx)) (\<lambda>st. case st of
      Some ps \<Rightarrow> ret ps | None \<Rightarrow> panic (PRuntime ''nil pointer dereference''))"

definition setPiece :: "int \<Rightarrow> (pieceState \<Rightarrow> pieceState) \<Rightarrow> (('s, 'z) samogonStorage_scheme, unit) prog" where
  "setPiece idx f = modifyM (\<lambda>w. w\<lparr>fw_states := (fw_states w)(idx := map_option f (fw_states w idx))\<rparr>)"

definition acquireBuf :: "Config \<Rightarrow> (('s, 'z) samogonStorage_scheme, unit) prog" where
  "acquireBuf cfg = bindM (getM fw_tokens) (\<lambda>n.
     if n < InflightPieces cfg then modifyM (\<lambda>w. w\<lparr>fw_tokens := fw_tokens w + 1\<rparr>) else block)"

definition releaseBuf :: "(('s, 'z) samogonStorage_scheme, unit) prog" where
  "releaseBuf = bindM (getM fw_tokens) (\<lambda>n.
     if 0 < n then modifyM (\<lambda>w. w\<lparr>fw_tokens := fw_tokens w - 1\<rparr>) else block)"

text \<open>\<open>copy(dst[off:], b)\<close>.\<close>

definition overwrite :: "bytes \<Rightarrow> nat \<Rightarrow> bytes \<Rightarrow> bytes" where
  "overwrite dst off b =
     take off dst @ take (length dst - off) b @ drop (off + min (length b) (length dst - off)) dst"

definition piece_WriteAt ::
  "Config \<Rightarrow> int \<Rightarrow> bytes \<Rightarrow> int \<Rightarrow> (('s, 'z) samogonStorage_scheme, int \<times> goerr option) prog" where
  "piece_WriteAt cfg idx b off =
     bindM (pieceOf idx) (\<lambda>st.
     bindM (if ps_buf st = None then
         bindM (acquireBuf cfg) (\<lambda>_.
         bindM (pieceOf idx) (\<lambda>st.
           if ps_buf st = None then
             (if ps_length st < 0 then panic (PRuntime ''makeslice: len out of range'')
              else setPiece idx (\<lambda>ps. ps\<lparr>ps_buf := Some (replicate (nat (ps_length st)) 0)\<rparr>))
           else releaseBuf))
       else ret ()) (\<lambda>_.
     bindM (pieceOf idx) (\<lambda>st.
       let buf = the (ps_buf st); en = wrap64 (off + int (length b)) in
       if en > int (length buf) then ret (0, Some ErrShortWrite)
       else if off < 0 \<or> off > int (length buf) then panic (PRuntime ''slice bounds out of range'')
       else bindM (setPiece idx (\<lambda>ps. ps\<lparr>ps_buf := Some (overwrite buf (nat off) b)\<rparr>)) (\<lambda>_.
         ret (int (min (length b) (length buf - nat off)), None)))))"

text \<open>\<open>ReadAt\<close> into a buffer of \<open>n\<close> bytes: the bytes read and the error.\<close>

definition read_from :: "bytes \<Rightarrow> nat \<Rightarrow> int \<Rightarrow> ('w, bytes \<times> goerr option) prog" where
  "read_from data n off =
     (if off \<ge> int (length data) then ret ([], Some EOF)
      else if off < 0 then panic (PRuntime ''slice bounds out of range'')
      else ret (take n (drop (nat off) data), None))"

definition piece_ReadAt ::
  "Config \<Rightarrow> 's s3api \<Rightarrow> int \<Rightarrow> nat \<Rightarrow> int \<Rightarrow> (('s, 'z) samogonStorage_scheme, bytes \<times> goerr option) prog" where
  "piece_ReadAt cfg cli idx n off =
     bindM (pieceOf idx) (\<lambda>st. case ps_buf st of
         Some buf \<Rightarrow> read_from buf n off
       | None \<Rightarrow>
           if ps_complete st then
             bindM (Cat cfg cli (KeyPiece cfg (ps_hash st))) (\<lambda>data. read_from data n off)
           else ret ([], Some EOF))"

definition runCatch :: "('w, unit) prog \<Rightarrow> ('w, goerr option) prog" where
  "runCatch fn = bindM (Try fn) (\<lambda>exc. case exc of
      Inr _ \<Rightarrow> ret None
    | Inl e \<Rightarrow> ret (Some (Unwrap e)))"

text \<open>With no other upload running, a slot of \<open>sem\<close> is free unless its capacity is zero.\<close>

definition MarkComplete ::
  "Config \<Rightarrow> 's s3api \<Rightarrow> int \<Rightarrow> (('s, 'z) samogonStorage_scheme, goerr option) prog" where
  "MarkComplete cfg cli idx =
     bindM (pieceOf idx) (\<lambda>st. let data = ps_buf st in
       runCatch (
         if UpSem cfg \<le> 0 then block
         else
           bindM (PutBytes cfg cli (KeyPiece cfg (ps_hash st)) (case data of None \<Rightarrow> [] | Some d \<Rightarrow> d)) (\<lambda>_.
           bindM (pieceOf idx) (\<lambda>st.
             let freed = (ps_buf st \<noteq> None) in
             bindM (setPiece idx (\<lambda>ps. ps\<lparr>ps_complete := True, ps_buf := None\<rparr>)) (\<lambda>_.
               if freed then releaseBuf else ret ())))))"

definition MarkNotComplete :: "int \<Rightarrow> (('s, 'z) samogonStorage_scheme, goerr option) prog" where
  "MarkNotComplete idx =
     bindM (pieceOf idx) (\<lambda>st.
       let freed = (ps_buf st \<noteq> None) in
       bindM (setPiece idx (\<lambda>ps. ps\<lparr>ps_complete := False, ps_buf := None\<rparr>)) (\<lambda>_.
       bindM (if freed then releaseBuf else ret ()) (\<lambda>_. ret None)))"

text \<open>\<open>Completion()\<close>: the value of its field \<open>Complete\<close> (\<open>Ok\<close> is always true).\<close>

definition Completion :: "int \<Rightarrow> (('s, 'z) samogonStorage_scheme, bool) prog" where
  "Completion idx =
     bindM (pieceOf idx) (\<lambda>st.
       if ps_complete st then ret True
       else bindM (getM fw_known) (\<lambda>known.
         if ps_hash st \<in> known then
           bindM (setPiece idx (\<lambda>ps. ps\<lparr>ps_complete := True\<rparr>)) (\<lambda>_. ret True)
         else ret False))"

section \<open>runFetch\<close>

text \<open>
  The calls the client makes on the store, in the order their effects happen; a panic in one
  of them is a panic in one of the client's goroutines.
\<close>

datatype fcall =
    CPiece int int "bytes option"
  | CWrite int bytes int
  | CRead int nat int
  | CComplete int
  | CNotComplete int
  | CCompletion int

definition ignore :: "('w, 'a) prog \<Rightarrow> ('w, unit) prog" where
  "ignore m = bindM m (\<lambda>_. ret ())"

fun run_call :: "Config \<Rightarrow> 's s3api \<Rightarrow> fcall \<Rightarrow> (('s, 'z) samogonStorage_scheme, unit) prog" where
  "run_call cfg cli (CPiece idx len h) = uncaught (pieceFn idx len h)"
| "run_call cfg cli (CWrite idx b off) = uncaught (ignore (piece_WriteAt cfg idx b off))"
| "run_call cfg cli (CRead idx n off) = uncaught (ignore (piece_ReadAt cfg cli idx n off))"
| "run_call cfg cli (CComplete idx) = uncaught (ignore (MarkComplete cfg cli idx))"
| "run_call cfg cli (CNotComplete idx) = uncaught (ignore (MarkNotComplete idx))"
| "run_call cfg cli (CCompletion idx) = uncaught (ignore (Completion idx))"

text \<open>What the rest of the world does in one run.\<close>

record fetchenv =
  fe_stdin :: "goerr + bytes"
  fe_mkdir :: "goerr option"
  fe_client :: "goerr option"
  fe_add :: "goerr option"
  fe_calls :: "fcall list"
  fe_waited :: bool

definition newSamogonStorage :: "Config \<Rightarrow> string set \<Rightarrow> (('s, 'z) samogonStorage_scheme, unit) prog" where
  "newSamogonStorage cfg known =
     (if UpSem cfg < 0 \<or> InflightPieces cfg < 0 then panic (PRuntime ''makechan: size out of range'')
      else modifyM (\<lambda>w. w\<lparr>fw_known := known, fw_states := Map.empty, fw_tokens := 0\<rparr>))"

definition runFetch ::
  "Config \<Rightarrow> 's s3api \<Rightarrow> metalib \<Rightarrow> fetchenv \<Rightarrow> (('s, 'z) samogonStorage_scheme, unit) prog" where
  "runFetch cfg cli lib env =
     bindM (ThrowE (fe_stdin env)) (\<lambda>raw.
     if raw = [] then ThrowFmt ''fetch: empty stdin -- pipe .torrent bytes in'' []
     else
     bindM (ThrowE (Load lib raw)) (\<lambda>mi.
     bindM (ThrowE (UnmarshalInfo lib mi)) (\<lambda>info.
     let infohash = hex_EncodeToString (HashInfoBytes lib mi) in
     bindM (Stat cfg cli (KeyTorrent cfg infohash)) (\<lambda>there.
     if there then ret ()
     else
     bindM (Throw (fe_mkdir env)) (\<lambda>_.
     bindM (Try (ListPieces cfg cli)) (\<lambda>lsExc.
     let known = (case lsExc of Inl _ \<Rightarrow> {} | Inr ks \<Rightarrow> ks) in
     bindM (newSamogonStorage cfg known) (\<lambda>_.
     bindM (Throw (fe_client env)) (\<lambda>_.
     bindM (Throw (fe_add env)) (\<lambda>_.
     bindM (forM (fe_calls env) (run_call cfg cli)) (\<lambda>_.
     if \<not> fe_waited env then
       ThrowFmt ''fetch: client.WaitAll returned false (torrent %s)'' [AStr infohash]
     else PutBytes cfg cli (KeyTorrent cfg infohash) raw))))))))))"

section \<open>One operation at a time\<close>



lemma overwrite_all: "length b = length dst \<Longrightarrow> overwrite dst 0 b = b"
  by (simp add: overwrite_def)

lemma pieceOf_run: "fw_states w idx = Some ps \<Longrightarrow> pieceOf idx w = (Ret ps, w)"
  by (simp add: pieceOf_def ret_run)

lemma pieceOf_missing: "fw_states w idx = None \<Longrightarrow>
    pieceOf idx w = (Panicked (PRuntime ''nil pointer dereference''), w)"
  by (simp add: pieceOf_def panic_run)

lemma setPiece_run: "fw_states w idx = Some ps \<Longrightarrow>
    setPiece idx f w = (Ret (), w\<lparr>fw_states := (fw_states w)(idx \<mapsto> f ps)\<rparr>)"
  by (simp add: setPiece_def modifyM_run)






lemma PutBytes_fw: "PutBytes cfg cli k d w = (r, w1) \<Longrightarrow> fw_states w1 = fw_states w \<and> fw_tokens w1 = fw_tokens w \<and> fw_known w1 = fw_known w"
  by (auto simp: PutBytes_def bindM_def call_def outcome_simps split: option.splits prod.splits)

lemma MarkComplete_run:
  assumes "fw_states w idx = Some ps" and "0 < UpSem cfg" and "ps_buf ps \<noteq> None \<Longrightarrow> 0 < fw_tokens w"
    and "PutBytes cfg cli (KeyPiece cfg (ps_hash ps)) (case ps_buf ps of None \<Rightarrow> [] | Some d \<Rightarrow> d) w = (Ret u, w1)"
  shows "MarkComplete cfg cli idx w = (Ret None,
    w1\<lparr>fw_states := (fw_states w)(idx \<mapsto> ps\<lparr>ps_complete := True, ps_buf := None\<rparr>),
       fw_tokens := fw_tokens w - (if ps_buf ps = None then 0 else 1)\<rparr>)"
proof -
  note same = PutBytes_fw [OF assms(4)]
  have p1: "pieceOf idx w1 = (Ret ps, w1)" using assms(1) same by (simp add: pieceOf_run)
  show ?thesis using assms p1 same
    by (auto simp: MarkComplete_def runCatch_def bindM_def pieceOf_run setPiece_run ret_run Let_def Try_def
        releaseBuf_def getM_def modifyM_run)
qed

lemma MarkComplete_fails:
  assumes "fw_states w idx = Some ps" and "0 < UpSem cfg"
    and "PutBytes cfg cli (KeyPiece cfg (ps_hash ps)) (case ps_buf ps of None \<Rightarrow> [] | Some d \<Rightarrow> d) w
      = (Panicked (PException e), w1)"
  shows "MarkComplete cfg cli idx w = (Ret (Some (Unwrap e)), w1)"
  using assms by (simp add: MarkComplete_def runCatch_def bindM_def pieceOf_run ret_run Let_def Try_def)














text \<open>A store with one piece of four bytes that nothing is known about yet.\<close>

definition fetch0 :: "mem samogonStorage" where
  "fetch0 = \<lparr>w_s3 = mem_of [], w_puts = 0, fw_known = {},
     fw_states = [0 \<mapsto> \<lparr>ps_hash = ''p0'', ps_length = 4, ps_buf = None, ps_complete = False\<rparr>], fw_tokens = 0\<rparr>"


text \<open>
  Marking a piece complete that holds no buffer overwrites its object with an empty one,
  also when the store has the right bytes: nothing checks that there is a buffer.
\<close>

theorem MarkComplete_no_buffer:
  assumes "s3_laws cli objs" and "fw_states w idx = Some ps" and "ps_buf ps = None" and "0 < UpSem cfg"
    and "MarkComplete cfg cli idx w = (Ret None, w')"
  shows "objs (w_s3 w') (S3Bucket cfg) (KeyPiece cfg (ps_hash ps)) = Some []"
proof -
  let ?put = "PutBytes cfg cli (KeyPiece cfg (ps_hash ps)) (case ps_buf ps of None \<Rightarrow> [] | Some d \<Rightarrow> d)"
  obtain r w1 where pb: "?put w = (r, w1)" by fastforce
  show ?thesis
  proof (cases r)
    case (Ret u)
    with MarkComplete_run [OF assms(2,4) _ pb [unfolded Ret]] assms(3,5) PutBytes_law [OF assms(1) pb]
    show ?thesis by (auto simp: upd2_def)
  next
    case (Panicked p)
    then show ?thesis using assms(2-5) pb
      by (cases p) (simp_all add: MarkComplete_def runCatch_def bindM_def pieceOf_run ret_run Let_def Try_def)
  next
    case Blocked
    then show ?thesis using assms(2-5) pb
      by (simp add: MarkComplete_def runCatch_def bindM_def pieceOf_run ret_run Let_def Try_def)
  qed
qed

theorem MarkComplete_no_buffer_witness:
  "\<exists>w'. MarkComplete cfg0 mem_s3 0 (fetch0\<lparr>w_s3 := mem_of [(''t/pieces/p0'', [1, 2, 3, 4])]\<rparr>) = (Ret None, w')
    \<and> mem_view (w_s3 w') ''b'' ''t/pieces/p0'' = Some []"
proof -
  let ?w = "fetch0\<lparr>w_s3 := mem_of [(''t/pieces/p0'', [1, 2, 3, 4])]\<rparr>"
  let ?ps = "\<lparr>ps_hash = ''p0'', ps_length = 4, ps_buf = None, ps_complete = False\<rparr>"
  have st: "fw_states ?w 0 = Some ?ps" by (simp add: fetch0_def)
  have up: "mem_up (w_s3 ?w)" by simp
  obtain w1 where "PutBytes cfg0 mem_s3 (KeyPiece cfg0 (ps_hash ?ps)) [] ?w = (Ret (), w1)"
    using PutBytes_up [OF mem_is_up up, of cfg0 "KeyPiece cfg0 (ps_hash ?ps)" "[]"] by blast
  then obtain w' where m: "MarkComplete cfg0 mem_s3 0 ?w = (Ret None, w')"
    using MarkComplete_run [OF st, of cfg0 mem_s3 "()" w1] by auto
  from MarkComplete_no_buffer [OF mem_laws st _ _ m] m show ?thesis by (auto simp: KeyPiece_def)
qed

section \<open>The torrent is published last\<close>

text \<open>
  What makes a piece count as complete: it is stored. \<open>flat\<close> says that the objects
  under the piece prefix are named by hashes, with nothing below them.
\<close>

definition flat :: "Config \<Rightarrow> (string \<Rightarrow> bytes option) \<Rightarrow> bool" where
  "flat cfg f \<longleftrightarrow> (\<forall>k. prefix (PrefixPieces cfg) k \<and> f k \<noteq> None \<longrightarrow>
     (\<exists>h. h \<noteq> '''' \<and> CHR ''/'' \<notin> set h \<and> k = KeyPiece cfg h))"

lemma flat_iff: "flat cfg f \<longleftrightarrow> (\<forall>h. f (KeyPiece cfg h) \<noteq> None \<longrightarrow> h \<noteq> '''' \<and> CHR ''/'' \<notin> set h)"
proof
  assume l: "flat cfg f"
  show "\<forall>h. f (KeyPiece cfg h) \<noteq> None \<longrightarrow> h \<noteq> '''' \<and> CHR ''/'' \<notin> set h"
  proof (intro allI impI)
    fix h assume "f (KeyPiece cfg h) \<noteq> None"
    with l have "\<exists>h'. h' \<noteq> '''' \<and> CHR ''/'' \<notin> set h' \<and> KeyPiece cfg h = KeyPiece cfg h'"
      unfolding flat_def prefix_KeyPiece by blast
    then show "h \<noteq> '''' \<and> CHR ''/'' \<notin> set h" by simp
  qed
qed (auto simp: flat_def prefix_KeyPiece)

definition backed :: "Config \<Rightarrow> 's view \<Rightarrow> ('s, 'z) samogonStorage_scheme \<Rightarrow> bool" where
  "backed cfg objs w \<longleftrightarrow>
     (\<forall>h\<in>fw_known w. objs (w_s3 w) (S3Bucket cfg) (KeyPiece cfg h) \<noteq> None)
     \<and> (\<forall>i ps. fw_states w i = Some ps \<and> ps_complete ps \<longrightarrow>
          objs (w_s3 w) (S3Bucket cfg) (KeyPiece cfg (ps_hash ps)) \<noteq> None)"

text \<open>No torrent is published, and nothing that was stored is lost.\<close>

definition unpublished :: "Config \<Rightarrow> 's view \<Rightarrow> (string \<Rightarrow> bytes option) \<Rightarrow> ('s, 'z) samogonStorage_scheme \<Rightarrow> bool" where
  "unpublished cfg objs f w \<longleftrightarrow>
     (\<forall>h. objs (w_s3 w) (S3Bucket cfg) (KeyTorrent cfg h) = f (KeyTorrent cfg h))
     \<and> (\<forall>k. f k \<noteq> None \<longrightarrow> objs (w_s3 w) (S3Bucket cfg) k \<noteq> None)"

definition fetching :: "Config \<Rightarrow> 's view \<Rightarrow> (string \<Rightarrow> bytes option) \<Rightarrow> ('s, 'z) samogonStorage_scheme \<Rightarrow> bool" where
  "fetching cfg objs f w \<longleftrightarrow> backed cfg objs w \<and> unpublished cfg objs f w"

lemma fetching_tokens [simp]: "fetching cfg objs f (fw_tokens_update g w) = fetching cfg objs f w"
  by (simp add: fetching_def backed_def unpublished_def)

lemma keeps_fetching_Cat: "s3_laws cli objs \<Longrightarrow> keeps (fetching cfg objs f) (Cat cfg cli k)"
proof (rule keepsI)
  fix w r w' assume "s3_laws cli objs" "fetching cfg objs f w" "Cat cfg cli k w = (r, w')"
  with Cat_law [OF this(1,3)] Cat_frame [OF this(3)] show "fetching cfg objs f w'"
    by (auto simp: fetching_def backed_def unpublished_def)
qed

lemma keeps_fetching_PutBytes:
  "s3_laws cli objs \<Longrightarrow> keeps (fetching cfg objs f) (PutBytes cfg cli (KeyPiece cfg h) d)"
proof (rule keepsI)
  fix w r w'
  assume a: "s3_laws cli objs" "fetching cfg objs f w" "PutBytes cfg cli (KeyPiece cfg h) d w = (r, w')"
  from PutBytes_law [OF a(1,3)] have
    "objs (w_s3 w') (S3Bucket cfg) = (objs (w_s3 w) (S3Bucket cfg))(KeyPiece cfg h \<mapsto> d)
      \<or> objs (w_s3 w') (S3Bucket cfg) = objs (w_s3 w) (S3Bucket cfg)" by (auto simp: upd2_def)
  with a(2) PutBytes_fw [OF a(3)] show "fetching cfg objs f w'"
    by (elim disjE) (auto simp: fetching_def backed_def unpublished_def)
qed

lemma keeps_setPiece:
  assumes "\<And>ps. ps_hash (g ps) = ps_hash ps" and "\<And>ps. ps_complete (g ps) \<Longrightarrow> ps_complete ps"
  shows "keeps (fetching cfg objs f) (setPiece idx g)"
  unfolding setPiece_def
  by (rule keeps_modifyM) (use assms in \<open>auto simp: fetching_def backed_def unpublished_def split: if_splits\<close>)

lemma keeps_tokens:
  "keeps (fetching cfg objs f) (acquireBuf cfg')" "keeps (fetching cfg objs f) releaseBuf"
  "keeps (fetching cfg objs f) (pieceOf idx)"
  by (auto simp: acquireBuf_def releaseBuf_def pieceOf_def split: option.split intro!: keeps_intros keeps_modifyM)

lemma keeps_stateFor: "keeps (fetching cfg objs f) (stateFor idx hash len)"
  unfolding stateFor_def
  by (rule keeps_modifyM) (auto simp: fetching_def backed_def unpublished_def split: option.split)

lemma keeps_read_from: "keeps I (read_from d n off)"
  by (auto simp: read_from_def intro!: keeps_intros)

lemma PutBytes_stored:
  "s3_laws cli objs \<Longrightarrow> PutBytes cfg cli k d w = (Ret u, w1) \<Longrightarrow> objs (w_s3 w1) (S3Bucket cfg) k = Some d"
  using PutBytes_law by (fastforce simp: upd2_def)

lemma keeps_fetching_complete:
  assumes "fetching cfg objs f w" and "fw_states w idx = Some ps"
    and "objs (w_s3 w) (S3Bucket cfg) (KeyPiece cfg (ps_hash ps)) \<noteq> None"
  shows "fetching cfg objs f (w\<lparr>fw_states := (fw_states w)(idx \<mapsto> ps\<lparr>ps_complete := True, ps_buf := b\<rparr>)\<rparr>)"
  using assms by (auto simp: fetching_def backed_def unpublished_def)

lemma keeps_MarkComplete:
  assumes laws: "s3_laws cli objs"
  shows "keeps (fetching cfg objs f) (MarkComplete cfg cli idx)"
proof (rule keepsI)
  fix w r w' assume fw: "fetching cfg objs f w" and run: "MarkComplete cfg cli idx w = (r, w')"
  show "fetching cfg objs f w'"
  proof (cases "fw_states w idx")
    case None
    with run fw show ?thesis
      by (simp add: MarkComplete_def bindM_def pieceOf_missing)
  next
    case (Some ps)
    let ?d = "case ps_buf ps of None \<Rightarrow> [] | Some d \<Rightarrow> d"
    obtain q w1 where pb: "PutBytes cfg cli (KeyPiece cfg (ps_hash ps)) ?d w = (q, w1)" by fastforce
    have f1: "fetching cfg objs f w1" by (rule keepsD [OF keeps_fetching_PutBytes [OF laws] fw pb])
    have st1: "fw_states w1 idx = Some ps" using PutBytes_fw [OF pb] Some by simp
    let ?tail = "bindM (pieceOf idx) (\<lambda>st. let freed = (ps_buf st \<noteq> None) in
       bindM (setPiece idx (\<lambda>ps. ps\<lparr>ps_complete := True, ps_buf := None\<rparr>)) (\<lambda>_. if freed then releaseBuf else ret ()))"
    show ?thesis
    proof (cases "q = Ret () \<and> 0 < UpSem cfg")
      case True
      then have stored: "objs (w_s3 w1) (S3Bucket cfg) (KeyPiece cfg (ps_hash ps)) \<noteq> None"
        using PutBytes_stored [OF laws, of cfg "KeyPiece cfg (ps_hash ps)" ?d w "()" w1] pb by simp
      let ?w2 = "w1\<lparr>fw_states := (fw_states w1)(idx \<mapsto> ps\<lparr>ps_complete := True, ps_buf := None\<rparr>)\<rparr>"
      have f2: "fetching cfg objs f ?w2" by (rule keeps_fetching_complete [OF f1 st1 stored])
      obtain q3 w3 where rel: "(if ps_buf ps \<noteq> None then releaseBuf else ret ()) ?w2 = (q3, w3)" by fastforce
      have "keeps (fetching cfg objs f) (if ps_buf ps \<noteq> None then releaseBuf else ret ())"
        by (intro keeps_intros keeps_tokens)
      then have f3: "fetching cfg objs f w3" using f2 rel by (rule keepsD)
      have tail: "?tail w1 = (q3, w3)"
        using st1 rel by (simp add: bindM_def pieceOf_run setPiece_run Let_def)
      have "w' = w3"
        using run True Some pb tail
        by (cases q3; simp add: MarkComplete_def runCatch_def bindM_def pieceOf_run Let_def Try_def ret_run split: panicval.splits)
      with f3 show ?thesis by simp
    next
      case False
      then have "w' = w1 \<or> w' = w" using run Some pb
        by (cases q) (auto simp: MarkComplete_def runCatch_def bindM_def pieceOf_run Let_def Try_def ret_run block_run
            split: panicval.splits if_splits)
      with fw f1 show ?thesis by auto
    qed
  qed
qed

lemma keeps_Completion: "keeps (fetching cfg objs f) (Completion idx)"
proof (rule keepsI)
  fix w r w' assume fw: "fetching cfg objs f w" and run: "Completion idx w = (r, w')"
  show "fetching cfg objs f w'"
  proof (cases "fw_states w idx")
    case None
    with run fw show ?thesis by (simp add: Completion_def bindM_def pieceOf_missing)
  next
    case (Some ps)
    show ?thesis
    proof (cases "\<not> ps_complete ps \<and> ps_hash ps \<in> fw_known w")
      case True
      with fw have "objs (w_s3 w) (S3Bucket cfg) (KeyPiece cfg (ps_hash ps)) \<noteq> None"
        by (auto simp: fetching_def backed_def)
      from keeps_fetching_complete [OF fw Some this, of "ps_buf ps"] run True Some show ?thesis
        by (auto simp: Completion_def bindM_def pieceOf_run setPiece_run ret_run getM_run)
    next
      case False
      with run Some fw show ?thesis
        by (auto simp: Completion_def bindM_def pieceOf_run ret_run getM_run split: if_splits)
    qed
  qed
qed

lemma keeps_run_call:
  assumes "s3_laws cli objs"
  shows "keeps (fetching cfg objs f) (run_call cfg cli c)"
proof (cases c)
  case (CPiece i l h)
  then show ?thesis
    by (auto simp: pieceFn_def split: option.split intro!: keeps_intros keeps_stateFor)
next
  case (CWrite i b off)
  have "keeps (fetching cfg objs f) (piece_WriteAt cfg i b off)"
    unfolding piece_WriteAt_def Let_def
    by (intro keeps_intros keeps_tokens keeps_setPiece) simp_all
  with CWrite show ?thesis by (auto simp: ignore_def intro!: keeps_intros)
next
  case (CRead i n off)
  have "keeps (fetching cfg objs f) (piece_ReadAt cfg cli i n off)"
    unfolding piece_ReadAt_def
    by (rule keeps_bindM [OF keeps_tokens(3)])
      (auto split: option.split intro!: keeps_intros keeps_read_from keeps_fetching_Cat [OF assms])
  with CRead show ?thesis by (auto simp: ignore_def intro!: keeps_intros)
next
  case (CComplete i)
  then show ?thesis by (auto simp: ignore_def intro!: keeps_intros keeps_MarkComplete [OF assms])
next
  case (CNotComplete i)
  have "keeps (fetching cfg objs f) (MarkNotComplete i)"
    unfolding MarkNotComplete_def Let_def
    by (intro keeps_intros keeps_tokens keeps_setPiece) simp_all
  with CNotComplete show ?thesis by (auto simp: ignore_def intro!: keeps_intros)
next
  case (CCompletion i)
  then show ?thesis by (auto simp: ignore_def intro!: keeps_intros keeps_Completion)
qed

lemma ListPieces_known:
  assumes "s3_laws cli objs" and "flat cfg (objs (w_s3 w) (S3Bucket cfg))"
    and "Try (ListPieces cfg cli) w = (Ret r, w')"
  shows "\<exists>s'. w' = w\<lparr>w_s3 := s'\<rparr> \<and> objs s' = objs (w_s3 w)
    \<and> (\<forall>ks. r = Inr ks \<longrightarrow> (\<forall>h\<in>ks. objs (w_s3 w) (S3Bucket cfg) (KeyPiece cfg h) \<noteq> None))"
proof -
  obtain rl w1 where l: "List cfg cli (PrefixPieces cfg) w = (rl, w1)" by fastforce
  obtain s' where w1: "w1 = w\<lparr>w_s3 := s'\<rparr>" using List_frame [OF l] by blast
  have same: "objs s' = objs (w_s3 w)" using List_law(1) [OF assms(1) l] w1 by simp
  show ?thesis
  proof (cases "\<exists>keys. rl = Ret keys")
    case True
    then obtain keys where keys: "rl = Ret keys" by blast
    have lp: "w' = w1" "r = Inr (set (map path_Base keys))"
      using assms(3) l keys by (auto simp: ListPieces_def bindM_def Try_def ret_run)
    have "objs (w_s3 w) (S3Bucket cfg) (KeyPiece cfg h) \<noteq> None" if h: "h \<in> path_Base ` set keys" for h
    proof -
      obtain k where k: "h = path_Base k" "k \<in> set keys" using h by blast
      with List_law(2) [OF assms(1) l keys k(2)] have
        "prefix (PrefixPieces cfg) k" "objs (w_s3 w) (S3Bucket cfg) k \<noteq> None" by simp_all
      with assms(2) k(1) show ?thesis by (force simp: flat_def path_Base_KeyPiece)
    qed
    with lp w1 same show ?thesis by auto
  next
    case False
    with List_outcome [OF l] obtain e where "rl = Panicked (PException e)" by blast
    then have "w' = w1" "r = Inl e"
      using assms(3) l by (simp_all add: ListPieces_def bindM_def Try_def)
    with w1 same show ?thesis by auto
  qed
qed

text \<open>The phases before the client's calls: a run that ends in one of them leaves the objects as they were.\<close>

lemma fetch_prologue:
  fixes w :: "('s, 'z) samogonStorage_scheme"
  assumes "s3_laws cli objs" and "flat cfg (objs (w_s3 w) (S3Bucket cfg))"
    and run: "runFetch cfg cli lib env w = (r, w')" and inp: "Load lib raw = Inr mi" "fe_stdin env = Inr raw"
    and ih: "ih = hex_EncodeToString (HashInfoBytes lib mi)"
  shows "objs (w_s3 w') = objs (w_s3 w) \<or> (\<exists>info (w3 :: ('s, 'z) samogonStorage_scheme). UnmarshalInfo lib mi = Inr info
    \<and> objs (w_s3 w3) = objs (w_s3 w) \<and> fw_states w3 = Map.empty \<and> fetching cfg objs (objs (w_s3 w) (S3Bucket cfg)) w3
    \<and> bindM (forM (fe_calls env) (run_call cfg cli)) (\<lambda>_. if \<not> fe_waited env then
          ThrowFmt ''fetch: client.WaitAll returned false (torrent %s)'' [AStr ih]
        else PutBytes cfg cli (KeyTorrent cfg ih) raw) w3 = (r, w'))"
proof (rule disj_imp [THEN iffD2], rule impI)
  assume gone: "objs (w_s3 w') \<noteq> objs (w_s3 w)"
  let ?f = "objs (w_s3 w) (S3Bucket cfg)"
  have raw: "raw \<noteq> []" using run inp gone by (auto simp: runFetch_def bindM_def ThrowE_run ThrowFmt_run)
  obtain info where info: "UnmarshalInfo lib mi = Inr info"
    using run inp raw gone by (cases "UnmarshalInfo lib mi") (auto simp: runFetch_def bindM_def ThrowE_run)
  obtain there w1 where st: "Stat cfg cli (KeyTorrent cfg ih) w = (Ret there, w1)"
    using Stat_law [OF assms(1)] by (metis prod.collapse)
  have o1: "objs (w_s3 w1) = objs (w_s3 w)" using Stat_law [OF assms(1) st] by simp
  have nt: "\<not> there"
    using run inp raw info st o1 gone by (auto simp: runFetch_def bindM_def ThrowE_run Let_def ret_run ih)
  have mk: "fe_mkdir env = None"
    using run inp raw info st o1 gone nt
    by (cases "fe_mkdir env") (auto simp: runFetch_def bindM_def ThrowE_run Let_def Throw_run ih)
  obtain ls w2 where lp: "Try (ListPieces cfg cli) w1 = (Ret ls, w2)"
  proof -
    obtain rl wl where l: "List cfg cli (PrefixPieces cfg) w1 = (rl, wl)" by fastforce
    from List_outcome [OF l] l that show ?thesis
      by (auto simp: ListPieces_def bindM_def Try_def ret_run)
  qed
  have flat1: "flat cfg (objs (w_s3 w1) (S3Bucket cfg))" using assms(2) o1 by simp
  from ListPieces_known [OF assms(1) flat1 lp] o1 obtain s2 where
    w2: "w2 = w1\<lparr>w_s3 := s2\<rparr>" "objs s2 = objs (w_s3 w)"
      "\<forall>ks. ls = Inr ks \<longrightarrow> (\<forall>h\<in>ks. ?f (KeyPiece cfg h) \<noteq> None)" by auto
  let ?known = "case ls of Inl _ \<Rightarrow> {} | Inr ks \<Rightarrow> ks"
  let ?w3 = "w2\<lparr>fw_known := ?known, fw_states := Map.empty, fw_tokens := 0\<rparr>"
  have cap: "\<not> (UpSem cfg < 0 \<or> InflightPieces cfg < 0)"
    using run inp raw info st nt mk lp w2 gone
    by (auto simp: runFetch_def bindM_def ThrowE_run Let_def Throw_run newSamogonStorage_def panic_run ih)
  then have new: "newSamogonStorage cfg ?known w2 = (Ret (), ?w3)" by (simp add: newSamogonStorage_def modifyM_run)
  have cl: "fe_client env = None \<and> fe_add env = None"
    using run inp raw info st nt mk lp new w2 gone
    by (cases "fe_client env"; cases "fe_add env") (auto simp: runFetch_def bindM_def ThrowE_run Let_def Throw_run ih)
  have "fetching cfg objs ?f ?w3"
    using w2 by (auto simp: fetching_def backed_def unpublished_def split: sum.splits)
  moreover have "bindM (forM (fe_calls env) (run_call cfg cli)) (\<lambda>_. if \<not> fe_waited env then
        ThrowFmt ''fetch: client.WaitAll returned false (torrent %s)'' [AStr ih]
      else PutBytes cfg cli (KeyTorrent cfg ih) raw) ?w3 = (r, w')"
    using run inp raw info st nt mk lp new cl unfolding ih by (simp add: runFetch_def bindM_def ThrowE_run Let_def Throw_run)
  moreover have "objs (w_s3 ?w3) = objs (w_s3 w)" "fw_states ?w3 = Map.empty" using w2 by simp_all
  ultimately show "\<exists>info (w3 :: ('s, 'z) samogonStorage_scheme). UnmarshalInfo lib mi = Inr info
    \<and> objs (w_s3 w3) = objs (w_s3 w) \<and> fw_states w3 = Map.empty \<and> fetching cfg objs ?f w3
    \<and> bindM (forM (fe_calls env) (run_call cfg cli)) (\<lambda>_. if \<not> fe_waited env then
          ThrowFmt ''fetch: client.WaitAll returned false (torrent %s)'' [AStr ih]
        else PutBytes cfg cli (KeyTorrent cfg ih) raw) w3 = (r, w')" using info by blast
qed

text \<open>
  A run that publishes a torrent went through all its phases: the calls of the client started from an empty
  piece store, all returned, \<open>WaitAll\<close> said yes, and the last step wrote the bytes read from standard input.
\<close>

lemma fetch_published:
  fixes w :: "('s, 'z) samogonStorage_scheme"
  assumes "s3_laws cli objs" and "flat cfg (objs (w_s3 w) (S3Bucket cfg))"
    and "runFetch cfg cli lib env w = (r, w')"
    and "Load lib raw = Inr mi" and "fe_stdin env = Inr raw"
    and "key = KeyTorrent cfg (hex_EncodeToString (HashInfoBytes lib mi))"
    and "objs (w_s3 w) (S3Bucket cfg) key = None" and "objs (w_s3 w') (S3Bucket cfg) key \<noteq> None"
  shows "\<exists>info (w3 :: ('s, 'z) samogonStorage_scheme) w4. UnmarshalInfo lib mi = Inr info \<and> objs (w_s3 w3) = objs (w_s3 w) \<and> fw_states w3 = Map.empty
    \<and> forM (fe_calls env) (run_call cfg cli) w3 = (Ret (), w4) \<and> fetching cfg objs (objs (w_s3 w) (S3Bucket cfg)) w4
    \<and> fe_waited env \<and> fw_states w' = fw_states w4
    \<and> objs (w_s3 w') (S3Bucket cfg) = (objs (w_s3 w4) (S3Bucket cfg))(key \<mapsto> raw)"
proof -
  let ?f = "objs (w_s3 w) (S3Bucket cfg)"
  from fetch_prologue [OF assms(1-5) refl, folded assms(6)] assms(7,8)
  obtain info and w3 :: "('s, 'z) samogonStorage_scheme" where info: "UnmarshalInfo lib mi = Inr info" "objs (w_s3 w3) = objs (w_s3 w)"
      "fw_states w3 = Map.empty" and f3: "fetching cfg objs ?f w3"
    and rest: "bindM (forM (fe_calls env) (run_call cfg cli)) (\<lambda>_. if \<not> fe_waited env then
        ThrowFmt ''fetch: client.WaitAll returned false (torrent %s)'' [AStr (hex_EncodeToString (HashInfoBytes lib mi))]
      else PutBytes cfg cli key raw) w3 = (r, w')" by auto
  obtain q w4 where calls: "forM (fe_calls env) (run_call cfg cli) w3 = (q, w4)" by fastforce
  have f4: "fetching cfg objs ?f w4"
    by (rule keepsD [OF keeps_forM [OF keeps_run_call [OF assms(1)]] f3 calls])
  have gone: "unpublished cfg objs ?f w' \<Longrightarrow> False" using assms(7,8) by (simp add: unpublished_def assms(6))
  have q: "q = Ret ()" "fe_waited env"
    using rest calls f4 gone
    by (cases q; cases "fe_waited env"; auto simp: bindM_def fetching_def ThrowFmt_run)+
  have pb: "PutBytes cfg cli key raw w4 = (r, w')" using rest calls q by (simp add: bindM_def)
  have "objs (w_s3 w') (S3Bucket cfg) = (objs (w_s3 w4) (S3Bucket cfg))(key \<mapsto> raw)"
    using PutBytes_law [OF assms(1) pb] f4 gone by (auto simp: upd2_def assms(6) fetching_def unpublished_def)
  moreover have "fw_states w' = fw_states w4" using PutBytes_fw [OF pb] by simp
  ultimately show ?thesis using info calls q f4 by blast
qed

text \<open>
  C5: the torrent is published last. Whatever the service and the client do, and whatever
  part of the run fails: if the object of the torrent's infohash was not there
  before \<open>runFetch\<close> and is there afterwards, then it holds the bytes read from standard
  input, and the object of every piece that the client has to report complete before
  \<open>WaitAll\<close> says so is stored. Nothing that was stored is lost.
\<close>

theorem fetch_commits_last:
  fixes w :: "('s, 'z) samogonStorage_scheme"
  assumes "s3_laws cli objs" and "flat cfg (objs (w_s3 w) (S3Bucket cfg))"
    and "runFetch cfg cli lib env w = (r, w')"
    and "Load lib raw = Inr mi" and "fe_stdin env = Inr raw"
    and "key = KeyTorrent cfg (hex_EncodeToString (HashInfoBytes lib mi))"
    and "objs (w_s3 w) (S3Bucket cfg) key = None" and "objs (w_s3 w') (S3Bucket cfg) key \<noteq> None"
    and "fe_waited env \<longrightarrow> (\<forall>i\<in>pieces.
          \<exists>ps. fw_states w' i = Some ps \<and> ps_hash ps = hash i \<and> ps_complete ps)"
  shows "objs (w_s3 w') (S3Bucket cfg) key = Some raw
    \<and> (\<forall>i\<in>pieces. objs (w_s3 w') (S3Bucket cfg) (KeyPiece cfg (hash i)) \<noteq> None)
    \<and> (\<forall>k. objs (w_s3 w) (S3Bucket cfg) k \<noteq> None \<longrightarrow> objs (w_s3 w') (S3Bucket cfg) k \<noteq> None)"
proof -
  from fetch_published [OF assms(1-8)] obtain w4 :: "('s, 'z) samogonStorage_scheme" where
    w4: "fetching cfg objs (objs (w_s3 w) (S3Bucket cfg)) w4" "fe_waited env" "fw_states w' = fw_states w4"
      "objs (w_s3 w') (S3Bucket cfg) = (objs (w_s3 w4) (S3Bucket cfg))(key \<mapsto> raw)" by blast
  have "objs (w_s3 w4) (S3Bucket cfg) (KeyPiece cfg (hash i)) \<noteq> None" if "i \<in> pieces" for i
    using assms(9) w4(1-3) that unfolding fetching_def backed_def by metis
  with w4(1,4) show ?thesis by (simp add: fetching_def unpublished_def assms(6))
qed

text \<open>A run that downloads the first piece of a small torrent.\<close>

definition env0 :: fetchenv where
  "env0 = \<lparr>fe_stdin = Inr tor_a, fe_mkdir = None, fe_client = None, fe_add = None,
     fe_calls = [CPiece 0 2 (Some [171]), CCompletion 0, CWrite 0 [5] 1, CRead 0 2 0, CComplete 0, CCompletion 0],
     fe_waited = True\<rparr>"

definition start0 :: "mem samogonStorage" where
  "start0 = \<lparr>w_s3 = mem_of [], w_puts = 0, fw_known = {}, fw_states = Map.empty, fw_tokens = 0\<rparr>"

lemma fetch_run0:
  "case runFetch cfg0 mem_s3 lib0 env0 start0 of (r, w') \<Rightarrow> r = Ret ()
    \<and> mem_view (w_s3 w') ''b'' (KeyTorrent cfg0 (hex_EncodeToString (pad20 tor_a))) \<noteq> None
    \<and> (case fw_states w' 0 of Some ps \<Rightarrow> ps_hash ps = ''ab'' \<and> ps_complete ps | None \<Rightarrow> False)"
  by code_simp

theorem fetch_commits_last_witness:
  "\<exists>w'. runFetch cfg0 mem_s3 lib0 env0 start0 = (Ret (), w')
    \<and> mem_view (w_s3 w') ''b'' (KeyTorrent cfg0 (hex_EncodeToString (pad20 tor_a))) = Some tor_a
    \<and> mem_view (w_s3 w') ''b'' (KeyPiece cfg0 ''ab'') \<noteq> None"
proof -
  obtain w' where run: "runFetch cfg0 mem_s3 lib0 env0 start0 = (Ret (), w')"
    and there: "mem_view (w_s3 w') (S3Bucket cfg0) (KeyTorrent cfg0 (hex_EncodeToString (pad20 tor_a))) \<noteq> None"
    and ps: "\<exists>ps. fw_states w' 0 = Some ps \<and> ps_hash ps = ''ab'' \<and> ps_complete ps"
    using fetch_run0 by (auto split: prod.splits option.splits)
  have empty: "mem_view (w_s3 start0) b k = None" for b k
    by (simp add: start0_def mem_view_def mem_of_def)
  have load: "Load lib0 tor_a = Inr \<lparr>mi_InfoBytes = tor_a, mi_Other = []\<rparr>" by (simp add: lib0_def tor_a_def)
  have h: "HashInfoBytes lib0 \<lparr>mi_InfoBytes = tor_a, mi_Other = []\<rparr> = pad20 tor_a" by (simp add: lib0_def)
  have fl: "flat cfg0 (mem_view (w_s3 start0) (S3Bucket cfg0))" by (simp add: flat_def empty)
  have inp: "fe_stdin env0 = Inr tor_a" by (simp add: env0_def)
  have fin: "fe_waited env0 \<longrightarrow> (\<forall>i\<in>{0}. \<exists>ps. fw_states w' i = Some ps \<and> ps_hash ps = ''ab'' \<and> ps_complete ps)"
    using ps by simp
  from fetch_commits_last [OF mem_laws fl run load inp refl empty _ fin] run there show ?thesis
    by (auto simp: h)
qed

end
