(* ===== verification/Slots.thy ===== *)
theory Slots
  imports Fetch Steps
begin

text \<open>
  The piece store of \<^verbatim>\<open>fetch.go\<close> under concurrent calls: every lock section and every
  channel operation of \<open>WriteAt\<close>, \<open>MarkComplete\<close> and \<open>MarkNotComplete\<close> is one step, and
  steps of different goroutines interleave freely.

  The theorems are about the two semaphores: a token of \<open>bufSem\<close> belongs to exactly one
  buffer or to one goroutine on its way, so the number of buffers in memory is bounded;
  giving a token back never blocks; and goroutines are stuck only while all slots are taken
  by buffers of pieces that are not finished.
\<close>

section \<open>Goroutines and the shared state\<close>

text \<open>Where a goroutine stands between two steps.\<close>

datatype fthread =
    Wait int
  | Hold int
  | Up int "bytes option"
  | Put int "bytes option"
  | Free bool
  | Drop

record fsys =
  fs_bufs :: "int \<Rightarrow> bytes option"
  fs_complete :: "int \<Rightarrow> bool"
  fs_blob :: "int \<Rightarrow> bytes option"
  fs_tokens :: int
  fs_ups :: int
  fs_threads :: "fthread multiset"

definition fsys0 :: "(int \<Rightarrow> bytes option) \<Rightarrow> fsys" where
  "fsys0 blob = \<lparr>fs_bufs = (\<lambda>_. None), fs_complete = (\<lambda>_. False), fs_blob = blob,
     fs_tokens = 0, fs_ups = 0, fs_threads = {#}\<rparr>"

text \<open>
  \<open>cap\<close> is \<open>InflightPieces\<close>, \<open>upcap\<close> is \<open>UpSem\<close>, \<open>len i\<close> the length of piece \<open>i\<close>. A write
  leaves some bytes of the same length in the buffer; an upload can fail. An upload works on the buffer
  itself, not on a copy: a write that comes while it runs may show in what it stores, so the stored bytes
  are any of the length of the buffer.
\<close>

inductive fstep :: "int \<Rightarrow> int \<Rightarrow> (int \<Rightarrow> nat) \<Rightarrow> fsys \<Rightarrow> fsys \<Rightarrow> bool"
  for cap upcap :: int and len :: "int \<Rightarrow> nat" where
  write_has: "fs_bufs s i = Some d \<Longrightarrow> length d' = length d \<Longrightarrow>
    fstep cap upcap len s (s\<lparr>fs_bufs := (fs_bufs s)(i \<mapsto> d')\<rparr>)"
| write_wait: "fs_bufs s i = None \<Longrightarrow>
    fstep cap upcap len s (s\<lparr>fs_threads := add_mset (Wait i) (fs_threads s)\<rparr>)"
| acquire: "fs_threads s = add_mset (Wait i) T \<Longrightarrow> fs_tokens s < cap \<Longrightarrow>
    fstep cap upcap len s (s\<lparr>fs_tokens := fs_tokens s + 1, fs_threads := add_mset (Hold i) T\<rparr>)"
| alloc: "fs_threads s = add_mset (Hold i) T \<Longrightarrow> fs_bufs s i = None \<Longrightarrow> length d = len i \<Longrightarrow>
    fstep cap upcap len s (s\<lparr>fs_bufs := (fs_bufs s)(i \<mapsto> d), fs_threads := T\<rparr>)"
| spare: "fs_threads s = add_mset (Hold i) T \<Longrightarrow> fs_bufs s i = Some d \<Longrightarrow> length d' = length d \<Longrightarrow>
    0 < fs_tokens s \<Longrightarrow>
    fstep cap upcap len s (s\<lparr>fs_bufs := (fs_bufs s)(i \<mapsto> d'), fs_tokens := fs_tokens s - 1, fs_threads := T\<rparr>)"
| mark_start: "fstep cap upcap len s (s\<lparr>fs_threads := add_mset (Up i (fs_bufs s i)) (fs_threads s)\<rparr>)"
| mark_sem: "fs_threads s = add_mset (Up i b) T \<Longrightarrow> fs_ups s < upcap \<Longrightarrow>
    fstep cap upcap len s (s\<lparr>fs_ups := fs_ups s + 1, fs_threads := add_mset (Put i b) T\<rparr>)"
| mark_fail: "fs_threads s = add_mset (Put i b) T \<Longrightarrow>
    fstep cap upcap len s (s\<lparr>fs_threads := add_mset (Free False) T\<rparr>)"
| mark_ok: "fs_threads s = add_mset (Put i b) T \<Longrightarrow> length d' = length (case b of None \<Rightarrow> [] | Some d \<Rightarrow> d) \<Longrightarrow>
    fstep cap upcap len s (s\<lparr>fs_blob := (fs_blob s)(i \<mapsto> d'),
      fs_complete := (fs_complete s)(i := True), fs_bufs := (fs_bufs s)(i := None),
      fs_threads := add_mset (Free (fs_bufs s i \<noteq> None)) T\<rparr>)"
| free_buf: "fs_threads s = add_mset (Free True) T \<Longrightarrow> 0 < fs_tokens s \<Longrightarrow>
    fstep cap upcap len s (s\<lparr>fs_tokens := fs_tokens s - 1, fs_threads := add_mset (Free False) T\<rparr>)"
| free_sem: "fs_threads s = add_mset (Free False) T \<Longrightarrow> 0 < fs_ups s \<Longrightarrow>
    fstep cap upcap len s (s\<lparr>fs_ups := fs_ups s - 1, fs_threads := T\<rparr>)"
| unmark: "fstep cap upcap len s (s\<lparr>fs_complete := (fs_complete s)(i := False), fs_bufs := (fs_bufs s)(i := None),
      fs_threads := fs_threads s + (if fs_bufs s i = None then {#} else {#Drop#})\<rparr>)"
| drop: "fs_threads s = add_mset Drop T \<Longrightarrow> 0 < fs_tokens s \<Longrightarrow>
    fstep cap upcap len s (s\<lparr>fs_tokens := fs_tokens s - 1, fs_threads := T\<rparr>)"

section \<open>The invariant of the semaphores\<close>

definition buffered :: "fsys \<Rightarrow> int set" where
  "buffered s = {i. fs_bufs s i \<noteq> None}"

fun holds_slot :: "fthread \<Rightarrow> bool" where
  "holds_slot (Hold i) = True"
| "holds_slot (Free b) = b"
| "holds_slot Drop = True"
| "holds_slot _ = False"

fun holds_sem :: "fthread \<Rightarrow> bool" where
  "holds_sem (Put i b) = True"
| "holds_sem (Free b) = True"
| "holds_sem _ = False"

definition num :: "(fthread \<Rightarrow> bool) \<Rightarrow> fsys \<Rightarrow> int" where
  "num P s = int (size (filter_mset P (fs_threads s)))"

definition slots_inv :: "int \<Rightarrow> int \<Rightarrow> (int \<Rightarrow> nat) \<Rightarrow> fsys \<Rightarrow> bool" where
  "slots_inv cap upcap len s \<longleftrightarrow> finite (buffered s)
     \<and> fs_tokens s = int (card (buffered s)) + num holds_slot s \<and> fs_tokens s \<le> cap
     \<and> fs_ups s = num holds_sem s \<and> fs_ups s \<le> upcap
     \<and> (\<forall>i d. fs_bufs s i = Some d \<longrightarrow> length d = len i)"

lemma buffered_same:
  "fs_bufs s i = Some d \<Longrightarrow> fs_bufs s' = (fs_bufs s)(i \<mapsto> d') \<Longrightarrow> buffered s' = buffered s"
  and buffered_more: "fs_bufs s' = (fs_bufs s)(i \<mapsto> d') \<Longrightarrow> buffered s' = insert i (buffered s)"
  and buffered_less: "fs_bufs s' = (fs_bufs s)(i := None) \<Longrightarrow> buffered s' = buffered s - {i}"
  and buffered_eq: "fs_bufs s' = fs_bufs s \<Longrightarrow> buffered s' = buffered s"
  by (auto simp: buffered_def split: if_splits)

lemma card_take: "finite A \<Longrightarrow> i \<in> A \<Longrightarrow> int (card A) = int (card (A - {i})) + 1"
  by (metis Suc_eq_plus1 card.remove of_nat_Suc add.commute)

lemma slots_inv_step:
  assumes "fstep cap upcap len s s'" and "slots_inv cap upcap len s"
  shows "slots_inv cap upcap len s'"
  using assms
proof (induction rule: fstep.induct)
  case (write_has s i d d')
  have "buffered (s\<lparr>fs_bufs := (fs_bufs s)(i \<mapsto> d')\<rparr>) = buffered s"
    by (rule buffered_same [OF write_has(1)]) simp
  with write_has show ?case by (auto simp: slots_inv_def num_def)
next
  case (alloc s i T d)
  let ?s = "s\<lparr>fs_bufs := (fs_bufs s)(i \<mapsto> d), fs_threads := T\<rparr>"
  have "buffered ?s = insert i (buffered s)" by (rule buffered_more) simp
  moreover have "i \<notin> buffered s" using alloc by (simp add: buffered_def)
  ultimately show ?case using alloc by (auto simp: slots_inv_def num_def)
next
  case (spare s i T d d')
  let ?s = "s\<lparr>fs_bufs := (fs_bufs s)(i \<mapsto> d'), fs_tokens := fs_tokens s - 1, fs_threads := T\<rparr>"
  have "buffered ?s = buffered s" by (rule buffered_same [OF spare(2)]) simp
  with spare show ?case by (auto simp: slots_inv_def num_def)
next
  case (mark_ok s i b T d')
  let ?s = "s\<lparr>fs_blob := (fs_blob s)(i \<mapsto> d'),
      fs_complete := (fs_complete s)(i := True), fs_bufs := (fs_bufs s)(i := None),
      fs_threads := add_mset (Free (fs_bufs s i \<noteq> None)) T\<rparr>"
  have "buffered ?s = buffered s - {i}" by (rule buffered_less) simp
  moreover have "int (card (buffered s)) = int (card (buffered s - {i})) + (if fs_bufs s i = None then 0 else 1)"
    using mark_ok(3) card_take [of "buffered s" i] by (auto simp: slots_inv_def buffered_def)
  ultimately show ?case using mark_ok by (auto simp: slots_inv_def num_def split: if_splits)
next
  case (unmark s i)
  let ?s = "s\<lparr>fs_complete := (fs_complete s)(i := False), fs_bufs := (fs_bufs s)(i := None),
      fs_threads := fs_threads s + (if fs_bufs s i = None then {#} else {#Drop#})\<rparr>"
  have "buffered ?s = buffered s - {i}" by (rule buffered_less) simp
  moreover have "int (card (buffered s)) = int (card (buffered s - {i})) + (if fs_bufs s i = None then 0 else 1)"
    using unmark card_take [of "buffered s" i] by (auto simp: slots_inv_def buffered_def)
  ultimately show ?case using unmark by (auto simp: slots_inv_def num_def split: if_splits)
qed (auto simp: slots_inv_def num_def buffered_def)

abbreviation freach :: "int \<Rightarrow> int \<Rightarrow> (int \<Rightarrow> nat) \<Rightarrow> (int \<Rightarrow> bytes option) \<Rightarrow> fsys \<Rightarrow> bool" where
  "freach cap upcap len blob s \<equiv> (fstep cap upcap len)\<^sup>*\<^sup>* (fsys0 blob) s"

interpretation slots: kept_by_steps "fstep cap upcap len" "slots_inv cap upcap len" for cap upcap len
  by unfold_locales (rule slots_inv_step)

lemma slots_inv_reach: "freach cap upcap len blob s \<Longrightarrow> 0 \<le> cap \<Longrightarrow> 0 \<le> upcap \<Longrightarrow> slots_inv cap upcap len s"
  by (erule slots.inv_run) (simp add: slots_inv_def fsys0_def num_def buffered_def)

lemma thread_cases:
  assumes "t \<in># fs_threads s"
  obtains T where "fs_threads s = add_mset t T"
  using assms by (metis multi_member_split)

lemma num_pos: "t \<in># fs_threads s \<Longrightarrow> P t \<Longrightarrow> 0 < num P s"
  by (auto simp: num_def elim!: thread_cases)

text \<open>Some goroutine \<open>t\<close> takes its next step and goes on as \<open>T'\<close>.\<close>

definition moves :: "int \<Rightarrow> int \<Rightarrow> (int \<Rightarrow> nat) \<Rightarrow> fsys \<Rightarrow> bool" where
  "moves cap upcap len s \<longleftrightarrow> (\<exists>t T T' s'. fs_threads s = add_mset t T \<and> fstep cap upcap len s s'
        \<and> fs_threads s' = T + T' \<and> t \<notin># T')"

lemma movesI:
  "fs_threads s = add_mset t T \<Longrightarrow> fstep cap upcap len s s' \<Longrightarrow> fs_threads s' = T + T' \<Longrightarrow> t \<notin># T'
    \<Longrightarrow> moves cap upcap len s"
  unfolding moves_def by blast

lemma acquire_moves:
  "fs_threads s = add_mset (Wait i) T \<Longrightarrow> fs_tokens s < cap \<Longrightarrow> moves cap upcap len s"
  using movesI [OF _ fstep.acquire, where T' = "{#Hold i#}"] by simp

text \<open>A goroutine past its slot's acquisition can go on, or one that it waits for can.\<close>

lemma sem_holder_moves:
  assumes "slots_inv cap upcap len s" and "t \<in># fs_threads s" and "holds_slot t \<or> holds_sem t"
  shows "moves cap upcap len s"
proof -
  obtain T where T: "fs_threads s = add_mset t T" by (rule thread_cases [OF assms(2)])
  have tok: "0 < fs_tokens s" if "holds_slot t"
    using num_pos [OF assms(2), of holds_slot] that assms(1) by (simp add: slots_inv_def)
  have ups: "0 < fs_ups s" if "holds_sem t"
    using num_pos [OF assms(2), of holds_sem] that assms(1) by (simp add: slots_inv_def)
  show ?thesis
  proof (cases t)
    case (Hold i)
    show ?thesis
    proof (cases "fs_bufs s i")
      case None
      from movesI [OF T fstep.alloc [OF T [unfolded Hold] None, of "replicate (len i) 0"], where T' = "{#}"]
      show ?thesis by simp
    next
      case (Some d)
      from movesI [OF T fstep.spare [OF T [unfolded Hold] Some refl], where T' = "{#}"] tok Hold
      show ?thesis by simp
    qed
  next
    case (Put i b)
    from movesI [OF T fstep.mark_fail [OF T [unfolded Put]], where T' = "{#Free False#}"] Put show ?thesis by simp
  next
    case (Free b)
    show ?thesis
    proof (cases b)
      case True
      from movesI [OF T fstep.free_buf [OF T [unfolded Free eqTrueI [OF True]]], where T' = "{#Free False#}"] tok Free True
      show ?thesis by simp
    next
      case False
      with T Free have F: "fs_threads s = add_mset (Free False) T" by simp
      from movesI [OF F fstep.free_sem [OF F], where T' = "{#}"] ups Free
      show ?thesis by simp
    qed
  next
    case Drop
    from movesI [OF T fstep.drop [OF T [unfolded Drop]], where T' = "{#}"] tok Drop show ?thesis by simp
  qed (use assms(3) in simp_all)
qed

lemma busy_moves:
  assumes inv: "slots_inv cap upcap len s" and up: "0 < upcap"
    and t: "t \<in># fs_threads s" "\<And>i. t \<noteq> Wait i"
  shows "moves cap upcap len s"
proof (cases "\<exists>t'\<in>#fs_threads s. holds_slot t' \<or> holds_sem t'")
  case True
  with sem_holder_moves [OF inv] show ?thesis by blast
next
  case False
  with t obtain i b where ib: "t = Up i b" by (cases t) auto
  obtain T where T: "fs_threads s = add_mset t T" by (rule thread_cases [OF t(1)])
  have "num holds_sem s = 0" using False by (auto simp: num_def filter_mset_eq_conv)
  then have "fs_ups s < upcap" using inv up by (simp add: slots_inv_def)
  from movesI [OF T fstep.mark_sem [OF T [unfolded ib] this], where T' = "{#Put i b#}"] ib show ?thesis by simp
qed

section \<open>Properties\<close>


text \<open>
  Giving back never blocks. Whenever a goroutine is about to take an element out of
  \<open>bufSem\<close> or \<open>sem\<close> to release its slot, the channel has one. In particular the release of a spare slot,
  which happens with the piece's lock held, cannot deadlock.
\<close>

theorem fetch_release_ready:
  assumes "freach cap upcap len blob s" and "0 \<le> cap" and "0 \<le> upcap"
  shows "(\<forall>t\<in>#fs_threads s. holds_slot t \<longrightarrow> 0 < fs_tokens s)
    \<and> (\<forall>t\<in>#fs_threads s. holds_sem t \<longrightarrow> 0 < fs_ups s)"
proof -
  note inv = slots_inv_reach [OF assms]
  show ?thesis using inv num_pos by (fastforce simp: slots_inv_def)
qed

text \<open>
  C26: goroutines wait only for a good reason. With both capacities positive, as long as some
  goroutine is inside an operation, one of them can take a step, or all of them are writers waiting
  for a slot while exactly \<open>InflightPieces\<close> pieces hold a buffer.
\<close>

theorem fetch_progress:
  assumes "freach cap upcap len blob s" and "0 < cap" and "0 < upcap" and "fs_threads s \<noteq> {#}"
  shows "(\<exists>t T T' s'. fs_threads s = add_mset t T \<and> fstep cap upcap len s s'
        \<and> fs_threads s' = T + T' \<and> t \<notin># T')
    \<or> ((\<forall>t\<in>#fs_threads s. \<exists>i. t = Wait i) \<and> int (card (buffered s)) = cap)"
proof -
  have cap: "0 \<le> cap" "0 \<le> upcap" using assms(2,3) by simp_all
  note inv = slots_inv_reach [OF assms(1) cap]
  show ?thesis
  proof (cases "\<forall>t\<in>#fs_threads s. \<exists>i. t = Wait i")
    case False
    then obtain t where t: "t \<in># fs_threads s" "\<And>i. t \<noteq> Wait i" by blast
    with busy_moves [OF inv assms(3)] show ?thesis by (simp add: moves_def)
  next
    case True
    then have "num holds_slot s = 0" by (auto simp: num_def filter_mset_eq_conv)
    then have tok: "fs_tokens s = int (card (buffered s))" using inv by (simp add: slots_inv_def)
    obtain t where t: "t \<in># fs_threads s" using assms(4) by blast
    with True obtain i where "t = Wait i" by blast
    with t obtain T where "fs_threads s = add_mset (Wait i) T" by (blast elim: thread_cases)
    then have "moves cap upcap len s \<or> fs_tokens s = cap"
      using acquire_moves inv by (fastforce simp: slots_inv_def)
    with tok True show ?thesis by (simp add: moves_def)
  qed
qed


text \<open>A run with one slot: piece 0 gets the buffer, its upload has begun, a writer of piece 1 waits.\<close>

definition fsys1 :: fsys where
  "fsys1 = \<lparr>fs_bufs = [0 \<mapsto> [7, 8]], fs_complete = (\<lambda>_. False), fs_blob = Map.empty,
     fs_tokens = 1, fs_ups = 0, fs_threads = {#Wait 1#}\<rparr>"

definition fsys2 :: fsys where
  "fsys2 = fsys1\<lparr>fs_ups := 1, fs_threads := {#Put 0 (Some [7, 8]), Wait 1#}\<rparr>"

lemma freach_step:
  "freach cap upcap len blob s \<Longrightarrow> fstep cap upcap len s s1 \<Longrightarrow> s1 = s' \<Longrightarrow> freach cap upcap len blob s'"
  by auto

lemma fsys1_reach: "freach 1 1 (\<lambda>_. 2) Map.empty fsys1"
proof -
  let ?r = "freach 1 1 (\<lambda>_. 2) Map.empty"
  let ?s = "\<lambda>n T. (fsys0 Map.empty)\<lparr>fs_tokens := n, fs_threads := T\<rparr>"
  have 1: "?r (?s 0 {#Wait 0#})"
    by (rule freach_step [OF rtranclp.rtrancl_refl fstep.write_wait [of _ 0]]) (simp_all add: fsys0_def)
  have 2: "?r (?s 1 {#Hold 0#})"
    by (rule freach_step [OF 1 fstep.acquire [of _ 0 "{#}"]]) (simp_all add: fsys0_def)
  have 3: "?r ((?s 1 {#})\<lparr>fs_bufs := [0 \<mapsto> [7, 8]]\<rparr>)"
    by (rule freach_step [OF 2 fstep.alloc [of _ 0 "{#}" "[7, 8]"]]) (simp_all add: fsys0_def)
  show ?thesis
    by (rule freach_step [OF 3 fstep.write_wait [of _ 1]]) (simp_all add: fsys0_def fsys1_def)
qed

lemma fsys2_reach: "freach 1 1 (\<lambda>_. 2) Map.empty fsys2"
proof -
  have 1: "freach 1 1 (\<lambda>_. 2) Map.empty (fsys1\<lparr>fs_threads := {#Up 0 (Some [7, 8]), Wait 1#}\<rparr>)"
    by (rule freach_step [OF fsys1_reach fstep.mark_start [of _ _ _ _ 0]]) (simp add: fsys1_def)
  show ?thesis
    by (rule freach_step [OF 1 fstep.mark_sem [of _ 0 "Some [7, 8]" "{#Wait 1#}"]])
      (simp_all add: fsys1_def fsys2_def)
qed


theorem fetch_release_ready_witness:
  "Put 0 (Some [7, 8]) \<in># fs_threads fsys2 \<and> 0 < fs_ups fsys2"
  using fetch_release_ready [OF fsys2_reach] by (simp add: fsys2_def)

theorem fetch_progress_witness:
  "\<exists>t T T' s'. fs_threads fsys2 = add_mset t T \<and> fstep 1 1 (\<lambda>_. 2) fsys2 s'
     \<and> fs_threads s' = T + T' \<and> t \<notin># T'"
  using fetch_progress [OF fsys2_reach] by (simp add: fsys2_def)

end
