(* ===== verification/PieceStream.thy ===== *)
theory PieceStream
  imports Reader
begin

text \<open>
  The \<open>pieceStream\<close> of \<^verbatim>\<open>repack.go\<close>: an \<open>io.Reader\<close> over the pieces of a torrent, and
  \<open>io.ReadFull\<close> on it. The state of the stream is passed along explicitly; \<open>get\<close> stands for
  \<open>s.fetch\<close>, and \<open>nh\<close> for \<open>len(s.hashes)\<close>.

  The loops are total: each turn of \<open>Read\<close> fills the buffer or moves to the next piece, each
  turn of \<open>io.ReadFull\<close> gets a byte or an error.
\<close>

section \<open>Reading\<close>

record pieceStream =
  st_cur :: nat
  st_pos :: nat
  st_buf :: "bytes option"

text \<open>
  One turn of the loop of \<open>Read\<close> with \<open>k\<close> bytes of \<open>p\<close> still to fill: fetch the piece unless it
  is there, copy, and move on when the piece is used up.
\<close>

definition Read_turn ::
  "(nat \<Rightarrow> ('w, bytes) prog) \<Rightarrow> nat \<Rightarrow> pieceStream \<Rightarrow> ('w, bytes \<times> pieceStream) prog" where
  "Read_turn get k s =
     bindM (case st_buf s of
         None \<Rightarrow> bindM (get (st_cur s)) (\<lambda>d. ret (d, 0))
       | Some d \<Rightarrow> ret (d, st_pos s)) (\<lambda>(d, pos).
       if length d < pos then panic (PRuntime ''slice bounds out of range'')
       else
         let c = take k (drop pos d); pos = pos + length c
         in if length d \<le> pos
            then ret (c, \<lparr>st_cur = st_cur s + 1, st_pos = pos, st_buf = None\<rparr>)
            else ret (c, \<lparr>st_cur = st_cur s, st_pos = pos, st_buf = Some d\<rparr>))"

text \<open>How far a stream has got: the piece, whether it is fetched, what is left of it.\<close>

definition stream_less :: "nat \<Rightarrow> (pieceStream \<times> pieceStream) set" where
  "stream_less nh = measures [\<lambda>s. nh - st_cur s, \<lambda>s. if st_buf s = None then 1 else 0,
     \<lambda>s. case st_buf s of None \<Rightarrow> 0 | Some d \<Rightarrow> length d - st_pos s]"

lemma wf_stream_less: "wf (stream_less nh)"
  by (simp add: stream_less_def)

lemma stream_less_trans: "(a, b) \<in> stream_less nh \<Longrightarrow> (b, c) \<in> stream_less nh \<Longrightarrow> (a, c) \<in> stream_less nh"
  by (auto simp: stream_less_def split: if_splits)

text \<open>A turn that returns has copied what there is, and either filled the buffer or moved on.\<close>

lemma Read_turn_RetD:
  assumes "Read_turn get k s w = (Ret (c, s'), w')"
  shows "\<exists>d pos. (if st_buf s = None then get (st_cur s) w = (Ret d, w') \<and> pos = 0
        else st_buf s = Some d \<and> pos = st_pos s \<and> w' = w)
    \<and> pos \<le> length d \<and> c = take k (drop pos d)
    \<and> s' = (if length d \<le> pos + length c
        then \<lparr>st_cur = st_cur s + 1, st_pos = pos + length c, st_buf = None\<rparr>
        else \<lparr>st_cur = st_cur s, st_pos = pos + length c, st_buf = Some d\<rparr>)"
proof -
  from assms obtain d pos w1 where src: "(case st_buf s of
         None \<Rightarrow> bindM (get (st_cur s)) (\<lambda>d. ret (d, 0))
       | Some d \<Rightarrow> ret (d, st_pos s)) w = (Ret (d, pos), w1)"
    and rest: "(if length d < pos then panic (PRuntime ''slice bounds out of range'')
       else
         let c = take k (drop pos d); pos = pos + length c
         in if length d \<le> pos
            then ret (c, \<lparr>st_cur = st_cur s + 1, st_pos = pos, st_buf = None\<rparr>)
            else ret (c, \<lparr>st_cur = st_cur s, st_pos = pos, st_buf = Some d\<rparr>)) w1 = (Ret (c, s'), w')"
    by (auto simp: Read_turn_def bindM_Ret_iff)
  from src have a: "if st_buf s = None then get (st_cur s) w = (Ret d, w1) \<and> pos = 0
        else st_buf s = Some d \<and> pos = st_pos s \<and> w1 = w"
    by (cases "st_buf s") (auto simp: bindM_Ret_iff ret_run)
  have "\<not> length d < pos" using rest by (cases "length d < pos") (simp_all add: panic_run)
  then have "pos \<le> length d" by simp
  moreover define c0 where "c0 = take k (drop pos d)"
  ultimately have "(if length d \<le> pos + length c0
        then (Ret (c0, \<lparr>st_cur = st_cur s + 1, st_pos = pos + length c0, st_buf = None\<rparr>), w1)
        else (Ret (c0, \<lparr>st_cur = st_cur s, st_pos = pos + length c0, st_buf = Some d\<rparr>), w1)) = (Ret (c, s'), w')"
    using rest by (simp only: Let_def ret_def c0_def [symmetric] not_less [symmetric] if_False simp_thms split: if_splits)
  then have c: "c0 = c \<and> w1 = w' \<and> s' = (if length d \<le> pos + length c
        then \<lparr>st_cur = st_cur s + 1, st_pos = pos + length c, st_buf = None\<rparr>
        else \<lparr>st_cur = st_cur s, st_pos = pos + length c, st_buf = Some d\<rparr>)"
    by (cases "length d \<le> pos + length c0") auto
  then have b: "w1 = w'" "c = take k (drop pos d)" by (simp_all add: c0_def)
  show ?thesis using a b(2) c \<open>pos \<le> length d\<close> by (intro exI [of _ d] exI [of _ pos]) (simp only: b(1) simp_thms)
qed

lemma Read_turn_progress:
  assumes "Read_turn get k s w = (Ret (c, s'), w')"
  shows "st_cur s < st_cur s' \<or> st_cur s' = st_cur s \<and> length c = k"
proof -
  from Read_turn_RetD [OF assms] obtain d pos where c: "pos \<le> length d" "c = take k (drop pos d)"
    "s' = (if length d \<le> pos + length c
        then \<lparr>st_cur = st_cur s + 1, st_pos = pos + length c, st_buf = None\<rparr>
        else \<lparr>st_cur = st_cur s, st_pos = pos + length c, st_buf = Some d\<rparr>)" by blast
  from c(1,2) have "length d \<le> pos + length c \<or> length c = k" by auto
  with c(3) show ?thesis by auto
qed

lemma Read_turn_less:
  assumes "Read_turn get k s w = (Ret (c, s'), w')" and "st_cur s < nh" and "0 < k"
  shows "(s', s) \<in> stream_less nh"
proof -
  from Read_turn_RetD [OF assms(1)] obtain d pos where c: "pos \<le> length d" "c = take k (drop pos d)"
    "if st_buf s = None then get (st_cur s) w = (Ret d, w') \<and> pos = 0
        else st_buf s = Some d \<and> pos = st_pos s \<and> w' = w"
    "s' = (if length d \<le> pos + length c
        then \<lparr>st_cur = st_cur s + 1, st_pos = pos + length c, st_buf = None\<rparr>
        else \<lparr>st_cur = st_cur s, st_pos = pos + length c, st_buf = Some d\<rparr>)" by blast
  have "length d \<le> pos + length c \<or> 0 < length c" using c(1,2) assms(3) by auto
  moreover have "pos + length c \<le> length d" using c(1,2) by auto
  ultimately show ?thesis using c(3,4) assms(2)
    by (cases "st_buf s"; cases c) (auto simp: stream_less_def)
qed

text \<open>
  \<open>Read(p)\<close> with \<open>len(p) = plen\<close>, \<open>acc\<close> holding the bytes put into \<open>p\<close> so far: those bytes, the
  error, and the stream afterwards.
\<close>

function Read ::
  "(nat \<Rightarrow> ('w, bytes) prog) \<Rightarrow> nat \<Rightarrow> nat \<Rightarrow> pieceStream \<Rightarrow> bytes
    \<Rightarrow> ('w, (bytes \<times> goerr option) \<times> pieceStream) prog" where
  "Read get nh plen s acc w =
     (if length acc < plen then
        if nh \<le> st_cur s then (Ret ((acc, if acc \<noteq> [] then None else Some EOF), s), w)
        else
          (case Read_turn get (plen - length acc) s w of
             (Ret (c, s'), w') \<Rightarrow> Read get nh plen s' (acc @ c) w'
           | (Panicked p, w') \<Rightarrow> (Panicked p, w')
           | (Blocked, w') \<Rightarrow> (Blocked, w'))
      else (Ret ((acc, None), s), w))"
  by pat_completeness auto
termination
  by (relation "measures [\<lambda>(get, nh, plen, s, acc, w). nh - st_cur s,
        \<lambda>(get, nh, plen, s, acc, w). plen - length acc]") (auto dest!: Read_turn_progress [OF sym])

declare Read.simps [simp del]

lemma Read_turn_case:
  assumes "length acc < plen" and "st_cur s < nh"
  shows "Read get nh plen s acc w =
      bindM (Read_turn get (plen - length acc) s) (\<lambda>(c, s'). Read get nh plen s' (acc @ c)) w"
  using assms by (subst Read.simps) (auto simp: bindM_def split: outcome.splits prod.splits)

text \<open>A read leaves the stream alone or gets it ahead, and one that fills nothing says \<open>EOF\<close>.\<close>

lemma Read_less:
  assumes "Read get nh plen s acc w = (Ret ((out, e), s'), w')"
  shows "(s' = s \<and> out = acc \<or> (s', s) \<in> stream_less nh) \<and> (\<exists>new. out = acc @ new)
    \<and> (e = None \<longrightarrow> length acc < plen \<longrightarrow> out \<noteq> [])"
  using assms
proof (induction get nh plen s acc w rule: Read.induct)
  case (1 get nh plen s acc w)
  show ?case
  proof (cases "length acc < plen \<and> st_cur s < nh")
    case False
    with "1.prems" show ?thesis by (subst (asm) Read.simps) (auto split: if_splits)
  next
    case True
    with "1.prems" obtain c s1 w1 where t: "Read_turn get (plen - length acc) s w = (Ret (c, s1), w1)"
      and r: "Read get nh plen s1 (acc @ c) w1 = (Ret ((out, e), s'), w')"
      by (auto simp: Read_turn_case bindM_Ret_iff)
    have less: "(s1, s) \<in> stream_less nh" using Read_turn_less [OF t] True by simp
    have IH: "(s' = s1 \<and> out = acc @ c \<or> (s', s1) \<in> stream_less nh) \<and> (\<exists>new. out = (acc @ c) @ new)
        \<and> (e = None \<longrightarrow> length (acc @ c) < plen \<longrightarrow> out \<noteq> [])"
      using "1.IH" [OF _ _ t [symmetric] refl refl r] True by simp
    from IH less have "(s', s) \<in> stream_less nh" using stream_less_trans by blast
    with IH True show ?thesis by (cases "length (acc @ c) < plen") auto
  qed
qed

lemma Read_bytes: "Read get nh plen s [] w = (Ret ((out, None), s'), w') \<Longrightarrow> 0 < plen \<Longrightarrow> \<exists>x xs. out = x # xs"
  by (cases out) (auto dest: Read_less)

section \<open>io.ReadFull\<close>

function ReadFull ::
  "(nat \<Rightarrow> ('w, bytes) prog) \<Rightarrow> nat \<Rightarrow> nat \<Rightarrow> pieceStream \<Rightarrow> bytes
    \<Rightarrow> ('w, (bytes \<times> goerr option) \<times> pieceStream) prog" where
  "ReadFull get nh plen s acc w =
     (if length acc < plen then
        (case Read get nh (plen - length acc) s [] w of
           (Ret ((bs, None), s'), w') \<Rightarrow> ReadFull get nh plen s' (acc @ bs) w'
         | (Ret ((bs, Some err), s'), w') \<Rightarrow>
             let buf = acc @ bs in
             (Ret ((buf, if plen \<le> length buf then None
                         else if buf \<noteq> [] \<and> err = EOF then Some ErrUnexpectedEOF else Some err), s'), w')
         | (Panicked p, w') \<Rightarrow> (Panicked p, w')
         | (Blocked, w') \<Rightarrow> (Blocked, w'))
      else (Ret ((acc, None), s), w))"
  by pat_completeness auto
termination
  by (relation "measure (\<lambda>(get, nh, plen, s, acc, w). plen - length acc)")
    (auto dest!: Read_bytes [OF sym])

declare ReadFull.simps [simp del]

lemma ReadFull_less:
  assumes "ReadFull get nh plen s acc w = (Ret ((out, e), s'), w')"
  shows "s' = s \<and> out = acc \<or> (s', s) \<in> stream_less nh"
  using assms
proof (induction get nh plen s acc w rule: ReadFull.induct)
  case (1 get nh plen s acc w)
  show ?case
  proof (cases "length acc < plen")
    case False
    with "1.prems" show ?thesis by (subst (asm) ReadFull.simps) simp
  next
    case True
    with "1.prems" obtain bs err s1 w1 where t: "Read get nh (plen - length acc) s [] w = (Ret ((bs, err), s1), w1)"
      by (subst (asm) ReadFull.simps) (auto split: outcome.splits prod.splits)
    from Read_less [OF t] have l: "s1 = s \<and> bs = [] \<or> (s1, s) \<in> stream_less nh" by simp
    show ?thesis
    proof (cases err)
      case None
      with True t "1.prems" have "ReadFull get nh plen s1 (acc @ bs) w1 = (Ret ((out, e), s'), w')"
        by (subst (asm) ReadFull.simps) simp
      with "1.IH" [OF True t [symmetric] refl refl] None
      have "s' = s1 \<and> out = acc @ bs \<or> (s', s1) \<in> stream_less nh" by simp
      with l stream_less_trans show ?thesis by fastforce
    next
      case (Some x)
      with True t "1.prems" l show ?thesis by (subst (asm) ReadFull.simps) (auto simp: Let_def)
    qed
  qed
qed


lemma ReadFull_None:
  "ReadFull get nh plen s acc w = (Ret ((out, None), s'), w') \<Longrightarrow> plen \<le> length out"
proof (induction get nh plen s acc w rule: ReadFull.induct)
  case (1 get nh plen s acc w)
  show ?case
  proof (cases "length acc < plen")
    case False
    with "1.prems" show ?thesis by (subst (asm) ReadFull.simps) simp
  next
    case True
    with "1.prems" obtain bs err s1 w1 where t: "Read get nh (plen - length acc) s [] w = (Ret ((bs, err), s1), w1)"
      by (subst (asm) ReadFull.simps) (auto split: outcome.splits prod.splits)
    show ?thesis
    proof (cases err)
      case None
      with True t "1.prems" have "ReadFull get nh plen s1 (acc @ bs) w1 = (Ret ((out, None), s'), w')"
        by (subst (asm) ReadFull.simps) simp
      with "1.IH" [OF True t [symmetric] refl refl] None show ?thesis by simp
    next
      case (Some x)
      with True t "1.prems" show ?thesis by (subst (asm) ReadFull.simps) (auto simp: Let_def split: if_splits)
    qed
  qed
qed

section \<open>What a stream has left\<close>

definition stream_ok :: "bytes list \<Rightarrow> pieceStream \<Rightarrow> bool" where
  "stream_ok ps s \<longleftrightarrow> (case st_buf s of None \<Rightarrow> True
     | Some d \<Rightarrow> st_cur s < length ps \<and> d = ps ! st_cur s \<and> st_pos s < length d)"

definition stream_rest :: "bytes list \<Rightarrow> pieceStream \<Rightarrow> bytes" where
  "stream_rest ps s = (case st_buf s of None \<Rightarrow> concat (drop (st_cur s) ps)
     | Some d \<Rightarrow> drop (st_pos s) d @ concat (drop (Suc (st_cur s)) ps))"

definition stream0 :: pieceStream where
  "stream0 = \<lparr>st_cur = 0, st_pos = 0, st_buf = None\<rparr>"

lemma stream0_ok: "stream_ok ps stream0" "stream_rest ps stream0 = concat ps"
  by (simp_all add: stream_ok_def stream_rest_def stream0_def)

lemma stream_rest_end: "stream_ok ps s \<Longrightarrow> length ps \<le> st_cur s \<Longrightarrow> stream_rest ps s = []"
  by (auto simp: stream_ok_def stream_rest_def split: option.splits)

text \<open>A source that returns a piece only when it is the right one.\<close>

locale exact_source = piece_source +
  assumes piece_exact: "I c ps w \<Longrightarrow> 0 \<le> i \<Longrightarrow> i < int (length ps) \<Longrightarrow> piece c i w = (Ret d, w') \<Longrightarrow>
      d = ps ! nat i"
begin

lemma Read_turn_inv:
  assumes "I c ps w" and "st_cur s < length ps"
    and "Read_turn (\<lambda>i. piece c (int i)) k s w = (r, w')"
  shows "I c ps w'"
proof (cases "st_buf s")
  case None
  obtain rd w1 where p: "piece c (int (st_cur s)) w = (rd, w1)" by fastforce
  then have "I c ps w1" using piece_inv [OF assms(1) _ _ p] assms(2) by simp
  with assms(3) None p show ?thesis
    by (cases rd) (auto simp: Read_turn_def bindM_def ret_run panic_run Let_def split: if_splits)
next
  case (Some d)
  with assms show ?thesis
    by (auto simp: Read_turn_def bindM_def ret_run panic_run Let_def split: if_splits)
qed

lemma Read_turn_exact:
  assumes "I c ps w" and "stream_ok ps s" and "st_cur s < length ps"
    and "Read_turn (\<lambda>i. piece c (int i)) k s w = (Ret (b, s'), w')"
  shows "stream_ok ps s' \<and> stream_rest ps s = b @ stream_rest ps s' \<and> length b \<le> k"
proof -
  let ?p = "ps ! st_cur s"
  from Read_turn_RetD [OF assms(4)] obtain d pos where d: "pos \<le> length d" "b = take k (drop pos d)"
    and src: "if st_buf s = None then piece c (int (st_cur s)) w = (Ret d, w') \<and> pos = 0
        else st_buf s = Some d \<and> pos = st_pos s \<and> w' = w"
    and s': "s' = (if length d \<le> pos + length b
        then \<lparr>st_cur = st_cur s + 1, st_pos = pos + length b, st_buf = None\<rparr>
        else \<lparr>st_cur = st_cur s, st_pos = pos + length b, st_buf = Some d\<rparr>)" by blast
  have dp: "d = ?p"
    using src assms(2,3) piece_exact [OF assms(1), of "int (st_cur s)" d w']
    by (auto simp: stream_ok_def split: if_splits)
  have tl: "concat (drop (st_cur s) ps) = ?p @ concat (drop (Suc (st_cur s)) ps)"
    using assms(3) by (simp add: Cons_nth_drop_Suc [symmetric])
  have rest: "stream_rest ps s = drop pos ?p @ concat (drop (Suc (st_cur s)) ps)"
    using src tl dp by (auto simp: stream_rest_def split: if_splits)
  have split: "drop pos ?p = b @ drop (pos + length b) ?p"
    using d dp by (metis append_take_drop_id drop_drop add.commute length_take min_def drop_all take_all nat_le_linear)
  show ?thesis
  proof (cases "length d \<le> pos + length b")
    case True
    with s' dp have "stream_rest ps s' = concat (drop (Suc (st_cur s)) ps)" "stream_ok ps s'"
      by (simp_all add: stream_rest_def stream_ok_def)
    moreover from True split dp have "drop pos ?p = b" by simp
    ultimately show ?thesis using rest d(2) by simp
  next
    case False
    with s' dp assms(3) have "stream_rest ps s' = drop (pos + length b) ?p @ concat (drop (Suc (st_cur s)) ps)"
      "stream_ok ps s'" by (simp_all add: stream_rest_def stream_ok_def)
    with rest split d(2) show ?thesis by simp
  qed
qed

end


context exact_source begin

text \<open>A read that returns has the next bytes of the stream, and says \<open>EOF\<close> only at its end.\<close>

lemma Read_spec:
  assumes "I c ps w" and "stream_ok ps s"
    and "Read (\<lambda>i. piece c (int i)) (length ps) plen s acc w = (r, w')"
  shows "I c ps w' \<and> (\<forall>out e s'. r = Ret ((out, e), s') \<longrightarrow> stream_ok ps s'
    \<and> out = acc @ take (plen - length acc) (stream_rest ps s)
    \<and> stream_rest ps s' = drop (plen - length acc) (stream_rest ps s)
    \<and> e = (if length acc < plen \<and> out = [] then Some EOF else None))"
  using assms
proof (induction "\<lambda>i. piece c (int i)" "length ps" plen s acc w rule: Read.induct)
  case (1 plen s acc w)
  show ?case
  proof (cases "length acc < plen \<and> st_cur s < length ps")
    case False
    with "1.prems" stream_rest_end [of ps s] show ?thesis
      by (subst (asm) Read.simps) (auto split: if_splits)
  next
    case True
    obtain rt w1 where t: "Read_turn (\<lambda>i. piece c (int i)) (plen - length acc) s w = (rt, w1)" by fastforce
    have I1: "I c ps w1" using Read_turn_inv [OF "1.prems"(1) _ t] True by simp
    show ?thesis
    proof (cases "\<exists>b s1. rt = Ret (b, s1)")
      case False
      with "1.prems"(3) t True I1 show ?thesis by (cases rt) (auto simp: Read_turn_case bindM_def)
    next
      case ret: True
      then obtain b s1 where b: "rt = Ret (b, s1)" by blast
      note ex = Read_turn_exact [OF "1.prems"(1,2) conjunct2 [OF True] t [unfolded b]]
      have run: "Read (\<lambda>i. piece c (int i)) (length ps) plen s1 (acc @ b) w1 = (r, w')"
        using "1.prems"(3) t True b by (simp add: Read_turn_case bindM_def)
      have "\<not> length ps \<le> st_cur s" "length acc < plen" using True by simp_all
      from "1.hyps" [OF this(2,1) t [unfolded b, symmetric] refl refl I1 _ run] ex
      have IH: "I c ps w' \<and> (\<forall>out e s'. r = Ret ((out, e), s') \<longrightarrow> stream_ok ps s'
        \<and> out = (acc @ b) @ take (plen - length (acc @ b)) (stream_rest ps s1)
        \<and> stream_rest ps s' = drop (plen - length (acc @ b)) (stream_rest ps s1)
        \<and> e = (if length (acc @ b) < plen \<and> out = [] then Some EOF else None))" by blast
      moreover have "take (plen - length acc) (stream_rest ps s) = b @ take (plen - length (acc @ b)) (stream_rest ps s1)"
        "drop (plen - length acc) (stream_rest ps s) = drop (plen - length (acc @ b)) (stream_rest ps s1)"
        using ex by simp_all
      ultimately show ?thesis using True by auto
    qed
  qed
qed

lemma ReadFull_spec:
  assumes "I c ps w" and "stream_ok ps s"
    and "ReadFull (\<lambda>i. piece c (int i)) (length ps) plen s acc w = (r, w')"
  shows "I c ps w' \<and> (\<forall>out e s'. r = Ret ((out, e), s') \<longrightarrow> stream_ok ps s'
    \<and> out = acc @ take (plen - length acc) (stream_rest ps s)
    \<and> stream_rest ps s' = drop (plen - length acc) (stream_rest ps s)
    \<and> e = (if plen \<le> length out then None else if out = [] then Some EOF else Some ErrUnexpectedEOF))"
  using assms
proof (induction "\<lambda>i. piece c (int i)" "length ps" plen s acc w rule: ReadFull.induct)
  case (1 plen s acc w)
  show ?case
  proof (cases "length acc < plen")
    case False
    with "1.prems" show ?thesis by (subst (asm) ReadFull.simps) auto
  next
    case True
    obtain rr w1 where t: "Read (\<lambda>i. piece c (int i)) (length ps) (plen - length acc) s [] w = (rr, w1)" by fastforce
    note rd = Read_spec [OF "1.prems"(1,2) t]
    show ?thesis
    proof (cases "\<exists>bs e s1. rr = Ret ((bs, e), s1)")
      case False
      with "1.prems"(3) t True rd show ?thesis by (subst (asm) ReadFull.simps) (cases rr; auto)
    next
      case ret: True
      then obtain bs e s1 where b: "rr = Ret ((bs, e), s1)" by blast
      show ?thesis
      proof (cases e)
        case None
        have run: "ReadFull (\<lambda>i. piece c (int i)) (length ps) plen s1 (acc @ bs) w1 = (r, w')"
          using "1.prems"(3) t True b None by (subst (asm) ReadFull.simps) simp
        from "1.hyps" [OF True t [unfolded b None, symmetric] refl refl refl refl _ _ run] rd b
        have IH: "I c ps w' \<and> (\<forall>out e s'. r = Ret ((out, e), s') \<longrightarrow> stream_ok ps s'
          \<and> out = (acc @ bs) @ take (plen - length (acc @ bs)) (stream_rest ps s1)
          \<and> stream_rest ps s' = drop (plen - length (acc @ bs)) (stream_rest ps s1)
          \<and> e = (if plen \<le> length out then None else if out = [] then Some EOF else Some ErrUnexpectedEOF))"
          by simp
        have bs: "bs = take (plen - length acc) (stream_rest ps s)"
          "stream_rest ps s1 = drop (plen - length acc) (stream_rest ps s)" using rd b by auto
        have "take (plen - length acc) (stream_rest ps s) = bs @ take (plen - length (acc @ bs)) (stream_rest ps s1)"
          "drop (plen - length acc) (stream_rest ps s) = drop (plen - length (acc @ bs)) (stream_rest ps s1)"
          unfolding bs by (cases "length (stream_rest ps s) \<le> plen - length acc"; simp add: min_def)+
        with IH show ?thesis by auto
      next
        case (Some x)
        with rd b True have "bs = []" "x = EOF" "stream_rest ps s = []" "I c ps w1" "stream_ok ps s1" "stream_rest ps s1 = []"
          by (auto split: if_splits)
        with "1.prems"(3) t True b Some show ?thesis by (subst (asm) ReadFull.simps) (auto simp: Let_def)
      qed
    qed
  qed
qed

end


text \<open>A source that also delivers makes the stream deliver.\<close>

locale exact_live = exact_source piece I + live_source piece I J
  for piece :: "'c \<Rightarrow> int \<Rightarrow> ('w, bytes) prog"
    and I :: "'c \<Rightarrow> bytes list \<Rightarrow> 'w \<Rightarrow> bool"
    and J :: "'c \<Rightarrow> bytes list \<Rightarrow> 'w \<Rightarrow> bool"
begin

lemma Read_turn_live:
  assumes "I c ps w" and "J c ps w" and "stream_ok ps s" and "st_cur s < length ps"
  shows "\<exists>b s' w'. Read_turn (\<lambda>i. piece c (int i)) k s w = (Ret (b, s'), w') \<and> J c ps w'"
proof (cases "st_buf s")
  case None
  from piece_live [OF assms(1,2), of "int (st_cur s)"] assms(4) obtain w1 where
    "piece c (int (st_cur s)) w = (Ret (ps ! st_cur s), w1)" "J c ps w1" by auto
  with None show ?thesis by (auto simp: Read_turn_def bindM_def ret_run Let_def)
next
  case (Some d)
  with assms(2,3) show ?thesis by (auto simp: Read_turn_def stream_ok_def bindM_def ret_run Let_def)
qed

lemma Read_live:
  assumes "I c ps w" and "J c ps w" and "stream_ok ps s"
  shows "\<exists>out e s' w'. Read (\<lambda>i. piece c (int i)) (length ps) plen s acc w = (Ret ((out, e), s'), w') \<and> J c ps w'"
  using assms
proof (induction "\<lambda>i. piece c (int i)" "length ps" plen s acc w rule: Read.induct)
  case (1 plen s acc w)
  show ?case
  proof (cases "length acc < plen \<and> st_cur s < length ps")
    case False
    with "1.prems" show ?thesis by (subst Read.simps) auto
  next
    case True
    from Read_turn_live [OF "1.prems"] True obtain b s1 w1 where
      t: "Read_turn (\<lambda>i. piece c (int i)) (plen - length acc) s w = (Ret (b, s1), w1)" and J1: "J c ps w1" by blast
    have I1: "I c ps w1" using Read_turn_inv [OF "1.prems"(1) _ t] True by simp
    have ok: "stream_ok ps s1" using Read_turn_exact [OF "1.prems"(1,3) conjunct2 [OF True] t] by simp
    have "length acc < plen" "\<not> length ps \<le> st_cur s" using True by simp_all
    from "1.hyps" [OF this t [symmetric] refl refl I1 J1 ok] True t show ?thesis
      by (simp add: Read_turn_case bindM_def)
  qed
qed

lemma ReadFull_live:
  assumes "I c ps w" and "J c ps w" and "stream_ok ps s"
  shows "\<exists>out e s' w'. ReadFull (\<lambda>i. piece c (int i)) (length ps) plen s acc w = (Ret ((out, e), s'), w') \<and> J c ps w'"
  using assms
proof (induction "\<lambda>i. piece c (int i)" "length ps" plen s acc w rule: ReadFull.induct)
  case (1 plen s acc w)
  show ?case
  proof (cases "length acc < plen")
    case False
    with "1.prems" show ?thesis by (subst ReadFull.simps) auto
  next
    case True
    from Read_live [OF "1.prems"] obtain bs e s1 w1 where
      t: "Read (\<lambda>i. piece c (int i)) (length ps) (plen - length acc) s [] w = (Ret ((bs, e), s1), w1)" and J1: "J c ps w1"
      by blast
    note sp = Read_spec [OF "1.prems"(1,3) t]
    show ?thesis
    proof (cases e)
      case None
      from "1.hyps" [OF True t [unfolded None, symmetric] refl refl refl refl _ J1] sp True t None show ?thesis
        by (subst ReadFull.simps) simp
    next
      case (Some x)
      with True t J1 show ?thesis by (subst ReadFull.simps) (simp add: Let_def)
    qed
  qed
qed

end

end
