(* ===== verification/Sha1.thy ===== *)
theory Sha1
  imports Prelude
begin

text \<open>
  \<open>sha1.Sum\<close> of Go's standard library, as FIPS 180-4 defines SHA-1: the function that
  \<^verbatim>\<open>repack.go\<close> names its pieces with. Nothing is proved of its strength; where a
  property depends on two blobs not colliding, it says so.
\<close>

unbundle bit_operations_syntax

type_synonym sha1_state = "32 word \<times> 32 word \<times> 32 word \<times> 32 word \<times> 32 word"

section \<open>Words and bytes\<close>

definition be_word :: "bytes \<Rightarrow> 32 word" where
  "be_word bs = foldl (\<lambda>a b. push_bit 8 a OR ucast b) 0 bs"

definition be_bytes :: "32 word \<Rightarrow> bytes" where
  "be_bytes w = [ucast (drop_bit 24 w), ucast (drop_bit 16 w), ucast (drop_bit 8 w), ucast w]"

section \<open>Padding\<close>

text \<open>A bit 1, zeros up to 56 modulo 64, and the length in bits as a 64-bit number.\<close>

definition sha1_pad :: "bytes \<Rightarrow> bytes" where
  "sha1_pad msg = (let n = length msg; bits = word_of_nat (8 * n) :: 64 word in
     msg @ [128] @ replicate ((119 - n mod 64) mod 64) 0
       @ map (\<lambda>i. ucast (drop_bit (8 * i) bits)) [7, 6, 5, 4, 3, 2, 1, 0])"

section \<open>Compression\<close>

text \<open>The message schedule, newest word first.\<close>

primrec sha1_expand :: "nat \<Rightarrow> 32 word list \<Rightarrow> 32 word list" where
  "sha1_expand 0 ws = ws"
| "sha1_expand (Suc n) ws =
     sha1_expand n (word_rotl 1 (ws ! 2 XOR ws ! 7 XOR ws ! 13 XOR ws ! 15) # ws)"

definition sha1_round :: "nat \<times> 32 word \<Rightarrow> sha1_state \<Rightarrow> sha1_state" where
  "sha1_round tw s = (case tw of (t, w) \<Rightarrow> case s of (a, b, c, d, e) \<Rightarrow>
     let f = (if t < 20 then (b AND c) OR ((NOT b) AND d)
              else if t < 40 then b XOR c XOR d
              else if t < 60 then (b AND c) OR (b AND d) OR (c AND d)
              else b XOR c XOR d);
         k = (if t < 20 then 0x5A827999 else if t < 40 then 0x6ED9EBA1
              else if t < 60 then 0x8F1BBCDC else 0xCA62C1D6)
     in (word_rotl 5 a + f + e + k + w, a, word_rotl 30 b, c, d))"

definition sha1_block :: "sha1_state \<Rightarrow> bytes \<Rightarrow> sha1_state" where
  "sha1_block s blk =
     (let ws = rev (sha1_expand 64 (rev (map be_word (chunks 4 blk)))) in
      case s of (a, b, c, d, e) \<Rightarrow>
      case fold sha1_round (enumerate 0 ws) s of (a', b', c', d', e') \<Rightarrow>
        (a + a', b + b', c + c', d + d', e + e'))"

definition sha1_Sum :: "bytes \<Rightarrow> bytes" where
  "sha1_Sum msg =
     (case fold (\<lambda>blk s. sha1_block s blk) (chunks 64 (sha1_pad msg))
         (0x67452301, 0xEFCDAB89, 0x98BADCFE, 0x10325476, 0xC3D2E1F0) of
      (a, b, c, d, e) \<Rightarrow> concat (map be_bytes [a, b, c, d, e]))"

lemma length_sha1_Sum [simp]: "length (sha1_Sum msg) = 20"
  by (simp add: sha1_Sum_def be_bytes_def split: prod.split)

end
