(* ===== verification/Repack.thy ===== *)
theory Repack
  imports PieceStream Pmap Sha1
begin

text \<open>
  \<^verbatim>\<open>repack.go\<close>: read the pieces of a stored torrent as one stream, cut it anew, name
  the new pieces by their SHA-1, upload them, and publish the rebuilt torrent last.

  The uploads are goroutines. Those launched and not yet run are in \<open>rp_pending\<close>; the
  parameter \<open>ups\<close> says which of them run after each cut, in which order, and the rest run at the
  latest when the main goroutine waits. \<open>bg\<close> does the same for the prefetch goroutines.
\<close>

section \<open>State\<close>

record 's rworld = "'s cworld" +
  rp_pending :: "(string \<times> bytes) list"
  rp_new :: int
  rp_skip :: int

section \<open>Fetching a source piece\<close>

text \<open>
  A slot of the semaphore: without any the goroutine waits for ever; with at least one, the
  goroutines that hold them give them back whatever happens to them.
\<close>

definition catUnderSem :: "Config \<Rightarrow> 's s3api \<Rightarrow> string \<Rightarrow> (('s, 'z) cworld_scheme, unit) prog" where
  "catUnderSem cfg cli hash =
     (if UpSem cfg \<le> 0 then block
      else bindM (Cat cfg cli (KeyPiece cfg hash)) (\<lambda>data. cachePut hash data))"

definition stream_fill :: "Config \<Rightarrow> 's s3api \<Rightarrow> string \<Rightarrow> (('s, 'z) cworld_scheme, unit) prog" where
  "stream_fill cfg cli hash =
     bindM (cacheGet hash) (\<lambda>hit. if hit \<noteq> None then ret () else catUnderSem cfg cli hash)"

definition stream_prefetch ::
  "(panicval \<Rightarrow> panicval) \<Rightarrow> Config \<Rightarrow> 's s3api \<Rightarrow> string \<Rightarrow> (('s, 'z) cworld_scheme, unit) prog" where
  "stream_prefetch sf cfg cli hash =
     sf_Do sf (bindM (cacheGet hash) (\<lambda>hit.
       if hit \<noteq> None then ret ()
       else bindM (Try (catUnderSem cfg cli hash)) (\<lambda>_. ret ())))"

definition fetch ::
  "(panicval \<Rightarrow> panicval) \<Rightarrow> Config \<Rightarrow> 's s3api \<Rightarrow> string list \<Rightarrow> int \<Rightarrow> (('s, 'z) cworld_scheme, bytes) prog" where
  "fetch sf cfg cli hashes idx =
     (let d = PrefetchDistance cfg in
      bindM (if d > 0 \<and> wrap64 (idx + d) < int (length hashes)
             then bindM (go_index hashes (wrap64 (idx + d))) (\<lambda>hash. spawn hash)
             else ret ()) (\<lambda>_.
      bindM (go_index hashes idx) (\<lambda>hash.
      bindM (cacheGet hash) (\<lambda>hit. case hit of
          Some data \<Rightarrow> ret data
        | None \<Rightarrow>
            bindM (sf_Do sf (stream_fill cfg cli hash)) (\<lambda>_.
            bindM (cacheGet hash) (\<lambda>r. case r of
                Some data \<Rightarrow> ret data
              | None \<Rightarrow> ThrowFmt ''repack: piece %s missing from cache after fetch (LRU evicted under contention?)''
                  [AStr hash]))))))"

text \<open>The same in a process where prefetch goroutines run at every step, as for \<open>getPiece_busy\<close>.\<close>

definition slot_cat :: "Config \<Rightarrow> 's s3api \<Rightarrow> string \<Rightarrow> (('s, 'z) cworld_scheme, bytes) prog" where
  "slot_cat cfg cli hash = (if UpSem cfg \<le> 0 then block else Cat cfg cli (KeyPiece cfg hash))"

definition fetch_busy ::
  "(panicval \<Rightarrow> panicval) \<Rightarrow> Config \<Rightarrow> 's s3api \<Rightarrow> (int \<Rightarrow> others) \<Rightarrow> string list \<Rightarrow> int
    \<Rightarrow> (('s, 'z) cworld_scheme, bytes) prog" where
  "fetch_busy sf cfg cli bg hashes idx =
     bindM (busy_cache sf cfg (slot_cat cfg cli) (stream_prefetch sf cfg cli) (bg idx) hashes idx) (\<lambda>r. case r of
         Some data \<Rightarrow> ret data
       | None \<Rightarrow> ThrowFmt ''repack: piece %s missing from cache after fetch (LRU evicted under contention?)''
           [AStr (hashes ! nat idx)])"

lemma catUnderSem_slot: "catUnderSem cfg cli h = bindM (slot_cat cfg cli h) (\<lambda>d. cachePut h d)"
  by (simp add: catUnderSem_def slot_cat_def block_def bindM_def fun_eq_iff)

lemma fetch_busy_idle: "fetch_busy sf cfg cli (\<lambda>_. alone) hashes idx w = fetch sf cfg cli hashes idx w"
  by (auto simp: fetch_busy_def busy_cache_def busy_call_def fetch_def stream_fill_def catUnderSem_slot alone_def Let_def
      bindM_assoc bindM_case_option bindM_ret go_index_def cong: option.case_cong if_cong)

text \<open>
  The error is real: with room for one piece, a prefetch between the end of the fetch and the last lookup pushes the piece
  out, and the run is over.
\<close>

lemma fetch_evicted:
  "\<exists>w'. fetch_busy id (cfg_lru 1) mem_s3 (\<lambda>_. others_at Returning [''p1'']) [''p0'', ''p1''] 0 (reader0 bucket_p 1)
    = ThrowFmt ''repack: piece %s missing from cache after fetch (LRU evicted under contention?)'' [AStr ''p0''] w'"
proof -
  let ?run = "fetch_busy id (cfg_lru 1) mem_s3 (\<lambda>_. others_at Returning [''p1'']) [''p0'', ''p1''] 0 (reader0 bucket_p 1)"
  have "fst ?run = fst (ThrowFmt ''repack: piece %s missing from cache after fetch (LRU evicted under contention?)'' [AStr ''p0'']
      (reader0 bucket_p 1) :: bytes outcome \<times> mem cworld)" by code_simp
  then show ?thesis by (intro exI [of _ "snd ?run"]) (simp add: ThrowFmt_run prod_eq_iff)
qed

section \<open>Uploading a new piece\<close>

definition upload :: "Config \<Rightarrow> 's s3api \<Rightarrow> string \<times> bytes \<Rightarrow> (('s, 'z) rworld_scheme, unit) prog" where
  "upload cfg cli kc = uncaught (
     if UpSem cfg \<le> 0 then block
     else bindM (Stat cfg cli (fst kc)) (\<lambda>there.
       if there then modifyM (\<lambda>w. w\<lparr>rp_skip := rp_skip w + 1\<rparr>)
       else bindM (PutBytes cfg cli (fst kc) (snd kc)) (\<lambda>_.
         modifyM (\<lambda>w. w\<lparr>rp_new := rp_new w + 1\<rparr>))))"

text \<open>The goroutine of a new piece joins the pending ones, of which some run now.\<close>

type_synonym uploads = "nat \<Rightarrow> (string \<times> bytes) list \<Rightarrow> (string \<times> bytes) list \<times> (string \<times> bytes) list"

definition uploads_law :: "uploads \<Rightarrow> bool" where
  "uploads_law ups \<longleftrightarrow> (\<forall>k p. mset (fst (ups k p)) + mset (snd (ups k p)) = mset p)"

definition emit ::
  "Config \<Rightarrow> 's s3api \<Rightarrow> uploads \<Rightarrow> nat \<Rightarrow> bytes \<Rightarrow> (('s, 'z) rworld_scheme, unit) prog" where
  "emit cfg cli ups k chunk =
     bindM (getM rp_pending) (\<lambda>p.
       let p = p @ [(KeyPiece cfg (hex_EncodeToString (sha1_Sum chunk)), chunk)] in
       bindM (modifyM (\<lambda>w. w\<lparr>rp_pending := snd (ups k p)\<rparr>)) (\<lambda>_.
         forM (fst (ups k p)) (upload cfg cli)))"

section \<open>The main loop\<close>

lemma ReadFull_ahead:
  assumes "ReadFull get nh plen s [] w = (Ret ((out, None), s'), w')" and "plen \<noteq> 0"
  shows "(s', s) \<in> stream_less nh"
  using ReadFull_less [OF assms(1)] ReadFull_None [OF assms(1)] assms(2) by auto

text \<open>
  \<open>np\<close> is \<open>newPieces\<close>, \<open>br\<close> is \<open>bytesRead\<close>. With a piece size of zero the loop would not end;
  the caller has panicked by then.
\<close>

function repack_loop ::
  "(nat \<Rightarrow> ('w, bytes) prog) \<Rightarrow> nat \<Rightarrow> nat \<Rightarrow> (nat \<Rightarrow> bytes \<Rightarrow> ('w, unit) prog) \<Rightarrow> nat \<Rightarrow> pieceStream
    \<Rightarrow> bytes \<Rightarrow> int \<Rightarrow> ('w, bytes \<times> int) prog" where
  "repack_loop get nh plen em k s np br w =
     (if plen = 0 then (Blocked, w)
      else case ReadFull get nh plen s [] w of
        (Ret ((chunk, err), s'), w1) \<Rightarrow>
          (case (if chunk \<noteq> [] then em k chunk else ret ()) w1 of
             (Ret _, w2) \<Rightarrow>
               let np = (if chunk \<noteq> [] then np @ sha1_Sum chunk else np);
                   br = (if chunk \<noteq> [] then wrap64 (br + int (length chunk)) else br)
               in (case err of
                     None \<Rightarrow> repack_loop get nh plen em (k + 1) s' np br w2
                   | Some e \<Rightarrow>
                       if e = EOF \<or> e = ErrUnexpectedEOF then (Ret (np, br), w2)
                       else (Panicked (PException (New e)), w2))
           | (Panicked p, w2) \<Rightarrow> (Panicked p, w2)
           | (Blocked, w2) \<Rightarrow> (Blocked, w2))
      | (Panicked p, w1) \<Rightarrow> (Panicked p, w1)
      | (Blocked, w1) \<Rightarrow> (Blocked, w1))"
  by pat_completeness auto
termination
proof (relation "measures [\<lambda>(get, nh, plen, em, k, s, np, br, w). nh - st_cur s,
     \<lambda>(get, nh, plen, em, k, s, np, br, w). if st_buf s = None then 1 else 0,
     \<lambda>(get, nh, plen, em, k, s, np, br, w). case st_buf s of None \<Rightarrow> 0 | Some d \<Rightarrow> length d - st_pos s]", goal_cases)
  case (2 get nh plen em k s np br w)
  then show ?case
    by (auto dest!: ReadFull_ahead [OF sym] simp: stream_less_def)
qed simp

declare repack_loop.simps [simp del]

section \<open>runRepack\<close>

definition extractInfohash :: "string \<Rightarrow> ('w, string) prog" where
  "extractInfohash p =
     (let p = path_Base (strings_TrimRight p ''/'') in
      if length p \<noteq> 40 then ThrowFmt ''repack: expected 40-char hex infohash at end of path, got %q'' [AStr p]
      else (case hex_DecodeString p of
          Inl err \<Rightarrow> ThrowFmt ''repack: not a hex infohash: %s (%v)'' [AStr p, AErr err]
        | Inr _ \<Rightarrow> ret p))"

text \<open>The source torrent: loaded, parsed, checked against the name it was asked for by.\<close>

definition repack_source ::
  "Config \<Rightarrow> 's s3api \<Rightarrow> metalib \<Rightarrow> string \<Rightarrow> (('s, 'z) world_scheme, MetaInfo \<times> Info \<times> TorrentMeta) prog" where
  "repack_source cfg cli lib infohash =
     bindM (Cat cfg cli (KeyTorrent cfg infohash)) (\<lambda>raw.
     bindM (ThrowE (Load lib raw)) (\<lambda>mi.
     bindM (ThrowE (UnmarshalInfo lib mi)) (\<lambda>info.
     let loadedHash = hex_EncodeToString (HashInfoBytes lib mi) in
     if loadedHash \<noteq> infohash then
       ThrowFmt ''repack: loaded torrent infohash mismatch: %s != %s'' [AStr loadedHash, AStr infohash]
     else bindM (buildMeta lib info infohash) (\<lambda>tm. ret (mi, info, tm)))))"

text \<open>From \<open>putWg.Wait\<close> on: the uploads that have not run yet, the check, and the new torrent.\<close>

definition repack_publish ::
  "Config \<Rightarrow> 's s3api \<Rightarrow> metalib \<Rightarrow> string \<Rightarrow> MetaInfo \<Rightarrow> Info \<Rightarrow> int \<Rightarrow> bytes \<Rightarrow> int
    \<Rightarrow> (('s, 'z) rworld_scheme, unit) prog" where
  "repack_publish cfg cli lib infohash mi info pieceSize newPieces bytesRead =
     bindM (getM rp_pending) (\<lambda>p.
     bindM (modifyM (\<lambda>w. w\<lparr>rp_pending := []\<rparr>)) (\<lambda>_.
     bindM (forM p (upload cfg cli)) (\<lambda>_.
     if bytesRead \<noteq> TotalLength lib info then
       ThrowFmt ''repack: streamed %d bytes but expected %d'' [AInt bytesRead, AInt (TotalLength lib info)]
     else
     bindM (ThrowE (Marshal lib (info\<lparr>info_PieceLength := pieceSize, info_Pieces := newPieces\<rparr>))) (\<lambda>infoBytes.
     let mi = mi\<lparr>mi_InfoBytes := infoBytes\<rparr>;
         newInfohash = hex_EncodeToString (HashInfoBytes lib mi) in
     bindM (ThrowE (Write lib mi)) (\<lambda>rawNew.
     if newInfohash = infohash then ret ()
     else PutBytes cfg cli (KeyTorrent cfg newInfohash) rawNew)))))"

definition runRepack ::
  "(panicval \<Rightarrow> panicval) \<Rightarrow> Config \<Rightarrow> 's s3api \<Rightarrow> metalib \<Rightarrow> (int \<Rightarrow> others) \<Rightarrow> uploads
    \<Rightarrow> string \<Rightarrow> int \<Rightarrow> (('s, 'z) rworld_scheme, unit) prog" where
  "runRepack sf cfg cli lib bg ups target pieceSize =
     bindM (extractInfohash target) (\<lambda>infohash.
     bindM (modifyM (\<lambda>w. w\<lparr>rw_cache := newLRU (LRUSize cfg), rp_pending := [], rp_new := 0, rp_skip := 0\<rparr>)) (\<lambda>_.
     bindM (repack_source cfg cli lib infohash) (\<lambda>(mi, info, tm).
     if UpSem cfg < 0 then panic (PRuntime ''makechan: size out of range'')
     else if pieceSize < 0 then panic (PRuntime ''makeslice: len out of range'')
     else if pieceSize = 0 then panic (PRuntime ''integer divide by zero'')
     else if wrap64 (20 * (wrap64 (TotalLength lib info + pieceSize - 1) sdiv pieceSize)) < 0 then
       panic (PRuntime ''makeslice: cap out of range'')
     else
     bindM (repack_loop (\<lambda>i. fetch_busy sf cfg cli bg (PieceHashes tm) (int i)) (length (PieceHashes tm))
              (nat pieceSize) (emit cfg cli ups) 0 stream0 [] 0) (\<lambda>(newPieces, bytesRead).
     repack_publish cfg cli lib infohash mi info pieceSize newPieces bytesRead))))"

section \<open>What every step keeps\<close>

text \<open>
  \<open>f0\<close> is the bucket before the run, \<open>cs\<close> are the new pieces. The bucket only gains new pieces
  under their own names; every pending upload is one of them; and each of those cut so far,
  \<open>dn\<close>, is running, pending or stored.
\<close>

definition piece_key :: "Config \<Rightarrow> bytes \<Rightarrow> string" where
  "piece_key cfg c = KeyPiece cfg (hex_EncodeToString (sha1_Sum c))"

definition named :: "(string \<Rightarrow> bytes option) \<Rightarrow> bytes list \<Rightarrow> bool" where
  "named content cs \<longleftrightarrow> (\<forall>c\<in>set cs. content (hex_EncodeToString (sha1_Sum c)) = Some c)"

definition gained ::
  "Config \<Rightarrow> (string \<Rightarrow> bytes option) \<Rightarrow> bytes list \<Rightarrow> (string \<Rightarrow> bytes option) \<Rightarrow> bool" where
  "gained cfg f0 cs f \<longleftrightarrow> (\<forall>k. f k = f0 k \<or> (\<exists>c\<in>set cs. k = piece_key cfg c \<and> f k = Some c))"

definition uploading ::
  "Config \<Rightarrow> 's view \<Rightarrow> (string \<Rightarrow> bytes option) \<Rightarrow> bytes list \<Rightarrow> bytes list \<Rightarrow> (string \<times> bytes) list
    \<Rightarrow> ('s, 'z) rworld_scheme \<Rightarrow> bool" where
  "uploading cfg objs f0 cs dn run w \<longleftrightarrow>
     gained cfg f0 cs (objs (w_s3 w) (S3Bucket cfg))
     \<and> (\<forall>kc\<in>set run \<union> set (rp_pending w). snd kc \<in> set cs \<and> fst kc = piece_key cfg (snd kc))
     \<and> (\<forall>c\<in>set dn. (piece_key cfg c, c) \<in> set run \<union> set (rp_pending w)
          \<or> objs (w_s3 w) (S3Bucket cfg) (piece_key cfg c) = Some c)"

definition repacking ::
  "Config \<Rightarrow> 's s3api \<Rightarrow> 's view \<Rightarrow> (string \<Rightarrow> bytes option) \<Rightarrow> (string \<Rightarrow> bytes option) \<Rightarrow> bytes list
    \<Rightarrow> bytes list \<Rightarrow> (string \<times> bytes) list \<Rightarrow> ('s, 'z) rworld_scheme \<Rightarrow> bool" where
  "repacking cfg cli objs content f0 cs dn run w \<longleftrightarrow>
     coherent cfg cli objs content w \<and> uploading cfg objs f0 cs dn run w"

lemma keeps_conj: "keeps P m \<Longrightarrow> keeps Q m \<Longrightarrow> keeps (\<lambda>w. P w \<and> Q w) m"
  by (simp add: keeps_def)

text \<open>Reading touches neither the objects nor the pending uploads.\<close>

lemma keeps_uploading:
  "keeps (uploading cfg objs f0 cs dn run) (cacheGet h)"
  "keeps (uploading cfg objs f0 cs dn run) (cachePut h d)"
  "keeps (uploading cfg objs f0 cs dn run) (spawn h)"
  by (simp_all add: keeps_def uploading_def cacheGet_run cachePut_def spawn_def modifyM_run)

lemma keeps_uploading_Cat:
  assumes "s3_laws cli objs" shows "keeps (uploading cfg objs f0 cs dn run) (Cat cfg cli k)"
proof (rule keepsI)
  fix w r w' assume u: "uploading cfg objs f0 cs dn run w" and c: "Cat cfg cli k w = (r, w')"
  from Cat_law [OF assms c] Cat_frame [OF c] u show "uploading cfg objs f0 cs dn run w'"
    by (auto simp: uploading_def)
qed

lemma keeps_repacking [keeps_intros]:
  "keeps (repacking cfg cli objs content f0 cs dn run) (cacheGet h)"
  "keeps (repacking cfg cli objs content f0 cs dn run) (spawn h)"
  unfolding repacking_def [abs_def] by (intro keeps_conj keeps_intros keeps_uploading)+

lemma keeps_repacking_catUnderSem [keeps_intros]:
  "keeps (repacking cfg cli objs content f0 cs dn run) (catUnderSem cfg cli h)"
proof (cases "s3_laws cli objs")
  case True
  then show ?thesis
    unfolding repacking_def [abs_def] catUnderSem_def
    by (intro keeps_conj keeps_intros keeps_uploading keeps_uploading_Cat)
next
  case False
  then show ?thesis by (simp add: keeps_def repacking_def coherent_def)
qed

lemma keeps_stream_fill [keeps_intros]:
  "keeps (repacking cfg cli objs content f0 cs dn run) (stream_fill cfg cli h)"
  unfolding stream_fill_def by (intro keeps_intros)

lemma keeps_stream_prefetch [keeps_intros]:
  "keeps (repacking cfg cli objs content f0 cs dn run) (stream_prefetch sf cfg cli h)"
  unfolding stream_prefetch_def by (intro keeps_intros)

lemma keeps_repacking_put:
  fixes m :: "(('s, 'z) rworld_scheme, unit) prog"
  assumes "keeps (repacking cfg cli objs content f0 cs dn run) m"
  shows "keeps (repacking cfg cli objs content f0 cs dn run) (bindM (slot_cat cfg cli h) (\<lambda>d. bindM m (\<lambda>_. cachePut h d)))"
proof (cases "UpSem cfg \<le> 0")
  case False
  have "keeps (repacking cfg cli objs content f0 cs dn run) (bindM (Cat cfg cli (KeyPiece cfg h)) (\<lambda>d. bindM m (\<lambda>_. cachePut h d)))"
  proof (rule keeps_fetched [OF _ _ _ assms])
    fix w r w' assume rp: "repacking cfg cli objs content f0 cs dn run w" and c: "Cat cfg cli (KeyPiece cfg h) w = (r, w')"
    then have "coherent cfg cli objs content w" "s3_laws cli objs" by (simp_all add: repacking_def coherent_def)
    with rp coherent_Cat [OF _ c] keepsD [OF keeps_uploading_Cat _ c] show "repacking cfg cli objs content f0 cs dn run w'"
      by (auto simp: repacking_def)
  qed (auto simp: repacking_def coherent_def uploading_def lru.put_ok lru.agrees_put)
  with False show ?thesis by (simp add: slot_cat_def)
qed (simp add: slot_cat_def block_def bindM_def keeps_def)

lemma keeps_fetch_busy [keeps_intros]:
  "keeps (repacking cfg cli objs content f0 cs dn run) (fetch_busy sf cfg cli bg hashes idx)"
  unfolding fetch_busy_def
  by (rule keeps_bindM [OF keeps_busy_cache [OF keeps_repacking(2,1) keeps_stream_prefetch keeps_repacking_put]])
    (auto split: option.split intro!: keeps_intros)

text \<open>What \<open>fetch\<close> returns is the right piece.\<close>

lemma fetch_right:
  assumes "repacking cfg cli objs content f0 cs dn run w" and i: "0 \<le> idx" "idx < int (length hashes)"
    and "fetch_busy sf cfg cli bg hashes idx w = (Ret d, w')"
  shows "content (hashes ! nat idx) = Some d"
proof -
  from assms(4) have t: "busy_cache sf cfg (slot_cat cfg cli) (stream_prefetch sf cfg cli) (bg idx) hashes idx w = (Ret (Some d), w')"
    by (auto simp: fetch_busy_def bindM_Ret_iff ret_run ThrowFmt_run split: option.splits)
  from busy_cache_from [OF assms(1) keeps_repacking(2,1) keeps_stream_prefetch keeps_repacking_put i t]
  show ?thesis by (auto simp: repacking_def coherent_def dest: lru.agrees_hit)
qed


section \<open>Uploads\<close>

lemma PutBytes_frame: "PutBytes cfg cli k d w = (r, w') \<Longrightarrow> \<exists>s n. w' = w\<lparr>w_s3 := s, w_puts := n\<rparr>"
  by (auto simp: PutBytes_def bindM_def call_def outcome_simps split: option.splits prod.splits)
    (metis world.surjective world.update_convs(1,2))+

lemma gained_put:
  "gained cfg f0 cs f \<Longrightarrow> c \<in> set cs \<Longrightarrow> gained cfg f0 cs (f(piece_key cfg c \<mapsto> c))"
  by (auto simp: gained_def)

text \<open>Whatever happens to an upload, what was kept is kept, and one that returns has its piece stored.\<close>

lemma upload_kept:
  assumes rp: "repacking cfg cli objs content f0 cs dn ((k, c) # run) w" and nm: "named content cs"
    and v: "rw_cache v = rw_cache w" "rp_pending v = rp_pending w"
      "objs (w_s3 v) (S3Bucket cfg) = objs (w_s3 w) (S3Bucket cfg) \<or> objs (w_s3 v) (S3Bucket cfg) = (objs (w_s3 w) (S3Bucket cfg))(k \<mapsto> c)"
  shows "repacking cfg cli objs content f0 cs [] run v
    \<and> (objs (w_s3 v) (S3Bucket cfg) k \<noteq> None \<longrightarrow> repacking cfg cli objs content f0 cs dn run v)"
proof -
  let ?o = "\<lambda>w. objs (w_s3 w) (S3Bucket cfg)"
  have k: "k = piece_key cfg c" "c \<in> set cs" using rp by (auto simp: repacking_def uploading_def)
  then have cc: "content (hex_EncodeToString (sha1_Sum c)) = Some c" using nm by (simp add: named_def)
  have eq: "x = c" if "?o w (piece_key cfg c) = Some x" for x
    using that rp cc by (auto simp: repacking_def coherent_def sound_store_def piece_key_def)
  have "gained cfg f0 cs (?o v)" using v(3) rp gained_put [OF _ k(2)] by (auto simp: repacking_def uploading_def k(1))
  moreover have "sound_store cfg objs content (w_s3 v)"
    using v(3) rp cc by (auto simp: repacking_def coherent_def sound_store_def k(1) piece_key_def split: if_splits)
  ultimately show ?thesis using rp v eq
    by (auto simp: repacking_def coherent_def uploading_def k(1) split: if_splits)
qed

lemma upload_keeps:
  assumes rp: "repacking cfg cli objs content f0 cs dn ((k, c) # run) w" and nm: "named content cs"
    and run: "upload cfg cli (k, c) w = (r, w')"
  shows "repacking cfg cli objs content f0 cs [] run w' \<and> (\<forall>u. r = Ret u \<longrightarrow>
    repacking cfg cli objs content f0 cs dn run w')"
proof -
  let ?o = "\<lambda>w. objs (w_s3 w) (S3Bucket cfg)"
  have laws: "s3_laws cli objs" using rp by (simp add: repacking_def coherent_def)
  note keep = upload_kept [OF rp nm]
  show ?thesis
  proof (cases "UpSem cfg \<le> 0")
    case True
    with run keep [of w] show ?thesis by (auto simp: upload_def uncaught_def block_run)
  next
    case False
    obtain b w1 where st: "Stat cfg cli k w = (Ret b, w1)" using Stat_law [OF laws] by (metis prod.collapse)
    from Stat_law [OF laws st] Stat_frame [OF st] have o1: "?o w1 = ?o w" "b \<Longrightarrow> ?o w k \<noteq> None"
      and f1: "rw_cache w1 = rw_cache w" "rp_pending w1 = rp_pending w" by auto
    show ?thesis
    proof (cases b)
      case True
      with keep [of w'] run False st o1 f1 show ?thesis
        by (auto simp: upload_def uncaught_def bindM_def modifyM_run)
    next
      case b: False
      obtain q w2 where pb: "PutBytes cfg cli k c w1 = (q, w2)" by fastforce
      from PutBytes_law [OF laws pb] PutBytes_frame [OF pb] o1 f1
      have o2: "?o w2 = (?o w)(k \<mapsto> c) \<or> (\<forall>u. q \<noteq> Ret u) \<and> ?o w2 = ?o w"
        and f2: "rw_cache w2 = rw_cache w" "rp_pending w2 = rp_pending w" by (auto simp: upd2_def)
      with run False st b pb keep [of w2] keep [of w'] show ?thesis
        by (cases q) (auto simp: upload_def uncaught_def bindM_def modifyM_run)
    qed
  qed
qed

lemma uploads_keep:
  assumes "named content cs"
  shows "repacking cfg cli objs content f0 cs dn run w \<Longrightarrow> forM run (upload cfg cli) w = (r, w') \<Longrightarrow>
    repacking cfg cli objs content f0 cs [] [] w' \<and> (\<forall>u. r = Ret u \<longrightarrow> repacking cfg cli objs content f0 cs dn [] w')"
proof (induction run arbitrary: w dn)
  case Nil
  then show ?case by (auto simp: ret_run repacking_def uploading_def)
next
  case (Cons kc run)
  obtain k c where kc: "kc = (k, c)" by fastforce
  obtain q w1 where u: "upload cfg cli (k, c) w = (q, w1)" by fastforce
  note up = upload_keeps [OF Cons.prems(1) [unfolded kc] assms u]
  show ?case
  proof (cases "q = Ret ()")
    case True
    with up u Cons.prems(2) Cons.IH kc show ?thesis by (auto simp: bindM_def)
  next
    case False
    with u Cons.prems(2) kc have "w' = w1" "\<forall>u. r \<noteq> Ret u" by (cases q; auto simp: bindM_def)+
    with up show ?thesis by (auto simp: repacking_def uploading_def)
  qed
qed


lemma emit_keeps:
  assumes rp: "repacking cfg cli objs content f0 cs dn [] w" and nm: "named content cs" and "uploads_law ups"
    and "c \<in> set cs" and run: "emit cfg cli ups k c w = (r, w')"
  shows "repacking cfg cli objs content f0 cs [] [] w' \<and> (\<forall>u. r = Ret u \<longrightarrow>
    repacking cfg cli objs content f0 cs (dn @ [c]) [] w')"
proof -
  let ?p = "rp_pending w @ [(piece_key cfg c, c)]"
  have "set (fst (ups k ?p)) \<union> set (snd (ups k ?p)) = set ?p"
    using assms(3) unfolding uploads_law_def by (metis set_mset_mset set_mset_union)
  then have "repacking cfg cli objs content f0 cs (dn @ [c]) (fst (ups k ?p)) (w\<lparr>rp_pending := snd (ups k ?p)\<rparr>)"
    using rp assms(4) by (fastforce simp: repacking_def coherent_def uploading_def)
  from uploads_keep [OF nm this] run show ?thesis
    by (simp add: emit_def bindM_getM bindM_modifyM Let_def piece_key_def)
qed

section \<open>The piece stream is an exact source\<close>

type_synonym 's repacker =
  "(panicval \<Rightarrow> panicval) \<times> Config \<times> 's s3api \<times> 's view \<times> (string \<Rightarrow> bytes option) \<times> ('s \<Rightarrow> bool)
    \<times> (int \<Rightarrow> others) \<times> string list \<times> (string \<Rightarrow> bytes option) \<times> bytes list \<times> bytes list"

fun stream_piece :: "'s repacker \<Rightarrow> int \<Rightarrow> (('s, 'z) rworld_scheme, bytes) prog" where
  "stream_piece (sf, cfg, cli, objs, content, up, bg, hashes, f0, cs, dn) = fetch_busy sf cfg cli bg hashes"

fun stream_inv :: "'s repacker \<Rightarrow> bytes list \<Rightarrow> ('s, 'z) rworld_scheme \<Rightarrow> bool" where
  "stream_inv (sf, cfg, cli, objs, content, up, bg, hashes, f0, cs, dn) ps w \<longleftrightarrow>
     repacking cfg cli objs content f0 cs dn [] w \<and> map content hashes = map Some ps"

fun stream_live :: "'s repacker \<Rightarrow> bytes list \<Rightarrow> ('s, 'z) rworld_scheme \<Rightarrow> bool" where
  "stream_live (sf, cfg, cli, objs, content, up, bg, hashes, f0, cs, dn) ps w \<longleftrightarrow>
     serving cfg cli objs up hashes w \<and> leaves_room cfg bg \<and> 0 < UpSem cfg \<and> PrefetchDistance cfg + int (length hashes) < 2 ^ 63"

lemma stream_prefetch_slot: "0 < UpSem cfg \<Longrightarrow> stream_prefetch sf cfg cli = prefetch sf cfg cli"
  by (simp add: fun_eq_iff stream_prefetch_def prefetch_def catUnderSem_def cong: if_cong)

lemma stream_piece_exact:
  assumes "stream_inv c ps w" and "0 \<le> i" and "i < int (length ps)" and "stream_piece c i w = (Ret d, w')"
  shows "d = ps ! nat i"
proof -
  obtain sf cfg cli objs content up bg hashes f0 cs dn where
    c: "c = (sf, cfg, cli, objs, content, up, bg, hashes, f0, cs, dn)" by (cases c) auto
  have rp: "repacking cfg cli objs content f0 cs dn [] w" and m: "map content hashes = map Some ps"
    using assms(1) c by simp_all
  have "fetch_busy sf cfg cli bg hashes i w = (Ret d, w')" using assms(4) c by simp
  from fetch_right [OF rp _ _ this] assms(2,3) map_Some_nth [OF m] show ?thesis by auto
qed

interpretation rp: exact_live stream_piece stream_inv stream_live
proof (unfold_locales, goal_cases)
  case (1 c ps w i r w')
  obtain sf cfg cli objs content up bg hashes f0 cs dn where
    c: "c = (sf, cfg, cli, objs, content, up, bg, hashes, f0, cs, dn)" by (cases c) auto
  have "keeps (repacking cfg cli objs content f0 cs dn []) (fetch_busy sf cfg cli bg hashes i)"
    by (intro keeps_intros)
  from keepsD [OF this, of w r w'] 1 c show ?case by simp
next
  case (4 c ps w i)
  obtain sf cfg cli objs content up bg hashes f0 cs dn where
    c: "c = (sf, cfg, cli, objs, content, up, bg, hashes, f0, cs, dn)" by (cases c) auto
  have co: "coherent cfg cli objs content w" and m: "map content hashes = map Some ps"
    using 4(1) c by (simp_all add: repacking_def)
  have rd: "ready cfg cli objs content up hashes w" and pd: "PrefetchDistance cfg + int (length hashes) < 2 ^ 63"
    and sem: "0 < UpSem cfg" and room: "leaves_room cfg bg" using 4(2) co c by (simp_all add: ready_def)
  have cat: "slot_cat cfg cli = (\<lambda>h. Cat cfg cli (KeyPiece cfg h))" using sem by (simp add: fun_eq_iff slot_cat_def)
  have "i < int (length hashes)" using 4(4) map_Some_nth [OF m] by simp
  with busy_cache_live [OF rd 4(3) _ pd, of "bg i" sf] room obtain d w' where
    "fetch_busy sf cfg cli bg hashes i w = (Ret d, w')" "content (hashes ! nat i) = Some d" "ready cfg cli objs content up hashes w'"
    by (auto simp: fetch_busy_def leaves_room_def cat stream_prefetch_slot [OF sem] bindM_def ret_run)
  moreover have "content (hashes ! nat i) = Some (ps ! nat i)" using map_Some_nth [OF m] 4(3,4) by simp
  ultimately show ?case using pd sem room c by (simp add: ready_def)
qed (auto dest: stream_piece_exact)


section \<open>The loop cuts the stream\<close>

lemma upload_live:
  assumes laws: "s3_laws cli objs" and sv: "serving cfg cli objs up hs w" and sem: "0 < UpSem cfg"
  shows "\<exists>w'. upload cfg cli (k, c) w = (Ret (), w') \<and> serving cfg cli objs up hs w'"
proof -
  have up: "s3_up cli objs up" "up (w_s3 w)" using sv by (simp_all add: serving_def)
  obtain b s1 where st: "Stat cfg cli k w = (Ret b, w\<lparr>w_s3 := s1\<rparr>)" and up1: "up s1"
    using Stat_up [OF up] by blast
  let ?w1 = "w\<lparr>w_s3 := s1\<rparr>"
  have o1: "objs s1 = objs (w_s3 w)" using Stat_law [OF laws st] by simp
  show ?thesis
  proof (cases b)
    case True
    with st sem have "upload cfg cli (k, c) w = (Ret (), ?w1\<lparr>rp_skip := rp_skip ?w1 + 1\<rparr>)"
      by (simp add: upload_def uncaught_def bindM_def modifyM_run)
    with sv up1 o1 show ?thesis by (simp add: serving_def)
  next
    case False
    obtain s2 where pb: "PutBytes cfg cli k c ?w1 = (Ret (), ?w1\<lparr>w_s3 := s2, w_puts := w_puts ?w1 + 1\<rparr>)"
      and up2: "up s2" using PutBytes_up [OF up(1), of ?w1 cfg k c] up1 by auto
    let ?w2 = "?w1\<lparr>w_s3 := s2, w_puts := w_puts ?w1 + 1\<rparr>"
    have "objs s2 = upd2 (objs (w_s3 w)) (S3Bucket cfg) k (Some c)" using PutBytes_law [OF laws pb] o1 by simp
    moreover have "upload cfg cli (k, c) w = (Ret (), ?w2\<lparr>rp_new := rp_new ?w2 + 1\<rparr>)"
      using st pb sem False by (simp add: upload_def uncaught_def bindM_def modifyM_run)
    ultimately show ?thesis using sv up2 by (simp add: serving_def upd2_def)
  qed
qed

lemma uploads_live:
  assumes "s3_laws cli objs" and "0 < UpSem cfg"
  shows "serving cfg cli objs up hs w \<Longrightarrow> \<exists>w'. forM run (upload cfg cli) w = (Ret (), w') \<and> serving cfg cli objs up hs w'"
proof (induction run arbitrary: w)
  case (Cons kc run)
  obtain k c where kc: "kc = (k, c)" by fastforce
  from upload_live [OF assms(1) Cons.prems assms(2), of k c] Cons.IH kc show ?case by (fastforce simp: bindM_def)
qed (simp add: ret_run)

lemma emit_live:
  assumes "s3_laws cli objs" and "0 < UpSem cfg" and "serving cfg cli objs up hs w"
  shows "\<exists>w'. emit cfg cli ups k c w = (Ret (), w') \<and> serving cfg cli objs up hs w'"
proof -
  let ?p = "rp_pending w @ [(KeyPiece cfg (hex_EncodeToString (sha1_Sum c)), c)]"
  have "serving cfg cli objs up hs (w\<lparr>rp_pending := snd (ups k ?p)\<rparr>)" using assms(3) by (simp add: serving_def)
  from uploads_live [OF assms(1,2) this, of "fst (ups k ?p)"] show ?thesis
    by (simp add: emit_def bindM_getM bindM_modifyM Let_def)
qed

lemma repacking_weaken: "repacking cfg cli objs content f0 cs dn run w \<Longrightarrow> repacking cfg cli objs content f0 cs [] run w"
  by (simp add: repacking_def uploading_def)

lemma chunks_step: "0 < n \<Longrightarrow> xs \<noteq> [] \<Longrightarrow> chunks n xs = take n xs # chunks n (drop n xs)"
  by (subst chunks.simps) simp

text \<open>One turn of the loop whose read returned: the next chunk of the stream is emitted, or the stream is at its end.\<close>

lemma cut_turn:
  assumes nm: "named content cs" and ul: "uploads_law ups" and n: "0 < n" and hs: "map content hashes = map Some ps"
    and rp: "repacking cfg cli objs content f0 cs dn [] w" and so: "stream_ok ps s"
    and cs: "cs = dn @ chunks n (stream_rest ps s)"
    and rf: "ReadFull (\<lambda>i. fetch_busy sf cfg cli bg hashes (int i)) (length ps) n s [] w = (Ret ((out, e), s1), w1)"
    and em: "(if out \<noteq> [] then emit cfg cli ups k out else ret ()) w1 = (q, w2)"
    and dn': "dn' = dn @ (if out = [] then [] else [out])"
  shows "stream_ok ps s1 \<and> cs = dn' @ chunks n (stream_rest ps s1)
    \<and> repacking cfg cli objs content f0 cs [] [] w2 \<and> (\<forall>u. q = Ret u \<longrightarrow> repacking cfg cli objs content f0 cs dn' [] w2)
    \<and> (case e of None \<Rightarrow> length (stream_rest ps s1) < length (stream_rest ps s)
        | Some x \<Rightarrow> (x = EOF \<or> x = ErrUnexpectedEOF) \<and> cs = dn')
    \<and> (stream_live (sf, cfg, cli, objs, content, up, bg, hashes, f0, cs, dn) ps w \<longrightarrow>
        q = Ret () \<and> serving cfg cli objs up hashes w2)"
proof -
  let ?c = "(sf, cfg, cli, objs, content, up, bg, hashes, f0, cs, dn)"
  have inv: "stream_inv ?c ps w" using rp hs by simp
  have laws: "s3_laws cli objs" using rp by (simp add: repacking_def coherent_def)
  have rf': "ReadFull (\<lambda>i. stream_piece ?c (int i)) (length ps) n s [] w = (Ret ((out, e), s1), w1)" using rf by simp
  note sp = rp.ReadFull_spec [OF inv so rf']
  then have w1: "repacking cfg cli objs content f0 cs dn [] w1" and ok1: "stream_ok ps s1"
    and out: "out = take n (stream_rest ps s)" and rest1: "stream_rest ps s1 = drop n (stream_rest ps s)"
    and e: "e = (if n \<le> length out then None else if out = [] then Some EOF else Some ErrUnexpectedEOF)" by auto
  have live1: "serving cfg cli objs up hashes w1" if "stream_live ?c ps w"
    using rp.ReadFull_live [OF inv that so, of n "[]"] rf' by auto
  show ?thesis
  proof (cases "stream_rest ps s = []")
    case True
    with n out e rest1 em ok1 w1 cs live1 show ?thesis by (auto simp: dn' ret_run dest: repacking_weaken)
  next
    case False
    then have ne: "out \<noteq> []" and cs1: "cs = (dn @ [out]) @ chunks n (stream_rest ps s1)"
      using cs n out rest1 by (simp_all add: chunks_step)
    have em': "emit cfg cli ups k out w1 = (q, w2)" using em ne by simp
    have "out \<in> set cs" by (subst cs1) simp
    note ek = emit_keeps [OF w1 nm ul this em']
    have live2: "q = Ret () \<and> serving cfg cli objs up hashes w2" if "stream_live ?c ps w"
      using emit_live [OF laws _ live1 [OF that], of ups k out] em' that by auto
    have "case e of None \<Rightarrow> length (stream_rest ps s1) < length (stream_rest ps s)
        | Some x \<Rightarrow> (x = EOF \<or> x = ErrUnexpectedEOF) \<and> stream_rest ps s1 = []"
      using False n ne e out rest1 by auto
    with ok1 cs1 ek live2 ne show ?thesis by (auto simp: dn' split: option.splits)
  qed
qed

lemma repack_loop_cuts:
  assumes nm: "named content cs" and ul: "uploads_law ups" and n: "0 < n"
    and hs: "map content hashes = map Some ps" and len: "length (concat cs) < 2 ^ 63"
  shows "repacking cfg cli objs content f0 cs dn [] w \<Longrightarrow> stream_ok ps s \<Longrightarrow>
    cs = dn @ chunks n (stream_rest ps s) \<Longrightarrow>
    repack_loop (\<lambda>i. fetch_busy sf cfg cli bg hashes (int i)) (length ps) n (emit cfg cli ups) k s
      (concat (map sha1_Sum dn)) (int (length (concat dn))) w = (r, w') \<Longrightarrow>
    repacking cfg cli objs content f0 cs [] [] w'
    \<and> (\<forall>v. r = Ret v \<longrightarrow> repacking cfg cli objs content f0 cs cs [] w'
        \<and> v = (concat (map sha1_Sum cs), int (length (concat cs))))
    \<and> (stream_live (sf, cfg, cli, objs, content, up, bg, hashes, f0, cs, dn) ps w \<longrightarrow>
        (\<exists>v. r = Ret v) \<and> serving cfg cli objs up hashes w')"
proof (induction "length (stream_rest ps s)" arbitrary: dn k s w rule: less_induct)
  case less
  let ?c = "(sf, cfg, cli, objs, content, up, bg, hashes, f0, cs, dn)"
  let ?get = "\<lambda>i. fetch_busy sf cfg cli bg hashes (int i)"
  have inv: "stream_inv ?c ps w" using less.prems(1) hs by simp
  obtain q w1 where rf: "ReadFull ?get (length ps) n s [] w = (q, w1)" by fastforce
  then have rf': "ReadFull (\<lambda>i. stream_piece ?c (int i)) (length ps) n s [] w = (q, w1)" by simp
  show ?case
  proof (cases "\<exists>out e s1. q = Ret ((out, e), s1)")
    case False
    with less.prems(4) n rf have "w' = w1" "\<forall>v. r \<noteq> Ret v"
      by (subst (asm) repack_loop.simps; cases q; auto)+
    with rp.ReadFull_spec [OF inv less.prems(2) rf'] rp.ReadFull_live [OF inv _ less.prems(2), of n "[]"] rf' False
    show ?thesis by (auto dest: repacking_weaken)
  next
    case True
    then obtain out e s1 where q: "q = Ret ((out, e), s1)" by blast
    obtain q2 w2 where em: "(if out \<noteq> [] then emit cfg cli ups k out else ret ()) w1 = (q2, w2)" by fastforce
    define dn' where "dn' = dn @ (if out = [] then [] else [out])"
    note turn = cut_turn [OF nm ul n hs less.prems(1-3) rf [unfolded q] em dn'_def, of up]
    have "length (concat dn') < 2 ^ 63" using turn len by auto
    then have new: "(if out \<noteq> [] then concat (map sha1_Sum dn) @ sha1_Sum out else concat (map sha1_Sum dn)) = concat (map sha1_Sum dn')"
      "(if out \<noteq> [] then wrap64 (int (length (concat dn)) + int (length out)) else int (length (concat dn))) = int (length (concat dn'))"
      by (auto simp: dn'_def intro!: wrap64_nonneg)
    have run: "(case q2 of
        Ret _ \<Rightarrow> (case e of
            None \<Rightarrow> repack_loop ?get (length ps) n (emit cfg cli ups) (k + 1) s1 (concat (map sha1_Sum dn')) (int (length (concat dn'))) w2
          | Some x \<Rightarrow> if x = EOF \<or> x = ErrUnexpectedEOF then (Ret (concat (map sha1_Sum dn'), int (length (concat dn'))), w2)
              else (Panicked (PException (New x)), w2))
      | Panicked p \<Rightarrow> (Panicked p, w2)
      | Blocked \<Rightarrow> (Blocked, w2)) = (r, w')"
      using less.prems(4) n unfolding repack_loop.simps [of _ _ _ _ _ _ _ _ w] rf q em Let_def
      by (simp only: prod.case outcome.case new em if_False) (cases q2; simp)
    show ?thesis
    proof (cases "q2 = Ret () \<and> e = None")
      case True
      from turn have so1: "stream_ok ps s1" and cs1: "cs = dn' @ chunks n (stream_rest ps s1)"
        and rp2: "repacking cfg cli objs content f0 cs dn' [] w2"
        and live: "stream_live ?c ps w \<longrightarrow> serving cfg cli objs up hashes w2" using True by blast+
      have d: "length (stream_rest ps s1) < length (stream_rest ps s)"
        using turn [THEN conjunct2, THEN conjunct2, THEN conjunct2, THEN conjunct2, THEN conjunct1] True by simp
      have run1: "repack_loop ?get (length ps) n (emit cfg cli ups) (k + 1) s1 (concat (map sha1_Sum dn'))
          (int (length (concat dn'))) w2 = (r, w')" using run True by simp
      from less.hyps [OF d rp2 so1 cs1 run1] live show ?thesis by simp
    next
      case False
      with turn run show ?thesis by (cases q2) (auto split: option.splits)
    qed
  qed
qed

section \<open>Reading the source and publishing\<close>

lemma buildMeta_same: "snd (buildMeta lib info ih w) = w"
  by (cases "NumPieces lib info < 0"; cases "has_v1 lib info")
    (simp_all add: buildMeta_negative buildMeta_run buildMeta_v2)

lemma ThrowE_Ret_iff: "ThrowE e w = (Ret x, w') \<longleftrightarrow> e = Inr x \<and> w' = w"
  by (cases e) (auto simp: ThrowE_def ret_run throw_run)

lemma repack_source_law:
  assumes "s3_laws cli objs" and "repack_source cfg cli lib ih w = (r, w')"
  shows "(\<exists>s'. w' = w\<lparr>w_s3 := s'\<rparr> \<and> objs s' = objs (w_s3 w))
    \<and> (\<forall>mi info tm. r = Ret (mi, info, tm) \<longrightarrow> (\<exists>raw. objs (w_s3 w) (S3Bucket cfg) (KeyTorrent cfg ih) = Some raw
        \<and> Load lib raw = Inr mi) \<and> UnmarshalInfo lib mi = Inr info \<and> tm = meta_of lib info ih)"
proof -
  obtain q w1 where c: "Cat cfg cli (KeyTorrent cfg ih) w = (q, w1)" by fastforce
  have w1: "\<exists>s'. w1 = w\<lparr>w_s3 := s'\<rparr> \<and> objs s' = objs (w_s3 w)"
    using Cat_frame [OF c] Cat_law [OF assms(1) c] by auto
  show ?thesis
  proof (cases "\<exists>raw. q = Ret raw")
    case False
    with assms(2) c w1 show ?thesis by (cases q) (auto simp: repack_source_def bindM_def)
  next
    case True
    then obtain raw where q: "q = Ret raw" by blast
    let ?rest = "bindM (ThrowE (Load lib raw)) (\<lambda>mi. bindM (ThrowE (UnmarshalInfo lib mi)) (\<lambda>info.
       if hex_EncodeToString (HashInfoBytes lib mi) \<noteq> ih then
         ThrowFmt ''repack: loaded torrent infohash mismatch: %s != %s''
           [AStr (hex_EncodeToString (HashInfoBytes lib mi)), AStr ih]
       else bindM (buildMeta lib info ih) (\<lambda>tm. ret (mi, info, tm))))"
    have run: "?rest w1 = (r, w')" using assms(2) c q by (simp add: repack_source_def bindM_def [of "Cat cfg cli (KeyTorrent cfg ih)"] Let_def)
    have "keeps (\<lambda>v. v = w1) ?rest"
      by (intro keeps_intros) (auto simp: keeps_def buildMeta_same)
    with run have "w' = w1" by (auto dest: keepsD)
    moreover have "objs (w_s3 w) (S3Bucket cfg) (KeyTorrent cfg ih) = Some raw" using Cat_law [OF assms(1) c] q by simp
    ultimately show ?thesis using w1 run
      by (auto simp: bindM_Ret_iff ret_run ThrowFmt_run ThrowE_Ret_iff dest!: buildMeta_RetD split: if_splits)
  qed
qed

lemma keeps_pending_upload: "keeps (\<lambda>w. rp_pending w = p) (upload cfg cli kc)"
proof -
  have "keeps (\<lambda>w. rp_pending w = p) (Stat cfg cli k)" "keeps (\<lambda>w. rp_pending w = p) (PutBytes cfg cli k d)" for k d
    by (auto intro!: keepsI dest!: Stat_frame PutBytes_frame)
  then show ?thesis
    unfolding upload_def by (intro keeps_intros) (simp_all add: keeps_modifyM)
qed

lemma published:
  assumes nm: "named content cs" and rp: "repacking cfg cli objs content f0 cs cs [] w"
    and run: "repack_publish cfg cli lib ih mi info n np br w = (r, w')"
  shows "\<exists>f. gained cfg f0 cs f \<and> (objs (w_s3 w') (S3Bucket cfg) = f
     \<or> (\<forall>c\<in>set cs. f (piece_key cfg c) = Some c) \<and> br = TotalLength lib info
       \<and> (\<exists>ib out. Marshal lib (info\<lparr>info_PieceLength := n, info_Pieces := np\<rparr>) = Inr ib
           \<and> Write lib (mi\<lparr>mi_InfoBytes := ib\<rparr>) = Inr out
           \<and> hex_EncodeToString (HashInfoBytes lib (mi\<lparr>mi_InfoBytes := ib\<rparr>)) \<noteq> ih
           \<and> objs (w_s3 w') (S3Bucket cfg)
              = f(KeyTorrent cfg (hex_EncodeToString (HashInfoBytes lib (mi\<lparr>mi_InfoBytes := ib\<rparr>))) \<mapsto> out)))"
proof -
  let ?o = "\<lambda>w. objs (w_s3 w) (S3Bucket cfg)"
  have laws: "s3_laws cli objs" using rp by (simp add: repacking_def coherent_def)
  let ?w0 = "w\<lparr>rp_pending := []\<rparr>"
  obtain q w1 where u: "forM (rp_pending w) (upload cfg cli) ?w0 = (q, w1)" by fastforce
  have "repacking cfg cli objs content f0 cs cs (rp_pending w) ?w0"
    using rp by (simp add: repacking_def coherent_def uploading_def)
  note ul = uploads_keep [OF nm this u]
  then have g1: "gained cfg f0 cs (?o w1)" by (simp add: repacking_def uploading_def)
  show ?thesis
  proof (cases "q = Ret ()")
    case False
    with run u have "w' = w1" by (cases q) (auto simp: repack_publish_def bindM_def getM_run modifyM_run)
    with g1 show ?thesis by blast
  next
    case True
    have "rp_pending w1 = []"
      by (rule keepsD [OF keeps_forM [OF keeps_pending_upload] _ u]) simp
    with True ul have st: "\<forall>c\<in>set cs. ?o w1 (piece_key cfg c) = Some c"
      by (simp add: repacking_def uploading_def)
    show ?thesis
    proof (cases "br = TotalLength lib info \<and> (\<exists>ib out. Marshal lib (info\<lparr>info_PieceLength := n, info_Pieces := np\<rparr>) = Inr ib
           \<and> Write lib (mi\<lparr>mi_InfoBytes := ib\<rparr>) = Inr out
           \<and> hex_EncodeToString (HashInfoBytes lib (mi\<lparr>mi_InfoBytes := ib\<rparr>)) \<noteq> ih)")
      case False
      then have "w' = w1" using run u True
        by (auto simp: repack_publish_def bindM_def getM_run modifyM_run ThrowE_def throw_run ThrowFmt_run ret_run
            Let_def split: if_splits sum.splits)
      with g1 show ?thesis by blast
    next
      case pub: True
      then obtain ib out where m: "Marshal lib (info\<lparr>info_PieceLength := n, info_Pieces := np\<rparr>) = Inr ib"
        and wr: "Write lib (mi\<lparr>mi_InfoBytes := ib\<rparr>) = Inr out"
        and ne: "hex_EncodeToString (HashInfoBytes lib (mi\<lparr>mi_InfoBytes := ib\<rparr>)) \<noteq> ih" by blast
      let ?k = "KeyTorrent cfg (hex_EncodeToString (HashInfoBytes lib (mi\<lparr>mi_InfoBytes := ib\<rparr>)))"
      have "PutBytes cfg cli ?k out w1 = (r, w')" using run u True pub m wr ne
        by (simp add: repack_publish_def bindM_def getM_run modifyM_run ThrowE_def ret_run Let_def)
      from PutBytes_law [OF laws this] have "?o w' = (?o w1)(?k \<mapsto> out) \<or> ?o w' = ?o w1" by (auto simp: upd2_def)
      with g1 st m wr ne pub show ?thesis by blast
    qed
  qed
qed


section \<open>Properties\<close>

text \<open>The state after the reset, before the loop.\<close>

lemma repacking_start:
  assumes "s3_laws cli objs" and "sound_store cfg objs content s" and "f0 = objs s (S3Bucket cfg)"
    and "rw_cache w = newLRU cap" and "rp_pending w = []" and "objs (w_s3 w) = objs s"
  shows "repacking cfg cli objs content f0 cs [] [] w"
  using assms
  by (simp add: repacking_def coherent_def uploading_def gained_def sound_store_def lru_wf_newLRU agrees_def
      lru_lookup_newLRU)

text \<open>The new torrent of the rebuilt metainfo: its key and its bytes.\<close>

definition new_torrent ::
  "Config \<Rightarrow> metalib \<Rightarrow> MetaInfo \<Rightarrow> Info \<Rightarrow> int \<Rightarrow> bytes list \<Rightarrow> string \<Rightarrow> bytes \<Rightarrow> bool" where
  "new_torrent cfg lib mi info n cs k out \<longleftrightarrow>
     (\<exists>ib. Marshal lib (info\<lparr>info_PieceLength := n, info_Pieces := concat (map sha1_Sum cs)\<rparr>) = Inr ib
        \<and> Write lib (mi\<lparr>mi_InfoBytes := ib\<rparr>) = Inr out
        \<and> k = KeyTorrent cfg (hex_EncodeToString (HashInfoBytes lib (mi\<lparr>mi_InfoBytes := ib\<rparr>))))"

lemma hashes_meta_of: "PieceHashes (meta_of lib info ih) = hashes_of lib info"
  by (simp add: meta_of_def)

lemma repack_outcome:
  assumes "s3_laws cli objs" and "sound_store cfg objs content (w_s3 w)" and "f0 = objs (w_s3 w) (S3Bucket cfg)"
    and ext: "extractInfohash target w = (Ret ih, w)"
    and "f0 (KeyTorrent cfg ih) = Some raw" and "Load lib raw = Inr mi" and "UnmarshalInfo lib mi = Inr info"
    and hs: "map content (hashes_of lib info) = map Some ps" and "length (concat ps) < 2 ^ 63"
    and "cs = chunks (nat n) (concat ps)" and nm: "named content cs" and ul: "uploads_law ups"
    and run: "runRepack sf cfg cli lib bg ups target n w = (r, w')" and "f' = objs (w_s3 w') (S3Bucket cfg)"
  shows "\<exists>f. gained cfg f0 cs f \<and> (f' = f \<or> (\<forall>c\<in>set cs. f (piece_key cfg c) = Some c)
    \<and> int (length (concat ps)) = TotalLength lib info
    \<and> (\<exists>k out. new_torrent cfg lib mi info n cs k out \<and> f' = f(k \<mapsto> out)))"
proof -
  let ?w0 = "w\<lparr>rw_cache := newLRU (LRUSize cfg), rp_pending := [], rp_new := 0, rp_skip := 0\<rparr>"
  let ?hs = "hashes_of lib info"
  have same: "gained cfg f0 cs f' \<Longrightarrow> ?thesis" by blast
  obtain q w1 where src: "repack_source cfg cli lib ih ?w0 = (q, w1)" by fastforce
  note sl = repack_source_law [OF assms(1) src]
  have rp: "repacking cfg cli objs content f0 cs [] [] w1"
    using sl by (intro repacking_start [OF assms(1-3)]) auto
  show ?thesis
  proof (cases "q = Ret (mi, info, meta_of lib info ih) \<and> 0 < n")
    case False
    have "q = Ret v \<Longrightarrow> v = (mi, info, meta_of lib info ih)" for v
      using sl assms(3,5-7) by (cases v) auto
    with False have "w' = w1" using run src ext
      by (cases q) (auto simp: runRepack_def bindM_def modifyM_run panic_run split: prod.splits if_splits)
    with rp assms(14) same show ?thesis by (simp add: repacking_def uploading_def)
  next
    case q: True
    have lenps: "length ?hs = length ps" using hs by (metis length_map)
    obtain l w2 where lp: "repack_loop (\<lambda>i. fetch_busy sf cfg cli bg ?hs (int i)) (length ps) (nat n)
        (emit cfg cli ups) 0 stream0 (concat (map sha1_Sum [])) (int (length (concat ([] :: bytes list)))) w1 = (l, w2)"
      by fastforce
    have n: "0 < nat n" and total: "concat cs = concat ps" using q assms(10) by (simp_all add: concat_chunks)
    have cs: "cs = [] @ chunks (nat n) (stream_rest ps stream0)" using assms(10) by (simp add: stream0_ok)
    from repack_loop_cuts [OF nm ul n hs _ rp stream0_ok(1) cs lp] assms(9)
    have rp2: "repacking cfg cli objs content f0 cs [] [] w2"
      "\<And>v. l = Ret v \<Longrightarrow> repacking cfg cli objs content f0 cs cs [] w2 \<and> v = (concat (map sha1_Sum cs), int (length (concat ps)))"
      by (auto simp: total)
    have run': "(if UpSem cfg < 0 then panic (PRuntime ''makechan: size out of range'')
       else if wrap64 (20 * (wrap64 (TotalLength lib info + n - 1) sdiv n)) < 0 then
         panic (PRuntime ''makeslice: cap out of range'')
       else bindM (\<lambda>_. (l, w2)) (\<lambda>(np, br). repack_publish cfg cli lib ih mi info n np br)) w1 = (r, w')"
      using run src ext q lp lenps n
      by (simp add: runRepack_def bindM_def modifyM_run hashes_meta_of split: if_splits)
    show ?thesis
    proof (cases "(\<exists>v. l = Ret v) \<and> w' \<noteq> w1")
      case False
      with run' have "w' = w1 \<or> w' = w2" by (cases l) (auto simp: bindM_def panic_run split: if_splits)
      with rp rp2(1) assms(14) same show ?thesis by (auto simp: repacking_def uploading_def)
    next
      case True
      with rp2(2) have l: "l = Ret (concat (map sha1_Sum cs), int (length (concat ps)))"
        and all: "repacking cfg cli objs content f0 cs cs [] w2" by auto
      have "repack_publish cfg cli lib ih mi info n (concat (map sha1_Sum cs)) (int (length (concat ps))) w2 = (r, w')"
        using run' l True by (auto simp: bindM_def panic_run split: if_splits)
      from published [OF nm all this] show ?thesis unfolding new_torrent_def assms(14) by blast
    qed
  qed
qed

text \<open>
  C13: repacking adds and never takes away. Whatever the service does, in whatever order the
  uploads and prefetches run, and wherever the run ends: the only objects that change are
  pieces of the newly cut stream, which were not there and now hold exactly their bytes, and
  the new torrent. And the new torrent is there only if the whole stream was read and
  every one of its pieces is stored.
\<close>

theorem repack_safe:
  assumes "s3_laws cli objs" and "sound_store cfg objs content (w_s3 w)" and "f0 = objs (w_s3 w) (S3Bucket cfg)"
    and "extractInfohash target w = (Ret ih, w)"
    and "f0 (KeyTorrent cfg ih) = Some raw" and "Load lib raw = Inr mi" and "UnmarshalInfo lib mi = Inr info"
    and "map content (hashes_of lib info) = map Some ps" and "length (concat ps) < 2 ^ 63"
    and "cs = chunks (nat n) (concat ps)" and "named content cs" and "uploads_law ups"
    and "runRepack sf cfg cli lib bg ups target n w = (r, w')" and "f' = objs (w_s3 w') (S3Bucket cfg)"
    and "f' k \<noteq> f0 k"
  shows "(\<exists>c\<in>set cs. k = piece_key cfg c \<and> f0 k = None \<and> f' k = Some c)
    \<or> (\<exists>out. new_torrent cfg lib mi info n cs k out \<and> f' k = Some out
        \<and> int (length (concat ps)) = TotalLength lib info
        \<and> (\<forall>c\<in>set cs. f' (piece_key cfg c) = Some c))"
proof -
  have new: "c \<in> set cs \<Longrightarrow> f0 (piece_key cfg c) = None \<or> f0 (piece_key cfg c) = Some c" for c
    using assms(2,3,11) by (cases "f0 (piece_key cfg c)") (auto simp: sound_store_def named_def piece_key_def)
  from repack_outcome [OF assms(1-14)] obtain f where g: "gained cfg f0 cs f" and
    f': "f' = f \<or> (\<forall>c\<in>set cs. f (piece_key cfg c) = Some c) \<and> int (length (concat ps)) = TotalLength lib info
      \<and> (\<exists>k out. new_torrent cfg lib mi info n cs k out \<and> f' = f(k \<mapsto> out))" by blast
  have piece: "\<exists>c\<in>set cs. k = piece_key cfg c \<and> f0 k = None \<and> f' k = Some c" if "f' k = f k"
  proof -
    from g assms(15) that obtain c where "c \<in> set cs" "k = piece_key cfg c" "f' k = Some c" by (auto simp: gained_def)
    with new [of c] assms(15) show ?thesis by auto
  qed
  show ?thesis
  proof (cases "f' k = f k")
    case False
    with f' obtain out where t: "new_torrent cfg lib mi info n cs k out" "f' = f(k \<mapsto> out)"
      "\<forall>c\<in>set cs. f (piece_key cfg c) = Some c" "int (length (concat ps)) = TotalLength lib info"
      by (metis fun_upd_apply)
    then have "\<forall>c\<in>set cs. f' (piece_key cfg c) = Some c" by (auto simp: piece_key_def new_torrent_def)
    with t show ?thesis by auto
  qed (use piece in blast)
qed


lemma repack_source_live:
  assumes laws: "s3_laws cli objs" and up: "s3_up cli objs up" "up (w_s3 w)"
    and "objs (w_s3 w) (S3Bucket cfg) (KeyTorrent cfg ih) = Some raw" and "Load lib raw = Inr mi"
    and "UnmarshalInfo lib mi = Inr info" and "hex_EncodeToString (HashInfoBytes lib mi) = ih" and "v1_info lib info"
  shows "\<exists>s'. repack_source cfg cli lib ih w = (Ret (mi, info, meta_of lib info ih), w\<lparr>w_s3 := s'\<rparr>)
    \<and> up s' \<and> objs s' = objs (w_s3 w)"
proof -
  obtain s' where c: "Cat cfg cli (KeyTorrent cfg ih) w = (Ret raw, w\<lparr>w_s3 := s'\<rparr>)" and u: "up s'"
    using Cat_up [OF up assms(4)] by blast
  moreover have "objs s' = objs (w_s3 w)" using Cat_law [OF laws c] by simp
  ultimately show ?thesis using assms(5-8)
    by (auto simp: repack_source_def bindM_def ThrowE_run ret_run buildMeta_run v1_info_def)
qed

lemma publish_live:
  assumes nm: "named content cs" and rp: "repacking cfg cli objs content f0 cs cs [] w"
    and sv: "serving cfg cli objs up hs w" and sem: "0 < UpSem cfg" and "br = TotalLength lib info"
    and "Marshal lib (info\<lparr>info_PieceLength := n, info_Pieces := np\<rparr>) = Inr ib"
    and "Write lib (mi\<lparr>mi_InfoBytes := ib\<rparr>) = Inr out"
    and new: "new = hex_EncodeToString (HashInfoBytes lib (mi\<lparr>mi_InfoBytes := ib\<rparr>))"
  shows "\<exists>w' f. repack_publish cfg cli lib ih mi info n np br w = (Ret (), w')
    \<and> gained cfg f0 cs f \<and> (\<forall>c\<in>set cs. f (piece_key cfg c) = Some c)
    \<and> objs (w_s3 w') (S3Bucket cfg) = (if new = ih then f else f(KeyTorrent cfg new \<mapsto> out))"
proof -
  let ?o = "\<lambda>w. objs (w_s3 w) (S3Bucket cfg)" and ?w0 = "w\<lparr>rp_pending := []\<rparr>"
  have laws: "s3_laws cli objs" using rp by (simp add: repacking_def coherent_def)
  have "serving cfg cli objs up hs ?w0" using sv by (simp add: serving_def)
  from uploads_live [OF laws sem this] obtain w1 where
    u: "forM (rp_pending w) (upload cfg cli) ?w0 = (Ret (), w1)" and sv1: "serving cfg cli objs up hs w1" by blast
  have "repacking cfg cli objs content f0 cs cs (rp_pending w) ?w0"
    using rp by (simp add: repacking_def coherent_def uploading_def)
  from uploads_keep [OF nm this u] have "repacking cfg cli objs content f0 cs cs [] w1" by simp
  moreover have "rp_pending w1 = []" by (rule keepsD [OF keeps_forM [OF keeps_pending_upload] _ u]) simp
  ultimately have g: "gained cfg f0 cs (?o w1)" "\<forall>c\<in>set cs. ?o w1 (piece_key cfg c) = Some c"
    by (simp_all add: repacking_def uploading_def)
  show ?thesis
  proof (cases "new = ih")
    case True
    with u assms(5-8) have "repack_publish cfg cli lib ih mi info n np br w = (Ret (), w1)"
      by (simp add: repack_publish_def bindM_def getM_run modifyM_run ThrowE_run ret_run Let_def)
    with g True show ?thesis by auto
  next
    case False
    from PutBytes_up [of cli objs up w1 cfg "KeyTorrent cfg new" out] sv1 obtain w2 where
      pb: "PutBytes cfg cli (KeyTorrent cfg new) out w1 = (Ret (), w2)" by (auto simp: serving_def)
    with u assms(5-8) False have "repack_publish cfg cli lib ih mi info n np br w = (Ret (), w2)"
      by (simp add: repack_publish_def bindM_def getM_run modifyM_run ThrowE_run ret_run Let_def)
    moreover have "?o w2 = (?o w1)(KeyTorrent cfg new \<mapsto> out)"
      using PutBytes_law [OF laws pb] by (auto simp: upd2_def)
    ultimately show ?thesis using g False by auto
  qed
qed

text \<open>The slice of new piece hashes can be allocated.\<close>

lemma pieces_cap:
  assumes "0 < n" and "0 \<le> t" and "20 * (t + n) < 2 ^ 63"
  shows "0 \<le> wrap64 (20 * (wrap64 (t + n - 1) sdiv n))"
proof -
  have w: "wrap64 (t + n - 1) = t + n - 1" using assms by (intro wrap64_nonneg) simp_all
  have d: "(t + n - 1) sdiv n = (t + n - 1) div n" using assms by (simp add: sdiv_nonneg)
  have b: "0 \<le> (t + n - 1) div n" using assms by (simp add: pos_imp_zdiv_nonneg_iff)
  have "(t + n - 1) div n \<le> t + n - 1" using zdiv_mono2 [of "t + n - 1" 1 n] assms by simp
  then have le: "20 * ((t + n - 1) div n) < 2 ^ 63" using assms by simp
  have "wrap64 (20 * ((t + n - 1) div n)) = 20 * ((t + n - 1) div n)"
    by (rule wrap64_nonneg) (use b le in simp_all)
  then show ?thesis using b by (simp add: w d)
qed

text \<open>The run with the service up, step by step.\<close>

lemma repack_up:
  assumes "s3_laws cli objs" and "s3_up cli objs up" and "up (w_s3 w)"
    and "sound_store cfg objs content (w_s3 w)" and "f0 = objs (w_s3 w) (S3Bucket cfg)"
    and "extractInfohash target w = (Ret ih, w)"
    and "f0 (KeyTorrent cfg ih) = Some raw" and "Load lib raw = Inr mi" and "UnmarshalInfo lib mi = Inr info"
    and "hex_EncodeToString (HashInfoBytes lib mi) = ih" and "v1_info lib info"
    and "map content (hashes_of lib info) = map Some ps" and "TotalLength lib info = int (length (concat ps))"
    and "\<forall>h\<in>set (hashes_of lib info). f0 (KeyPiece cfg h) \<noteq> None"
    and "0 < n" and "20 * (int (length (concat ps)) + n) < 2 ^ 63"
    and "leaves_room cfg bg" and "0 < UpSem cfg" and "PrefetchDistance cfg + int (length ps) < 2 ^ 63"
    and "cs = chunks (nat n) (concat ps)" and "named content cs" and "uploads_law ups"
    and "Marshal lib (info\<lparr>info_PieceLength := n, info_Pieces := concat (map sha1_Sum cs)\<rparr>) = Inr ib"
    and "Write lib (mi\<lparr>mi_InfoBytes := ib\<rparr>) = Inr out"
    and "new = hex_EncodeToString (HashInfoBytes lib (mi\<lparr>mi_InfoBytes := ib\<rparr>))"
  shows "\<exists>w' f. runRepack sf cfg cli lib bg ups target n w = (Ret (), w')
    \<and> gained cfg f0 cs f \<and> (\<forall>c\<in>set cs. f (piece_key cfg c) = Some c)
    \<and> objs (w_s3 w') (S3Bucket cfg) = (if new = ih then f else f(KeyTorrent cfg new \<mapsto> out))"
proof -
  let ?w0 = "w\<lparr>rw_cache := newLRU (LRUSize cfg), rp_pending := [], rp_new := 0, rp_skip := 0\<rparr>"
  let ?hs = "hashes_of lib info"
  obtain s1 where src: "repack_source cfg cli lib ih ?w0 = (Ret (mi, info, meta_of lib info ih), ?w0\<lparr>w_s3 := s1\<rparr>)"
    and s1: "up s1" "objs s1 = objs (w_s3 w)"
    using repack_source_live [OF assms(1,2) _ _ assms(8-11), of ?w0 cfg] assms(3,5,7) by auto
  let ?w1 = "?w0\<lparr>w_s3 := s1\<rparr>"
  have rp: "repacking cfg cli objs content f0 cs [] [] ?w1"
    by (intro repacking_start [OF assms(1,4,5)]) (simp_all add: s1)
  have lenps: "length ?hs = length ps" using assms(12) by (metis length_map)
  have sv: "stream_live (sf, cfg, cli, objs, content, up, bg, ?hs, f0, cs, []) ps ?w1"
    using assms(2,5,14,17-19) s1 lenps leaves_room_some [OF assms(17)] by (simp add: serving_def)
  obtain l w2 where lp: "repack_loop (\<lambda>i. fetch_busy sf cfg cli bg ?hs (int i)) (length ps) (nat n)
      (emit cfg cli ups) 0 stream0 (concat (map sha1_Sum [])) (int (length (concat ([] :: bytes list)))) ?w1 = (l, w2)"
    by fastforce
  have n: "0 < nat n" and total: "concat cs = concat ps" using assms(15,20) by (simp_all add: concat_chunks)
  have cs: "cs = [] @ chunks (nat n) (stream_rest ps stream0)" using assms(20) by (simp add: stream0_ok)
  have big: "length (concat cs) < 2 ^ 63" using assms(15,16) total by simp
  from repack_loop_cuts [OF assms(21,22) n assms(12) big rp stream0_ok(1) cs lp] sv total
  have rp2: "repacking cfg cli objs content f0 cs cs [] w2" and sv2: "serving cfg cli objs up ?hs w2"
    and l: "l = Ret (concat (map sha1_Sum cs), int (length (concat ps)))" by auto
  obtain w' f where pub: "repack_publish cfg cli lib ih mi info n (concat (map sha1_Sum cs)) (int (length (concat ps))) w2 = (Ret (), w')"
    and f: "gained cfg f0 cs f" "\<forall>c\<in>set cs. f (piece_key cfg c) = Some c"
      "objs (w_s3 w') (S3Bucket cfg) = (if new = ih then f else f(KeyTorrent cfg new \<mapsto> out))"
    using publish_live [OF assms(21) rp2 sv2 assms(18) assms(13) [symmetric] assms(23-25)] by blast
  have cap: "0 \<le> wrap64 (20 * (wrap64 (TotalLength lib info + n - 1) sdiv n))"
    using pieces_cap [of n "int (length (concat ps))"] assms(13,15,16) by simp
  have "runRepack sf cfg cli lib bg ups target n w = (Ret (), w')"
    using assms(6,15,18) src lp l pub cap lenps
    by (simp add: runRepack_def bindM_def modifyM_run hashes_meta_of)
  with f show ?thesis by blast
qed

text \<open>
  C17: a repack that nothing disturbs does what it is for. With the service up, the source
  torrent and all its pieces stored, and prefetching that leaves room in the cache (\<open>leaves_room\<close>: between the moment a
  piece comes in and the moment the run looks it up, fewer prefetch goroutines use the cache than it has entries): the run
  returns, each new
  piece is stored under its SHA-1, the new torrent under its infohash (unless that is the old
  one), and every other object is as before, in particular the source torrent and its pieces.
\<close>

theorem repack_exact:
  assumes "s3_laws cli objs" and "s3_up cli objs up" and "up (w_s3 w)"
    and "sound_store cfg objs content (w_s3 w)" and "f0 = objs (w_s3 w) (S3Bucket cfg)"
    and "extractInfohash target w = (Ret ih, w)"
    and "f0 (KeyTorrent cfg ih) = Some raw" and "Load lib raw = Inr mi" and "UnmarshalInfo lib mi = Inr info"
    and "hex_EncodeToString (HashInfoBytes lib mi) = ih" and "v1_info lib info"
    and "map content (hashes_of lib info) = map Some ps" and "TotalLength lib info = int (length (concat ps))"
    and "\<forall>h\<in>set (hashes_of lib info). f0 (KeyPiece cfg h) \<noteq> None"
    and "0 < n" and "20 * (int (length (concat ps)) + n) < 2 ^ 63"
    and "leaves_room cfg bg" and "0 < UpSem cfg" and "PrefetchDistance cfg + int (length ps) < 2 ^ 63"
    and "cs = chunks (nat n) (concat ps)" and "named content cs" and "uploads_law ups"
    and "Marshal lib (info\<lparr>info_PieceLength := n, info_Pieces := concat (map sha1_Sum cs)\<rparr>) = Inr ib"
    and "Write lib (mi\<lparr>mi_InfoBytes := ib\<rparr>) = Inr out"
    and "new = hex_EncodeToString (HashInfoBytes lib (mi\<lparr>mi_InfoBytes := ib\<rparr>))"
  shows "\<exists>w'. runRepack sf cfg cli lib bg ups target n w = (Ret (), w')
    \<and> (\<forall>k. objs (w_s3 w') (S3Bucket cfg) k =
        (if new \<noteq> ih \<and> k = KeyTorrent cfg new then Some out
         else case find (\<lambda>c. piece_key cfg c = k) cs of Some c \<Rightarrow> Some c | None \<Rightarrow> f0 k))"
proof -
  from repack_up [OF assms, of sf] obtain w' f where
    run: "runRepack sf cfg cli lib bg ups target n w = (Ret (), w')"
    and f: "gained cfg f0 cs f" "\<forall>c\<in>set cs. f (piece_key cfg c) = Some c"
      "objs (w_s3 w') (S3Bucket cfg) = (if new = ih then f else f(KeyTorrent cfg new \<mapsto> out))" by blast
  have "f k = (case find (\<lambda>c. piece_key cfg c = k) cs of Some c \<Rightarrow> Some c | None \<Rightarrow> f0 k)" for k
    using f(1,2) by (auto simp: gained_def find_None_iff find_Some_iff split: option.split)
  with f(3) run show ?thesis by auto
qed


section \<open>A torrent of two pieces, repacked into one\<close>

text \<open>
  The two source pieces are stored under names that differ from the SHA-1 of the new piece.
\<close>

definition h1 :: bytes where "h1 = replicate 20 (hd (sha1_Sum [1, 2]) + 1)"
definition h2 :: bytes where "h2 = replicate 20 (hd (sha1_Sum [1, 2]) + 2)"

definition tor_r :: bytes where
  "tor_r = [1, 97, 1, 1, 2] @ h1 @ h2"

definition ih_r :: string where
  "ih_r = hex_EncodeToString (pad20 tor_r)"

definition content_r :: "string \<Rightarrow> bytes option" where
  "content_r h = (if h = hex_EncodeToString h1 then Some [1] else if h = hex_EncodeToString h2 then Some [2]
     else if h = hex_EncodeToString (sha1_Sum [1, 2]) then Some [1, 2] else None)"

definition bucket_r :: mem where
  "bucket_r = mem_of [(KeyTorrent cfg0 ih_r, tor_r), (KeyPiece cfg0 (hex_EncodeToString h1), [1]),
     (KeyPiece cfg0 (hex_EncodeToString h2), [2])]"

definition start_r :: "mem rworld" where
  "start_r = \<lparr>w_s3 = bucket_r, w_puts = 0, rw_cache = newLRU 1, rw_spawned = [],
     rp_pending = [], rp_new = 0, rp_skip = 0\<rparr>"

definition info_r :: Info where
  "info_r = \<lparr>info_Name = ''a'', info_PieceLength = 1, info_Pieces = h1 @ h2, info_Length = 2,
     info_Files = [], info_Other = []\<rparr>"

definition mi_r :: MetaInfo where
  "mi_r = \<lparr>mi_InfoBytes = tor_r, mi_Other = []\<rparr>"

text \<open>Uploads run as soon as they are launched.\<close>

definition ups_r :: uploads where
  "ups_r k p = (p, [])"

lemma hash_names: "length h1 = 20" "length h2 = 20" "h1 \<noteq> h2" "h1 \<noteq> sha1_Sum [1, 2]" "h2 \<noteq> sha1_Sum [1, 2]"
proof -
  obtain x xs where x: "sha1_Sum [1, 2] = x # xs"
    using length_sha1_Sum [of "[1, 2]"] by (cases "sha1_Sum [1, 2]") simp_all
  have "hd h1 = x + 1" "hd h2 = x + 2" "hd (sha1_Sum [1, 2]) = x" by (simp_all add: h1_def h2_def x)
  moreover have "x + 1 \<noteq> x" "x + 2 \<noteq> x" "x + 1 \<noteq> x + 2" by simp_all
  ultimately show "h1 \<noteq> h2" "h1 \<noteq> sha1_Sum [1, 2]" "h2 \<noteq> sha1_Sum [1, 2]" by metis+
qed (simp_all add: h1_def h2_def)

lemma extractInfohash_hex: "length bs = 20 \<Longrightarrow> extractInfohash (hex_EncodeToString bs) w = (Ret (hex_EncodeToString bs), w)"
proof -
  assume len: "length bs = 20"
  let ?s = "hex_EncodeToString bs"
  have "?s \<noteq> []" using len by (cases bs) simp_all
  then have "last ?s \<noteq> CHR ''/''" using last_in_set hex_no_slash by metis
  with \<open>?s \<noteq> []\<close> have "dropWhile (\<lambda>c. c = CHR ''/'') (rev ?s) = rev ?s"
    by (simp add: dropWhile_eq_self_iff hd_rev)
  then have "strings_TrimRight ?s ''/'' = ?s" by (simp add: strings_TrimRight_def)
  moreover have "path_Base ?s = ?s" using \<open>?s \<noteq> []\<close> hex_no_slash by (rule path_Base_append(2) [rotated])
  ultimately have "strings_TrimRight ?s ''/'' = ?s" "path_Base ?s = ?s" .
  then show ?thesis using len by (simp add: extractInfohash_def ret_run)
qed

lemma source_r:
  "Load lib0 tor_r = Inr mi_r" "UnmarshalInfo lib0 mi_r = Inr info_r" "HashInfoBytes lib0 mi_r = pad20 tor_r"
  "hashes_of lib0 info_r = [hex_EncodeToString h1, hex_EncodeToString h2]" "v1_info lib0 info_r"
  "TotalLength lib0 info_r = 2"
  using hash_names(1,2)
  by (simp_all add: lib0_def mi_r_def tor_r_def info_r_def info0_def hashes_of_def v1_info_def has_v1_def chars_def upto_rec1 char_of_a [simplified])


lemma bucket_view:
  "mem_view bucket_r ''b'' (KeyTorrent cfg0 ih_r) = Some tor_r"
  "mem_view bucket_r ''b'' (KeyPiece cfg0 h) =
     (if h = hex_EncodeToString h1 then Some [1] else if h = hex_EncodeToString h2 then Some [2] else None)"
  by (auto simp: bucket_r_def mem_view_def mem_of_def KeyTorrent_neq_KeyPiece KeyTorrent_neq_KeyPiece [symmetric])

lemma start_r_facts:
  "w_s3 start_r = bucket_r" "mem_up bucket_r" "sound_store cfg0 mem_view content_r bucket_r"
  "map content_r (hashes_of lib0 info_r) = map Some [[1], [2]]" "named content_r [[1, 2]]" "uploads_law ups_r"
  "chunks (nat 2) (concat [[1 :: byte], [2]]) = [[1, 2]]"
  "\<forall>h\<in>set (hashes_of lib0 info_r). mem_view bucket_r ''b'' (KeyPiece cfg0 h) \<noteq> None"
  using hash_names(3-5)
  by (auto simp: start_r_def bucket_r_def [symmetric] sound_store_def bucket_view content_r_def named_def uploads_law_def
      ups_r_def source_r chunks.simps split: if_splits)
    (simp add: bucket_r_def)

definition ib_r :: bytes where "ib_r = [1, 97, 2, 1, 2] @ sha1_Sum [1, 2]"

lemma rebuilt_r:
  "Marshal lib0 (info_r\<lparr>info_PieceLength := 2, info_Pieces := concat (map sha1_Sum [[1, 2]])\<rparr>) = Inr ib_r"
  "Write lib0 (mi_r\<lparr>mi_InfoBytes := ib_r\<rparr>) = Inr ib_r"
  "HashInfoBytes lib0 (mi_r\<lparr>mi_InfoBytes := ib_r\<rparr>) = pad20 ib_r"
  by (simp_all add: lib0_def mi_r_def info_r_def ib_r_def)

lemma ext_r: "extractInfohash ih_r w = (Ret ih_r, w)"
  unfolding ih_r_def by (rule extractInfohash_hex) (simp add: pad20_def)

lemma view_start_r: "mem_view (w_s3 start_r) (S3Bucket cfg0) = mem_view bucket_r ''b''"
  by (simp add: start_r_facts)

lemma sound_start_r: "sound_store cfg0 mem_view content_r (w_s3 start_r)"
  by (simp add: start_r_facts)

abbreviation run_of_r :: "unit outcome \<times> mem rworld" where
  "run_of_r \<equiv> runRepack id cfg0 mem_s3 lib0 (\<lambda>_. others_at Returning [hex_EncodeToString h2]) ups_r ih_r 2 start_r"

lemma run_r:
  "\<exists>w' f. run_of_r = (Ret (), w') \<and> gained cfg0 (mem_view bucket_r ''b'') [[1, 2]] f
    \<and> (\<forall>c\<in>set [[1, 2]]. f (piece_key cfg0 c) = Some c)
    \<and> mem_view (w_s3 w') (S3Bucket cfg0) =
       (if hex_EncodeToString (pad20 ib_r) = ih_r then f
        else f(KeyTorrent cfg0 (hex_EncodeToString (pad20 ib_r)) \<mapsto> ib_r))"
  by (rule repack_up [OF mem_laws mem_is_up _ sound_start_r view_start_r [symmetric] ext_r bucket_view(1) source_r(1,2)
      _ source_r(5) start_r_facts(4) _ start_r_facts(8) _ _ _ _ _ start_r_facts(7) [symmetric] start_r_facts(5,6)
      rebuilt_r(1,2)])
    (simp_all add: start_r_facts source_r ih_r_def rebuilt_r leaves_room_def others_at_def)

theorem repack_safe_witness:
  "\<exists>w'. run_of_r = (Ret (), w') \<and> mem_view bucket_r ''b'' (piece_key cfg0 [1, 2]) = None
    \<and> mem_view (w_s3 w') ''b'' (piece_key cfg0 [1, 2]) = Some [1, 2]"
proof -
  obtain w' f where run: "run_of_r = (Ret (), w')" and st: "f (piece_key cfg0 [1, 2]) = Some [1, 2]"
    and f': "mem_view (w_s3 w') (S3Bucket cfg0) =
       (if hex_EncodeToString (pad20 ib_r) = ih_r then f
        else f(KeyTorrent cfg0 (hex_EncodeToString (pad20 ib_r)) \<mapsto> ib_r))" using run_r by auto
  have "mem_view (w_s3 w') (S3Bucket cfg0) (piece_key cfg0 [1, 2]) = Some [1, 2]"
    using f' st by (simp add: piece_key_def)
  moreover have "mem_view bucket_r ''b'' (piece_key cfg0 [1, 2]) = None"
    using hash_names by (simp add: piece_key_def bucket_view)
  ultimately have ch: "mem_view (w_s3 w') (S3Bucket cfg0) (piece_key cfg0 [1, 2])
      \<noteq> mem_view bucket_r ''b'' (piece_key cfg0 [1, 2])" by simp
  from repack_safe [OF mem_laws sound_start_r view_start_r [symmetric] ext_r bucket_view(1) source_r(1,2)
      start_r_facts(4) _ start_r_facts(7) [symmetric] start_r_facts(5,6) run refl ch] run
  show ?thesis by (auto simp: new_torrent_def piece_key_def)
qed

theorem repack_exact_witness:
  "\<exists>w'. run_of_r = (Ret (), w') \<and> mem_view (w_s3 w') ''b'' (piece_key cfg0 [1, 2]) = Some [1, 2]
    \<and> mem_view (w_s3 w') ''b'' (KeyTorrent cfg0 (hex_EncodeToString (pad20 ib_r))) = Some ib_r
    \<and> mem_view (w_s3 w') ''b'' (KeyPiece cfg0 (hex_EncodeToString h1)) = Some [1]"
proof -
  have "hd (drop 2 (pad20 ib_r)) \<noteq> hd (drop 2 (pad20 tor_r))" by (simp add: pad20_def ib_r_def tor_r_def)
  then have "hex_EncodeToString (pad20 ib_r) \<noteq> ih_r" by (auto simp: ih_r_def)
  moreover have "\<exists>w'. run_of_r = (Ret (), w') \<and> (\<forall>k. mem_view (w_s3 w') (S3Bucket cfg0) k =
        (if hex_EncodeToString (pad20 ib_r) \<noteq> ih_r \<and> k = KeyTorrent cfg0 (hex_EncodeToString (pad20 ib_r)) then Some ib_r
         else case find (\<lambda>c. piece_key cfg0 c = k) [[1, 2]] of Some c \<Rightarrow> Some c | None \<Rightarrow> mem_view bucket_r ''b'' k))"
    by (rule repack_exact [OF mem_laws mem_is_up _ sound_start_r view_start_r [symmetric] ext_r bucket_view(1) source_r(1,2)
      _ source_r(5) start_r_facts(4) _ start_r_facts(8) _ _ _ _ _ start_r_facts(7) [symmetric] start_r_facts(5,6)
      rebuilt_r(1,2)])
    (simp_all add: start_r_facts source_r ih_r_def rebuilt_r leaves_room_def others_at_def)
  ultimately show ?thesis using hash_names by (auto simp: piece_key_def bucket_view)
qed

end
