(* ===== verification/Flags.thy ===== *)
theory Flags
  imports GoStd
begin

text \<open>
  The parts of Go's standard library that the command lines go through: \<open>strconv.ParseInt\<close>
  and \<open>strconv.ParseBool\<close>, and \<open>FlagSet.Parse\<close> of package \<^verbatim>\<open>flag\<close> under
  \<open>ContinueOnError\<close>. A flag set is an association list from names to typed variables; a
  variable is the function that stores a value in the caller's record. \<open>time.ParseDuration\<close>
  is a parameter of the flags that use it.

  The theorem is a round trip: flags written out in any of the accepted forms set exactly the
  variables they name, in order, and leave the positional arguments.
\<close>

unbundle bit_operations_syntax

section \<open>strconv\<close>

definition ErrSyntax :: goerr where "ErrSyntax = LibError ''invalid syntax''"
definition ErrRange :: goerr where "ErrRange = LibError ''value out of range''"

definition lower_byte :: "char \<Rightarrow> int" where
  "lower_byte c = of_char c OR 32"

definition digit_of :: "char \<Rightarrow> int option" where
  "digit_of c = (let n = of_char c :: int; l = lower_byte c in
     if 48 \<le> n \<and> n \<le> 57 then Some (n - 48)
     else if 97 \<le> l \<and> l \<le> 122 then Some (l - 97 + 10)
     else None)"

text \<open>The loop of \<open>ParseUint\<close> for 64 bits: the number, and whether an underscore was seen.\<close>

fun uint_loop :: "int \<Rightarrow> bool \<Rightarrow> int \<Rightarrow> bool \<Rightarrow> string \<Rightarrow> goerr + int \<times> bool" where
  "uint_loop base base0 n us [] = Inr (n, us)"
| "uint_loop base base0 n us (c # cs) =
     (if c = CHR ''_'' \<and> base0 then uint_loop base base0 n True cs
      else case digit_of c of
          None \<Rightarrow> Inl ErrSyntax
        | Some d \<Rightarrow>
            if base \<le> d then Inl ErrSyntax
            else if 2 ^ 64 \<le> n * base + d then Inl ErrRange
            else uint_loop base base0 (n * base + d) us cs)"

text \<open>Underscores may only separate digits (or the base prefix from the digits).\<close>

fun underscores :: "bool \<Rightarrow> char \<Rightarrow> string \<Rightarrow> bool" where
  "underscores hx i [] = (i \<noteq> CHR ''_'')"
| "underscores hx i (c # cs) =
     (let n = of_char c :: int; l = lower_byte c in
      if 48 \<le> n \<and> n \<le> 57 \<or> hx \<and> 97 \<le> l \<and> l \<le> 102 then underscores hx (CHR ''0'') cs
      else if c = CHR ''_'' then (if i \<noteq> CHR ''0'' then False else underscores hx (CHR ''_'') cs)
      else if i = CHR ''_'' then False
      else underscores hx (CHR ''!'') cs)"

definition underscoreOK :: "string \<Rightarrow> bool" where
  "underscoreOK s =
     (let s = (if s \<noteq> [] \<and> (hd s = CHR ''-'' \<or> hd s = CHR ''+'') then tl s else s) in
      if 2 \<le> length s \<and> hd s = CHR ''0'' \<and> lower_byte (s ! 1) \<in> {98, 111, 120}
      then underscores (lower_byte (s ! 1) = 120) (CHR ''0'') (drop 2 s)
      else underscores False (CHR ''^'') s)"

text \<open>The base and the digits: base 0 looks at the prefix.\<close>

definition base_of :: "int \<Rightarrow> string \<Rightarrow> int \<times> string" where
  "base_of base s =
     (if base \<noteq> 0 then (base, s)
      else if hd s = CHR ''0'' then
        (if 3 \<le> length s \<and> lower_byte (s ! 1) = 98 then (2, drop 2 s)
         else if 3 \<le> length s \<and> lower_byte (s ! 1) = 111 then (8, drop 2 s)
         else if 3 \<le> length s \<and> lower_byte (s ! 1) = 120 then (16, drop 2 s)
         else (8, tl s))
      else (10, s))"

definition ParseUint :: "string \<Rightarrow> int \<Rightarrow> goerr + int" where
  "ParseUint s base =
     (if s = [] then Inl ErrSyntax
      else case base_of base s of (b, ds) \<Rightarrow>
        (case uint_loop b (base = 0) 0 False ds of
           Inl e \<Rightarrow> Inl e
         | Inr (n, us) \<Rightarrow> if us \<and> \<not> underscoreOK s then Inl ErrSyntax else Inr n))"

definition ParseInt :: "string \<Rightarrow> int \<Rightarrow> goerr + int" where
  "ParseInt s base =
     (if s = [] then Inl ErrSyntax
      else let neg = (hd s = CHR ''-'');
               s = (if hd s = CHR ''+'' \<or> hd s = CHR ''-'' then tl s else s)
      in case ParseUint s base of
           Inl e \<Rightarrow> Inl e
         | Inr un \<Rightarrow>
             if \<not> neg \<and> 2 ^ 63 \<le> un then Inl ErrRange
             else if neg \<and> 2 ^ 63 < un then Inl ErrRange
             else Inr (if neg then - un else un))"

definition ParseBool :: "string \<Rightarrow> goerr + bool" where
  "ParseBool s =
     (if s \<in> {''1'', ''t'', ''T'', ''TRUE'', ''true'', ''True''} then Inr True
      else if s \<in> {''0'', ''f'', ''F'', ''FALSE'', ''false'', ''False''} then Inr False
      else Inl ErrSyntax)"

section \<open>flag\<close>

datatype 'c fvar =
    StringVar "string \<Rightarrow> 'c \<Rightarrow> 'c"
  | IntVar "int \<Rightarrow> 'c \<Rightarrow> 'c"
  | BoolVar "bool \<Rightarrow> 'c \<Rightarrow> 'c"
  | DurationVar "string \<Rightarrow> goerr + int" "int \<Rightarrow> 'c \<Rightarrow> 'c"

type_synonym 'c flagset = "(string \<times> 'c fvar) list"

fun fvar_Set :: "'c fvar \<Rightarrow> string \<Rightarrow> 'c \<Rightarrow> goerr + 'c" where
  "fvar_Set (StringVar f) s c = Inr (f s c)"
| "fvar_Set (IntVar f) s c = map_sum id (\<lambda>n. f n c) (ParseInt s 0)"
| "fvar_Set (BoolVar f) s c = map_sum id (\<lambda>b. f b c) (ParseBool s)"
| "fvar_Set (DurationVar parse f) s c = map_sum id (\<lambda>d. f d c) (parse s)"

fun isBool :: "'c fvar \<Rightarrow> bool" where
  "isBool (BoolVar f) = True"
| "isBool _ = False"

definition ErrHelp :: goerr where
  "ErrHelp = LibError ''flag: help requested''"

text \<open>A name with an equals sign after its first character carries its value.\<close>

definition split_value :: "string \<Rightarrow> string \<times> string option" where
  "split_value name =
     (let i = strings_Index (tl name) (CHR ''='') in
      if i < 0 then (name, None) else (take (nat i + 1) name, Some (drop (nat i + 2) name)))"

text \<open>
  \<open>Parse\<close>: the record with the flags stored and the arguments that are left. It stops at the
  first argument that is no flag, and after \<^verbatim>\<open>--\<close>.
\<close>

fun fs_Parse :: "'c flagset \<Rightarrow> string list \<Rightarrow> 'c \<Rightarrow> goerr + 'c \<times> string list" where
  "fs_Parse fs [] c = Inr (c, [])"
| "fs_Parse fs (s # args) c =
     (if length s < 2 \<or> hd s \<noteq> CHR ''-'' then Inr (c, s # args)
      else if s = ''--'' then Inr (c, args)
      else
        let name = (if s ! 1 = CHR ''-'' then drop 2 s else tl s) in
        if name = [] \<or> hd name = CHR ''-'' \<or> hd name = CHR ''='' then Inl (Errorf ''bad flag syntax: %s'' [AStr s])
        else
          case split_value name of (name, value) \<Rightarrow>
          (case map_of fs name of
             None \<Rightarrow>
               if name = ''help'' \<or> name = ''h'' then Inl ErrHelp
               else Inl (Errorf ''flag provided but not defined: -%s'' [AStr name])
           | Some v \<Rightarrow>
               if isBool v then
                 (case fvar_Set v (case value of Some x \<Rightarrow> x | None \<Rightarrow> ''true'') c of
                    Inl e \<Rightarrow> Inl (Errorf ''invalid boolean value %q for -%s: %v''
                               [AStr (case value of Some x \<Rightarrow> x | None \<Rightarrow> ''true''), AStr name, AErr e])
                  | Inr c \<Rightarrow> fs_Parse fs args c)
               else
                 (case value of
                    Some x \<Rightarrow>
                      (case fvar_Set v x c of
                         Inl e \<Rightarrow> Inl (Errorf ''invalid value %q for flag -%s: %v'' [AStr x, AStr name, AErr e])
                       | Inr c \<Rightarrow> fs_Parse fs args c)
                  | None \<Rightarrow>
                      (case args of
                         [] \<Rightarrow> Inl (Errorf ''flag needs an argument: -%s'' [AStr name])
                       | x # args \<Rightarrow>
                           (case fvar_Set v x c of
                              Inl e \<Rightarrow> Inl (Errorf ''invalid value %q for flag -%s: %v'' [AStr x, AStr name, AErr e])
                            | Inr c \<Rightarrow> fs_Parse fs args c)))))"


section \<open>Round trip\<close>

text \<open>
  A setting: written with two dashes or one, joined with an equals sign or as two arguments, for a
  name and a value.
\<close>

type_synonym setting = "bool \<times> bool \<times> string \<times> string"

fun render :: "setting \<Rightarrow> string list" where
  "render (dd, joined, n, v) =
     (let p = (if dd then ''--'' else ''-'') in if joined then [p @ n @ ''='' @ v] else [p @ n, v])"

fun apply_all :: "'c flagset \<Rightarrow> setting list \<Rightarrow> 'c \<Rightarrow> goerr + 'c" where
  "apply_all fs [] c = Inr c"
| "apply_all fs ((dd, joined, n, v) # as) c =
     (case fvar_Set (the (map_of fs n)) v c of Inl e \<Rightarrow> Inl e | Inr c \<Rightarrow> apply_all fs as c)"

definition flag_name :: "string \<Rightarrow> bool" where
  "flag_name n \<longleftrightarrow> n \<noteq> [] \<and> hd n \<noteq> CHR ''-'' \<and> CHR ''='' \<notin> set n"

fun settable :: "'c flagset \<Rightarrow> setting \<Rightarrow> bool" where
  "settable fs (dd, joined, n, v) \<longleftrightarrow> flag_name n
     \<and> (case map_of fs n of Some x \<Rightarrow> isBool x \<longrightarrow> joined | None \<Rightarrow> False)"

lemma split_value_joined: "flag_name n \<Longrightarrow> split_value (n @ CHR ''='' # v) = (n, Some v)"
  by (cases n) (auto simp: flag_name_def split_value_def Index_append Let_def)

lemma split_value_bare: "flag_name n \<Longrightarrow> split_value n = (n, None)"
  by (cases n) (auto simp: flag_name_def split_value_def Index_absent Let_def)

lemma dashes:
  assumes "flag_name n" and "s = (if dd then ''--'' else ''-'') @ n @ t"
  shows "\<not> (length s < 2 \<or> hd s \<noteq> CHR ''-'')" "s \<noteq> ''--''"
    "(if s ! 1 = CHR ''-'' then drop 2 s else tl s) = n @ t"
    "\<not> (n @ t = [] \<or> hd (n @ t) = CHR ''-'' \<or> hd (n @ t) = CHR ''='')"
  using assms by (cases n; auto simp: flag_name_def)+

lemma fs_Parse_setting:
  assumes "settable fs a" and "apply_all fs (a # as) c = Inr c'"
  shows "\<exists>c1. fs_Parse fs (render a @ rest) c = fs_Parse fs rest c1 \<and> apply_all fs as c1 = Inr c'"
proof -
  obtain dd joined n v where a: "a = (dd, joined, n, v)" by (cases a) auto
  obtain x where n: "flag_name n" and x: "map_of fs n = Some x" "isBool x \<longrightarrow> joined" using assms(1) a by (auto split: option.splits)
  obtain c1 where c1: "fvar_Set x v c = Inr c1" "apply_all fs as c1 = Inr c'"
    using assms(2) a x by (auto split: sum.splits)
  let ?p = "if dd then ''--'' else ''-''"
  show ?thesis
  proof (cases joined)
    case True
    note d = dashes [OF n, of "?p @ n @ CHR ''='' # v" dd "CHR ''='' # v", OF refl]
    have "fs_Parse fs ((?p @ n @ CHR ''='' # v) # rest) c = fs_Parse fs rest c1"
      by (subst fs_Parse.simps(2))
        (simp only: d if_False Let_def split_value_joined [OF n] prod.case option.case x c1 sum.case if_cancel)
    with c1 a True show ?thesis by (auto simp: Let_def)
  next
    case False
    note d = dashes [OF n, of "?p @ n" dd "[]", unfolded append_Nil2, OF refl]
    have "fs_Parse fs ((?p @ n) # v # rest) c = fs_Parse fs rest c1"
      using x(2) False
      by (subst fs_Parse.simps(2))
        (simp only: d if_False Let_def split_value_bare [OF n] prod.case option.case list.case x c1 sum.case simp_thms)
    with c1 a False show ?thesis by (auto simp: Let_def)
  qed
qed

text \<open>
  Command lines round-trip. Settings of declared flags with values their types accept,
  each written in any of the four forms (a boolean needs the joined one), followed by
  \<^verbatim>\<open>--\<close> and any arguments, or by arguments of which the first is no flag: \<open>Parse\<close> stores
  exactly the values, in order, and leaves exactly the arguments.
\<close>

lemma flags_roundtrip:
  assumes "\<forall>a\<in>set as. settable fs a" and "apply_all fs as c = Inr c'"
    and "tail = ''--'' # rest \<or> tail = rest \<and> (rest = [] \<or> length (hd rest) < 2 \<or> hd (hd rest) \<noteq> CHR ''-'')"
  shows "fs_Parse fs (concat (map render as) @ tail) c = Inr (c', rest)"
  using assms(1,2)
proof (induction as arbitrary: c)
  case Nil
  then show ?case using assms(3) by (cases rest) auto
next
  case (Cons a as)
  from fs_Parse_setting [of fs a as c c' "concat (map render as) @ tail"] Cons show ?case by auto
qed

end
