(* ===== verification/Args.thy ===== *)
theory Args
  imports Config Flags
begin

text \<open>
  The command lines of the eight subcommands: the \<open>parse...Args\<close> functions of
  \<^verbatim>\<open>config.go\<close>, \<^verbatim>\<open>get.go\<close>, \<^verbatim>\<open>get2.go\<close>, \<^verbatim>\<open>bench.go\<close>,
  \<^verbatim>\<open>repack.go\<close>, \<^verbatim>\<open>gc.go\<close> and \<^verbatim>\<open>bot.go\<close>. A flag set stores into the
  configuration and the command's own options, here a pair. Declaring a flag also stores its default,
  so the pair that parsing starts from has the defaults in place.

  The lemmas say what every accepted command line guarantees; the theorem says what every flag of
  every command sets, and exactly which command lines are refused.
\<close>

section \<open>Flags shared by the commands\<close>

abbreviation cfgStr :: "(string \<Rightarrow> Config \<Rightarrow> Config) \<Rightarrow> (Config \<times> 'o) fvar" where
  "cfgStr f \<equiv> StringVar (\<lambda>s. apfst (f s))"

abbreviation cfgInt :: "(int \<Rightarrow> Config \<Rightarrow> Config) \<Rightarrow> (Config \<times> 'o) fvar" where
  "cfgInt f \<equiv> IntVar (\<lambda>n. apfst (f n))"

definition aws_flags :: "(Config \<times> 'o) flagset" where
  "aws_flags =
     [(''aws-key'', cfgStr (\<lambda>s c. c\<lparr>AWSKey := s\<rparr>)),
      (''aws-secret'', cfgStr (\<lambda>s c. c\<lparr>AWSSecret := s\<rparr>)),
      (''endpoint'', cfgStr (\<lambda>s c. c\<lparr>S3Endpt := s\<rparr>)),
      (''s3-root'', cfgStr (\<lambda>s c. c\<lparr>S3Root := s\<rparr>)),
      (''region'', cfgStr (\<lambda>s c. c\<lparr>Region := s\<rparr>))]"

definition store_flags :: "(Config \<times> 'o) flagset" where
  "store_flags = (''bucket'', cfgStr (\<lambda>s c. c\<lparr>S3Bucket := s\<rparr>)) # aws_flags"

section \<open>fetch and serve\<close>

definition fetch_flags :: "(Config \<times> unit) flagset" where
  "fetch_flags = store_flags @
     [(''up-parallel'', cfgInt (\<lambda>n c. c\<lparr>UpSem := n\<rparr>)),
      (''inflight-pieces'', cfgInt (\<lambda>n c. c\<lparr>InflightPieces := n\<rparr>)),
      (''data-dir'', cfgStr (\<lambda>s c. c\<lparr>DataDir := s\<rparr>))]"

definition parseFetchArgs :: "env \<Rightarrow> string list \<Rightarrow> ('w, Config) prog" where
  "parseFetchArgs getenv args =
     bindM (ThrowE (fs_Parse fetch_flags args ((loadCommon getenv)\<lparr>DataDir := ''''\<rparr>, ()))) (\<lambda>((c, _), rest).
       if rest \<noteq> [] then
         ThrowFmt ''samogon fetch: unexpected positional args: %v (.torrent comes on stdin)'' [AStrs rest]
       else bindM (validate c) (\<lambda>_. ret c))"

definition serve_flags :: "(Config \<times> unit) flagset" where
  "serve_flags = store_flags @
     [(''listen'', cfgStr (\<lambda>s c. c\<lparr>Listen := s\<rparr>)),
      (''user'', cfgStr (\<lambda>s c. c\<lparr>User := s\<rparr>)),
      (''pass'', cfgStr (\<lambda>s c. c\<lparr>Pass := s\<rparr>)),
      (''authorized-keys'', cfgStr (\<lambda>s c. c\<lparr>AuthKeys := s\<rparr>)),
      (''host-key'', cfgStr (\<lambda>s c. c\<lparr>HostKey := s\<rparr>)),
      (''reload'', cfgInt (\<lambda>n c. c\<lparr>ReloadSecs := n\<rparr>)),
      (''lru'', cfgInt (\<lambda>n c. c\<lparr>LRUSize := n\<rparr>)),
      (''up-parallel'', cfgInt (\<lambda>n c. c\<lparr>UpSem := n\<rparr>)),
      (''prefetch-distance'', cfgInt (\<lambda>n c. c\<lparr>PrefetchDistance := n\<rparr>))]"

definition parseServeArgs :: "env \<Rightarrow> string list \<Rightarrow> ('w, Config) prog" where
  "parseServeArgs getenv args =
     bindM (ThrowE (fs_Parse serve_flags args
       ((loadCommon getenv)\<lparr>Listen := '':2222'', User := '''', Pass := '''', AuthKeys := '''', HostKey := ''''\<rparr>, ())))
     (\<lambda>((c, _), rest).
       if rest \<noteq> [] then ThrowFmt ''samogon serve: unexpected positional args: %v'' [AStrs rest]
       else if HostKey c = '''' then ThrowFmt ''--host-key is required'' []
       else if User c = '''' \<and> AuthKeys c = '''' then
         ThrowFmt ''at least one of --user/--pass or --authorized-keys is required'' []
       else if User c \<noteq> '''' \<and> Pass c = '''' then ThrowFmt ''--user set without --pass'' []
       else bindM (validate c) (\<lambda>_. ret c))"

section \<open>get, get2 and bench\<close>

record getOpts =
  get_target :: string
  get_outPath :: string
  get_chunk :: int

definition get_flags :: "(Config \<times> getOpts) flagset" where
  "get_flags = store_flags @
     [(''lru'', cfgInt (\<lambda>n c. c\<lparr>LRUSize := n\<rparr>)),
      (''prefetch-distance'', cfgInt (\<lambda>n c. c\<lparr>PrefetchDistance := n\<rparr>)),
      (''o'', StringVar (\<lambda>s. apsnd (\<lambda>p. p\<lparr>get_outPath := s\<rparr>))),
      (''chunk-size'', IntVar (\<lambda>n. apsnd (\<lambda>p. p\<lparr>get_chunk := n\<rparr>)))]"

definition parseGetArgs :: "env \<Rightarrow> string list \<Rightarrow> ('w, Config \<times> getOpts) prog" where
  "parseGetArgs getenv args =
     bindM (ThrowE (fs_Parse get_flags args
       (loadCommon getenv, \<lparr>get_target = '''', get_outPath = '''', get_chunk = 1048576\<rparr>))) (\<lambda>((c, p), rest).
       if length rest \<noteq> 1 then ThrowFmt ''samogon get: expected one positional arg: <torrent>/<file>'' []
       else
         let p = p\<lparr>get_target := hd rest\<rparr>;
             p = (if get_outPath p = '''' then p\<lparr>get_outPath := path_Base (strings_TrimRight (get_target p) ''/'')\<rparr> else p)
         in if get_chunk p \<le> 0 then ThrowFmt ''--chunk-size must be > 0'' []
            else bindM (validate c) (\<lambda>_. ret (c, p)))"

record get2Opts =
  g2_target :: string
  g2_parallel :: int
  g2_shuffle :: bool

definition get2_flags :: "(Config \<times> get2Opts) flagset" where
  "get2_flags = store_flags @
     [(''parallel'', IntVar (\<lambda>n. apsnd (\<lambda>p. p\<lparr>g2_parallel := n\<rparr>))),
      (''shuffle'', BoolVar (\<lambda>b. apsnd (\<lambda>p. p\<lparr>g2_shuffle := b\<rparr>)))]"

definition parseGet2Args :: "env \<Rightarrow> string list \<Rightarrow> ('w, Config \<times> get2Opts) prog" where
  "parseGet2Args getenv args =
     bindM (ThrowE (fs_Parse get2_flags args
       (loadCommon getenv, \<lparr>g2_target = '''', g2_parallel = 64, g2_shuffle = True\<rparr>))) (\<lambda>((c, p), rest).
       if length rest \<noteq> 1 then ThrowFmt ''samogon get2: expected one positional arg: <torrent>[/<file>]'' []
       else
         let p = p\<lparr>g2_target := hd rest\<rparr>
         in if g2_parallel p < 1 then ThrowFmt ''--parallel must be >= 1'' []
            else bindM (validate c) (\<lambda>_. ret (c, p)))"

record benchOpts =
  b_parallel :: int
  b_chunkSize :: int
  b_duration :: int

text \<open>\<open>pd\<close> is \<open>time.ParseDuration\<close>, in nanoseconds.\<close>

definition bench_flags :: "(string \<Rightarrow> goerr + int) \<Rightarrow> (Config \<times> benchOpts) flagset" where
  "bench_flags pd = store_flags @
     [(''parallel'', IntVar (\<lambda>n. apsnd (\<lambda>p. p\<lparr>b_parallel := n\<rparr>))),
      (''chunk-size'', IntVar (\<lambda>n. apsnd (\<lambda>p. p\<lparr>b_chunkSize := n\<rparr>))),
      (''duration'', DurationVar pd (\<lambda>d. apsnd (\<lambda>p. p\<lparr>b_duration := d\<rparr>)))]"

definition parseBenchArgs ::
  "(string \<Rightarrow> goerr + int) \<Rightarrow> env \<Rightarrow> string list \<Rightarrow> ('w, Config \<times> benchOpts) prog" where
  "parseBenchArgs pd getenv args =
     bindM (ThrowE (fs_Parse (bench_flags pd) args
       (loadCommon getenv, \<lparr>b_parallel = 32, b_chunkSize = 262144, b_duration = 30000000000\<rparr>))) (\<lambda>((c, p), rest).
       if rest \<noteq> [] then ThrowFmt ''samogon bench: unexpected positional args: %v'' [AStrs rest]
       else if b_parallel p < 1 then ThrowFmt ''--parallel must be >= 1'' []
       else if b_chunkSize p < 0 then ThrowFmt ''--chunk-size must be >= 0'' []
       else if b_duration p \<le> 0 then ThrowFmt ''--duration must be > 0'' []
       else bindM (validate c) (\<lambda>_. ret (c, p)))"

section \<open>repack, gc and bot\<close>

record repackOpts =
  rp_target :: string
  rp_pieceSize :: int

definition repack_flags :: "(Config \<times> repackOpts) flagset" where
  "repack_flags = store_flags @
     [(''lru'', cfgInt (\<lambda>n c. c\<lparr>LRUSize := n\<rparr>)),
      (''prefetch-distance'', cfgInt (\<lambda>n c. c\<lparr>PrefetchDistance := n\<rparr>)),
      (''max-inflight'', cfgInt (\<lambda>n c. c\<lparr>UpSem := n\<rparr>)),
      (''piece-size'', IntVar (\<lambda>n. apsnd (\<lambda>p. p\<lparr>rp_pieceSize := n\<rparr>)))]"

definition parseRepackArgs :: "env \<Rightarrow> string list \<Rightarrow> ('w, Config \<times> repackOpts) prog" where
  "parseRepackArgs getenv args =
     bindM (ThrowE (fs_Parse repack_flags args
       (loadCommon getenv, \<lparr>rp_target = '''', rp_pieceSize = 4194304\<rparr>))) (\<lambda>((c, p), rest).
       if length rest \<noteq> 1 then
         ThrowFmt ''samogon repack: expected one positional arg: <torrent-key-or-infohash>'' []
       else
         let p = p\<lparr>rp_target := hd rest\<rparr>
         in if rp_pieceSize p \<le> 0 then ThrowFmt ''--piece-size must be > 0'' []
            else bindM (validate c) (\<lambda>_. ret (c, p)))"

definition gc_flags :: "(Config \<times> unit) flagset" where
  "gc_flags = aws_flags @ [(''max-inflight'', cfgInt (\<lambda>n c. c\<lparr>UpSem := n\<rparr>))]"

definition parseGcArgs :: "env \<Rightarrow> string list \<Rightarrow> ('w, Config) prog" where
  "parseGcArgs getenv args =
     bindM (ThrowE (fs_Parse gc_flags args (loadCommon getenv, ()))) (\<lambda>((c, _), rest).
       if length rest \<noteq> 1 then ThrowFmt ''samogon gc: expected one positional arg (bucket, e.g. /samogon)'' []
       else
         let c = c\<lparr>S3Bucket := strings_TrimPrefix (hd rest) ''/''\<rparr>
         in if S3Bucket c = '''' then ThrowFmt ''samogon gc: empty bucket name'' []
            else bindM (validate c) (\<lambda>_. ret c))"

definition bot_flags :: "(Config \<times> unit) flagset" where
  "bot_flags =
     [(''tg-token'', cfgStr (\<lambda>s c. c\<lparr>TgToken := s\<rparr>)),
      (''tg-allow-users'', cfgStr (\<lambda>s c. c\<lparr>TgAllowUsers := s\<rparr>)),
      (''socks5'', cfgStr (\<lambda>s c. c\<lparr>Socks5 := s\<rparr>))]"

definition parseBotArgs :: "env \<Rightarrow> string list \<Rightarrow> ('w, Config) prog" where
  "parseBotArgs getenv args =
     bindM (ThrowE (fs_Parse bot_flags args
       ((loadCommon getenv)\<lparr>TgToken := getenv ''TG_BOT_TOKEN'', TgAllowUsers := getenv ''TG_ALLOW_USERS'',
          Socks5 := getenv ''SAMOGON_SOCKS5''\<rparr>, ()))) (\<lambda>((c, _), rest).
       if rest \<noteq> [] then ThrowFmt ''samogon bot: unexpected positional args: %v'' [AStrs rest]
       else if TgToken c = '''' then ThrowFmt ''--tg-token (or TG_BOT_TOKEN) is required'' []
       else if TgAllowUsers c = '''' then
         ThrowFmt ''--tg-allow-users (or TG_ALLOW_USERS) is required (empty = deny all, makes no sense)'' []
       else ret c)"

section \<open>What an accepted command line guarantees\<close>

named_theorems parse_defs \<open>the definitions of the command lines\<close>

lemmas [parse_defs] = parseFetchArgs_def parseServeArgs_def parseGetArgs_def parseGet2Args_def
  parseBenchArgs_def parseRepackArgs_def parseGcArgs_def parseBotArgs_def

lemma validate_Ret: "validate c w = (Ret u, w') \<longleftrightarrow> usable c \<and> w' = w"
  using validate_iff by simp

lemma validate_run: "usable c \<Longrightarrow> validate c w = (Ret (), w)"
  by (simp add: validate_Ret)

lemma ThrowE_Ret: "ThrowE e w = (Ret x, w') \<longleftrightarrow> e = Inr x \<and> w' = w"
  by (cases e) (auto simp: ThrowE_def ret_run throw_run)

lemma guard_Ret: "(if b then ThrowFmt f a else m) w = (Ret x, w') \<longleftrightarrow> \<not> b \<and> m w = (Ret x, w')"
  by (simp add: ThrowFmt_run)

lemma path_Base_nonempty: "path_Base p \<noteq> ''''"
  by (simp add: path_Base_def Let_def)

lemmas parse_Ret = bindM_Ret_iff validate_Ret ThrowE_Ret guard_Ret ret_run Let_def split_paired_all prod.case

lemma fetch_args_Ret: "parseFetchArgs getenv args w = (Ret c, w') \<Longrightarrow> usable c \<and> w' = w"
  by (auto simp: parseFetchArgs_def parse_Ret)

lemma serve_args_Ret:
  "parseServeArgs getenv args w = (Ret c, w') \<Longrightarrow> usable c \<and> w' = w \<and> HostKey c \<noteq> ''''
     \<and> (User c \<noteq> '''' \<or> AuthKeys c \<noteq> '''') \<and> (User c \<noteq> '''' \<longrightarrow> Pass c \<noteq> '''')"
  by (auto simp: parseServeArgs_def parse_Ret)

lemma get_args_Ret:
  "parseGetArgs getenv args w = (Ret (c, p), w') \<Longrightarrow> usable c \<and> w' = w \<and> 0 < get_chunk p \<and> get_outPath p \<noteq> ''''"
  by (auto simp: parseGetArgs_def parse_Ret path_Base_nonempty split: if_splits dest!: arg_cong [where f = get_outPath])

lemma get2_args_Ret: "parseGet2Args getenv args w = (Ret (c, p), w') \<Longrightarrow> usable c \<and> w' = w \<and> 0 < g2_parallel p"
  by (auto simp: parseGet2Args_def parse_Ret)

lemma bench_args_Ret:
  "parseBenchArgs pd getenv args w = (Ret (c, p), w') \<Longrightarrow>
     usable c \<and> w' = w \<and> 0 < b_parallel p \<and> 0 \<le> b_chunkSize p \<and> 0 < b_duration p"
  by (auto simp: parseBenchArgs_def parse_Ret)

lemma repack_args_Ret: "parseRepackArgs getenv args w = (Ret (c, p), w') \<Longrightarrow> usable c \<and> w' = w \<and> 0 < rp_pieceSize p"
  by (auto simp: parseRepackArgs_def parse_Ret)

lemma gc_args_Ret: "parseGcArgs getenv args w = (Ret c, w') \<Longrightarrow> usable c \<and> w' = w"
  by (auto simp: parseGcArgs_def parse_Ret)

lemma bot_args_Ret: "parseBotArgs getenv args w = (Ret c, w') \<Longrightarrow> w' = w \<and> TgToken c \<noteq> '''' \<and> TgAllowUsers c \<noteq> ''''"
  by (auto simp: parseBotArgs_def parse_Ret)

text \<open>An environment with credentials, a bucket and an endpoint.\<close>

definition env_s :: env where
  "env_s v = (if v = ''S3_ENDPOINT'' then ''http://m'' else if v \<in> {''S3_BUCKET'', ''AWS_ACCESS_KEY_ID'', ''AWS_SECRET_ACCESS_KEY''} then ''x'' else '''')"

text \<open>A program that returns or throws an exception, and leaves the state alone.\<close>

definition settles :: "('w, 'a) prog \<Rightarrow> bool" where
  "settles m \<longleftrightarrow> (\<forall>w. snd (m w) = w \<and> ((\<exists>x. fst (m w) = Ret x) \<or> (\<exists>e. fst (m w) = Panicked (PException e))))"

lemma settles_intros:
  "settles (ret x)" "settles (ThrowFmt f a)" "settles m \<Longrightarrow> settles n \<Longrightarrow> settles (if b then m else n)"
  by (simp_all add: settles_def ret_run ThrowFmt_run)

lemma settles_ThrowE: "settles (ThrowE e)"
  by (cases e) (simp_all add: settles_def ThrowE_run)

lemma settles_bindM: "settles m \<Longrightarrow> (\<And>x. settles (f x)) \<Longrightarrow> settles (bindM m f)"
  unfolding settles_def bindM_def
  by (clarsimp split: prod.splits outcome.splits) (metis fst_conv outcome.distinct(1,3,5) outcome.inject(2) snd_conv)

lemma settles_validate: "settles (validate c)"
  unfolding validate_def by (intro settles_intros)

text \<open>
  A rejected command line is an exception and nothing else: every parsing function returns
  or throws an exception of \<^verbatim>\<open>throw.go\<close>, which the \<open>Try\<close> of \<open>main\<close> reports, and leaves the state
  alone.
\<close>

theorem args_settle:
  "settles (parseFetchArgs getenv args) \<and> settles (parseServeArgs getenv args) \<and> settles (parseGetArgs getenv args)
   \<and> settles (parseGet2Args getenv args) \<and> settles (parseBenchArgs pd getenv args)
   \<and> settles (parseRepackArgs getenv args) \<and> settles (parseGcArgs getenv args) \<and> settles (parseBotArgs getenv args)"
  by (intro conjI; unfold parse_defs Let_def split_def; intro settles_bindM settles_ThrowE settles_intros settles_validate)

section \<open>Every setting does what its name says\<close>

text \<open>
  \<open>ends tail rest\<close>: after the settings come the positional arguments \<open>rest\<close>, behind
  \<^verbatim>\<open>--\<close> or not.
\<close>

definition ends :: "string list \<Rightarrow> string list \<Rightarrow> bool" where
  "ends tail rest \<longleftrightarrow> tail = ''--'' # rest
     \<or> tail = rest \<and> (rest = [] \<or> length (hd rest) < 2 \<or> hd (hd rest) \<noteq> CHR ''-'')"

text \<open>
  What is asked for, said without the flag tables of the program. \<open>last_given p as n d\<close>: the value of the last
  setting named \<open>n\<close>, read by \<open>p\<close>, and \<open>d\<close> when there is none. \<open>asks\<close>: a setting has one of the names of
  its kind and a value that the kind can read; a boolean is joined with its value.
\<close>

fun setting_pair :: "setting \<Rightarrow> string \<times> string" where
  "setting_pair (dd, joined, n, v) = (n, v)"

definition last_given :: "(string \<Rightarrow> 'a) \<Rightarrow> setting list \<Rightarrow> string \<Rightarrow> 'a \<Rightarrow> 'a" where
  "last_given p as n d = (case map_of (rev (map setting_pair as)) n of None \<Rightarrow> d | Some v \<Rightarrow> p v)"

abbreviation given_str :: "setting list \<Rightarrow> string \<Rightarrow> string \<Rightarrow> string" where
  "given_str \<equiv> last_given (\<lambda>v. v)"

abbreviation given_int :: "setting list \<Rightarrow> string \<Rightarrow> int \<Rightarrow> int" where
  "given_int \<equiv> last_given (\<lambda>v. projr (ParseInt v 0))"

fun asks :: "string list \<Rightarrow> string list \<Rightarrow> string list \<Rightarrow> string list \<Rightarrow> (string \<Rightarrow> goerr + int) \<Rightarrow> setting \<Rightarrow> bool" where
  "asks strs ints bools durs pd (dd, joined, n, v) \<longleftrightarrow>
     n \<in> set strs \<or> n \<in> set ints \<and> \<not> isl (ParseInt v 0)
     \<or> n \<in> set bools \<and> joined \<and> \<not> isl (ParseBool v) \<or> n \<in> set durs \<and> \<not> isl (pd v)"

definition aws_names :: "string list" where
  "aws_names = [''aws-key'', ''aws-secret'', ''endpoint'', ''s3-root'', ''region'']"

definition store_names :: "string list" where
  "store_names = ''bucket'' # aws_names"

text \<open>The configuration that the environment and the settings of the store ask for.\<close>

definition common :: "env \<Rightarrow> setting list \<Rightarrow> Config" where
  "common getenv as =
     \<lparr>AWSKey = given_str as ''aws-key'' (getenv ''AWS_ACCESS_KEY_ID''),
      AWSSecret = given_str as ''aws-secret'' (getenv ''AWS_SECRET_ACCESS_KEY''),
      S3Endpt = given_str as ''endpoint'' (getenv ''S3_ENDPOINT''),
      S3Bucket = given_str as ''bucket'' (getenv ''S3_BUCKET''),
      S3Root = given_str as ''s3-root'' (if getenv ''SAMOGON_S3_ROOT'' = '''' then ''torrents'' else getenv ''SAMOGON_S3_ROOT''),
      Listen = '''', User = '''', Pass = '''', AuthKeys = '''', HostKey = '''',
      ReloadSecs = 30, LRUSize = 1000, UpSem = 128, PrefetchDistance = 32, InflightPieces = 1000,
      Region = given_str as ''region'' ''us-east-1'', TgToken = '''', TgAllowUsers = '''', Socks5 = '''', DataDir = ''''\<rparr>"

definition fetch_wants :: "env \<Rightarrow> setting list \<Rightarrow> Config" where
  "fetch_wants getenv as = (common getenv as)
     \<lparr>UpSem := given_int as ''up-parallel'' 128, InflightPieces := given_int as ''inflight-pieces'' 1000,
      DataDir := given_str as ''data-dir'' ''''\<rparr>"

definition serve_wants :: "env \<Rightarrow> setting list \<Rightarrow> Config" where
  "serve_wants getenv as = (common getenv as)
     \<lparr>Listen := given_str as ''listen'' '':2222'', User := given_str as ''user'' '''', Pass := given_str as ''pass'' '''',
      AuthKeys := given_str as ''authorized-keys'' '''', HostKey := given_str as ''host-key'' '''',
      ReloadSecs := given_int as ''reload'' 30, LRUSize := given_int as ''lru'' 1000, UpSem := given_int as ''up-parallel'' 128,
      PrefetchDistance := given_int as ''prefetch-distance'' 32\<rparr>"

definition cached_wants :: "env \<Rightarrow> setting list \<Rightarrow> Config" where
  "cached_wants getenv as = (common getenv as)
     \<lparr>LRUSize := given_int as ''lru'' 1000, PrefetchDistance := given_int as ''prefetch-distance'' 32\<rparr>"

definition get_wants :: "setting list \<Rightarrow> string \<Rightarrow> getOpts" where
  "get_wants as t =
     \<lparr>get_target = t,
      get_outPath = (if given_str as ''o'' '''' = '''' then path_Base (strings_TrimRight t ''/'') else given_str as ''o'' ''''),
      get_chunk = given_int as ''chunk-size'' 1048576\<rparr>"

definition get2_wants :: "setting list \<Rightarrow> string \<Rightarrow> get2Opts" where
  "get2_wants as t = \<lparr>g2_target = t, g2_parallel = given_int as ''parallel'' 64,
     g2_shuffle = last_given (\<lambda>v. projr (ParseBool v)) as ''shuffle'' True\<rparr>"

definition bench_wants :: "(string \<Rightarrow> goerr + int) \<Rightarrow> setting list \<Rightarrow> benchOpts" where
  "bench_wants pd as = \<lparr>b_parallel = given_int as ''parallel'' 32, b_chunkSize = given_int as ''chunk-size'' 262144,
     b_duration = last_given (\<lambda>v. projr (pd v)) as ''duration'' 30000000000\<rparr>"

definition repack_wants :: "setting list \<Rightarrow> string \<Rightarrow> repackOpts" where
  "repack_wants as t = \<lparr>rp_target = t, rp_pieceSize = given_int as ''piece-size'' 4194304\<rparr>"

definition bot_wants :: "env \<Rightarrow> setting list \<Rightarrow> Config" where
  "bot_wants getenv as = (common getenv as)
     \<lparr>TgToken := given_str as ''tg-token'' (getenv ''TG_BOT_TOKEN''),
      TgAllowUsers := given_str as ''tg-allow-users'' (getenv ''TG_ALLOW_USERS''),
      Socks5 := given_str as ''socks5'' (getenv ''SAMOGON_SOCKS5'')\<rparr>"

text \<open>A command line is accepted with the result \<open>x\<close> exactly when \<open>ok\<close> holds, and refused by an exception otherwise.\<close>

definition yields :: "('w, 'a) prog \<Rightarrow> 'w \<Rightarrow> bool \<Rightarrow> 'a \<Rightarrow> bool" where
  "yields m w ok x \<longleftrightarrow> (if ok then m w = (Ret x, w) else \<exists>e. m w = (Panicked (PException e), w))"

lemma last_given_Nil [simp]: "last_given p [] n d = d"
  by (simp add: last_given_def)

lemma last_given_snoc [simp]: "last_given p (as @ [(dd, joined, m, v)]) n d = (if m = n then p v else last_given p as n d)"
  by (simp add: last_given_def)

lemma apply_all_snoc:
  "apply_all fs (as @ [(dd, joined, n, v)]) c =
     (case apply_all fs as c of Inl e \<Rightarrow> Inl e | Inr c \<Rightarrow> fvar_Set (the (map_of fs n)) v c)"
  by (induction fs as c rule: apply_all.induct) (auto split: sum.splits)

text \<open>A flag set stores what \<open>X\<close> says, when it does so for one setting more.\<close>

lemma parses_as:
  assumes "\<And>a. V a \<Longrightarrow> settable fs a" and "d = X []"
    and "\<And>as dd joined n v. V (dd, joined, n, v) \<Longrightarrow>
      fvar_Set (the (map_of fs n)) v (X as) = Inr (X (as @ [(dd, joined, n, v)]))"
    and "list_all V as" and "ends tail rest"
  shows "fs_Parse fs (concat (map render as) @ tail) d = Inr (X as, rest)"
proof -
  have "apply_all fs as d = Inr (X as)" using assms(4)
  proof (induction as rule: rev_induct)
    case (snoc a as)
    then show ?case using assms(3) by (cases a) (simp add: apply_all_snoc)
  qed (simp add: assms(2))
  with flags_roundtrip [of as fs d "X as" tail rest] assms(1,4,5) show ?thesis
    by (auto simp: ends_def list_all_iff)
qed

lemma loadCommon_common: "loadCommon getenv = common getenv []"
proof -
  have set_if: "(if v \<noteq> '''' then c\<lparr>AWSKey := v\<rparr> else c) = c\<lparr>AWSKey := if v = '''' then AWSKey c else v\<rparr>"
    "(if v \<noteq> '''' then c\<lparr>AWSSecret := v\<rparr> else c) = c\<lparr>AWSSecret := if v = '''' then AWSSecret c else v\<rparr>"
    "(if v \<noteq> '''' then c\<lparr>S3Endpt := v\<rparr> else c) = c\<lparr>S3Endpt := if v = '''' then S3Endpt c else v\<rparr>"
    "(if v \<noteq> '''' then c\<lparr>S3Bucket := v\<rparr> else c) = c\<lparr>S3Bucket := if v = '''' then S3Bucket c else v\<rparr>"
    "(if v \<noteq> '''' then c\<lparr>S3Root := v\<rparr> else c) = c\<lparr>S3Root := if v = '''' then S3Root c else v\<rparr>"
    for c :: Config and v by simp_all
  have blank: "(if v = '''' then '''' else v) = v" for v :: string by simp
  show ?thesis unfolding loadCommon_def common_def Let_def set_if
    by (simp only: Config.simps last_given_Nil blank)
qed


lemma not_isl: "\<not> isl x \<Longrightarrow> x = Inr (projr x)"
  by (cases x) simp_all

lemma map_sum_good: "\<not> isl x \<Longrightarrow> map_sum id f x = Inr (f (projr x))"
  by (cases x) simp_all

lemmas names_defs = aws_names_def store_names_def
lemmas wants_defs = common_def fetch_wants_def serve_wants_def cached_wants_def bot_wants_def get2_wants_def
  bench_wants_def repack_wants_def
lemmas flags_defs = aws_flags_def store_flags_def fetch_flags_def serve_flags_def get_flags_def get2_flags_def
  bench_flags_def repack_flags_def gc_flags_def bot_flags_def

lemma fetch_parses:
  assumes "list_all (asks (store_names @ [''data-dir'']) [''up-parallel'', ''inflight-pieces''] [] [] pd) as" and "ends tail rest"
  shows "fs_Parse fetch_flags (concat (map render as) @ tail)
      ((loadCommon getenv)\<lparr>DataDir := ''''\<rparr>, ())
    = Inr ((fetch_wants getenv as, ()), rest)"
proof -
  let ?ok = "asks (store_names @ [''data-dir'']) [''up-parallel'', ''inflight-pieces''] [] [] pd"
    and ?X = "\<lambda>as. (fetch_wants getenv as, ())"
  show ?thesis
  proof (rule parses_as [where X = ?X, OF _ _ _ assms])
    show "settable fetch_flags a" if "?ok a" for a
      using that by (cases a) (simp only: asks.simps settable.simps, auto simp: names_defs flags_defs flag_name_def)
    show "((loadCommon getenv)\<lparr>DataDir := ''''\<rparr>, ()) = ?X []"
      by (simp add: loadCommon_common wants_defs)
    show "fvar_Set (the (map_of fetch_flags n)) v (?X as) = Inr (?X (as @ [(dd, joined, n, v)]))"
      if "?ok (dd, joined, n, v)" for as dd joined n v
      using that by (simp add: names_defs, elim disjE conjE) (simp_all add: flags_defs wants_defs map_sum_good)
  qed
qed

lemma serve_parses:
  assumes "list_all (asks (store_names @ [''listen'', ''user'', ''pass'', ''authorized-keys'', ''host-key'']) 
      [''reload'', ''lru'', ''up-parallel'', ''prefetch-distance''] [] [] pd) as" and "ends tail rest"
  shows "fs_Parse serve_flags (concat (map render as) @ tail)
      ((loadCommon getenv)\<lparr>Listen := '':2222'', User := '''', Pass := '''', AuthKeys := '''', HostKey := ''''\<rparr>, ())
    = Inr ((serve_wants getenv as, ()), rest)"
proof -
  let ?ok = "asks (store_names @ [''listen'', ''user'', ''pass'', ''authorized-keys'', ''host-key'']) 
      [''reload'', ''lru'', ''up-parallel'', ''prefetch-distance''] [] [] pd"
    and ?X = "\<lambda>as. (serve_wants getenv as, ())"
  show ?thesis
  proof (rule parses_as [where X = ?X, OF _ _ _ assms])
    show "settable serve_flags a" if "?ok a" for a
      using that by (cases a) (simp only: asks.simps settable.simps, auto simp: names_defs flags_defs flag_name_def)
    show "((loadCommon getenv)\<lparr>Listen := '':2222'', User := '''', Pass := '''', AuthKeys := '''', HostKey := ''''\<rparr>, ()) = ?X []"
      by (simp add: loadCommon_common wants_defs)
    show "fvar_Set (the (map_of serve_flags n)) v (?X as) = Inr (?X (as @ [(dd, joined, n, v)]))"
      if "?ok (dd, joined, n, v)" for as dd joined n v
      using that by (simp add: names_defs, elim disjE conjE) (simp_all add: flags_defs wants_defs map_sum_good)
  qed
qed

lemma get_parses:
  assumes "list_all (asks (store_names @ [''o'']) [''lru'', ''prefetch-distance'', ''chunk-size''] [] [] pd) as" and "ends tail rest"
  shows "fs_Parse get_flags (concat (map render as) @ tail)
      (loadCommon getenv, \<lparr>get_target = '''', get_outPath = '''', get_chunk = 1048576\<rparr>)
    = Inr ((cached_wants getenv as,
      \<lparr>get_target = '''', get_outPath = given_str as ''o'' '''', get_chunk = given_int as ''chunk-size'' 1048576\<rparr>), rest)"
proof -
  let ?ok = "asks (store_names @ [''o'']) [''lru'', ''prefetch-distance'', ''chunk-size''] [] [] pd"
    and ?X = "\<lambda>as. (cached_wants getenv as,
      \<lparr>get_target = '''', get_outPath = given_str as ''o'' '''', get_chunk = given_int as ''chunk-size'' 1048576\<rparr>)"
  show ?thesis
  proof (rule parses_as [where X = ?X, OF _ _ _ assms])
    show "settable get_flags a" if "?ok a" for a
      using that by (cases a) (simp only: asks.simps settable.simps, auto simp: names_defs flags_defs flag_name_def)
    show "(loadCommon getenv, \<lparr>get_target = '''', get_outPath = '''', get_chunk = 1048576\<rparr>) = ?X []"
      by (simp add: loadCommon_common wants_defs)
    show "fvar_Set (the (map_of get_flags n)) v (?X as) = Inr (?X (as @ [(dd, joined, n, v)]))"
      if "?ok (dd, joined, n, v)" for as dd joined n v
      using that by (simp add: names_defs, elim disjE conjE) (simp_all add: flags_defs wants_defs map_sum_good)
  qed
qed

lemma get2_parses:
  assumes "list_all (asks store_names [''parallel''] [''shuffle''] [] pd) as" and "ends tail rest"
  shows "fs_Parse get2_flags (concat (map render as) @ tail)
      (loadCommon getenv, \<lparr>g2_target = '''', g2_parallel = 64, g2_shuffle = True\<rparr>)
    = Inr ((common getenv as, get2_wants as ''''), rest)"
proof -
  let ?ok = "asks store_names [''parallel''] [''shuffle''] [] pd"
    and ?X = "\<lambda>as. (common getenv as, get2_wants as '''')"
  show ?thesis
  proof (rule parses_as [where X = ?X, OF _ _ _ assms])
    show "settable get2_flags a" if "?ok a" for a
      using that by (cases a) (simp only: asks.simps settable.simps, auto simp: names_defs flags_defs flag_name_def)
    show "(loadCommon getenv, \<lparr>g2_target = '''', g2_parallel = 64, g2_shuffle = True\<rparr>) = ?X []"
      by (simp add: loadCommon_common wants_defs)
    show "fvar_Set (the (map_of get2_flags n)) v (?X as) = Inr (?X (as @ [(dd, joined, n, v)]))"
      if "?ok (dd, joined, n, v)" for as dd joined n v
      using that by (simp add: names_defs, elim disjE conjE) (simp_all add: flags_defs wants_defs map_sum_good)
  qed
qed

lemma bench_parses:
  assumes "list_all (asks store_names [''parallel'', ''chunk-size''] [] [''duration''] pd) as" and "ends tail rest"
  shows "fs_Parse (bench_flags pd) (concat (map render as) @ tail)
      (loadCommon getenv, \<lparr>b_parallel = 32, b_chunkSize = 262144, b_duration = 30000000000\<rparr>)
    = Inr ((common getenv as, bench_wants pd as), rest)"
proof -
  let ?ok = "asks store_names [''parallel'', ''chunk-size''] [] [''duration''] pd"
    and ?X = "\<lambda>as. (common getenv as, bench_wants pd as)"
  show ?thesis
  proof (rule parses_as [where X = ?X, OF _ _ _ assms])
    show "settable (bench_flags pd) a" if "?ok a" for a
      using that by (cases a) (simp only: asks.simps settable.simps, auto simp: names_defs flags_defs flag_name_def)
    show "(loadCommon getenv, \<lparr>b_parallel = 32, b_chunkSize = 262144, b_duration = 30000000000\<rparr>) = ?X []"
      by (simp add: loadCommon_common wants_defs)
    show "fvar_Set (the (map_of (bench_flags pd) n)) v (?X as) = Inr (?X (as @ [(dd, joined, n, v)]))"
      if "?ok (dd, joined, n, v)" for as dd joined n v
      using that by (simp add: names_defs, elim disjE conjE) (simp_all add: flags_defs wants_defs map_sum_good)
  qed
qed

lemma repack_parses:
  assumes "list_all (asks store_names [''lru'', ''prefetch-distance'', ''max-inflight'', ''piece-size''] [] [] pd) as" and "ends tail rest"
  shows "fs_Parse repack_flags (concat (map render as) @ tail)
      (loadCommon getenv, \<lparr>rp_target = '''', rp_pieceSize = 4194304\<rparr>)
    = Inr (((cached_wants getenv as)\<lparr>UpSem := given_int as ''max-inflight'' 128\<rparr>, repack_wants as ''''), rest)"
proof -
  let ?ok = "asks store_names [''lru'', ''prefetch-distance'', ''max-inflight'', ''piece-size''] [] [] pd"
    and ?X = "\<lambda>as. ((cached_wants getenv as)\<lparr>UpSem := given_int as ''max-inflight'' 128\<rparr>, repack_wants as '''')"
  show ?thesis
  proof (rule parses_as [where X = ?X, OF _ _ _ assms])
    show "settable repack_flags a" if "?ok a" for a
      using that by (cases a) (simp only: asks.simps settable.simps, auto simp: names_defs flags_defs flag_name_def)
    show "(loadCommon getenv, \<lparr>rp_target = '''', rp_pieceSize = 4194304\<rparr>) = ?X []"
      by (simp add: loadCommon_common wants_defs)
    show "fvar_Set (the (map_of repack_flags n)) v (?X as) = Inr (?X (as @ [(dd, joined, n, v)]))"
      if "?ok (dd, joined, n, v)" for as dd joined n v
      using that by (simp add: names_defs, elim disjE conjE) (simp_all add: flags_defs wants_defs map_sum_good)
  qed
qed

lemma gc_parses:
  assumes "list_all (asks aws_names [''max-inflight''] [] [] pd) as" and "ends tail rest"
  shows "fs_Parse gc_flags (concat (map render as) @ tail)
      (loadCommon getenv, ())
    = Inr (((common getenv as)\<lparr>UpSem := given_int as ''max-inflight'' 128\<rparr>, ()), rest)"
proof -
  let ?ok = "asks aws_names [''max-inflight''] [] [] pd"
    and ?X = "\<lambda>as. ((common getenv as)\<lparr>UpSem := given_int as ''max-inflight'' 128\<rparr>, ())"
  show ?thesis
  proof (rule parses_as [where X = ?X, OF _ _ _ assms])
    show "settable gc_flags a" if "?ok a" for a
      using that by (cases a) (simp only: asks.simps settable.simps, auto simp: names_defs flags_defs flag_name_def)
    show "(loadCommon getenv, ()) = ?X []"
      by (simp add: loadCommon_common wants_defs)
    show "fvar_Set (the (map_of gc_flags n)) v (?X as) = Inr (?X (as @ [(dd, joined, n, v)]))"
      if "?ok (dd, joined, n, v)" for as dd joined n v
      using that by (simp add: names_defs, elim disjE conjE) (simp_all add: flags_defs wants_defs map_sum_good)
  qed
qed

lemma bot_parses:
  assumes "list_all (asks [''tg-token'', ''tg-allow-users'', ''socks5''] [] [] [] pd) as" and "ends tail rest"
  shows "fs_Parse bot_flags (concat (map render as) @ tail)
      ((loadCommon getenv)\<lparr>TgToken := getenv ''TG_BOT_TOKEN'', TgAllowUsers := getenv ''TG_ALLOW_USERS'',
        Socks5 := getenv ''SAMOGON_SOCKS5''\<rparr>, ())
    = Inr ((bot_wants getenv as, ()), rest)"
proof -
  let ?ok = "asks [''tg-token'', ''tg-allow-users'', ''socks5''] [] [] [] pd"
    and ?X = "\<lambda>as. (bot_wants getenv as, ())"
  show ?thesis
  proof (rule parses_as [where X = ?X, OF _ _ _ assms])
    show "settable bot_flags a" if "?ok a" for a
      using that by (cases a) (simp only: asks.simps settable.simps, auto simp: names_defs flags_defs flag_name_def)
    show "((loadCommon getenv)\<lparr>TgToken := getenv ''TG_BOT_TOKEN'', TgAllowUsers := getenv ''TG_ALLOW_USERS'',
        Socks5 := getenv ''SAMOGON_SOCKS5''\<rparr>, ()) = ?X []"
      by (simp add: loadCommon_common wants_defs)
    show "fvar_Set (the (map_of bot_flags n)) v (?X as) = Inr (?X (as @ [(dd, joined, n, v)]))"
      if "?ok (dd, joined, n, v)" for as dd joined n v
      using that by (simp add: names_defs, elim disjE conjE) (simp_all add: flags_defs wants_defs map_sum_good)
  qed
qed

lemma yields_guard: "yields (if b then ThrowFmt f a else m) w ok x \<longleftrightarrow> (if b then \<not> ok else yields m w ok x)"
  by (simp add: yields_def ThrowFmt_run)

lemma yields_ret: "yields (ret x) w ok x \<longleftrightarrow> ok"
  by (simp add: yields_def ret_run)

lemma yields_validate: "yields (bindM (validate c) (\<lambda>_. ret x)) w ok x \<longleftrightarrow> (ok \<longleftrightarrow> usable c)"
proof (cases "usable c")
  case True
  then have "validate c w = (Ret (), w)" by (simp add: validate_Ret)
  with True show ?thesis by (simp add: yields_def bindM_def ret_run)
next
  case False
  then obtain e where "validate c w = (Panicked (PException e), w)" using validate_throws [of c w] by blast
  then have "bindM (validate c) (\<lambda>_. ret x) w = (Panicked (PException e), w)" by (rule bindM_Panicked)
  with False show ?thesis unfolding yields_def by auto
qed

lemma yields_parsed: "p = Inr x \<Longrightarrow> yields (f x) w ok y \<Longrightarrow> yields (bindM (ThrowE p) f) w ok y"
  by (simp add: yields_def bindM_def ThrowE_run)

lemmas yields_rules = yields_guard yields_validate yields_ret prod.case Let_def

text \<open>
  C38: every flag of every command does what its name says, and a command line is refused
  exactly when it has to be. Take settings of the flags of a command in any order, repeated or not, each
  in any of the forms of the flag syntax that carry a value, and then any positional arguments. The line is
  accepted exactly when the number of positional arguments is right and the values pass the checks of the
  command; the result has in each field the last value given under the name of its flag, or else the
  value of the environment or the default; and a refusal is an exception. The bindings of names
  to fields and the defaults are written out in \<open>common\<close> and the \<open>_wants\<close> definitions,
  not read off the flag tables.
\<close>

theorem args_roundtrip:
  assumes "ends tail rest"
  shows "(list_all (asks (store_names @ [''data-dir'']) [''up-parallel'', ''inflight-pieces''] [] [] pd) as \<longrightarrow>
      yields (parseFetchArgs getenv (concat (map render as) @ tail)) w
        (rest = [] \<and> usable (fetch_wants getenv as)) (fetch_wants getenv as))
    \<and> (list_all (asks (store_names @ [''listen'', ''user'', ''pass'', ''authorized-keys'', ''host-key''])
          [''reload'', ''lru'', ''up-parallel'', ''prefetch-distance''] [] [] pd) as \<longrightarrow>
      yields (parseServeArgs getenv (concat (map render as) @ tail)) w
        (rest = [] \<and> given_str as ''host-key'' '''' \<noteq> '''' \<and> (given_str as ''user'' '''' \<noteq> '''' \<or> given_str as ''authorized-keys'' '''' \<noteq> '''')
          \<and> (given_str as ''user'' '''' = '''' \<or> given_str as ''pass'' '''' \<noteq> '''') \<and> usable (common getenv as)) (serve_wants getenv as))
    \<and> (list_all (asks (store_names @ [''o'']) [''lru'', ''prefetch-distance'', ''chunk-size''] [] [] pd) as \<longrightarrow>
      yields (parseGetArgs getenv (concat (map render as) @ tail)) w
        (length rest = 1 \<and> 0 < given_int as ''chunk-size'' 1048576 \<and> usable (common getenv as))
        (cached_wants getenv as, get_wants as (hd rest)))
    \<and> (list_all (asks store_names [''parallel''] [''shuffle''] [] pd) as \<longrightarrow>
      yields (parseGet2Args getenv (concat (map render as) @ tail)) w
        (length rest = 1 \<and> 1 \<le> given_int as ''parallel'' 64 \<and> usable (common getenv as))
        (common getenv as, get2_wants as (hd rest)))
    \<and> (list_all (asks store_names [''parallel'', ''chunk-size''] [] [''duration''] pd) as \<longrightarrow>
      yields (parseBenchArgs pd getenv (concat (map render as) @ tail)) w
        (rest = [] \<and> 1 \<le> given_int as ''parallel'' 32 \<and> 0 \<le> given_int as ''chunk-size'' 262144
          \<and> 0 < last_given (\<lambda>v. projr (pd v)) as ''duration'' 30000000000 \<and> usable (common getenv as))
        (common getenv as, bench_wants pd as))
    \<and> (list_all (asks store_names [''lru'', ''prefetch-distance'', ''max-inflight'', ''piece-size''] [] [] pd) as \<longrightarrow>
      yields (parseRepackArgs getenv (concat (map render as) @ tail)) w
        (length rest = 1 \<and> 0 < given_int as ''piece-size'' 4194304 \<and> usable (common getenv as))
        ((cached_wants getenv as)\<lparr>UpSem := given_int as ''max-inflight'' 128\<rparr>, repack_wants as (hd rest)))
    \<and> (list_all (asks aws_names [''max-inflight''] [] [] pd) as \<longrightarrow>
      (let c = (common getenv as)\<lparr>UpSem := given_int as ''max-inflight'' 128, S3Bucket := strings_TrimPrefix (hd rest) ''/''\<rparr> in
      yields (parseGcArgs getenv (concat (map render as) @ tail)) w (length rest = 1 \<and> usable c) c))
    \<and> (list_all (asks [''tg-token'', ''tg-allow-users'', ''socks5''] [] [] [] pd) as \<longrightarrow>
      yields (parseBotArgs getenv (concat (map render as) @ tail)) w
        (rest = [] \<and> given_str as ''tg-token'' (getenv ''TG_BOT_TOKEN'') \<noteq> ''''
          \<and> given_str as ''tg-allow-users'' (getenv ''TG_ALLOW_USERS'') \<noteq> '''') (bot_wants getenv as))"
  unfolding parse_defs
  apply (intro conjI impI)
  apply (erule yields_parsed [OF fetch_parses [OF _ assms]]; auto simp: yields_rules)
  apply (erule yields_parsed [OF serve_parses [OF _ assms]]; auto simp: yields_rules serve_wants_def usable_def)
  apply (erule yields_parsed [OF get_parses [OF _ assms]]; auto simp: yields_rules get_wants_def cached_wants_def usable_def)
  apply (erule yields_parsed [OF get2_parses [OF _ assms]]; auto simp: yields_rules get2_wants_def)
  apply (erule yields_parsed [OF bench_parses [OF _ assms]]; auto simp: yields_rules bench_wants_def)
  apply (erule yields_parsed [OF repack_parses [OF _ assms]]; auto simp: yields_rules repack_wants_def cached_wants_def usable_def)
  apply (unfold Let_def, erule yields_parsed [OF gc_parses [OF _ assms]]; auto simp: yields_rules usable_def)
  apply (erule yields_parsed [OF bot_parses [OF _ assms]]; auto simp: yields_rules bot_wants_def)
  done

text \<open>
  \<^verbatim>\<open>get --lru=0x10 -o f --endpoint=http://e -chunk-size 4096 --lru 5 -- -t\<close> is accepted, with 5 for the cache and
  the endpoint given; \<^verbatim>\<open>serve --user=u --pass=p\<close> has no host key and is refused.
\<close>

definition as_get :: "setting list" where
  "as_get = [(True, True, ''lru'', ''0x10''), (False, False, ''o'', ''f''), (True, True, ''endpoint'', ''http://e''),
     (False, False, ''chunk-size'', ''4096''), (True, False, ''lru'', ''5'')]"

definition as_serve :: "setting list" where
  "as_serve = [(True, True, ''user'', ''u''), (True, True, ''pass'', ''p'')]"

theorem args_roundtrip_witness:
  "(\<exists>c. LRUSize c = 5 \<and> S3Endpt c = ''http://e'' \<and> S3Root c = ''torrents''
      \<and> parseGetArgs env_s [''--lru=0x10'', ''-o'', ''f'', ''--endpoint=http://e'', ''-chunk-size'', ''4096'', ''--lru'', ''5'', ''--'', ''-t''] ()
        = (Ret (c, \<lparr>get_target = ''-t'', get_outPath = ''f'', get_chunk = 4096\<rparr>), ()))
   \<and> (\<exists>e. parseServeArgs env_s [''--user=u'', ''--pass=p''] () = (Panicked (PException e), ()))"
proof
  have e: "ends [''--'', ''-t''] [''-t'']" "ends [] []" by (simp_all add: ends_def)
  let ?c = "cached_wants env_s as_get"
  have v: "list_all (asks (store_names @ [''o'']) [''lru'', ''prefetch-distance'', ''chunk-size''] [] [] Inr') as_get" for Inr'
    by (simp add: as_get_def names_defs, code_simp)
  have g: "0 < given_int as_get ''chunk-size'' 1048576" "usable (common env_s as_get)"
    "get_wants as_get ''-t'' = \<lparr>get_target = ''-t'', get_outPath = ''f'', get_chunk = 4096\<rparr>"
    "LRUSize ?c = 5" "S3Endpt ?c = ''http://e''" "S3Root ?c = ''torrents''" by code_simp+
  have r: "concat (map render as_get) @ [''--'', ''-t'']
      = [''--lru=0x10'', ''-o'', ''f'', ''--endpoint=http://e'', ''-chunk-size'', ''4096'', ''--lru'', ''5'', ''--'', ''-t'']" by code_simp
  have "yields (parseGetArgs env_s (concat (map render as_get) @ [''--'', ''-t''])) ()
      (length [''-t''] = 1 \<and> 0 < given_int as_get ''chunk-size'' 1048576 \<and> usable (common env_s as_get)) (?c, get_wants as_get (hd [''-t'']))"
    using args_roundtrip [OF e(1), of "\<lambda>v. Inr 0" as_get env_s "()"] v by blast
  then have "parseGetArgs env_s (concat (map render as_get) @ [''--'', ''-t'']) () = (Ret (?c, get_wants as_get ''-t''), ())"
    using g(1,2) by (simp add: yields_def)
  then show "\<exists>c. LRUSize c = 5 \<and> S3Endpt c = ''http://e'' \<and> S3Root c = ''torrents''
      \<and> parseGetArgs env_s [''--lru=0x10'', ''-o'', ''f'', ''--endpoint=http://e'', ''-chunk-size'', ''4096'', ''--lru'', ''5'', ''--'', ''-t''] ()
        = (Ret (c, \<lparr>get_target = ''-t'', get_outPath = ''f'', get_chunk = 4096\<rparr>), ())"
    using g(3-6) unfolding r by auto
next
  have e: "ends [] []" by (simp add: ends_def)
  have v: "list_all (asks (store_names @ [''listen'', ''user'', ''pass'', ''authorized-keys'', ''host-key''])
      [''reload'', ''lru'', ''up-parallel'', ''prefetch-distance''] [] [] pd) as_serve" for pd
    by (simp add: as_serve_def names_defs)
  have no: "given_str as_serve ''host-key'' '''' = ''''" by code_simp
  have r: "concat (map render as_serve) @ [] = [''--user=u'', ''--pass=p'']" by code_simp
  from args_roundtrip [OF e, of "\<lambda>v. Inr 0" as_serve env_s "()"] v
  have "yields (parseServeArgs env_s (concat (map render as_serve) @ [])) ()
      ([] = ([] :: string list) \<and> given_str as_serve ''host-key'' '''' \<noteq> ''''
        \<and> (given_str as_serve ''user'' '''' \<noteq> '''' \<or> given_str as_serve ''authorized-keys'' '''' \<noteq> '''')
        \<and> (given_str as_serve ''user'' '''' = '''' \<or> given_str as_serve ''pass'' '''' \<noteq> '''') \<and> usable (common env_s as_serve))
      (serve_wants env_s as_serve)" by blast
  then show "\<exists>e. parseServeArgs env_s [''--user=u'', ''--pass=p''] () = (Panicked (PException e), ())"
    unfolding r using no by (simp add: yields_def)
qed

end
