(* ===== verification/Catalogue.thy ===== *)
theory Catalogue
  imports Meta
begin

text \<open>
  Where the entries of the catalogue come from: whatever happens during a reload, an entry is what
  \<open>buildMeta\<close> makes of a torrent stored under its infohash. The commands that look a torrent up by
  name (\<^verbatim>\<open>get.go\<close>, \<^verbatim>\<open>get2.go\<close>) rely on it.
\<close>

section \<open>Entries and the bucket\<close>

text \<open>\<open>f\<close> is the bucket, which a reload does not change, and \<open>c\<close> the cache.\<close>

definition from_bucket ::
  "Config \<Rightarrow> 's view \<Rightarrow> metalib \<Rightarrow> (string \<Rightarrow> bytes option) \<Rightarrow> LRU \<Rightarrow> ('s, 'z) mworld_scheme \<Rightarrow> bool" where
  "from_bucket cfg objs lib f c w \<longleftrightarrow> objs (w_s3 w) (S3Bucket cfg) = f \<and> rw_cache w = c \<and> meta_wf w
     \<and> (\<forall>ih tm. m_byHash w ih = Some tm \<longrightarrow>
          (\<exists>info. torrent_at cfg lib f ih = Some info \<and> v1_info lib info \<and> same_torrent lib info ih tm))"

text \<open>Every entry has the plain name of its torrent and is found under it.\<close>

definition plain_names :: "('s, 'z) mworld_scheme \<Rightarrow> bool" where
  "plain_names w \<longleftrightarrow> (\<forall>ih tm. m_byHash w ih = Some tm \<longrightarrow> DisplayName tm = Name tm \<and> m_byName w (Name tm) = Some tm)"

definition distinct_names :: "Config \<Rightarrow> metalib \<Rightarrow> (string \<Rightarrow> bytes option) \<Rightarrow> bool" where
  "distinct_names cfg lib f \<longleftrightarrow> (\<forall>i j a b. torrent_at cfg lib f i = Some a \<longrightarrow> torrent_at cfg lib f j = Some b \<longrightarrow>
     sanitizeName (info_Name a) = sanitizeName (info_Name b) \<longrightarrow> i = j)"

lemma same_torrent_install: "same_torrent lib info ih ((meta_of lib info ih)\<lparr>DisplayName := n\<rparr>)"
  by (simp add: same_torrent_def meta_of_def)

lemma same_torrent_fields:
  assumes "same_torrent lib info ih tm"
  shows "Infohash tm = ih" "Name tm = sanitizeName (info_Name info)" "Files tm = files_of info"
    "PieceHashes tm = hashes_of lib info" "PieceLen tm = info_PieceLength info" "TotalLen tm = TotalLength lib info"
proof -
  have f: "Infohash (tm\<lparr>DisplayName := []\<rparr>) = ih" "Name (tm\<lparr>DisplayName := []\<rparr>) = sanitizeName (info_Name info)"
    "Files (tm\<lparr>DisplayName := []\<rparr>) = files_of info" "PieceHashes (tm\<lparr>DisplayName := []\<rparr>) = hashes_of lib info"
    "PieceLen (tm\<lparr>DisplayName := []\<rparr>) = info_PieceLength info" "TotalLen (tm\<lparr>DisplayName := []\<rparr>) = TotalLength lib info"
    using assms unfolding same_torrent_def by (simp_all add: meta_of_def)
  show "Infohash tm = ih" "Name tm = sanitizeName (info_Name info)" "Files tm = files_of info"
    "PieceHashes tm = hashes_of lib info" "PieceLen tm = info_PieceLength info" "TotalLen tm = TotalLength lib info"
    using f by simp_all
qed

lemma from_bucket_install:
  assumes "from_bucket cfg objs lib f c w" and "m_byHash w ih = None"
    and "torrent_at cfg lib f ih = Some info" and "v1_info lib info"
  shows "from_bucket cfg objs lib f c (install lib info ih w)"
  using assms meta_wf_install [of w ih lib info] same_torrent_install
  by (auto simp: from_bucket_def install_def Let_def)

lemma plain_names_install:
  assumes fb: "from_bucket cfg objs lib f c w" and "m_byHash w ih = None"
    and t: "torrent_at cfg lib f ih = Some info" and d: "distinct_names cfg lib f" and pl: "plain_names w"
  shows "plain_names (install lib info ih w)"
proof -
  let ?n = "sanitizeName (info_Name info)"
  have free: "Name tm \<noteq> ?n" if "m_byHash w i = Some tm" for i tm
  proof
    assume n: "Name tm = ?n"
    from fb that obtain a where a: "torrent_at cfg lib f i = Some a" "same_torrent lib a i tm"
      unfolding from_bucket_def by blast
    with n same_torrent_fields(2) have "sanitizeName (info_Name a) = ?n" by metis
    with d a(1) t have "i = ih" unfolding distinct_names_def by blast
    with that assms(2) show False by simp
  qed
  have none: "m_byName w ?n = None"
  proof (rule ccontr)
    assume "m_byName w ?n \<noteq> None"
    then obtain tm where tm: "m_byName w ?n = Some tm" by blast
    with fb have "DisplayName tm = ?n" "m_byHash w (Infohash tm) = Some tm"
      by (simp_all add: from_bucket_def meta_wf_def)
    with pl free show False unfolding plain_names_def by metis
  qed
  then have u: "unique_of (m_byName w) ?n ih = ?n" by (simp add: unique_of_def)
  let ?tm = "(meta_of lib info ih)\<lparr>DisplayName := ?n\<rparr>"
  have inst: "m_byHash (install lib info ih w) = (m_byHash w)(ih \<mapsto> ?tm)"
    "m_byName (install lib info ih w) = (m_byName w)(?n \<mapsto> ?tm)" and nm: "Name ?tm = ?n"
    by (simp_all add: install_def Let_def u meta_of_def)
  show ?thesis unfolding plain_names_def
  proof (intro allI impI)
    fix i tm assume h: "m_byHash (install lib info ih w) i = Some tm"
    show "DisplayName tm = Name tm \<and> m_byName (install lib info ih w) (Name tm) = Some tm"
    proof (cases "i = ih")
      case True
      with h have "tm = ?tm" by (simp add: inst)
      then show ?thesis by (simp add: inst nm meta_of_def)
    next
      case False
      with h have "m_byHash w i = Some tm" by (simp add: inst)
      with pl free [OF this] show ?thesis by (simp add: inst plain_names_def)
    qed
  qed
qed

text \<open>The two facts together, the second one while no two torrents share a name.\<close>

definition sourced ::
  "Config \<Rightarrow> 's view \<Rightarrow> metalib \<Rightarrow> (string \<Rightarrow> bytes option) \<Rightarrow> LRU \<Rightarrow> ('s, 'z) mworld_scheme \<Rightarrow> bool" where
  "sourced cfg objs lib f c w \<longleftrightarrow> from_bucket cfg objs lib f c w \<and> (distinct_names cfg lib f \<longrightarrow> plain_names w)"

lemma plain_names_s3 [simp]: "plain_names (w\<lparr>w_s3 := s\<rparr>) = plain_names w"
  by (simp add: plain_names_def)

lemma from_bucket_s3: "objs s = objs (w_s3 w) \<Longrightarrow> from_bucket cfg objs lib f c (w\<lparr>w_s3 := s\<rparr>) = from_bucket cfg objs lib f c w"
  by (simp add: from_bucket_def)

lemma sourced_s3: "sourced cfg objs lib f c w \<Longrightarrow> objs s = objs (w_s3 w) \<Longrightarrow> sourced cfg objs lib f c (w\<lparr>w_s3 := s\<rparr>)"
  unfolding sourced_def from_bucket_s3 plain_names_s3 .

lemma sourced_Cat:
  assumes "s3_laws cli objs" and "sourced cfg objs lib f c w" and "Cat cfg cli k w = (r, w')"
  shows "sourced cfg objs lib f c w'"
proof -
  obtain s where s: "w' = w\<lparr>w_s3 := s\<rparr>" using Cat_frame [OF assms(3)] by blast
  moreover have "objs s = objs (w_s3 w)" using Cat_law [OF assms(1,3)] s by simp
  ultimately show ?thesis by (simp only: sourced_s3 [OF assms(2)])
qed

text \<open>What a reload does to one key: nothing, a failed request, or a new entry for a torrent that is in the bucket.\<close>

lemma keeps_loading:
  fixes I :: "('s, 'z) mworld_scheme \<Rightarrow> bool"
  assumes laws: "s3_laws cli objs" and f: "\<And>w. I w \<Longrightarrow> objs (w_s3 w) (S3Bucket cfg) = f"
    and cat: "\<And>w k r w'. I w \<Longrightarrow> Cat cfg cli k w = (r, w') \<Longrightarrow> I w'"
    and inst: "\<And>w ih info. I w \<Longrightarrow> m_byHash w ih = None \<Longrightarrow> torrent_at cfg lib f ih = Some info \<Longrightarrow> v1_info lib info \<Longrightarrow>
      I (install lib info ih w)"
  shows "keeps I (reload_one cfg cli lib k)"
proof (rule keepsI)
  fix w :: "('s, 'z) mworld_scheme" and r w'
  assume I: "I w" and run: "reload_one cfg cli lib k w = (r, w')"
  let ?ih = "path_Base k"
  show "I w'"
  proof (cases "m_byHash w ?ih")
    case (Some tm)
    with run I show ?thesis by (simp add: reload_one_def Let_def ret_def)
  next
    case None
    obtain rl wl where l: "loadOne cfg cli lib ?ih w = (rl, wl)" by fastforce
    have "w' = wl"
      using run None l by (auto simp: reload_one_def Let_def bindM_def getM_def Try_def Catch_def ret_def
          split: outcome.splits panicval.splits)
    moreover from loadOne_cases [OF l] have "I wl"
    proof (elim disjE exE conjE)
      fix d info w1
      assume c: "Cat cfg cli (KeyTorrent cfg ?ih) w = (Ret d, w1)" and p: "parsed lib d = Some info" "v1_info lib info"
        and wl: "wl = install lib info ?ih w1"
      have "f (KeyTorrent cfg ?ih) = Some d" using Cat_law [OF laws c] f [OF I] by simp
      then have "torrent_at cfg lib f ?ih = Some info" using p by (simp add: torrent_at_def)
      with inst [OF cat [OF I c]] Cat_maps(1) [OF c] None p(2) show ?thesis by (simp add: wl)
    next
      fix rc assume "Cat cfg cli (KeyTorrent cfg ?ih) w = (rc, wl)"
      with cat [OF I] show ?thesis by blast
    qed
    ultimately show ?thesis by simp
  qed
qed

lemma keeps_sourced_reload_one:
  assumes laws: "s3_laws cli objs"
  shows "keeps (sourced cfg objs lib f c) (reload_one cfg cli lib k)"
proof (rule keeps_loading [OF laws _ sourced_Cat [OF laws], where f = f])
  show "sourced cfg objs lib f c (install lib info ih w)"
    if "sourced cfg objs lib f c w" "m_byHash w ih = None" "torrent_at cfg lib f ih = Some info" "v1_info lib info"
    for w :: "('a, 'd) mworld_scheme" and ih info
    using that from_bucket_install [OF _ that(2-4)] plain_names_install [OF _ that(2,3)] unfolding sourced_def by blast
qed (simp_all add: sourced_def from_bucket_def)

lemma keeps_sourced_pruneGone:
  assumes "order_law order"
  shows "keeps (sourced cfg objs lib f c) (pruneGone order seen)"
proof (rule keepsI)
  fix w r w'
  assume so: "sourced cfg objs lib f c w" and run: "pruneGone order seen w = (r, w')"
  then have wf: "meta_wf w" "finite (dom (m_byHash w))"
    by (simp_all add: sourced_def from_bucket_def meta_wf_def)
  have w': "w' = w\<lparr>m_byHash := m_byHash w |` seen,
    m_byName := (\<lambda>n. if n \<in> doomed (m_byHash w) UNIV seen then None else m_byName w n)\<rparr>"
    using run pruneGone_run [OF assms wf(2), of seen] by simp
  have "from_bucket cfg objs lib f c w'"
    using so meta_wf_pruned [OF wf(1), of seen]
    by (auto simp: w' sourced_def from_bucket_def restrict_map_def split: if_splits)
  moreover have "plain_names w'" if pl: "plain_names w"
  proof -
    have "meta_reach w" using pl by (simp add: plain_names_def meta_reach_def)
    from meta_reach_pruned [OF wf(1) this, of seen, folded w'] pl show ?thesis
      by (auto simp: w' meta_reach_def plain_names_def restrict_map_def split: if_splits)
  qed
  ultimately show "sourced cfg objs lib f c w'" using so by (simp add: sourced_def)
qed

lemma keeps_sourced_Reload:
  assumes laws: "s3_laws cli objs" and "order_law order"
  shows "keeps (sourced cfg objs lib f c) (Reload cfg cli lib order)"
proof -
  have "keeps (sourced cfg objs lib f c) (List cfg cli p)" for p
  proof (rule keepsI)
    fix w r w' assume so: "sourced cfg objs lib f c w" and l: "List cfg cli p w = (r, w')"
    from List_frame [OF l] obtain s where "w' = w\<lparr>w_s3 := s\<rparr>" by blast
    with List_law(1) [OF laws l] so show "sourced cfg objs lib f c w'" by (simp add: sourced_s3)
  qed
  then show ?thesis unfolding Reload_def
    by (intro keeps_bindM keeps_forM keeps_sourced_reload_one [OF laws] keeps_sourced_pruneGone [OF assms(2)])
qed

lemma sourced_empty:
  "objs (w_s3 w) (S3Bucket cfg) = f \<Longrightarrow> m_byName w = Map.empty \<Longrightarrow> m_byHash w = Map.empty \<Longrightarrow>
    sourced cfg objs lib f (rw_cache w) w"
  by (simp add: sourced_def from_bucket_def plain_names_def meta_wf_def)

section \<open>Names\<close>

text \<open>
  The names that the entry for an infohash may go by: the one it has, or the plain name of its torrent, or that with the
  suffix. They are apart when no torrent's suffixed name can be the name of another entry.
\<close>

definition suffixed :: "string \<Rightarrow> string \<Rightarrow> string" where
  "suffixed name ih = name @ ''-'' @ take 8 ih"

definition shows_as :: "Config \<Rightarrow> metalib \<Rightarrow> (string \<Rightarrow> bytes option) \<Rightarrow> (string \<Rightarrow> TorrentMeta option) \<Rightarrow> string \<Rightarrow> string set" where
  "shows_as cfg lib f byHash ih =
     (case byHash ih of None \<Rightarrow> {} | Some tm \<Rightarrow> {DisplayName tm})
     \<union> (case torrent_at cfg lib f ih of None \<Rightarrow> {}
        | Some info \<Rightarrow> {sanitizeName (info_Name info), suffixed (sanitizeName (info_Name info)) ih})"

definition names_apart :: "Config \<Rightarrow> metalib \<Rightarrow> (string \<Rightarrow> bytes option) \<Rightarrow> (string \<Rightarrow> TorrentMeta option) \<Rightarrow> bool" where
  "names_apart cfg lib f byHash \<longleftrightarrow> (\<forall>i j info. i \<noteq> j \<and> torrent_at cfg lib f j = Some info \<longrightarrow>
     suffixed (sanitizeName (info_Name info)) j \<notin> shows_as cfg lib f byHash i)"

text \<open>With names apart, every entry stays in reach of its name through a reload that starts from the maps \<open>H\<close>.\<close>

definition shown ::
  "Config \<Rightarrow> 's view \<Rightarrow> metalib \<Rightarrow> (string \<Rightarrow> bytes option) \<Rightarrow> (string \<Rightarrow> TorrentMeta option) \<Rightarrow> ('s, 'z) mworld_scheme \<Rightarrow> bool" where
  "shown cfg objs lib f H w \<longleftrightarrow> objs (w_s3 w) (S3Bucket cfg) = f \<and> meta_wf w \<and> meta_reach w
     \<and> (\<forall>ih tm. m_byHash w ih = Some tm \<longrightarrow> DisplayName tm \<in> shows_as cfg lib f H ih)"

lemma shown_install:
  assumes sh: "shown cfg objs lib f H w" and ap: "names_apart cfg lib f H" and new: "m_byHash w ih = None"
    and t: "torrent_at cfg lib f ih = Some info"
  shows "shown cfg objs lib f H (install lib info ih w)"
proof -
  let ?n = "sanitizeName (info_Name info)"
  let ?u = "unique_of (m_byName w) ?n ih"
  have wf: "meta_wf w" and re: "meta_reach w" using sh by (simp_all add: shown_def)
  have in_shows: "?u \<in> shows_as cfg lib f H ih" using t by (auto simp: unique_of_def shows_as_def suffixed_def)
  have "m_byName w ?u = None"
  proof (rule ccontr)
    assume "m_byName w ?u \<noteq> None"
    then obtain tm where tm: "m_byName w ?u = Some tm" and u: "?u = suffixed ?n ih"
      by (auto simp: unique_of_def suffixed_def split: if_splits)
    with wf have d: "DisplayName tm = ?u" "m_byHash w (Infohash tm) = Some tm" unfolding meta_wf_def by blast+
    then have "Infohash tm \<noteq> ih" using new by auto
    with ap t have "suffixed ?n ih \<notin> shows_as cfg lib f H (Infohash tm)" unfolding names_apart_def by blast
    moreover have "DisplayName tm \<in> shows_as cfg lib f H (Infohash tm)" using sh d(2) unfolding shown_def by blast
    ultimately show False using d(1) u by simp
  qed
  with re have "meta_reach (install lib info ih w)" by (rule meta_reach_install)
  with sh wf meta_wf_install [OF wf new] in_shows show ?thesis
    by (auto simp: shown_def install_def Let_def)
qed

lemma shown_s3: "shown cfg objs lib f H w \<Longrightarrow> objs s = objs (w_s3 w) \<Longrightarrow> shown cfg objs lib f H (w\<lparr>w_s3 := s\<rparr>)"
  by (simp add: shown_def meta_reach_def)

lemma keeps_shown_Reload:
  assumes laws: "s3_laws cli objs" and order: "order_law order" and ap: "names_apart cfg lib f H"
  shows "keeps (shown cfg objs lib f H) (Reload cfg cli lib order)"
proof -
  let ?I = "shown cfg objs lib f H"
  have c: "?I w'" if "?I w" "Cat cfg cli k w = (r, w')" for w w' :: "('a, 'd) mworld_scheme" and k r
    using Cat_frame [OF that(2)] Cat_law [OF laws that(2)] shown_s3 [OF that(1)] by auto
  have one: "keeps ?I (reload_one cfg cli lib k)" for k
    by (rule keeps_loading [where I = ?I and f = f, OF laws _ c shown_install [OF _ ap]]) (simp_all add: shown_def)
  have l: "keeps ?I (List cfg cli p)" for p
  proof (rule keepsI)
    fix w r w' assume "?I w" "List cfg cli p w = (r, w')"
    with List_frame [OF this(2)] List_law(1) [OF laws this(2)] show "?I w'" by (auto simp: shown_s3)
  qed
  have "keeps ?I (pruneGone order seen)" for seen
  proof (rule keepsI)
    fix w r w' assume sh: "?I w" and run: "pruneGone order seen w = (r, w')"
    then have wf: "meta_wf w" "meta_reach w" "finite (dom (m_byHash w))" by (simp_all add: shown_def meta_wf_def)
    have w': "w' = w\<lparr>m_byHash := m_byHash w |` seen,
      m_byName := (\<lambda>n. if n \<in> doomed (m_byHash w) UNIV seen then None else m_byName w n)\<rparr>"
      using run pruneGone_run [OF order wf(3), of seen] by simp
    from sh meta_wf_pruned [OF wf(1), of seen] meta_reach_pruned [OF wf(1,2), of seen] show "?I w'"
      unfolding w' by (auto simp: shown_def restrict_map_def split: if_splits)
  qed
  with one l show ?thesis unfolding Reload_def by (intro keeps_bindM keeps_forM)
qed

section \<open>Properties\<close>

text \<open>
  C18: against a service that is up, and when every stored torrent that parses has v1
  hashes, a reload returns and leaves exactly the right catalogue. A hash that is not listed
  is not loaded; a listed torrent that was loaded keeps its entry; a listed torrent that was
  not loaded is loaded from its key exactly when the stored bytes parse, with the file table
  and hashes of \<open>buildMeta\<close>. A torrent that does not parse is skipped and harms no other. A name leads to an entry that is
  loaded and has it as its display name; and if every entry was in reach of its name before and no torrent's suffixed name can be
  the name of another one, then every loaded entry can be looked up under its display name, which is the name it had or, for a
  new one, the plain or the suffixed name of its torrent. (That condition is needed: see \<open>uniqueName_clash_hides\<close>.)
\<close>

theorem Reload_exact:
  assumes "s3_laws cli objs" and "s3_up cli objs up" and "up (w_s3 w)"
    and "\<forall>ih info. torrent_at cfg lib (objs (w_s3 w) (S3Bucket cfg)) ih = Some info \<longrightarrow> v1_info lib info"
    and "order_law order" and "meta_wf w"
  shows "\<exists>w'. Reload cfg cli lib order w = (Ret (), w') \<and>
    (\<forall>ih. if listed cfg (objs (w_s3 w) (S3Bucket cfg)) ih
       then (case (m_byHash w ih, torrent_at cfg lib (objs (w_s3 w) (S3Bucket cfg)) ih) of
               (Some tm, _) \<Rightarrow> m_byHash w' ih = Some tm
             | (None, Some info) \<Rightarrow>
                 \<exists>tm. m_byHash w' ih = Some tm \<and> tm\<lparr>DisplayName := []\<rparr> = meta_of lib info ih
             | (None, None) \<Rightarrow> m_byHash w' ih = None)
       else m_byHash w' ih = None)
    \<and> (\<forall>n tm. m_byName w' n = Some tm \<longrightarrow> DisplayName tm = n \<and> m_byHash w' (Infohash tm) = Some tm)
    \<and> (names_apart cfg lib (objs (w_s3 w) (S3Bucket cfg)) (m_byHash w)
        \<and> (\<forall>ih tm. m_byHash w ih = Some tm \<longrightarrow> m_byName w (DisplayName tm) = Some tm) \<longrightarrow>
        (\<forall>ih tm. m_byHash w' ih = Some tm \<longrightarrow> m_byName w' (DisplayName tm) = Some tm
          \<and> DisplayName tm \<in> shows_as cfg lib (objs (w_s3 w) (S3Bucket cfg)) (m_byHash w) ih))"
proof -
  let ?f = "objs (w_s3 w) (S3Bucket cfg)"
  have conv: "after_pass lib info True ih old new \<longleftrightarrow> (case (old, info) of
      (Some tm, _) \<Rightarrow> new = Some tm
    | (None, Some i) \<Rightarrow> \<exists>tm. new = Some tm \<and> tm\<lparr>DisplayName := []\<rparr> = meta_of lib i ih
    | (None, None) \<Rightarrow> new = None)" for info ih old new
    by (simp add: after_pass_def same_torrent_def split: option.split)
  obtain w' where run: "Reload cfg cli lib order w = (Ret (), w')" and
    all: "\<And>ih. if listed cfg ?f ih then after_pass lib (torrent_at cfg lib ?f ih) True ih (m_byHash w ih) (m_byHash w' ih)
      else m_byHash w' ih = None" using Reload_up [OF assms] by blast
  have wf: "meta_wf w'" by (rule keepsD [OF keeps_meta_Reload [OF assms(5)] assms(6) run])
  have "shown cfg objs lib ?f (m_byHash w) w'"
    if "names_apart cfg lib ?f (m_byHash w)" "\<forall>ih tm. m_byHash w ih = Some tm \<longrightarrow> m_byName w (DisplayName tm) = Some tm"
  proof (rule keepsD [OF keeps_shown_Reload [OF assms(1,5) that(1)] _ run])
    show "shown cfg objs lib ?f (m_byHash w) w" using assms(6) that(2) by (simp add: shown_def meta_reach_def shows_as_def)
  qed
  then have "names_apart cfg lib ?f (m_byHash w)
        \<and> (\<forall>ih tm. m_byHash w ih = Some tm \<longrightarrow> m_byName w (DisplayName tm) = Some tm) \<longrightarrow>
        (\<forall>ih tm. m_byHash w' ih = Some tm \<longrightarrow> m_byName w' (DisplayName tm) = Some tm
          \<and> DisplayName tm \<in> shows_as cfg lib ?f (m_byHash w) ih)"
    unfolding shown_def meta_reach_def by blast
  with run all [unfolded conv] wf show ?thesis unfolding meta_wf_def by blast
qed

text \<open>Two torrents of one name, and an object that does not parse.\<close>

definition bucket_aa :: mem where
  "bucket_aa = mem_of [(''t/torrents/h1'', tor_a), (''t/torrents/h2'', tor_a), (''t/torrents/bad'', [])]"

lemma view_bucket_aa: "mem_view bucket_aa ''b'' =
    [''t/torrents/h1'' \<mapsto> tor_a, ''t/torrents/h2'' \<mapsto> tor_a, ''t/torrents/bad'' \<mapsto> []]"
  by (rule ext) (simp add: mem_view_def bucket_aa_def mem_of_def)

lemma torrent_at_bucket_aa:
  "torrent_at cfg0 lib0 (mem_view bucket_aa ''b'') ih = (if ih = ''h1'' \<or> ih = ''h2'' then parsed lib0 tor_a else None)"
  by (simp add: torrent_at_def view_bucket_aa KeyTorrent_def parsed_Nil)

lemma listed_bucket_aa: "listed cfg0 (mem_view bucket_aa ''b'') ''h1''" "listed cfg0 (mem_view bucket_aa ''b'') ''h2''"
proof -
  have b: "path_Base ''t/torrents/h1'' = ''h1''" "path_Base ''t/torrents/h2'' = ''h2''" by code_simp+
  have "{''t/torrents/h1'', ''t/torrents/h2''} \<subseteq> {k. prefix (PrefixTorrents cfg0) k \<and> mem_view bucket_aa ''b'' k \<noteq> None}"
    by (simp add: view_bucket_aa PrefixTorrents_def)
  then show "listed cfg0 (mem_view bucket_aa ''b'') ''h1''" "listed cfg0 (mem_view bucket_aa ''b'') ''h2''"
    unfolding listed_def using b by (force, force)
qed

lemma apart_bucket_aa: "names_apart cfg0 lib0 (mem_view bucket_aa ''b'') Map.empty"
proof -
  obtain info where i: "parsed lib0 tor_a = Some info" "info_Name info = ''a''" using parsed_tor_a by blast
  have "sanitizeName ''a'' = ''a''" by code_simp
  then show ?thesis by (auto simp: names_apart_def shows_as_def torrent_at_bucket_aa i suffixed_def split: if_splits)
qed

theorem Reload_exact_witness:
  "\<exists>w' t1 t2. Reload cfg0 mem_s3 lib0 order0 (newMeta cfg0 bucket_aa) = (Ret (), w')
    \<and> m_byHash w' ''h1'' = Some t1 \<and> m_byName w' (DisplayName t1) = Some t1
    \<and> m_byHash w' ''h2'' = Some t2 \<and> m_byName w' (DisplayName t2) = Some t2 \<and> m_byHash w' ''bad'' = None"
proof -
  let ?w = "newMeta cfg0 bucket_aa"
  have w: "w_s3 ?w = bucket_aa" "m_byHash ?w = Map.empty" "mem_up (w_s3 ?w)" by (simp_all add: newMeta_def) (simp add: bucket_aa_def)
  obtain info where i: "parsed lib0 tor_a = Some info" "info_Name info = ''a''" using parsed_tor_a by blast
  have v1: "\<forall>ih info. torrent_at cfg0 lib0 (mem_view (w_s3 ?w) (S3Bucket cfg0)) ih = Some info \<longrightarrow> v1_info lib0 info"
    using i by (auto simp: w torrent_at_bucket_aa intro!: lib0_v1)
  note exact = Reload_exact [OF mem_laws mem_is_up w(3) v1 order0_law meta_wf_newMeta, unfolded w cfg0_simps]
  from exact obtain w' where run: "Reload cfg0 mem_s3 lib0 order0 ?w = (Ret (), w')"
    and ih: "\<And>ih. if listed cfg0 (mem_view bucket_aa ''b'') ih
       then (case (None :: TorrentMeta option, torrent_at cfg0 lib0 (mem_view bucket_aa ''b'') ih) of
               (Some tm, _) \<Rightarrow> m_byHash w' ih = Some tm
             | (None, Some info) \<Rightarrow> \<exists>tm. m_byHash w' ih = Some tm \<and> tm\<lparr>DisplayName := []\<rparr> = meta_of lib0 info ih
             | (None, None) \<Rightarrow> m_byHash w' ih = None)
       else m_byHash w' ih = None"
    and reach: "\<And>ih tm. m_byHash w' ih = Some tm \<Longrightarrow> m_byName w' (DisplayName tm) = Some tm"
    using apart_bucket_aa by fastforce
  have "\<exists>tm. m_byHash w' ''h1'' = Some tm" "\<exists>tm. m_byHash w' ''h2'' = Some tm"
    using ih [of "''h1''"] ih [of "''h2''"] listed_bucket_aa by (auto simp: torrent_at_bucket_aa i)
  moreover have "m_byHash w' ''bad'' = None" using ih [of "''bad''"] by (simp add: torrent_at_bucket_aa split: if_splits)
  ultimately show ?thesis using run reach by blast
qed

text \<open>
  C29: the catalogue invents nothing. Whatever the service does during a reload, however it
  ends, and in every order of the map iterations: the bucket is as before; a name leads to an
  entry with that display name, and the entry is what \<open>buildMeta\<close> makes of the torrent stored in
  the bucket under its infohash; and while no two stored torrents share a name, every entry goes by the
  plain name of its torrent.
\<close>

theorem Reload_sources:
  assumes "s3_laws cli objs" and "order_law order"
    and "w = ((\<lambda>w. snd (Reload cfg cli lib order w)) ^^ k) (newMeta cfg s)"
  shows "objs (w_s3 w) (S3Bucket cfg) = objs s (S3Bucket cfg)
    \<and> (\<forall>n tm. m_byName w n = Some tm \<longrightarrow> DisplayName tm = n
        \<and> (\<exists>d info. objs s (S3Bucket cfg) (KeyTorrent cfg (Infohash tm)) = Some d \<and> parsed lib d = Some info
            \<and> tm\<lparr>DisplayName := []\<rparr> = meta_of lib info (Infohash tm)))
    \<and> (distinct_names cfg lib (objs s (S3Bucket cfg)) \<longrightarrow>
        (\<forall>ih tm. m_byHash w ih = Some tm \<longrightarrow> DisplayName tm = Name tm \<and> m_byName w (Name tm) = Some tm))"
proof -
  let ?f = "objs s (S3Bucket cfg)"
  have "sourced cfg objs lib ?f (newLRU (LRUSize cfg)) (((\<lambda>w. snd (Reload cfg cli lib order w)) ^^ k) (newMeta cfg s))"
  proof (induction k)
    case 0
    show ?case using sourced_empty [of objs "newMeta cfg s" cfg ?f lib] by (simp add: newMeta_def)
  next
    case (Suc k)
    then show ?case
      unfolding funpow.simps o_apply by (rule keeps_sourced_Reload [OF assms(1,2), unfolded keeps_def, rule_format])
  qed
  then have so: "from_bucket cfg objs lib ?f (newLRU (LRUSize cfg)) w" and pl: "distinct_names cfg lib ?f \<longrightarrow> plain_names w"
    by (simp_all add: sourced_def assms(3))
  have "DisplayName tm = n \<and> (\<exists>d info. ?f (KeyTorrent cfg (Infohash tm)) = Some d \<and> parsed lib d = Some info
      \<and> tm\<lparr>DisplayName := []\<rparr> = meta_of lib info (Infohash tm))"
    if "m_byName w n = Some tm" for n tm
  proof -
    from so that have h: "m_byHash w (Infohash tm) = Some tm" "DisplayName tm = n" by (simp_all add: from_bucket_def meta_wf_def)
    from so h(1) obtain info where i: "torrent_at cfg lib ?f (Infohash tm) = Some info" "same_torrent lib info (Infohash tm) tm"
      unfolding from_bucket_def by blast
    from i(1) obtain d where "?f (KeyTorrent cfg (Infohash tm)) = Some d" "parsed lib d = Some info"
      by (auto simp: torrent_at_def split: option.splits)
    with i(2) h(2) show ?thesis unfolding same_torrent_def by blast
  qed
  moreover have "objs (w_s3 w) (S3Bucket cfg) = ?f" using so by (simp add: from_bucket_def)
  ultimately show ?thesis using pl unfolding plain_names_def by blast
qed

theorem Reload_sources_witness:
  "mem_view (w_s3 (((\<lambda>w. snd (Reload cfg0 mem_s3 lib0 order0 w)) ^^ 2) (newMeta cfg0 (mem_of [(''t/torrents/h'', tor_a)])))) ''b'' ''t/torrents/h''
     = Some tor_a
   \<and> (\<nexists>n tm. m_byName (((\<lambda>w. snd (Reload cfg0 mem_s3 lib0 order0 w)) ^^ 2) (newMeta cfg0 (mem_of [(''t/torrents/h'', tor_a)]))) n
      = Some tm \<and> DisplayName tm \<noteq> n)"
  using Reload_sources [OF mem_laws order0_law refl, where cfg = cfg0 and lib = lib0 and k = 2 and s = "mem_of [(''t/torrents/h'', tor_a)]"]
  by (auto simp: mem_view_def mem_of_def)

end
