(* ===== verification/Get.thy ===== *)
theory Get
  imports Catalogue Sftp Args
begin

text \<open>
  \<^verbatim>\<open>samogon get\<close> (\<^verbatim>\<open>get.go\<close>): load the catalogue, find one file, and copy it to the
  local disk through the read path of the SFTP server. The disk is a parameter: the outcomes of
  \<open>os.Create\<close> and of each \<open>Write\<close>. As in \<open>Reader\<close>, \<open>bg\<close> gives the prefetch goroutines that run
  at the steps of each \<open>getPiece\<close>, here for every turn of the copy loop.
\<close>

section \<open>State and disk\<close>

record 's gtworld = "'s mworld" +
  gt_out :: "bytes option"

text \<open>
  \<open>Create\<close> for a path, and \<open>FileWrite\<close> for what the file holds and the bytes to add: the number of
  bytes written, and the error.
\<close>

record disk =
  Create :: "string \<Rightarrow> goerr option"
  FileWrite :: "bytes \<Rightarrow> bytes \<Rightarrow> nat \<times> goerr option"

text \<open>What an \<open>io.Writer\<close> promises, and a disk that does not fail.\<close>

definition disk_law :: "disk \<Rightarrow> bool" where
  "disk_law disk \<longleftrightarrow> (\<forall>s d n. FileWrite disk s d = (n, None) \<longrightarrow> n = length d)"

definition disk_up :: "disk \<Rightarrow> bool" where
  "disk_up disk \<longleftrightarrow> (\<forall>p. Create disk p = None) \<and> (\<forall>s d. FileWrite disk s d = (length d, None))"

definition os_Create :: "disk \<Rightarrow> string \<Rightarrow> (('s, 'z) gtworld_scheme, unit) prog" where
  "os_Create disk p =
     bindM (Throw (Create disk p)) (\<lambda>_. modifyM (\<lambda>w. w\<lparr>gt_out := Some []\<rparr>))"

definition write_out :: "disk \<Rightarrow> bytes \<Rightarrow> (('s, 'z) gtworld_scheme, unit) prog" where
  "write_out disk d =
     bindM (getM (\<lambda>w. case gt_out w of Some s \<Rightarrow> s | None \<Rightarrow> [])) (\<lambda>s.
       case FileWrite disk s d of (n, err) \<Rightarrow>
         bindM (modifyM (\<lambda>w. w\<lparr>gt_out := Some (s @ take n d)\<rparr>)) (\<lambda>_. Throw err))"

section \<open>The copy loop\<close>

text \<open>A read of one byte or more never returns nothing without an error, so each turn goes on.\<close>

lemma ReadAt_with_None:
  assumes "ReadAt_with get v plen off w = (Ret (p, None), w')" and "0 < plen"
  shows "p \<noteq> []"
  using assms by (auto simp: ReadAt_with_def Let_def bindM_Ret_iff ret_run split: if_splits)

text \<open>
  \<open>k\<close> counts the turns. The read has at most the bytes that are left, so \<open>off\<close> never passes the
  size. With a chunk of no bytes every read returns nothing and no error, and the loop does not end.
\<close>

function get_loop ::
  "(nat \<Rightarrow> int \<Rightarrow> ('w, bytes) prog) \<Rightarrow> virtualFile \<Rightarrow> nat \<Rightarrow> (bytes \<Rightarrow> ('w, unit) prog) \<Rightarrow> nat \<Rightarrow> int
    \<Rightarrow> ('w, int) prog" where
  "get_loop get v chunk put k off w =
     (if off < Size (vf_file v) then
        if chunk = 0 then (Blocked, w)
        else
          let remaining = Size (vf_file v) - off;
              want = (if int chunk > remaining then nat remaining else chunk)
          in (case ReadAt_with (get k) v want off w of
               (Ret (p, err), w1) \<Rightarrow>
                 (case (if p \<noteq> [] then put p else ret ()) w1 of
                    (Ret _, w2) \<Rightarrow>
                      let off = off + int (length p)
                      in (case err of
                            None \<Rightarrow> get_loop get v chunk put (k + 1) off w2
                          | Some e \<Rightarrow>
                              if e = EOF then
                                if off < Size (vf_file v) then
                                  ThrowFmt ''get: short read at %d/%d'' [AInt off, AInt (Size (vf_file v))] w2
                                else (Ret off, w2)
                              else throw (New e) w2)
                  | (Panicked x, w2) \<Rightarrow> (Panicked x, w2)
                  | (Blocked, w2) \<Rightarrow> (Blocked, w2))
             | (Panicked x, w1) \<Rightarrow> (Panicked x, w1)
             | (Blocked, w1) \<Rightarrow> (Blocked, w1))
      else (Ret off, w))"
  by pat_completeness auto
termination
  by (relation "measure (\<lambda>(get, v, chunk, put, k, off, w). nat (Size (vf_file v) - off))")
    (auto dest!: ReadAt_with_None [OF sym] split: if_splits)

declare get_loop.simps [simp del]

section \<open>runGet\<close>

definition pick_file :: "TorrentMeta \<Rightarrow> string \<Rightarrow> string \<Rightarrow> ('w, FileEntry) prog" where
  "pick_file tm tname fpath =
     (if fpath = '''' then
        (case Files tm of
           [f] \<Rightarrow> ret f
         | fs \<Rightarrow> ThrowFmt ''get: torrent %q has %d files; specify one as %s/<path>; available: %v''
             [AStr tname, AInt (int (length fs)), AStr tname, AStrs (map Path fs)])
      else
        (case List.find (\<lambda>f. Path f = fpath) (Files tm) of
           Some f \<Rightarrow> ret f
         | None \<Rightarrow> ThrowFmt ''get: no such file in torrent %q: %s'' [AStr tname, AStr fpath]))"

text \<open>From the opened file on: \<open>vf\<close> is built, the output created, the loop run.\<close>

definition get_file ::
  "(panicval \<Rightarrow> panicval) \<Rightarrow> Config \<Rightarrow> 's s3api \<Rightarrow> (nat \<Rightarrow> int \<Rightarrow> others) \<Rightarrow> disk \<Rightarrow> getOpts \<Rightarrow> virtualFile
    \<Rightarrow> (('s, 'z) gtworld_scheme, unit) prog" where
  "get_file sf cfg cli bg disk opts v =
     bindM (os_Create disk (get_outPath opts)) (\<lambda>_.
       if get_chunk opts < 0 then panic (PRuntime ''makeslice: len out of range'')
       else bindM (get_loop (\<lambda>k. getPiece_busy sf cfg cli (bg k) (PieceHashes (vf_tm v))) v
                     (nat (get_chunk opts)) (write_out disk) 0 0) (\<lambda>_. ret ()))"

definition runGet ::
  "(panicval \<Rightarrow> panicval) \<Rightarrow> Config \<Rightarrow> 's s3api \<Rightarrow> metalib \<Rightarrow> maporder \<Rightarrow> (nat \<Rightarrow> int \<Rightarrow> others) \<Rightarrow> disk
    \<Rightarrow> getOpts \<Rightarrow> (('s, 'z) gtworld_scheme, unit) prog" where
  "runGet sf cfg cli lib order bg disk opts =
     bindM (modifyM (\<lambda>w. w\<lparr>rw_cache := newLRU (LRUSize cfg), rw_spawned := [],
                       m_byName := Map.empty, m_byHash := Map.empty\<rparr>)) (\<lambda>_.
     bindM (Reload cfg cli lib order) (\<lambda>_.
     case splitPath (''/'' @ get_target opts) of (tname, fpath) \<Rightarrow>
       if tname = '''' then
         ThrowFmt ''get: target must start with <torrent-name>, got %q'' [AStr (get_target opts)]
       else bindM (ByName tname) (\<lambda>r. case r of
           None \<Rightarrow> bindM (Names order) (\<lambda>ns.
             ThrowFmt ''get: no such torrent: %s (known: %v)'' [AStr tname, AStrs ns])
         | Some tm \<Rightarrow>
             bindM (pick_file tm tname fpath) (\<lambda>file.
             get_file sf cfg cli bg disk opts \<lparr>vf_tm = tm, vf_file = file\<rparr>))))"

section \<open>What the read path leaves alone\<close>

lemma read_loop_keeps:
  assumes "\<And>i. keeps I (get i)"
  shows "I w \<Longrightarrow> I (snd (read_loop get n L plen so acc w))"
  using assms
proof (induction get n L plen so acc w rule: read_loop.induct)
  case (1 get n L plen so acc w)
  obtain r w1 where g: "get (so sdiv L) w = (r, w1)" by fastforce
  have I1: "I w1" using keepsD [OF "1.prems"(2) "1.prems"(1) g] .
  show ?case
  proof (cases "length acc < plen \<and> L \<noteq> 0 \<and> \<not> int n \<le> so sdiv L")
    case True
    let ?c = "\<lambda>pc. take (plen - length acc) (drop (nat (so smod L)) pc)"
    show ?thesis
    proof (cases "\<exists>pc. r = Ret pc \<and> \<not> int (length pc) \<le> so smod L \<and> \<not> so smod L < 0 \<and> ?c pc \<noteq> []")
      case go: True
      then obtain pc where pc: "r = Ret pc" "\<not> int (length pc) \<le> so smod L" "\<not> so smod L < 0" "?c pc \<noteq> []" by blast
      have "read_loop get n L plen so acc w = read_loop get n L plen (wrap64 (so + int (length (?c pc)))) (acc @ ?c pc) w1"
        using True g pc by (subst read_loop.simps) (simp add: Let_def)
      moreover have "I (snd (read_loop get n L plen (wrap64 (so + int (length (?c pc)))) (acc @ ?c pc) w1))"
        by (rule "1.IH" [OF _ _ refl _ refl g [symmetric] _ _ _ refl])
          (use True pc I1 "1.prems" in \<open>simp_all del: take_eq_Nil drop_eq_Nil\<close>)
      ultimately show ?thesis by simp
    next
      case False
      with True g I1 show ?thesis
        by (subst read_loop.simps) (cases r; auto simp: Let_def)
    qed
  next
    case False
    with "1.prems"(1) show ?thesis by (subst read_loop.simps) (auto simp: Let_def)
  qed
qed

lemma keeps_ReadAt_with: "(\<And>i. keeps I (get i)) \<Longrightarrow> keeps I (ReadAt_with get v plen off)"
  unfolding ReadAt_with_def Let_def
  by (intro keeps_intros) (auto simp: keeps_def read_loop_keeps)

text \<open>\<open>untouched f g\<close>: the bucket is \<open>f\<close> and the output is \<open>g\<close>.\<close>

definition untouched ::
  "Config \<Rightarrow> 's view \<Rightarrow> (string \<Rightarrow> bytes option) \<Rightarrow> bytes option \<Rightarrow> ('s, 'z) gtworld_scheme \<Rightarrow> bool" where
  "untouched cfg objs f g w \<longleftrightarrow> objs (w_s3 w) (S3Bucket cfg) = f \<and> gt_out w = g"

lemma keeps_untouched [keeps_intros]:
  "keeps (untouched cfg objs f g) (cacheGet h)"
  "keeps (untouched cfg objs f g) (cachePut h d)"
  "keeps (untouched cfg objs f g) (spawn h)"
  by (simp_all add: keeps_def untouched_def cacheGet_run cachePut_def spawn_def modifyM_run)

lemma keeps_untouched_Cat:
  assumes "s3_laws cli objs" shows "keeps (untouched cfg objs f g) (Cat cfg cli k)"
proof (rule keepsI)
  fix w r w' assume u: "untouched cfg objs f g w" and c: "Cat cfg cli k w = (r, w')"
  from Cat_law [OF assms c] Cat_frame [OF c] u show "untouched cfg objs f g w'"
    by (auto simp: untouched_def)
qed

lemma keeps_untouched_List:
  assumes "s3_laws cli objs" shows "keeps (untouched cfg objs f g) (List cfg cli k)"
proof (rule keepsI)
  fix w r w' assume u: "untouched cfg objs f g w" and c: "List cfg cli k w = (r, w')"
  from List_law(1) [OF assms c] List_frame [OF c] u show "untouched cfg objs f g w'"
    by (auto simp: untouched_def)
qed

lemma keeps_untouched_getPiece:
  assumes "s3_laws cli objs" shows "keeps (untouched cfg objs f g) (getPiece_busy sf cfg cli bg hashes i)"
proof (rule keeps_getPiece_busy [OF keeps_untouched(3,1)])
  show "keeps (untouched cfg objs f g) (prefetch sf cfg cli h)" for h
    unfolding prefetch_def by (intro keeps_intros keeps_untouched_Cat [OF assms])
qed (intro keeps_bindM keeps_untouched keeps_untouched_Cat [OF assms])

lemma keeps_buildMeta [keeps_intros]: "keeps I (buildMeta lib info ih)"
proof -
  have "keeps I (piece_hashes lib info is)" for "is"
    by (induction "is") (auto split: option.split intro!: keeps_intros)
  then show ?thesis unfolding buildMeta_def Let_def by (intro keeps_intros)
qed

text \<open>A reload touches the service and the two maps only.\<close>

lemma keeps_Reload:
  assumes "\<And>k. keeps I (Cat cfg cli k)" and "\<And>p. keeps I (List cfg cli p)"
    and maps: "\<And>w F G. I (w\<lparr>m_byHash := F, m_byName := G\<rparr>) = I w"
  shows "keeps I (Reload cfg cli lib order)"
proof -
  have m: "keeps I (modifyM (\<lambda>w. w\<lparr>m_byHash := F w, m_byName := G w\<rparr>))" for F G
    by (simp add: keeps_def modifyM_run maps)
  have "keeps I (prune_one seen ih)" for seen ih
    by (auto simp: prune_one_def keeps_def modifyM_run maps split: option.split)
  then show ?thesis
    unfolding Reload_def reload_one_def loadOne_def uniqueName_def pruneGone_def Let_def
    by (intro keeps_intros m assms(1,2))
qed

lemma keeps_untouched_Reload:
  assumes "s3_laws cli objs" shows "keeps (untouched cfg objs f g) (Reload cfg cli lib order)"
  by (rule keeps_Reload [OF keeps_untouched_Cat [OF assms] keeps_untouched_List [OF assms]])
    (simp add: untouched_def)

lemma keeps_up_Reload:
  assumes "s3_up cli objs up" shows "keeps (\<lambda>w. up (w_s3 w)) (Reload cfg cli lib order)"
proof (rule keeps_Reload)
  fix k show "keeps (\<lambda>w. up (w_s3 w)) (Cat cfg cli k)"
    by (rule keepsI) (rule Cat_keeps_up [OF assms])
next
  fix p show "keeps (\<lambda>w. up (w_s3 w)) (List cfg cli p)"
  proof (rule keepsI)
    fix w r w' assume u: "up (w_s3 w)" and l: "List cfg cli p w = (r, w')"
    obtain pages s' where h: "ListPages cli (S3Bucket cfg) p (w_s3 w) = (pages, s')" by fastforce
    with l have "list_pages p [] pages (w\<lparr>w_s3 := s'\<rparr>) = (r, w')"
      by (simp add: List_def bindM_def call_def)
    then have "w_s3 w' = s'" by (auto dest: list_pages_state)
    with s3_upD(9) [OF assms u, of "S3Bucket cfg" p] h show "up (w_s3 w')" by simp
  qed
qed simp

section \<open>What the copy loop does\<close>

text \<open>The state inside the loop: a coherent cache, and the first \<open>off\<close> bytes on the disk.\<close>

definition copying ::
  "Config \<Rightarrow> 's s3api \<Rightarrow> 's view \<Rightarrow> (string \<Rightarrow> bytes option) \<Rightarrow> bytes \<Rightarrow> int \<Rightarrow> ('s, 'z) gtworld_scheme \<Rightarrow> bool" where
  "copying cfg cli objs content data off w \<longleftrightarrow> coherent cfg cli objs content w
     \<and> 0 \<le> off \<and> off \<le> int (length data) \<and> gt_out w = Some (take (nat off) data)"

lemma file_bytes_length: "file_in v content L ps \<Longrightarrow> int (length (file_bytes v ps)) = Size (vf_file v)"
  by (auto simp: file_in_def file_bytes_def)

lemma write_out_run:
  assumes "gt_out w = Some s" and "FileWrite disk s d = (n, err)"
  shows "write_out disk d w = (case err of None \<Rightarrow> Ret () | Some e \<Rightarrow> Panicked (PException (Exception e)),
    w\<lparr>gt_out := Some (s @ take n d)\<rparr>)"
  using assms by (cases err) (simp_all add: write_out_def bindM_def getM_run modifyM_run Throw_run)

lemma coherent_out [simp]: "coherent cfg cli objs content (w\<lparr>gt_out := x\<rparr>) = coherent cfg cli objs content w"
  by (simp add: coherent_def)

lemma serving_out [simp]: "serving cfg cli objs up hs (w\<lparr>gt_out := x\<rparr>) = serving cfg cli objs up hs w"
  by (simp add: serving_def)

lemma take_slice_extend:
  assumes "0 \<le> off" and "prefix p (slice (nat off) n data)"
  shows "take (nat off) data @ take m p = take (nat off + min m (length p)) data"
proof -
  obtain q where q: "slice (nat off) n data = p @ q" using assms(2) by (auto simp: prefix_def)
  then have "take (min m (length p)) (slice (nat off) n data) = take m p" by (simp add: min_def)
  moreover have "min m (length p) \<le> n" using prefix_length_le [OF assms(2)] by (simp add: min.coboundedI2)
  ultimately show ?thesis by (simp add: slice_def take_add min_absorb1)
qed

text \<open>One read leaves the output alone; the write after it adds what was read, or a part of that when it fails.\<close>

lemma read_keeps_out:
  assumes "s3_laws cli objs" and "ReadAt_with (getPiece_busy sf cfg cli bg hs) v n off w = (r, w1)"
  shows "gt_out w1 = gt_out w"
proof -
  have "keeps (untouched cfg objs (objs (w_s3 w) (S3Bucket cfg)) (gt_out w)) (ReadAt_with (getPiece_busy sf cfg cli bg hs) v n off)"
    by (rule keeps_ReadAt_with [OF keeps_untouched_getPiece [OF assms(1)]])
  from keepsD [OF this _ assms(2)] show ?thesis by (simp add: untouched_def)
qed

lemma write_adds:
  assumes "disk_law disk" and "gt_out w1 = Some (take (nat off) data)" and "0 \<le> off" and "prefix p (slice (nat off) n data)"
    and "(if p \<noteq> [] then write_out disk p else ret ()) w1 = (r, w2)"
  shows "r \<noteq> Blocked \<and> (\<exists>m. gt_out w2 = Some (take m data)) \<and> (\<exists>x. w2 = w1\<lparr>gt_out := x\<rparr>)
    \<and> (r = Ret () \<longrightarrow> gt_out w2 = Some (take (nat (off + int (length p))) data))"
proof (cases "p = []")
  case True
  with assms(2,5) show ?thesis by (auto simp: ret_run intro!: exI [of _ "gt_out w1"])
next
  case False
  obtain m e where fw: "FileWrite disk (take (nat off) data) p = (m, e)" by fastforce
  note ex = take_slice_extend [OF assms(3,4), of m]
  have w2: "w2 = w1\<lparr>gt_out := Some (take (nat off) data @ take m p)\<rparr>"
    and r: "r = (case e of None \<Rightarrow> Ret () | Some e \<Rightarrow> Panicked (PException (Exception e)))"
    using assms(5) False write_out_run [OF assms(2) fw] by auto
  have "m = length p" if "r = Ret ()"
    using that r fw assms(1) by (auto simp: disk_law_def split: option.splits)
  with ex assms(3) r show ?thesis by (auto simp: w2 nat_add_distrib split: option.splits)
qed

text \<open>One turn of the loop, with a read that returned.\<close>

lemma get_turn:
  assumes "disk_law disk" and "file_in v content L ps" and "s3_laws cli objs"
    and co: "copying cfg cli objs content (file_bytes v ps) off w" and "off < Size (vf_file v)"
    and rd: "ReadAt_with (getPiece_busy sf cfg cli bg (PieceHashes (vf_tm v))) v n off w = (Ret (p, err), w1)"
    and wr: "(if p \<noteq> [] then write_out disk p else ret ()) w1 = (rw, w2)"
  shows "err = read_error v n off p \<and> rw \<noteq> Blocked \<and> (\<exists>m. gt_out w2 = Some (take m (file_bytes v ps)))
    \<and> (rw = Ret () \<longrightarrow> copying cfg cli objs content (file_bytes v ps) (off + int (length p)) w2)"
proof -
  from co have c: "coherent cfg cli objs content w" "0 \<le> off" "off \<le> int (length (file_bytes v ps))"
    "gt_out w = Some (take (nat off) (file_bytes v ps))" by (simp_all add: copying_def)
  from ReadAt_returns [OF c(1) assms(2) c(2) assms(5) rd] have
    pre: "prefix p (slice (nat off) n (file_bytes v ps))" and err: "err = read_error v n off p"
    and co1: "coherent cfg cli objs content w1" by simp_all
  have "gt_out w1 = Some (take (nat off) (file_bytes v ps))" by (simp only: read_keeps_out [OF assms(3) rd] c(4))
  note add = write_adds [OF assms(1) this c(2) pre wr]
  then obtain x where "w2 = w1\<lparr>gt_out := x\<rparr>" by blast
  with co1 have "coherent cfg cli objs content w2" by simp
  moreover have "off + int (length p) \<le> int (length (file_bytes v ps))" using prefix_length_le [OF pre] c(2,3) by simp arith
  ultimately show ?thesis using add err c(2) by (simp add: copying_def)
qed

text \<open>
  Whatever happens, the output is a prefix of the file; when the loop ends normally it is the whole file.
\<close>

lemma get_loop_safe:
  assumes dl: "disk_law disk" and fin: "file_in v content L ps"
    and hs: "hs = PieceHashes (vf_tm v)" and laws: "s3_laws cli objs"
  shows "copying cfg cli objs content (file_bytes v ps) off w \<Longrightarrow>
    get_loop (\<lambda>k. getPiece_busy sf cfg cli (bg k) hs) v chunk (write_out disk) k off w = (r, w') \<Longrightarrow>
    (\<exists>out. gt_out w' = Some out \<and> prefix out (file_bytes v ps) \<and> (\<forall>n. r = Ret n \<longrightarrow> out = file_bytes v ps))"
proof (induction "nat (Size (vf_file v) - off)" arbitrary: k off w rule: less_induct)
  case less
  let ?data = "file_bytes v ps" and ?get = "\<lambda>k. getPiece_busy sf cfg cli (bg k) hs"
  note len = file_bytes_length [OF fin]
  have off: "0 \<le> off" "off \<le> int (length ?data)" and out: "gt_out w = Some (take (nat off) ?data)"
    using less.prems(1) by (simp_all add: copying_def)
  show ?case
  proof (cases "off < Size (vf_file v) \<and> chunk \<noteq> 0")
    case False
    with less.prems(2) off len out show ?thesis
      by (subst (asm) get_loop.simps) (auto simp: take_is_prefix split: if_splits)
  next
    case go: True
    define want where "want = (if int chunk > Size (vf_file v) - off then nat (Size (vf_file v) - off) else chunk)"
    obtain rr w1 where rd: "ReadAt_with (?get k) v want off w = (rr, w1)" by fastforce
    note run = less.prems(2) [unfolded get_loop.simps [of _ _ _ _ _ _ w], unfolded Let_def, folded want_def]
    show ?thesis
    proof (cases "\<exists>p err. rr = Ret (p, err)")
      case False
      with run go rd read_keeps_out [OF laws rd] out show ?thesis by (cases rr) (auto simp: take_is_prefix)
    next
      case True
      then obtain p err where p: "rr = Ret (p, err)" by blast
      obtain rw w2 where wr: "(if p \<noteq> [] then write_out disk p else ret ()) w1 = (rw, w2)" by fastforce
      from get_turn [OF dl fin laws less.prems(1) conjunct1 [OF go] rd [unfolded p hs] wr] obtain m where
        turn: "err = read_error v want off p" "rw \<noteq> Blocked" "gt_out w2 = Some (take m ?data)"
          "rw = Ret () \<longrightarrow> copying cfg cli objs content ?data (off + int (length p)) w2" by blast
      show ?thesis
      proof (cases "rw = Ret () \<and> err = None")
        case True
        with rd p go have ne: "p \<noteq> []" by (auto simp: want_def dest: ReadAt_with_None)
        with go have dec: "nat (Size (vf_file v) - (off + int (length p))) < nat (Size (vf_file v) - off)" by (cases p) auto
        have "get_loop ?get v chunk (write_out disk) (k + 1) (off + int (length p)) w2 = (r, w')"
          using run go rd p wr True by simp
        with less.hyps [OF dec, of w2 "k + 1"] turn(4) True show ?thesis by blast
      next
        case False
        with turn(1,2) have "rw = Ret () \<longrightarrow> err = Some EOF" by (auto simp: read_error_def split: if_splits)
        with run go rd p wr turn(2-4) len False show ?thesis
          by (cases rw) (auto simp: copying_def take_is_prefix ThrowFmt_run split: if_splits)
      qed
    qed
  qed
qed

text \<open>With a disk and a service that do not fail the loop ends.\<close>

lemma get_loop_up:
  assumes du: "disk_up disk" and fin: "file_in v content L ps" and hs: "hs = PieceHashes (vf_tm v)"
    and room: "\<And>k. leaves_room cfg (bg k)"
    and pd: "PrefetchDistance cfg + int (length hs) < 2 ^ 63" and ch: "chunk \<noteq> 0"
  shows "coherent cfg cli objs content w \<Longrightarrow> serving cfg cli objs up hs w \<Longrightarrow> 0 \<le> off \<Longrightarrow>
    \<exists>n w'. get_loop (\<lambda>k. getPiece_busy sf cfg cli (bg k) hs) v chunk (write_out disk) k off w = (Ret n, w')"
proof (induction "nat (Size (vf_file v) - off)" arbitrary: k off w rule: less_induct)
  case less
  let ?get = "\<lambda>k. getPiece_busy sf cfg cli (bg k) hs"
  show ?case
  proof (cases "off < Size (vf_file v)")
    case False
    then show ?thesis by (subst get_loop.simps) simp
  next
    case lt: True
    define want where "want = (if int chunk > Size (vf_file v) - off then nat (Size (vf_file v) - off) else chunk)"
    let ?p = "slice (nat off) want (file_bytes v ps)"
    let ?err = "if Size (vf_file v) \<le> off + int want then Some EOF else None"
    from ReadAt_up [OF less.prems(1) fin less.prems(2) [unfolded hs] room pd [unfolded hs] less.prems(3) lt,
        of sf k want, folded hs]
    obtain w1 where rd: "ReadAt_with (?get k) v want off w = (Ret (?p, ?err), w1)"
      and w1: "coherent cfg cli objs content w1" "serving cfg cli objs up hs w1" by blast
    have wl: "int want \<le> Size (vf_file v) - off" "0 < want" using ch lt by (auto simp: want_def)
    have "length (file_bytes v ps) = nat (Size (vf_file v))" using file_bytes_length [OF fin] by simp
    then have pl: "length ?p = want" using wl less.prems(3) by simp
    define s where "s = (case gt_out w1 of Some s \<Rightarrow> s | None \<Rightarrow> [])"
    have wr: "write_out disk ?p w1 = (Ret (), w1\<lparr>gt_out := Some (s @ ?p)\<rparr>)"
      using du by (simp add: write_out_def s_def disk_up_def getM_run modifyM_run Throw_run bindM_def)
    let ?w2 = "w1\<lparr>gt_out := Some (s @ ?p)\<rparr>"
    have ne: "?p \<noteq> []" using pl wl(2) by (metis length_greater_0_conv)
    have step: "get_loop ?get v chunk (write_out disk) k off w =
        (case ?err of None \<Rightarrow> get_loop ?get v chunk (write_out disk) (k + 1) (off + int want) ?w2
         | Some e \<Rightarrow> if off + int want < Size (vf_file v) then
             ThrowFmt ''get: short read at %d/%d'' [AInt (off + int want), AInt (Size (vf_file v))] ?w2
           else (Ret (off + int want), ?w2))"
      unfolding get_loop.simps [of _ _ _ _ _ _ w] Let_def want_def [symmetric] rd
      using lt ch ne wr pl by simp
    show ?thesis
    proof (cases "Size (vf_file v) \<le> off + int want")
      case True
      with step show ?thesis by simp
    next
      case False
      have "nat (Size (vf_file v) - (off + int want)) < nat (Size (vf_file v) - off)"
        using wl lt by simp
      from less.hyps [OF this, of ?w2 "k + 1"] w1 less.prems(3) step False show ?thesis by simp
    qed
  qed
qed

section \<open>What get does\<close>

definition get_reset :: "Config \<Rightarrow> ('s, 'z) gtworld_scheme \<Rightarrow> ('s, 'z) gtworld_scheme" where
  "get_reset cfg w = w\<lparr>rw_cache := newLRU (LRUSize cfg), rw_spawned := [], m_byName := Map.empty, m_byHash := Map.empty\<rparr>"

definition found :: "TorrentMeta \<Rightarrow> string \<Rightarrow> FileEntry \<Rightarrow> bool" where
  "found tm fpath f \<longleftrightarrow> f \<in> set (Files tm) \<and> (if fpath = '''' then Files tm = [f] else Path f = fpath)"

lemma find_SomeD: "List.find P xs = Some x \<Longrightarrow> x \<in> set xs \<and> P x"
  by (induction xs) (auto split: if_splits)

lemma pick_file_cases:
  "(\<exists>f. pick_file tm tname fpath w = (Ret f, w) \<and> found tm fpath f) \<or> (\<exists>e. pick_file tm tname fpath w = (Panicked (PException e), w))"
  by (auto simp: pick_file_def found_def ret_run ThrowFmt_run split: list.split option.split dest: find_SomeD)

lemma runGet_split:
  assumes "Reload cfg cli lib order (get_reset cfg w) = (rr, w1)" and "splitPath (''/'' @ get_target opts) = (tname, fpath)"
  shows "\<exists>e. runGet sf cfg cli lib order bg disk opts w = (case rr of
      Panicked x \<Rightarrow> (Panicked x, w1)
    | Blocked \<Rightarrow> (Blocked, w1)
    | Ret _ \<Rightarrow>
        if tname = '''' then (Panicked (PException e), w1)
        else (case m_byName w1 tname of
            None \<Rightarrow> (Panicked (PException e), w1)
          | Some tm \<Rightarrow> (case pick_file tm tname fpath w1 of
                (Ret f, _) \<Rightarrow> get_file sf cfg cli bg disk opts \<lparr>vf_tm = tm, vf_file = f\<rparr> w1
              | (Panicked x, _) \<Rightarrow> (Panicked x, w1)
              | (Blocked, _) \<Rightarrow> (Blocked, w1))))"
proof (cases rr)
  case (Ret u)
  then show ?thesis
  proof (cases "tname = ''''")
    case True
    with Ret assms show ?thesis
      by (auto simp: runGet_def bindM_def modifyM_run get_reset_def [symmetric] ThrowFmt_run)
  next
    case False
    then show ?thesis
    proof (cases "m_byName w1 tname")
      case None
      with Ret assms False show ?thesis
        by (auto simp: runGet_def bindM_def modifyM_run get_reset_def [symmetric] ByName_def Names_def getM_run ThrowFmt_run)
    next
      case (Some tm)
      from pick_file_cases [of tm tname fpath w1] Ret assms False Some show ?thesis
        by (auto simp: runGet_def bindM_def modifyM_run get_reset_def [symmetric] ByName_def getM_run)
    qed
  qed
qed (use assms in \<open>simp_all add: runGet_def bindM_def modifyM_run get_reset_def [symmetric]\<close>)

lemma keeps_write_out: "keeps (\<lambda>w. objs (w_s3 w) (S3Bucket cfg) = f) (write_out disk d)"
  by (auto simp: keeps_def write_out_def bindM_def getM_run modifyM_run Throw_def throw_run ret_run split: prod.split option.split)

lemma os_Create_run:
  "os_Create disk p w = (case Create disk p of None \<Rightarrow> (Ret (), w\<lparr>gt_out := Some []\<rparr>)
    | Some e \<Rightarrow> (Panicked (PException (Exception e)), w))"
  by (simp add: os_Create_def bindM_def Throw_run modifyM_run split: option.split)

lemma reset_coherent:
  assumes "s3_laws cli objs" and "sound_store cfg objs content (w_s3 w)" and "rw_cache w = newLRU n"
  shows "coherent cfg cli objs content w"
  using assms coherent_reader0 [of n] by (simp add: coherent_def reader0_def agrees_def)

text \<open>A run either fails with the state of the load, or a file was picked and its output created.\<close>

lemma runGet_cases:
  assumes "Reload cfg cli lib order (get_reset cfg w) = (rr, w1)" and "splitPath (''/'' @ get_target opts) = (tname, fpath)"
    and "runGet sf cfg cli lib order bg disk opts w = (r, w')"
  shows "(r \<noteq> Ret () \<and> w' = w1) \<or> (\<exists>tm f. tname \<noteq> '''' \<and> m_byName w1 tname = Some tm \<and> found tm fpath f
     \<and> Create disk (get_outPath opts) = None \<and> get_file sf cfg cli bg disk opts \<lparr>vf_tm = tm, vf_file = f\<rparr> w1 = (r, w'))"
proof (cases "rr = Ret () \<and> tname \<noteq> '''' \<and> m_byName w1 tname \<noteq> None")
  case False
  with runGet_split [OF assms(1,2), of sf bg disk] assms(3) show ?thesis by (cases rr) (auto split: if_splits option.splits)
next
  case True
  then obtain tm where tm: "m_byName w1 tname = Some tm" by blast
  from pick_file_cases [of tm tname fpath w1] show ?thesis
  proof
    assume "\<exists>e. pick_file tm tname fpath w1 = (Panicked (PException e), w1)"
    with runGet_split [OF assms(1,2), of sf bg disk] assms(3) True tm show ?thesis by auto
  next
    assume "\<exists>f. pick_file tm tname fpath w1 = (Ret f, w1) \<and> found tm fpath f"
    then obtain f where f: "pick_file tm tname fpath w1 = (Ret f, w1)" "found tm fpath f" by blast
    with runGet_split [OF assms(1,2), of sf bg disk] assms(3) True tm
    have "get_file sf cfg cli bg disk opts \<lparr>vf_tm = tm, vf_file = f\<rparr> w1 = (r, w')" by auto
    moreover from this have "Create disk (get_outPath opts) = Some x \<Longrightarrow> r \<noteq> Ret () \<and> w' = w1" for x
      by (auto simp: get_file_def bindM_def os_Create_run)
    ultimately show ?thesis using True tm f(2) by (cases "Create disk (get_outPath opts)") auto
  qed
qed

lemma get_file_safe:
  assumes "s3_laws cli objs" and "disk_law disk" and "coherent cfg cli objs content w" and "file_in v content L ps"
    and "Create disk (get_outPath opts) = None" and "get_file sf cfg cli bg disk opts v w = (r, w')"
  shows "\<exists>out. gt_out w' = Some out \<and> prefix out (file_bytes v ps) \<and> (r = Ret () \<longrightarrow> out = file_bytes v ps)"
proof -
  let ?w = "w\<lparr>gt_out := Some []\<rparr>"
    and ?loop = "get_loop (\<lambda>k. getPiece_busy sf cfg cli (bg k) (PieceHashes (vf_tm v))) v (nat (get_chunk opts)) (write_out disk) 0 0"
  have rest: "(if get_chunk opts < 0 then panic (PRuntime ''makeslice: len out of range'') else bindM ?loop (\<lambda>_. ret ())) ?w = (r, w')"
    using assms(6) by (simp only: get_file_def bindM_def [of "os_Create disk (get_outPath opts)"] os_Create_run assms(5)
        option.case prod.case outcome.case)
  obtain q w3 where l: "?loop ?w = (q, w3)" by fastforce
  have "copying cfg cli objs content (file_bytes v ps) 0 ?w" using assms(3) by (simp add: copying_def)
  from get_loop_safe [OF assms(2,4) refl assms(1) this l] rest l show ?thesis
    by (cases q) (auto simp: bindM_def ret_run panic_run split: if_splits)
qed

lemma get_file_up:
  assumes "s3_laws cli objs" and "disk_up disk" and "coherent cfg cli objs content w" and "file_in v content L ps"
    and "serving cfg cli objs up (PieceHashes (vf_tm v)) w" and "PrefetchDistance cfg + int (length (PieceHashes (vf_tm v))) < 2 ^ 63"
    and "0 < get_chunk opts" and room: "\<And>k. leaves_room cfg (bg k)"
  shows "\<exists>w'. get_file sf cfg cli bg disk opts v w = (Ret (), w') \<and> gt_out w' = Some (file_bytes v ps)"
proof -
  let ?w = "w\<lparr>gt_out := Some []\<rparr>"
    and ?loop = "get_loop (\<lambda>k. getPiece_busy sf cfg cli (bg k) (PieceHashes (vf_tm v))) v (nat (get_chunk opts)) (write_out disk) 0 0"
  have cr: "Create disk (get_outPath opts) = None" and dl: "disk_law disk"
    using assms(2) by (simp_all add: disk_up_def disk_law_def)
  have ch: "nat (get_chunk opts) \<noteq> 0" "(get_chunk opts < 0) = False" using assms(7) by simp_all
  from get_loop_up [where bg = bg, OF assms(2,4) refl room assms(6) ch(1), of cli objs ?w up 0 sf 0] assms(3,5) obtain n w' where
    l: "?loop ?w = (Ret n, w')" by auto
  have "bindM ?loop (\<lambda>_. ret ()) ?w = (Ret (), w')"
    by (subst bindM_def) (simp only: l prod.case outcome.case ret_run)
  then have run: "get_file sf cfg cli bg disk opts v w = (Ret (), w')"
    by (simp only: get_file_def bindM_def [of "os_Create disk (get_outPath opts)"] os_Create_run cr ch(2)
        option.case prod.case outcome.case if_False)
  from get_file_safe [OF assms(1) dl assms(3,4) cr run] run show ?thesis by blast
qed

text \<open>What the file selected by a target is.\<close>

definition selected ::
  "Config \<Rightarrow> metalib \<Rightarrow> (string \<Rightarrow> bytes option) \<Rightarrow> string \<Rightarrow> virtualFile \<Rightarrow> bool" where
  "selected cfg lib f target v \<longleftrightarrow> (case splitPath (''/'' @ target) of (tname, fpath) \<Rightarrow>
     tname \<noteq> '''' \<and> DisplayName (vf_tm v) = tname \<and> found (vf_tm v) fpath (vf_file v)
     \<and> (\<exists>ih info. torrent_at cfg lib f ih = Some info \<and> same_torrent lib info ih (vf_tm v)))"

text \<open>
  C21: \<^verbatim>\<open>samogon get\<close> never leaves a wrong file behind, whatever the service, the disk and the
  goroutines do. Unless it fails before the output is created, there is a torrent stored in the
  bucket that goes by the first component of the target, with a file as the rest of the target says (or its only file),
  and the output is a prefix of that file; when the command succeeds, it is the whole file.
\<close>

theorem get_safe:
  assumes laws: "s3_laws cli objs" and order: "order_law order" and disk: "disk_law disk"
    and store: "sound_store cfg objs content (w_s3 w)"
    and run: "runGet sf cfg cli lib order bg disk opts w = (r, w')"
  shows "(r \<noteq> Ret () \<and> gt_out w' = gt_out w)
    \<or> (\<exists>v. selected cfg lib (objs (w_s3 w) (S3Bucket cfg)) (get_target opts) v
        \<and> (\<forall>L ps. file_in v content L ps \<longrightarrow>
             (\<exists>out. gt_out w' = Some out \<and> prefix out (file_bytes v ps) \<and> (r = Ret () \<longrightarrow> out = file_bytes v ps))))"
proof -
  let ?f = "objs (w_s3 w) (S3Bucket cfg)"
  obtain tname fpath where sp: "splitPath (''/'' @ get_target opts) = (tname, fpath)" by fastforce
  obtain rr w1 where rl: "Reload cfg cli lib order (get_reset cfg w) = (rr, w1)" by fastforce
  have "sourced cfg objs lib ?f (newLRU (LRUSize cfg)) (get_reset cfg w)"
    using sourced_empty [of objs "get_reset cfg w" cfg ?f lib] by (simp add: get_reset_def)
  from keepsD [OF keeps_sourced_Reload [OF laws order] this rl]
  have so: "from_bucket cfg objs lib ?f (newLRU (LRUSize cfg)) w1" by (simp add: sourced_def)
  from keepsD [OF keeps_untouched_Reload [OF laws, of cfg ?f "gt_out w"] _ rl]
  have un: "gt_out w1 = gt_out w" by (simp add: untouched_def get_reset_def)
  from runGet_cases [OF rl sp run] show ?thesis
  proof
    assume "r \<noteq> Ret () \<and> w' = w1"
    with un show ?thesis by simp
  next
    assume "\<exists>tm f. tname \<noteq> '''' \<and> m_byName w1 tname = Some tm \<and> found tm fpath f
     \<and> Create disk (get_outPath opts) = None \<and> get_file sf cfg cli bg disk opts \<lparr>vf_tm = tm, vf_file = f\<rparr> w1 = (r, w')"
    then obtain tm f where tm: "tname \<noteq> ''''" "m_byName w1 tname = Some tm" "found tm fpath f"
      and cr: "Create disk (get_outPath opts) = None"
      and fl: "get_file sf cfg cli bg disk opts \<lparr>vf_tm = tm, vf_file = f\<rparr> w1 = (r, w')" by blast
    from so tm(2) have names: "DisplayName tm = tname" "m_byHash w1 (Infohash tm) = Some tm"
      by (simp_all add: from_bucket_def meta_wf_def)
    from so names(2) obtain info where info: "torrent_at cfg lib ?f (Infohash tm) = Some info"
        "same_torrent lib info (Infohash tm) tm" unfolding from_bucket_def by blast
    have sel: "selected cfg lib ?f (get_target opts) \<lparr>vf_tm = tm, vf_file = f\<rparr>"
      using tm(1,3) names(1) info unfolding selected_def by (simp only: sp prod.case) auto
    have "sound_store cfg objs content (w_s3 w1)" using store so by (simp add: sound_store_def from_bucket_def)
    from reset_coherent [OF laws this, of "LRUSize cfg"] so have co: "coherent cfg cli objs content w1"
      by (simp add: from_bucket_def)
    from get_file_safe [OF laws disk co _ cr fl] sel show ?thesis by blast
  qed
qed

text \<open>A first load finds a stored torrent whose name no other has.\<close>

lemma Reload_finds:
  assumes laws: "s3_laws cli objs" and s3: "s3_up cli objs up" "up (w_s3 w)" and order: "order_law order"
    and f: "f = objs (w_s3 w) (S3Bucket cfg)" and empty: "m_byName w = Map.empty" "m_byHash w = Map.empty"
    and v1: "\<forall>ih info. torrent_at cfg lib f ih = Some info \<longrightarrow> v1_info lib info"
    and names: "distinct_names cfg lib f"
    and t: "torrent_at cfg lib f ih = Some info" "listed cfg f ih"
  obtains w1 tm where "Reload cfg cli lib order w = (Ret (), w1)" and "same_torrent lib info ih tm"
    and "m_byName w1 (sanitizeName (info_Name info)) = Some tm" and "sourced cfg objs lib f (rw_cache w) w1" and "up (w_s3 w1)"
proof -
  have wf: "meta_wf w" by (simp add: meta_wf_def empty)
  from Reload_up [OF laws s3 v1 [unfolded f] order wf]
  obtain w1 where rl: "Reload cfg cli lib order w = (Ret (), w1)"
    and all: "\<And>i. if listed cfg f i then after_pass lib (torrent_at cfg lib f i) True i (m_byHash w i) (m_byHash w1 i)
       else m_byHash w1 i = None" unfolding f by blast
  have "after_pass lib (Some info) True ih (m_byHash w ih) (m_byHash w1 ih)" using all [of ih] t by simp
  then obtain tm where tm: "m_byHash w1 ih = Some tm" "same_torrent lib info ih tm"
    by (auto simp: after_pass_def empty)
  have "sourced cfg objs lib f (rw_cache w) w" using sourced_empty [of objs w cfg f lib] f empty by simp
  then have so: "sourced cfg objs lib f (rw_cache w) w1" by (rule keepsD [OF keeps_sourced_Reload [OF laws order] _ rl])
  have "plain_names w1" using so names by (simp add: sourced_def)
  then have "m_byName w1 (Name tm) = Some tm" using tm(1) unfolding plain_names_def by blast
  then have "m_byName w1 (sanitizeName (info_Name info)) = Some tm" by (simp only: same_torrent_fields(2) [OF tm(2)])
  with rl tm(2) so keepsD [OF keeps_up_Reload [OF s3(1)] s3(2) rl] that show thesis by blast
qed

text \<open>
  C23: \<^verbatim>\<open>samogon get\<close> works. With the service and the disk up, torrents with v1 hashes and no two
  of one name in the bucket, every pair of a stored torrent's name and a path of its file
  table, or the name alone when it has one file, is a target that gets exactly that file, for every positive
  chunk size and with any prefetching that leaves room in the cache (\<open>leaves_room\<close>: between the moment a piece comes in
  and the moment it is looked up, fewer prefetch goroutines use the cache than it has entries).
\<close>

theorem get_exact:
  assumes laws: "s3_laws cli objs" and s3: "s3_up cli objs up" "up (w_s3 w)"
    and order: "order_law order" and du: "disk_up disk"
    and store: "sound_store cfg objs content (w_s3 w)" and f: "f = objs (w_s3 w) (S3Bucket cfg)"
    and v1: "\<forall>ih info. torrent_at cfg lib f ih = Some info \<longrightarrow> v1_info lib info"
    and names: "distinct_names cfg lib f"
    and t: "torrent_at cfg lib f ih = Some info" "listed cfg f ih"
    and sp: "splitPath (''/'' @ get_target opts) = (sanitizeName (info_Name info), fpath)"
    and pick0: "if fpath = '''' then files_of info = [fe] else List.find (\<lambda>f. Path f = fpath) (files_of info) = Some fe"
    and fin: "file_in \<lparr>vf_tm = meta_of lib info ih, vf_file = fe\<rparr> content L ps"
    and pieces: "\<forall>h\<in>set (hashes_of lib info). f (KeyPiece cfg h) \<noteq> None"
    and room: "\<And>k. leaves_room cfg (bg k)"
    and sizes: "PrefetchDistance cfg + int (length (hashes_of lib info)) < 2 ^ 63" "0 < get_chunk opts"
  shows "\<exists>w'. runGet sf cfg cli lib order bg disk opts w = (Ret (), w')
    \<and> gt_out w' = Some (file_bytes \<lparr>vf_tm = meta_of lib info ih, vf_file = fe\<rparr> ps)"
proof -
  let ?w0 = "get_reset cfg w" and ?n = "sanitizeName (info_Name info)"
  have o0: "objs (w_s3 ?w0) (S3Bucket cfg) = f" "up (w_s3 ?w0)" using f s3(2) by (simp_all add: get_reset_def)
  have c0: "m_byName ?w0 = Map.empty" "m_byHash ?w0 = Map.empty" "rw_cache ?w0 = newLRU (LRUSize cfg)"
    by (simp_all add: get_reset_def)
  obtain w1 tm where rl: "Reload cfg cli lib order ?w0 = (Ret (), w1)" and tm: "same_torrent lib info ih tm"
    and by_name: "m_byName w1 ?n = Some tm" and so: "sourced cfg objs lib f (newLRU (LRUSize cfg)) w1" and up1: "up (w_s3 w1)"
    by (rule Reload_finds [OF laws s3(1) o0(2) order o0(1) [symmetric] c0(1,2) v1 names t, unfolded c0(3)])
  note tmf = same_torrent_fields [OF tm]
  have nt: "?n \<noteq> ''''" using sanitizeName_ok by blast
  have pick: "pick_file tm ?n fpath w1 = (Ret fe, w1)"
    using pick0 by (cases "fpath = ''''") (simp_all add: pick_file_def tmf(3) ret_run)
  let ?v = "\<lparr>vf_tm = tm, vf_file = fe\<rparr>"
  from runGet_split [OF rl sp, of sf bg disk] nt by_name pick
  have run: "runGet sf cfg cli lib order bg disk opts w = get_file sf cfg cli bg disk opts ?v w1" by simp
  have fin': "file_in ?v content L ps" and fb: "file_bytes ?v ps = file_bytes \<lparr>vf_tm = meta_of lib info ih, vf_file = fe\<rparr> ps"
    using fin tmf by (simp_all add: file_in_def file_bytes_def meta_of_def)
  have ss: "sound_store cfg objs content (w_s3 w1)"
    using store so f by (simp add: sound_store_def sourced_def from_bucket_def)
  have co: "coherent cfg cli objs content w1"
    using so by (intro reset_coherent [OF laws ss, of "LRUSize cfg"]) (simp add: sourced_def from_bucket_def)
  have sv: "serving cfg cli objs up (PieceHashes (vf_tm ?v)) w1"
    using so s3(1) up1 pieces leaves_room_some [OF room] by (simp add: serving_def sourced_def from_bucket_def tmf(4) newLRU_def)
  have pd: "PrefetchDistance cfg + int (length (PieceHashes (vf_tm ?v))) < 2 ^ 63" using sizes(1) by (simp add: tmf(4))
  from get_file_up [where bg = bg, OF laws du co fin' sv pd sizes(2) room] show ?thesis by (simp add: run fb)
qed

text \<open>
  A torrent of one file of three bytes, in pieces of two, stored with its pieces; a cache with room for
  two, chunks of two bytes, and a disk that is full after two.
\<close>

definition hash_g :: "byte \<Rightarrow> string" where
  "hash_g b = hex_EncodeToString (replicate 20 b)"

definition tor_g :: bytes where
  "tor_g = [1, 97, 2, 1, 3] @ replicate 20 1 @ replicate 20 2"

definition get_g :: "mem gtworld" where
  "get_g = \<lparr>w_s3 = mem_of [(''t/torrents/h'', tor_g), (''t/pieces/'' @ hash_g 1, [1, 2]), (''t/pieces/'' @ hash_g 2, [3])],
     w_puts = 0, rw_cache = newLRU 0, rw_spawned = [], m_byName = Map.empty, m_byHash = Map.empty, gt_out = None\<rparr>"

definition opts_g :: getOpts where
  "opts_g = \<lparr>get_target = ''a'', get_outPath = ''o'', get_chunk = 2\<rparr>"

definition disk_ok :: disk where
  "disk_ok = \<lparr>Create = (\<lambda>_. None), FileWrite = (\<lambda>_ d. (length d, None))\<rparr>"

definition disk_full :: disk where
  "disk_full = \<lparr>Create = (\<lambda>_. None),
     FileWrite = (\<lambda>s d. if length s < 2 then (length d, None) else (0, Some (LibError ''no space left on device'')))\<rparr>"

definition cfg_g :: Config where
  "cfg_g = cfg0\<lparr>LRUSize := 2\<rparr>"

definition content_g :: "string \<Rightarrow> bytes option" where
  "content_g = [hash_g 1 \<mapsto> [1, 2], hash_g 2 \<mapsto> [3]]"

definition info_g :: Info where
  "info_g = \<lparr>info_Name = ''a'', info_PieceLength = 2, info_Pieces = replicate 20 1 @ replicate 20 2,
     info_Length = 3, info_Files = [], info_Other = []\<rparr>"

lemma cfg_g_simps [simp]:
  "S3Bucket cfg_g = ''b''" "S3Root cfg_g = ''t''" "PrefetchDistance cfg_g = 32" "LRUSize cfg_g = 2"
  by (simp_all add: cfg_g_def)

text \<open>While each piece is on its way to the reader, the other one is prefetched.\<close>

definition bg_g :: "nat \<Rightarrow> int \<Rightarrow> others" where
  "bg_g k i = others_at Returning [hash_g 2]"

lemma room_g: "leaves_room cfg_g (bg_g k)"
  by (simp add: leaves_room_def bg_g_def others_at_def)

lemma hash_g_neq [simp]: "hash_g 1 \<noteq> hash_g 2"
  by (simp add: hash_g_def)

lemma view_g:
  "mem_view (w_s3 get_g) ''b'' =
    [''t/pieces/'' @ hash_g 2 \<mapsto> [3], ''t/pieces/'' @ hash_g 1 \<mapsto> [1, 2], ''t/torrents/h'' \<mapsto> tor_g]"
  by (rule ext) (simp add: mem_view_def get_g_def mem_of_def)

lemma parsed_g: "parsed lib0 tor_g = Some info_g"
  by (simp add: parsed_def lib0_def info0_def tor_g_def chars_def char_of_a info_g_def)

lemma torrent_at_g: "torrent_at cfg_g lib0 (mem_view (w_s3 get_g) ''b'') ih = (if ih = ''h'' then Some info_g else None)"
  by (simp add: torrent_at_def view_g KeyTorrent_def parsed_g)

lemma hashes_g: "hashes_of lib0 info_g = [hash_g 1, hash_g 2]"
  by (simp add: hashes_of_def lib0_def info_g_def hash_g_def upto.simps)

lemma bucket_g:
  "\<forall>ih info. torrent_at cfg_g lib0 (mem_view (w_s3 get_g) (S3Bucket cfg_g)) ih = Some info \<longrightarrow> v1_info lib0 info"
  "distinct_names cfg_g lib0 (mem_view (w_s3 get_g) (S3Bucket cfg_g))"
  "torrent_at cfg_g lib0 (mem_view (w_s3 get_g) (S3Bucket cfg_g)) ''h'' = Some info_g"
  "listed cfg_g (mem_view (w_s3 get_g) (S3Bucket cfg_g)) ''h''"
  "sanitizeName (info_Name info_g) = ''a''" "mem_up (w_s3 get_g)"
proof -
  have at: "torrent_at cfg_g lib0 (mem_view (w_s3 get_g) (S3Bucket cfg_g)) ih = (if ih = ''h'' then Some info_g else None)" for ih
    using torrent_at_g [of ih] by simp
  show "\<forall>ih info. torrent_at cfg_g lib0 (mem_view (w_s3 get_g) (S3Bucket cfg_g)) ih = Some info \<longrightarrow> v1_info lib0 info"
    unfolding at by (simp add: v1_info_def has_v1_def lib0_def info_g_def)
  show "distinct_names cfg_g lib0 (mem_view (w_s3 get_g) (S3Bucket cfg_g))" unfolding distinct_names_def at by simp
  show "torrent_at cfg_g lib0 (mem_view (w_s3 get_g) (S3Bucket cfg_g)) ''h'' = Some info_g" by (simp only: at simp_thms if_True)
  have "path_Base ''t/torrents/h'' = ''h''" by code_simp
  then show "listed cfg_g (mem_view (w_s3 get_g) (S3Bucket cfg_g)) ''h''"
    by (auto simp: listed_def view_g PrefixTorrents_def intro!: image_eqI [of _ _ "''t/torrents/'' @ ''h''"])
qed (simp_all add: info_g_def sanitizeName_def go_defs get_g_def)

theorem get_exact_witness:
  "\<exists>w'. runGet id cfg_g mem_s3 lib0 order0 bg_g disk_ok opts_g get_g = (Ret (), w') \<and> gt_out w' = Some [1, 2, 3]"
proof -
  let ?f = "mem_view (w_s3 get_g) (S3Bucket cfg_g)" and ?fe = "\<lparr>Path = ''a'', Size = 3, Offset = 0\<rparr>"
  let ?v = "\<lparr>vf_tm = meta_of lib0 info_g ''h'', vf_file = ?fe\<rparr>" and ?ps = "[[1, 2], [3]] :: bytes list"
  have files: "if '''' = '''' then files_of info_g = [?fe] else List.find (\<lambda>f. Path f = '''') (files_of info_g) = Some ?fe"
    by (simp add: files_of_def info_g_def sanitizeName_def go_defs)
  have store: "sound_store cfg_g mem_view content_g (w_s3 get_g)"
    by (auto simp: sound_store_def view_g KeyPiece_def content_g_def split: if_splits)
  have fin: "file_in ?v content_g 2 ?ps"
    by (simp add: file_in_def meta_of_def hashes_g content_g_def) (simp add: info_g_def)
  have fb: "file_bytes ?v ?ps = [1, 2, 3]" by (simp add: file_bytes_def slice_def)
  have "splitPath (''/'' @ get_target opts_g) = (''a'', '''')" by code_simp
  then have sp: "splitPath (''/'' @ get_target opts_g) = (sanitizeName (info_Name info_g), '''')" by (simp only: bucket_g(5))
  have pieces: "\<forall>h\<in>set (hashes_of lib0 info_g). ?f (KeyPiece cfg_g h) \<noteq> None" by (simp add: hashes_g view_g KeyPiece_def)
  have disk: "disk_up disk_ok" by (simp add: disk_up_def disk_ok_def)
  have sizes: "PrefetchDistance cfg_g + int (length (hashes_of lib0 info_g)) < 2 ^ 63" "0 < get_chunk opts_g"
    by (simp_all add: hashes_g opts_g_def)
  from get_exact [OF mem_laws mem_is_up bucket_g(6) order0_law disk store refl bucket_g(1-4) sp files fin pieces room_g sizes, of id]
  have "\<exists>w'. runGet id cfg_g mem_s3 lib0 order0 bg_g disk_ok opts_g get_g = (Ret (), w') \<and> gt_out w' = Some (file_bytes ?v ?ps)" .
  then show ?thesis by (simp only: fb)
qed

text \<open>The same with a disk that is full after two bytes: what it holds is a prefix.\<close>

theorem get_safe_witness:
  "case runGet id cfg_g mem_s3 lib0 order0 bg_g disk_full opts_g get_g of (r, w') \<Rightarrow>
    (r \<noteq> Ret () \<and> gt_out w' = None)
    \<or> (\<exists>v. selected cfg_g lib0 (mem_view (w_s3 get_g) ''b'') ''a'' v
        \<and> (\<forall>L ps. file_in v content_g L ps \<longrightarrow> (\<exists>out. gt_out w' = Some out \<and> prefix out (file_bytes v ps)
             \<and> (r = Ret () \<longrightarrow> out = file_bytes v ps))))"
proof -
  obtain r w' where run: "runGet id cfg_g mem_s3 lib0 order0 bg_g disk_full opts_g get_g = (r, w')" by fastforce
  have disk: "disk_law disk_full" by (simp add: disk_law_def disk_full_def)
  have store: "sound_store cfg_g mem_view content_g (w_s3 get_g)"
    by (auto simp: sound_store_def view_g KeyPiece_def content_g_def split: if_splits)
  have out: "gt_out get_g = None" "get_target opts_g = ''a''" by (simp_all add: get_g_def opts_g_def)
  from get_safe [OF mem_laws order0_law disk store run, unfolded out cfg_g_simps] show ?thesis unfolding run prod.case .
qed

end
