(* ===== verification/Get2.thy ===== *)
theory Get2
  imports Get Pmap
begin

text \<open>
  \<^verbatim>\<open>samogon get2\<close> (\<^verbatim>\<open>get2.go\<close>): the pieces a target covers, read straight from the
  store by a number of workers that share one queue, in any order. \<open>rand.Shuffle\<close> and the order in
  which the workers finish are parameters. The counters for the progress report that only feed
  printed rates (latency) are left out.
\<close>

section \<open>State\<close>

record 's g2world = "'s mworld" +
  g2_ops :: int
  g2_bytes :: int
  g2_inFlight :: int
  g2_errs :: int

section \<open>Which pieces\<close>

fun hashes_at :: "TorrentMeta \<Rightarrow> int list \<Rightarrow> ('w, string list) prog" where
  "hashes_at tm [] = ret []"
| "hashes_at tm (i # is) =
     bindM (go_index (PieceHashes tm) i) (\<lambda>h. bindM (hashes_at tm is) (\<lambda>hs. ret (h # hs)))"

text \<open>
  The pieces of one file; \<open>endPiece\<close> is that of its last byte. A file of no bytes has no last byte, and the code
  does not exclude it.
\<close>

definition file_hashes :: "TorrentMeta \<Rightarrow> FileEntry \<Rightarrow> ('w, string list) prog" where
  "file_hashes tm file =
     (if PieceLen tm = 0 then panic (PRuntime ''integer divide by zero'')
      else
        let startPiece = Offset file sdiv PieceLen tm;
            endPiece = wrap64 (wrap64 (Offset file + Size file) - 1) sdiv PieceLen tm
        in if wrap64 (wrap64 (endPiece - startPiece) + 1) < 0 then panic (PRuntime ''makeslice: cap out of range'')
           else hashes_at tm [startPiece..endPiece])"

definition resolveHashes :: "string \<Rightarrow> (('s, 'z) mworld_scheme, string list) prog" where
  "resolveHashes target =
     (case splitPath (''/'' @ target) of (tname, fpath) \<Rightarrow>
        if tname = '''' then ThrowFmt ''get2: target must start with <torrent-name>'' []
        else bindM (ByName tname) (\<lambda>r. case r of
            None \<Rightarrow> ThrowFmt ''get2: no such torrent: %s'' [AStr tname]
          | Some tm \<Rightarrow>
              if fpath = '''' then ret (PieceHashes tm)
              else (case List.find (\<lambda>f. Path f = fpath) (Files tm) of
                  None \<Rightarrow> ThrowFmt ''get2: no such file in torrent %q: %s'' [AStr tname, AStr fpath]
                | Some file \<Rightarrow> file_hashes tm file)))"

section \<open>Fetching\<close>

text \<open>\<open>get2Fetch\<close>: the number of bytes of the body that could be read, and the error.\<close>

definition get2Fetch :: "Config \<Rightarrow> 's s3api \<Rightarrow> string \<Rightarrow> (('s, 'z) world_scheme, int \<times> goerr option) prog" where
  "get2Fetch cfg cli hash =
     bindM (call (GetObject cli (S3Bucket cfg) (KeyPiece cfg hash))) (\<lambda>r. case r of
         Inl e \<Rightarrow> ret (0, Some e)
       | Inr (data, err) \<Rightarrow> ret (int (length data), err))"

text \<open>One turn of a worker's loop.\<close>

definition get2_one :: "Config \<Rightarrow> 's s3api \<Rightarrow> string \<Rightarrow> (('s, 'z) g2world_scheme, unit) prog" where
  "get2_one cfg cli h =
     bindM (modifyM (\<lambda>w. w\<lparr>g2_inFlight := g2_inFlight w + 1\<rparr>)) (\<lambda>_.
     bindM (get2Fetch cfg cli h) (\<lambda>(n, err).
     bindM (modifyM (\<lambda>w. w\<lparr>g2_inFlight := g2_inFlight w - 1\<rparr>)) (\<lambda>_.
       case err of
         Some e \<Rightarrow> modifyM (\<lambda>w. w\<lparr>g2_errs := g2_errs w + 1\<rparr>)
       | None \<Rightarrow> modifyM (\<lambda>w. w\<lparr>g2_bytes := wrap64 (g2_bytes w + n), g2_ops := g2_ops w + 1\<rparr>))))"

text \<open>The queue is full and closed before the workers start; with no worker nothing is fetched.\<close>

definition get2_workers ::
  "Config \<Rightarrow> 's s3api \<Rightarrow> (string list \<Rightarrow> string list) \<Rightarrow> int \<Rightarrow> string list \<Rightarrow> (('s, 'z) g2world_scheme, unit) prog" where
  "get2_workers cfg cli sched workers queue =
     (if workers \<le> 0 then ret () else forM (sched queue) (get2_one cfg cli))"

definition runGet2 ::
  "Config \<Rightarrow> 's s3api \<Rightarrow> metalib \<Rightarrow> maporder \<Rightarrow> (string list \<Rightarrow> string list) \<Rightarrow> (string list \<Rightarrow> string list)
    \<Rightarrow> get2Opts \<Rightarrow> (('s, 'z) g2world_scheme, unit) prog" where
  "runGet2 cfg cli lib order shuffle sched opts =
     bindM (modifyM (\<lambda>w. w\<lparr>rw_cache := newLRU 1, m_byName := Map.empty, m_byHash := Map.empty\<rparr>)) (\<lambda>_.
     bindM (Reload cfg cli lib order) (\<lambda>_.
     bindM (resolveHashes (g2_target opts)) (\<lambda>hashes.
     let hashes = (if g2_shuffle opts then shuffle hashes else hashes) in
     bindM (modifyM (\<lambda>w. w\<lparr>g2_ops := 0, g2_bytes := 0, g2_inFlight := 0, g2_errs := 0\<rparr>)) (\<lambda>_.
       get2_workers cfg cli sched (g2_parallel opts) hashes))))"

section \<open>The pieces of a file\<close>

lemma hashes_at_run:
  "0 \<le> a \<Longrightarrow> b < int (length (PieceHashes tm)) \<Longrightarrow>
    hashes_at tm [a..b] w = (Ret (slice (nat a) (nat (b - a + 1)) (PieceHashes tm)), w)"
proof (induction "nat (b - a + 1)" arbitrary: a)
  case 0
  then have "[a..b] = []" by simp
  with 0 show ?case by (simp add: ret_run)
next
  case (Suc n)
  then have ab: "a \<le> b" "n = nat (b - (a + 1) + 1)" by simp_all
  have "slice (nat a) (nat (b - a + 1)) (PieceHashes tm)
      = PieceHashes tm ! nat a # slice (nat (a + 1)) (nat (b - (a + 1) + 1)) (PieceHashes tm)"
  proof -
    have "nat a < length (PieceHashes tm)" "nat (a + 1) = Suc (nat a)" "nat (b - a + 1) = Suc (nat (b - (a + 1) + 1))"
      using Suc.prems ab by simp_all
    then show ?thesis by (simp add: slice_def Cons_nth_drop_Suc [symmetric])
  qed
  with Suc.hyps(1) [OF ab(2)] Suc.prems ab(1) show ?case
    by (simp add: upto_rec1 go_index_def bindM_def ret_run)
qed

text \<open>The bytes of a file lie in the pieces from the one of its first byte to the one of its last.\<close>

lemma uniform_nth_full: "uniform L ps \<Longrightarrow> i < length ps \<Longrightarrow> length (concat (take i ps)) = i * L"
proof (induction i arbitrary: ps)
  case (Suc i)
  then obtain p q where ps: "ps = p # q" by (cases ps) auto
  with Suc.prems have q: "q \<noteq> []" "i < length q" by auto
  have "length p = L" using uniform_hd_length Suc.prems(1) q(1) ps by blast
  moreover have "length (concat (take i q)) = i * L"
    using Suc.IH [OF uniform_tl [OF Suc.prems(1) [unfolded ps]] q(2)] .
  ultimately show ?case by (simp add: ps)
qed simp

lemma slice_concat:
  assumes u: "uniform L ps" and L: "0 < L" and n: "0 < n" and fit: "start + n \<le> length (concat ps)"
  shows "slice start n (concat ps) =
    slice (start mod L) n (concat (slice (start div L) ((start + n - 1) div L - start div L + 1) ps))"
proof -
  let ?a = "start div L" and ?b = "(start + n - 1) div L"
  have ab: "?a \<le> ?b" by (rule div_le_mono) (use n in simp)
  have bl: "?b < length ps" using uniform_locate_index [OF u, of "start + n - 1"] fit n by simp
  have la: "length (concat (take ?a ps)) = ?a * L" using uniform_nth_full [OF u] ab bl by simp
  let ?mid = "slice ?a (?b - ?a + 1) ps" and ?rest = "drop (?b + 1) ps"
  have split: "ps = take ?a ps @ ?mid @ ?rest"
  proof -
    have "drop (?b + 1) ps = drop (?b - ?a + 1) (drop ?a ps)" using ab by simp
    then show ?thesis by (simp only: slice_def append_take_drop_id)
  qed
  have lm: "start mod L + n \<le> length (concat ?mid)"
  proof (cases "?b + 1 < length ps")
    case True
    have "length (concat (take (?b + 1) ps)) = (?b + 1) * L" using uniform_nth_full [OF u True] .
    moreover have "take (?b + 1) ps = take ?a ps @ ?mid"
      using take_add [of ?a "?b - ?a + 1" ps] ab by (simp only: slice_def) simp
    ultimately have "?a * L + length (concat ?mid) = (?b + 1) * L" using la by simp
    moreover have "start + n - 1 < (?b + 1) * L" using dividend_less_times_div [of L "start + n - 1"] L by (simp add: algebra_simps)
    moreover have "start = ?a * L + start mod L" by simp
    ultimately show ?thesis using n by linarith
  next
    case False
    then have "?rest = []" by simp
    then have "length (concat ps) = ?a * L + length (concat ?mid)"
      using arg_cong [OF split, of "\<lambda>x. length (concat x)"] la by simp
    moreover have "start = ?a * L + start mod L" by simp
    ultimately show ?thesis using fit by linarith
  qed
  have "drop start (concat ps) = drop (start mod L) (concat ?mid @ concat ?rest)"
  proof -
    have "concat ps = concat (take ?a ps) @ concat ?mid @ concat ?rest" by (subst split) simp
    moreover have "start = length (concat (take ?a ps)) + start mod L" using la by simp
    ultimately show ?thesis by (metis append_eq_conv_conj drop_drop add.commute)
  qed
  then show ?thesis using lm by (simp add: slice_def)
qed

lemma range_len: "x \<le> y \<Longrightarrow> nat (int y - int x + 1) = y - x + 1"
  by linarith

lemma range_fits: "x \<le> y \<Longrightarrow> y < n \<Longrightarrow> min (y - x + 1) (n - x) = y - x + (1 :: nat)"
  by linarith

lemma butlast_slice:
  assumes "x \<le> y" and "y < length xs"
  shows "butlast (slice x (y - x + 1) xs) = slice x (y - x) xs"
  using assms by (simp add: slice_def butlast_take)

lemma slice_lengths:
  assumes "uniform L ps" and "x \<le> y" and "y < length ps"
  shows "length (concat (slice x (y - x) ps)) + x * L = y * L"
proof -
  have "take x ps @ slice x (y - x) ps = take y ps"
    using take_add [of x "y - x" ps] assms(2) by (simp add: slice_def)
  from arg_cong [OF this, of "\<lambda>x. length (concat x)"] show ?thesis
    using uniform_nth_full [OF assms(1)] assms(2,3) by simp
qed

lemma sdiv_last:
  assumes "0 \<le> off" and "0 < sz" and "off + sz < 2 ^ 63" and "0 < L"
  shows "off sdiv int L = int (nat off div L)"
    and "wrap64 (wrap64 (off + sz) - 1) sdiv int L = int ((nat off + nat sz - 1) div L)"
proof -
  have "wrap64 (off + sz) = off + sz" by (rule wrap64_nonneg) (use assms(1-3) in linarith)+
  moreover have "wrap64 (off + sz - 1) = off + sz - 1" by (rule wrap64_nonneg) (use assms(1-3) in linarith)+
  moreover have "off + sz - 1 = int (nat off + nat sz - 1)" using assms(1,2) by linarith
  ultimately show "wrap64 (wrap64 (off + sz) - 1) sdiv int L = int ((nat off + nat sz - 1) div L)"
    by (simp only: sdiv_nat [OF assms(4)])
  show "off sdiv int L = int (nat off div L)" using sdiv_nat [OF assms(4), of "nat off"] assms(1) by simp
qed

lemma file_hashes_run:
  assumes fin: "file_in v content L ps" and sz: "0 < Size (vf_file v)"
  shows "file_hashes (vf_tm v) (vf_file v) w = (Ret (slice (nat (Offset (vf_file v)) div L)
     ((nat (Offset (vf_file v)) + nat (Size (vf_file v)) - 1) div L - nat (Offset (vf_file v)) div L + 1) (PieceHashes (vf_tm v))), w)"
proof -
  let ?o = "nat (Offset (vf_file v))" and ?s = "nat (Size (vf_file v))"
  let ?a = "?o div L" and ?b = "(?o + ?s - 1) div L"
  have L: "PieceLen (vf_tm v) = int L" "0 < L" and u: "uniform L ps"
    and o: "0 \<le> Offset (vf_file v)" "Offset (vf_file v) + Size (vf_file v) \<le> int (length (concat ps))" "length (concat ps) < 2 ^ 63"
    using fin by (simp_all add: file_in_def)
  have "int (length (concat ps)) < 2 ^ 63" using o(3) by simp
  with o(2) have range: "Offset (vf_file v) + Size (vf_file v) < 2 ^ 63" by (rule order.strict_trans1)
  note sd = sdiv_last [OF o(1) sz range L(2)]
  have b: "?b < length ps" using uniform_locate_index [OF u, of "?o + ?s - 1"] o sz by (simp add: nat_diff_split)
  have ab: "?a \<le> ?b" by (rule div_le_mono) (use sz in linarith)
  have "int ?b < 2 ^ 63 - 1"
  proof -
    have "?b \<le> ?o + ?s - 1" by simp
    then show ?thesis using range o(1) sz by linarith
  qed
  then have w64: "wrap64 (int ?b - int ?a) = int ?b - int ?a" "wrap64 (int ?b - int ?a + 1) = int ?b - int ?a + 1"
    using ab by (auto intro!: wrap64_nonneg simp del: of_nat_diff)
  then have cap: "(wrap64 (wrap64 (int ?b - int ?a) + 1) < 0) = False"
    unfolding w64 using ab by simp
  have nz: "(int L = 0) = False" using L(2) by simp
  have "int ?b < int (length (PieceHashes (vf_tm v)))" using b file_in_length [OF fin] by simp
  from hashes_at_run [OF of_nat_0_le_iff this, of ?a w, unfolded range_len [OF ab] nat_int]
  show ?thesis unfolding file_hashes_def L(1) sd Let_def cap nz if_False .
qed

text \<open>
  C32: \<^verbatim>\<open>get2\<close> reads all of a file and nothing twice. For a file of at least one byte the
  resolved hashes are a consecutive run of the torrent's piece hashes, and the file's bytes are
  exactly the part of these pieces that starts at the file's offset in the first of them; neither end can be
  spared: the file's first byte is in the first piece and its last byte in the last.
\<close>

theorem resolve_covers:
  assumes "splitPath (''/'' @ target) = (tname, fpath)" and "tname \<noteq> ''''" and "fpath \<noteq> ''''"
    and "m_byName w tname = Some tm" and "List.find (\<lambda>f. Path f = fpath) (Files tm) = Some fe"
    and "file_in \<lparr>vf_tm = tm, vf_file = fe\<rparr> content L ps" and "0 < Size fe"
  shows "\<exists>hs. resolveHashes target w = (Ret hs, w) \<and> sublist hs (PieceHashes tm)
    \<and> file_bytes \<lparr>vf_tm = tm, vf_file = fe\<rparr> ps
        = slice (nat (Offset fe) mod L) (nat (Size fe)) (concat (map (the \<circ> content) hs))
    \<and> nat (Offset fe) mod L < length (the (content (hd hs)))
    \<and> length (concat (map (the \<circ> content) (butlast hs))) < nat (Offset fe) mod L + nat (Size fe)"
proof -
  let ?v = "\<lparr>vf_tm = tm, vf_file = fe\<rparr>" and ?o = "nat (Offset fe)" and ?s = "nat (Size fe)"
  let ?a = "?o div L" and ?b = "(?o + ?s - 1) div L"
  define hs where "hs = slice ?a (?b - ?a + 1) (PieceHashes tm)"
  have fin: "0 < L" "uniform L ps" "map content (PieceHashes tm) = map Some ps" "?o + ?s \<le> length (concat ps)" "0 < ?s"
    using assms(6,7) by (auto simp: file_in_def)
  have res: "resolveHashes target w = (Ret hs, w)"
    using assms(1-5) file_hashes_run [OF assms(6), of w] assms(7)
    by (simp add: resolveHashes_def ByName_def hs_def)
  have "hs = take (?b - ?a + 1) (drop ?a (PieceHashes tm))" by (simp add: hs_def slice_def)
  then have sub: "sublist hs (PieceHashes tm)" by (metis sublist_def append_take_drop_id)
  have ms: "map content hs = map Some (slice ?a (?b - ?a + 1) ps)"
    using arg_cong [OF fin(3), of "slice ?a (?b - ?a + 1)"] by (simp add: hs_def slice_def take_map drop_map)
  then have mp: "map (the \<circ> content) hs = slice ?a (?b - ?a + 1) ps"
  proof -
    have "map (the \<circ> content) hs = map the (map content hs)" by simp
    then show ?thesis unfolding ms by (simp add: comp_def)
  qed
  have pos: "?o < length (concat ps)" "?o + ?s - 1 < length (concat ps)" using fin(4,5) by simp_all
  have al: "?a < length ps" and bl: "?b < length ps" and ml: "?o mod L < length (ps ! ?a)"
    using uniform_locate_index [OF fin(2) pos(1)] uniform_locate_index [OF fin(2) pos(2)]
      uniform_locate_offset [OF fin(2) pos(1)] by simp_all
  have ab: "?a \<le> ?b" by (rule div_le_mono) (use fin(5) in simp)
  have lens: "length hs = ?b - ?a + 1" using range_fits [OF ab bl] file_in_length [OF assms(6)] by (simp add: hs_def)
  then have hne: "hs \<noteq> []" by auto
  have h0: "the (content (hd hs)) = ps ! ?a"
  proof -
    have "the (content (hd hs)) = hd (map (the \<circ> content) hs)" using hne by (simp add: hd_map)
    also have "\<dots> = ps ! ?a" using al by (simp add: mp slice_def hd_take hd_drop_conv_nth)
    finally show ?thesis .
  qed
  have "length (concat (map (the \<circ> content) (butlast hs))) + ?a * L = ?b * L"
    using slice_lengths [OF fin(2) ab bl] by (simp only: map_butlast mp butlast_slice [OF ab bl])
  moreover have "?b * L \<le> ?o + ?s - 1" "?o = ?a * L + ?o mod L" by simp_all
  ultimately have "length (concat (map (the \<circ> content) (butlast hs))) < ?o mod L + ?s" using fin(5) by linarith
  moreover have "file_bytes ?v ps = slice (?o mod L) ?s (concat (map (the \<circ> content) hs))"
    using slice_concat [OF fin(2,1,5,4)] by (simp add: file_bytes_def mp)
  ultimately show ?thesis using res sub ml h0 by (intro exI [of _ hs]) simp
qed

text \<open>A target that reads the second and third byte of a stream of three, from a file with another before it.\<close>

definition tm_r :: TorrentMeta where
  "tm_r = \<lparr>Infohash = ''h'', Name = ''a'', DisplayName = ''a'', PieceLen = 2, TotalLen = 3,
     Files = [\<lparr>Path = ''x'', Size = 1, Offset = 0\<rparr>, \<lparr>Path = ''y'', Size = 2, Offset = 1\<rparr>], PieceHashes = [''p0'', ''p1'']\<rparr>"

theorem resolve_covers_witness:
  "\<exists>hs. resolveHashes ''a/y'' ((newMeta cfg0 bucket_p)\<lparr>m_byName := [''a'' \<mapsto> tm_r]\<rparr>)
      = (Ret hs, (newMeta cfg0 bucket_p)\<lparr>m_byName := [''a'' \<mapsto> tm_r]\<rparr>)
    \<and> sublist hs [''p0'', ''p1''] \<and> [2, 3] = slice 1 2 (concat (map (the \<circ> content0) hs))"
proof -
  let ?fe = "\<lparr>Path = ''y'', Size = 2, Offset = 1\<rparr>" and ?w = "(newMeta cfg0 bucket_p)\<lparr>m_byName := [''a'' \<mapsto> tm_r]\<rparr>"
  have sp: "splitPath (''/'' @ ''a/y'') = (''a'', ''y'')" by code_simp
  have ne: "''a'' \<noteq> ''''" "''y'' \<noteq> ''''" by simp_all
  have bn: "m_byName ?w ''a'' = Some tm_r" by simp
  have fd: "List.find (\<lambda>f. Path f = ''y'') (Files tm_r) = Some ?fe" by (simp add: tm_r_def)
  have fin: "file_in \<lparr>vf_tm = tm_r, vf_file = ?fe\<rparr> content0 2 two_pieces"
    by (simp add: file_in_def tm_r_def two_pieces_def content0_def)
  have fb: "file_bytes \<lparr>vf_tm = tm_r, vf_file = ?fe\<rparr> two_pieces = [2, 3]"
    by (simp add: file_bytes_def slice_def two_pieces_def)
  have n: "nat (Offset ?fe) mod 2 = 1" "nat (Size ?fe) = 2" "0 < Size ?fe" "PieceHashes tm_r = [''p0'', ''p1'']"
    by (simp_all add: tm_r_def)
  from resolve_covers [OF sp ne bn fd fin n(3)] show ?thesis unfolding fb n(1,2,4) by blast
qed

text \<open>
  An empty file at the start of the stream has no pieces, but \<open>(0 + 0 - 1) / PieceLen\<close> truncates to 0: the
  code fetches the torrent's first piece, which belongs to another file, and panics when there is none.
\<close>

lemma resolve_empty_file:
  assumes "Size fe = 0" and "Offset fe = 0" and "1 < PieceLen tm"
  shows "file_hashes tm fe w = (case PieceHashes tm of
     [] \<Rightarrow> (Panicked (PRuntime ''index out of range''), w) | h # _ \<Rightarrow> (Ret [h], w))"
proof -
  have "wrap64 (wrap64 0 - 1) = - 1" "wrap64 (wrap64 0 + 1) = 1" by (simp_all add: wrap64_def)
  moreover have "0 sdiv PieceLen tm = 0" "(- 1) sdiv PieceLen tm = 0"
    using assms(3) by (simp_all add: signed_divide_int_def sgn_if)
  ultimately show ?thesis
    using assms by (cases "PieceHashes tm") (simp_all add: file_hashes_def Let_def go_index_def bindM_def ret_run panic_run)
qed

section \<open>Counting\<close>

definition g2_reset :: "Config \<Rightarrow> ('s, 'z) g2world_scheme \<Rightarrow> ('s, 'z) g2world_scheme" where
  "g2_reset cfg w = w\<lparr>rw_cache := newLRU 1, m_byName := Map.empty, m_byHash := Map.empty\<rparr>"

lemma wrap64_add: "wrap64 (wrap64 a + b) = wrap64 (a + b)"
proof -
  have "((a + 2 ^ 63) mod 2 ^ 64 - 2 ^ 63 + b + 2 ^ 63) mod 2 ^ 64 = (((a + 2 ^ 63) mod 2 ^ 64) + b) mod (2 ^ 64 :: int)"
    by (simp add: algebra_simps)
  also have "\<dots> = (a + b + 2 ^ 63) mod 2 ^ 64"
    unfolding mod_add_left_eq by (simp add: algebra_simps)
  finally show ?thesis by (simp add: wrap64_def)
qed

lemma get2_one_run:
  assumes "s3_laws cli objs"
  shows "\<exists>w'. get2_one cfg cli h w = (Ret (), w') \<and> objs (w_s3 w') = objs (w_s3 w)
    \<and> g2_inFlight w' = g2_inFlight w \<and> g2_ops w' + g2_errs w' = g2_ops w + g2_errs w + 1
    \<and> (s3_up cli objs up \<and> up (w_s3 w) \<longrightarrow> up (w_s3 w') \<and> (\<forall>d. objs (w_s3 w) (S3Bucket cfg) (KeyPiece cfg h) = Some d \<longrightarrow>
         g2_errs w' = g2_errs w \<and> g2_bytes w' = wrap64 (g2_bytes w + int (length d))))"
proof -
  obtain r s' where g: "GetObject cli (S3Bucket cfg) (KeyPiece cfg h) (w_s3 w) = (r, s')" by fastforce
  have same: "objs s' = objs (w_s3 w)" using assms g unfolding s3_laws_def get_law_def by metis
  have "up s'" if "s3_up cli objs up" "up (w_s3 w)" using s3_upD(3) [OF that, of "S3Bucket cfg" "KeyPiece cfg h"] g by simp
  moreover have "r = Inr (d, None)"
    if "s3_up cli objs up" "up (w_s3 w)" "objs (w_s3 w) (S3Bucket cfg) (KeyPiece cfg h) = Some d" for d
    using s3_upD(4) [OF that] g by simp
  ultimately show ?thesis
    using g same
    by (auto simp: get2_one_def get2Fetch_def bindM_def call_def modifyM_run ret_run split: sum.split option.split)
      (metis option.exhaust)+
qed

lemma get2_all_run:
  assumes "s3_laws cli objs"
  shows "\<exists>w'. forM hs (get2_one cfg cli) w = (Ret (), w') \<and> objs (w_s3 w') = objs (w_s3 w)
    \<and> g2_inFlight w' = g2_inFlight w \<and> g2_ops w' + g2_errs w' = g2_ops w + g2_errs w + int (length hs)
    \<and> (s3_up cli objs up \<and> up (w_s3 w) \<and> (\<forall>h\<in>set hs. objs (w_s3 w) (S3Bucket cfg) (KeyPiece cfg h) \<noteq> None) \<longrightarrow>
         g2_errs w' = g2_errs w \<and> wrap64 (g2_bytes w') =
           wrap64 (g2_bytes w + (\<Sum>h\<leftarrow>hs. int (length (the (objs (w_s3 w) (S3Bucket cfg) (KeyPiece cfg h)))))))"
proof (induction hs arbitrary: w)
  case Nil
  then show ?case by (simp add: ret_run)
next
  case (Cons h hs)
  from get2_one_run [OF assms, of cfg h w up] obtain w1 where
    w1: "get2_one cfg cli h w = (Ret (), w1)" "objs (w_s3 w1) = objs (w_s3 w)" "g2_inFlight w1 = g2_inFlight w"
      "g2_ops w1 + g2_errs w1 = g2_ops w + g2_errs w + 1"
    and u1: "s3_up cli objs up \<and> up (w_s3 w) \<Longrightarrow> up (w_s3 w1)"
      "s3_up cli objs up \<and> up (w_s3 w) \<Longrightarrow> objs (w_s3 w) (S3Bucket cfg) (KeyPiece cfg h) = Some d \<Longrightarrow>
         g2_errs w1 = g2_errs w \<and> g2_bytes w1 = wrap64 (g2_bytes w + int (length d))" for d by blast
  from Cons.IH [of w1] obtain w2 where
    w2: "forM hs (get2_one cfg cli) w1 = (Ret (), w2)" "objs (w_s3 w2) = objs (w_s3 w)" "g2_inFlight w2 = g2_inFlight w"
      "g2_ops w2 + g2_errs w2 = g2_ops w1 + g2_errs w1 + int (length hs)"
    and u2: "s3_up cli objs up \<and> up (w_s3 w1) \<and> (\<forall>h\<in>set hs. objs (w_s3 w) (S3Bucket cfg) (KeyPiece cfg h) \<noteq> None) \<Longrightarrow>
         g2_errs w2 = g2_errs w1 \<and> wrap64 (g2_bytes w2) =
           wrap64 (g2_bytes w1 + (\<Sum>h\<leftarrow>hs. int (length (the (objs (w_s3 w) (S3Bucket cfg) (KeyPiece cfg h))))))"
    unfolding w1(2,3) by blast
  have "forM (h # hs) (get2_one cfg cli) w = (Ret (), w2)" using w1(1) w2(1) by (simp add: bindM_def)
  moreover have "g2_ops w2 + g2_errs w2 = g2_ops w + g2_errs w + int (length (h # hs))" using w1(4) w2(4) by simp
  moreover have "g2_errs w2 = g2_errs w \<and> wrap64 (g2_bytes w2) =
       wrap64 (g2_bytes w + (\<Sum>h\<leftarrow>h # hs. int (length (the (objs (w_s3 w) (S3Bucket cfg) (KeyPiece cfg h))))))"
    if p: "s3_up cli objs up \<and> up (w_s3 w) \<and> (\<forall>x\<in>set (h # hs). objs (w_s3 w) (S3Bucket cfg) (KeyPiece cfg x) \<noteq> None)"
  proof -
    from p obtain d where d: "objs (w_s3 w) (S3Bucket cfg) (KeyPiece cfg h) = Some d" by auto
    have "g2_errs w1 = g2_errs w \<and> g2_bytes w1 = wrap64 (g2_bytes w + int (length d))" using u1(2) p d by blast
    moreover have "s3_up cli objs up \<and> up (w_s3 w1) \<and> (\<forall>h\<in>set hs. objs (w_s3 w) (S3Bucket cfg) (KeyPiece cfg h) \<noteq> None)"
      using u1(1) p by simp
    ultimately show ?thesis using u2 d by (simp add: wrap64_add add.assoc)
  qed
  ultimately show ?case using w2(2,3) by blast
qed

text \<open>
  \<^verbatim>\<open>get2\<close> fetches every resolved piece exactly once and accounts for each. When it returns, in
  whatever order the queue was shuffled and served and whatever failed: every piece counts as an
  operation or as an error, nothing is in flight, and the bucket is as before; with the service up and
  the pieces stored nothing failed, and the bytes are those of the pieces.
\<close>

theorem get2_counts:
  assumes laws: "s3_laws cli objs" and perms: "sched_law shuffle" "sched_law sched" and ws: "0 < g2_parallel opts"
    and rl: "Reload cfg cli lib order (g2_reset cfg w) = (Ret (), w1)"
    and hs: "resolveHashes (g2_target opts) w1 = (Ret hs, w1)"
  shows "\<exists>w'. runGet2 cfg cli lib order shuffle sched opts w = (Ret (), w') \<and> objs (w_s3 w') = objs (w_s3 w1)
    \<and> g2_ops w' + g2_errs w' = int (length hs) \<and> g2_inFlight w' = 0
    \<and> (s3_up cli objs up \<and> up (w_s3 w1) \<and> (\<forall>h\<in>set hs. objs (w_s3 w1) (S3Bucket cfg) (KeyPiece cfg h) \<noteq> None) \<longrightarrow>
         g2_errs w' = 0 \<and> wrap64 (g2_bytes w') =
           wrap64 (\<Sum>h\<leftarrow>hs. int (length (the (objs (w_s3 w1) (S3Bucket cfg) (KeyPiece cfg h))))))"
proof -
  define q where "q = sched (if g2_shuffle opts then shuffle hs else hs)"
  let ?w = "w1\<lparr>g2_ops := 0, g2_bytes := 0, g2_inFlight := 0, g2_errs := 0\<rparr>"
  have mq: "mset q = mset hs" using perms by (auto simp: q_def sched_law_def)
  then have lq: "length q = length hs" "set q = set hs" by (metis size_mset) (metis mq mset_eq_setD)
  have sum: "(\<Sum>h\<leftarrow>q. f h) = (\<Sum>h\<leftarrow>hs. f h)" for f :: "string \<Rightarrow> int"
    using arg_cong [OF mq, of "\<lambda>m. \<Sum>x\<in>#image_mset f m. x"] by (simp flip: sum_mset_sum_list)
  have "runGet2 cfg cli lib order shuffle sched opts w = forM q (get2_one cfg cli) ?w"
    using rl [unfolded g2_reset_def] hs ws by (simp add: runGet2_def bindM_def modifyM_run Let_def get2_workers_def q_def)
  moreover from get2_all_run [OF laws, of q cfg ?w up] obtain w' where
    "forM q (get2_one cfg cli) ?w = (Ret (), w')" "objs (w_s3 w') = objs (w_s3 w1)" "g2_inFlight w' = 0"
    "g2_ops w' + g2_errs w' = int (length hs)"
    "s3_up cli objs up \<and> up (w_s3 w1) \<and> (\<forall>h\<in>set hs. objs (w_s3 w1) (S3Bucket cfg) (KeyPiece cfg h) \<noteq> None) \<longrightarrow>
      g2_errs w' = 0 \<and> wrap64 (g2_bytes w') =
        wrap64 (\<Sum>h\<leftarrow>hs. int (length (the (objs (w_s3 w1) (S3Bucket cfg) (KeyPiece cfg h)))))"
    by (auto simp: lq sum)
  ultimately show ?thesis by auto
qed

text \<open>The two pieces of the torrent that the witness of \<open>get\<close> copies, shuffled and served in reverse.\<close>

definition get2_g :: "mem g2world" where
  "get2_g = \<lparr>w_s3 = w_s3 get_g, w_puts = 0, rw_cache = newLRU 1, rw_spawned = [], m_byName = Map.empty, m_byHash = Map.empty,
     g2_ops = 0, g2_bytes = 0, g2_inFlight = 0, g2_errs = 0\<rparr>"

definition opts_g2 :: get2Opts where
  "opts_g2 = \<lparr>g2_target = ''a'', g2_parallel = 2, g2_shuffle = True\<rparr>"

theorem get2_counts_witness:
  "\<exists>w'. runGet2 cfg_g mem_s3 lib0 order0 (\<lambda>xs. xs) rev opts_g2 get2_g = (Ret (), w')
    \<and> g2_ops w' + g2_errs w' = 2 \<and> g2_inFlight w' = 0 \<and> g2_errs w' = 0 \<and> wrap64 (g2_bytes w') = 3"
proof -
  let ?w = "g2_reset cfg_g get2_g"
  have w: "w_s3 ?w = w_s3 get_g" "m_byName ?w = Map.empty" "m_byHash ?w = Map.empty"
    by (simp_all add: g2_reset_def get2_g_def)
  obtain w1 tm where rl: "Reload cfg_g mem_s3 lib0 order0 ?w = (Ret (), w1)" and tm: "same_torrent lib0 info_g ''h'' tm"
    and bn: "m_byName w1 ''a'' = Some tm"
    and so: "sourced cfg_g mem_view lib0 (mem_view (w_s3 get_g) (S3Bucket cfg_g)) (rw_cache ?w) w1" and up: "mem_up (w_s3 w1)"
    by (rule Reload_finds [OF mem_laws mem_is_up bucket_g(6) [folded w(1)] order0_law refl w(2,3), unfolded w(1),
          OF bucket_g(1-4), unfolded bucket_g(5)])
  have ps: "PieceHashes tm = [hash_g 1, hash_g 2]" using same_torrent_fields(4) [OF tm] hashes_g by simp
  have sp: "splitPath (''/'' @ ''a'') = (''a'', '''')" by code_simp
  have hs: "resolveHashes (g2_target opts_g2) w1 = (Ret [hash_g 1, hash_g 2], w1)"
    using sp bn ps by (simp add: resolveHashes_def opts_g2_def ByName_def ret_run)
  have ob: "mem_view (w_s3 w1) (S3Bucket cfg_g) = mem_view (w_s3 get_g) ''b''"
    using so by (simp add: sourced_def from_bucket_def)
  have st: "\<forall>h\<in>set [hash_g 1, hash_g 2]. mem_view (w_s3 w1) (S3Bucket cfg_g) (KeyPiece cfg_g h) \<noteq> None"
    "(\<Sum>h\<leftarrow>[hash_g 1, hash_g 2]. int (length (the (mem_view (w_s3 w1) (S3Bucket cfg_g) (KeyPiece cfg_g h))))) = 3"
    unfolding ob by (simp_all add: view_g KeyPiece_def hash_g_neq [symmetric])
  have wk: "0 < g2_parallel opts_g2" by (simp add: opts_g2_def)
  from get2_counts [OF mem_laws sched_law_id sched_law_rev wk rl hs, of mem_up] mem_is_up up st
  show ?thesis by (auto simp: wrap64_def)
qed

end
