(* ===== verification/GoText.thy ===== *)
theory GoText
  imports GoStd
begin

text \<open>
  \<open>TrimSpace\<close> of Go's \<^verbatim>\<open>strings\<close> and \<^verbatim>\<open>bytes\<close>, which cut the Unicode white space
  off both ends of a UTF-8 text, and \<open>subtle.ConstantTimeCompare\<close>. A text is a list of byte values here.
\<close>

section \<open>TrimSpace\<close>

text \<open>The encodings of the runes of \<open>unicode.IsSpace\<close>.\<close>

definition space_runes :: "int list list" where
  "space_runes =
     [[9], [10], [11], [12], [13], [32], [0xC2, 0x85], [0xC2, 0xA0], [0xE1, 0x9A, 0x80]]
     @ map (\<lambda>b. [0xE2, 0x80, b]) ([0x80..0x8A] @ [0xA8, 0xA9, 0xAF])
     @ [[0xE2, 0x81, 0x9F], [0xE3, 0x80, 0x80]]"

definition lead_space :: "int list list \<Rightarrow> int list \<Rightarrow> int list option" where
  "lead_space runes s = List.find (\<lambda>r. take (length r) s = r) runes"

lemma lead_space_shorter: "lead_space runes s = Some r \<Longrightarrow> [] \<notin> set runes \<Longrightarrow> 0 < length r \<and> length r \<le> length s"
proof -
  assume f: "lead_space runes s = Some r" and "[] \<notin> set runes"
  have "r \<in> set runes \<and> take (length r) s = r"
    using f unfolding lead_space_def by (induction runes) (auto split: if_splits)
  with \<open>[] \<notin> set runes\<close> show ?thesis by (metis length_greater_0_conv length_take min.bounded_iff order_refl)
qed

function trim_lead :: "int list list \<Rightarrow> int list \<Rightarrow> int list" where
  "trim_lead runes s = (case lead_space runes s of
     None \<Rightarrow> s
   | Some r \<Rightarrow> if [] \<in> set runes then s else trim_lead runes (drop (length r) s))"
  by pat_completeness auto
termination
proof (relation "measure (\<lambda>(runes, s). length s)", goal_cases)
  case (2 runes s r)
  with lead_space_shorter [of runes s r] show ?case by (auto simp del: length_greater_0_conv)
qed simp

declare trim_lead.simps [simp del]

definition TrimSpace :: "int list \<Rightarrow> int list" where
  "TrimSpace s = rev (trim_lead (map rev space_runes) (rev (trim_lead space_runes s)))"

definition codes :: "string \<Rightarrow> int list" where
  "codes s = map of_char s"

definition strings_TrimSpace :: "string \<Rightarrow> string" where
  "strings_TrimSpace s = map char_of (TrimSpace (codes s))"

definition bytes_TrimSpace :: "bytes \<Rightarrow> bytes" where
  "bytes_TrimSpace s = map of_int (TrimSpace (map uint s))"

text \<open>A Go string as a byte slice.\<close>

definition bytes_of :: "string \<Rightarrow> bytes" where
  "bytes_of s = map of_char s"

lemma of_char_8_inj: "(of_char c :: 8 word) = of_char d \<longleftrightarrow> c = d"
proof
  assume "(of_char c :: 8 word) = of_char d"
  then have "(of_nat (of_char c) :: 8 word) = of_nat (of_char d)" by (simp add: of_nat_of_char)
  then have "(of_char c :: nat) = of_char d" by (simp add: word_of_nat_eq_iff take_bit_eq_mod)
  then show "c = d" by simp
qed simp

lemma bytes_of_inj [simp]: "bytes_of s = bytes_of t \<longleftrightarrow> s = t"
  by (simp add: bytes_of_def inj_map_eq_map inj_def of_char_8_inj)

lemma length_bytes_of [simp]: "length (bytes_of s) = length s"
  by (simp add: bytes_of_def)

lemma trim_examples:
  "strings_TrimSpace '' 12 '' = ''12''" "strings_TrimSpace ''    '' = ''''" "strings_TrimSpace ''a b'' = ''a b''"
  "TrimSpace [0xE2, 0x80, 0x83, 49, 0xC2, 0xA0] = [49]"
  by code_simp+

section \<open>Comparing secrets\<close>

unbundle bit_operations_syntax

text \<open>\<open>subtle.ConstantTimeCompare\<close>: the disjunction of the differences of all bytes.\<close>

definition ConstantTimeCompare :: "bytes \<Rightarrow> bytes \<Rightarrow> int" where
  "ConstantTimeCompare x y =
     (if length x \<noteq> length y then 0
      else if fold (\<lambda>(a, b) v. v OR (a XOR b)) (zip x y) 0 = 0 then 1 else 0)"

lemma ConstantTimeCompare_1: "ConstantTimeCompare x y = 1 \<longleftrightarrow> x = y"
proof -
  have or0: "(v OR u = 0) = (v = 0 \<and> u = 0)" for u v :: byte
    by (rule or_eq_0_iff)
  have xor0: "(a XOR b = 0) = (a = b)" for a b :: byte
    by (auto simp: bit_eq_iff bit_xor_iff)
  have fold0: "(fold (\<lambda>(a, b) v. v OR (a XOR b)) ps v = 0) = (v = 0 \<and> (\<forall>(a, b)\<in>set ps. a = b))" for ps and v :: byte
    by (induction ps arbitrary: v) (auto simp: or0 xor0)
  have "length x = length y \<Longrightarrow> (\<forall>(a, b)\<in>set (zip x y). a = b) = (x = y)"
    by (induction x y rule: list_induct2) auto
  then show ?thesis by (auto simp: ConstantTimeCompare_def fold0)
qed

end
