(* ===== verification/Serve.thy ===== *)
theory Serve
  imports Get GoText Steps
begin

text \<open>
  \<^verbatim>\<open>samogon serve\<close> (\<^verbatim>\<open>serve.go\<close>): who may log in, which channels and subsystems a
  client gets, and the daemon as a sequence of events (reloads, requests, prefetching) on the state that all
  sessions share.

  The SSH library is a parameter: the file system it reads keys from, the two key parsers, and
  the outcome of the handshake. A public key is its wire form, the result of \<open>Marshal\<close>.
\<close>

section \<open>Keys and callbacks\<close>

type_synonym pubkey = bytes

record sshlib =
  ReadFile :: "string \<Rightarrow> goerr + bytes"
  ParsePrivateKey :: "bytes \<Rightarrow> goerr + bytes"
  ParseAuthorizedKey :: "bytes \<Rightarrow> goerr + pubkey \<times> bytes"

text \<open>
  The loop of \<open>loadAuthorizedKeys\<close>. \<open>None\<close> is a loop that does not end, which a parser that does not
  consume its input would cause.
\<close>

partial_function (option) auth_loop ::
  "sshlib \<Rightarrow> string \<Rightarrow> bytes \<Rightarrow> pubkey list \<Rightarrow> (exception + pubkey list) option" where
  "auth_loop lib path rest out =
     (if bytes_TrimSpace rest = [] then Some (Inr out)
      else (case ParseAuthorizedKey lib rest of
          Inl err \<Rightarrow> Some (Inl (Fmt ''parse %s: %v'' [AStr path, AErr err]))
        | Inr (key, next) \<Rightarrow> auth_loop lib path next (out @ [key])))"

definition loadAuthorizedKeys :: "sshlib \<Rightarrow> string \<Rightarrow> ('w, pubkey list) prog" where
  "loadAuthorizedKeys lib path =
     bindM (ThrowE (ReadFile lib path)) (\<lambda>data.
       case auth_loop lib path data [] of
         None \<Rightarrow> block
       | Some (Inl e) \<Rightarrow> throw e
       | Some (Inr out) \<Rightarrow>
           if out = [] then ThrowFmt ''authorized_keys %s is empty'' [AStr path] else ret out)"

definition loadHostKey :: "sshlib \<Rightarrow> string \<Rightarrow> ('w, bytes) prog" where
  "loadHostKey lib path =
     bindM (ThrowE (ReadFile lib path)) (\<lambda>data. ThrowE (ParsePrivateKey lib data))"

definition PasswordCallback :: "string \<Rightarrow> bytes \<Rightarrow> string \<Rightarrow> bytes \<Rightarrow> goerr option" where
  "PasswordCallback user pass u given =
     (if u \<noteq> user then Some (Errorf ''invalid user'' [])
      else if ConstantTimeCompare given pass \<noteq> 1 then Some (Errorf ''invalid password'' [])
      else None)"

fun PublicKeyCallback :: "pubkey list \<Rightarrow> pubkey \<Rightarrow> goerr option" where
  "PublicKeyCallback [] marshaled = Some (Errorf ''unauthorized key'' [])"
| "PublicKeyCallback (k # allowed) marshaled =
     (if k = marshaled then None else PublicKeyCallback allowed marshaled)"

record ServerConfig =
  sc_password :: "(string \<Rightarrow> bytes \<Rightarrow> goerr option) option"
  sc_pubkey :: "(pubkey \<Rightarrow> goerr option) option"
  sc_hostkeys :: "bytes list"

definition buildSSHConfig :: "sshlib \<Rightarrow> Config \<Rightarrow> ('w, ServerConfig) prog" where
  "buildSSHConfig lib cfg =
     (let scfg = \<lparr>sc_password = None, sc_pubkey = None, sc_hostkeys = []\<rparr>;
          scfg = (if User cfg \<noteq> '''' then
                    scfg\<lparr>sc_password := Some (PasswordCallback (User cfg) (bytes_of (Pass cfg)))\<rparr>
                  else scfg)
      in bindM (if AuthKeys cfg \<noteq> '''' then
                  bindM (loadAuthorizedKeys lib (AuthKeys cfg)) (\<lambda>allowed.
                    ret (scfg\<lparr>sc_pubkey := Some (PublicKeyCallback allowed)\<rparr>))
                else ret scfg) (\<lambda>scfg.
         bindM (loadHostKey lib (HostKey cfg)) (\<lambda>signer.
           ret (scfg\<lparr>sc_hostkeys := sc_hostkeys scfg @ [signer]\<rparr>))))"

text \<open>
  What the library asks the configuration: a method without a callback is not offered, and an attempt
  succeeds when its callback returns no error.
\<close>

datatype credential = Password bytes | PublicKey pubkey

fun admits :: "ServerConfig \<Rightarrow> string \<Rightarrow> credential \<Rightarrow> bool" where
  "admits scfg user (Password given) =
     (case sc_password scfg of Some cb \<Rightarrow> cb user given = None | None \<Rightarrow> False)"
| "admits scfg user (PublicKey key) =
     (case sc_pubkey scfg of Some cb \<Rightarrow> cb key = None | None \<Rightarrow> False)"

section \<open>A session\<close>

definition isSftpPayload :: "bytes \<Rightarrow> bool" where
  "isSftpPayload p = (if length p < 4 then False else drop 4 p = bytes_of ''sftp'')"

text \<open>A request of the client: its type and its payload. \<open>ok\<close> of the request loop.\<close>

type_synonym request = "string \<times> bytes"

definition req_ok :: "request \<Rightarrow> bool" where
  "req_ok r \<longleftrightarrow> fst r = ''subsystem'' \<and> isSftpPayload (snd r)"

text \<open>
  \<open>handleSession\<close> runs two goroutines that share the channel \<open>accepted\<close>, which holds one value. The request loop
  replies to each request in turn and after a positive reply sends on \<open>accepted\<close>, where it waits while the channel is full;
  after the last request it closes the channel. The main one waits for a value or the close.
\<close>

datatype phase = Waiting | Serving | Returned

record sess =
  ss_todo :: "request list"
  ss_sending :: bool
  ss_replies :: "bool list"
  ss_full :: bool
  ss_closed :: bool
  ss_main :: phase

definition sess0 :: "request list \<Rightarrow> sess" where
  "sess0 reqs = \<lparr>ss_todo = reqs, ss_sending = False, ss_replies = [], ss_full = False, ss_closed = False, ss_main = Waiting\<rparr>"

inductive sess_step :: "sess \<Rightarrow> sess \<Rightarrow> bool" where
  reply: "\<not> ss_sending s \<Longrightarrow> ss_todo s = r # rs \<Longrightarrow>
    sess_step s (s\<lparr>ss_todo := rs, ss_replies := ss_replies s @ [req_ok r], ss_sending := req_ok r\<rparr>)"
| send: "ss_sending s \<Longrightarrow> \<not> ss_full s \<Longrightarrow> sess_step s (s\<lparr>ss_sending := False, ss_full := True\<rparr>)"
| finish: "\<not> ss_sending s \<Longrightarrow> ss_todo s = [] \<Longrightarrow> \<not> ss_closed s \<Longrightarrow> sess_step s (s\<lparr>ss_closed := True\<rparr>)"
| accept: "ss_main s = Waiting \<Longrightarrow> ss_full s \<Longrightarrow> sess_step s (s\<lparr>ss_full := False, ss_main := Serving\<rparr>)"
| refuse: "ss_main s = Waiting \<Longrightarrow> \<not> ss_full s \<Longrightarrow> ss_closed s \<Longrightarrow> sess_step s (s\<lparr>ss_main := Returned\<rparr>)"

inductive_cases sess_stepE: "sess_step s s'"

abbreviation sess_run :: "sess \<Rightarrow> sess \<Rightarrow> bool" where
  "sess_run \<equiv> sess_step\<^sup>*\<^sup>*"

text \<open>A session starts once the library has accepted its channel.\<close>

definition handleSession :: "goerr option \<Rightarrow> request list \<Rightarrow> ('w, sess) prog" where
  "handleSession accepted reqs = (case accepted of
       Some err \<Rightarrow> ThrowFmt ''accept channel: %v'' [AErr err]
     | None \<Rightarrow> ret (sess0 reqs))"

section \<open>Connections\<close>

text \<open>
  \<open>handleConn\<close>: the outcome of the handshake, and the channels the client opens, each with its type, the outcome of
  accepting it and its requests. A channel is rejected, or its goroutine ends with an exception that is
  logged, or a session runs.
\<close>

datatype channel = Rejected | Failed exception | Session sess

primrec handle_channels :: "(string \<times> goerr option \<times> request list) list \<Rightarrow> ('w, channel list) prog" where
  "handle_channels [] = ret []"
| "handle_channels (ch # chans) = (case ch of (ChannelType, accepted, reqs) \<Rightarrow>
     if ChannelType \<noteq> ''session'' then bindM (handle_channels chans) (\<lambda>r. ret (Rejected # r))
     else bindM (Try (handleSession accepted reqs)) (\<lambda>exc.
          bindM (handle_channels chans) (\<lambda>r. ret ((case exc of Inl e \<Rightarrow> Failed e | Inr s \<Rightarrow> Session s) # r))))"

definition handleConn ::
  "goerr option \<Rightarrow> (string \<times> goerr option \<times> request list) list \<Rightarrow> ('w, channel list) prog" where
  "handleConn handshake chans =
     (case handshake of
        Some err \<Rightarrow> ThrowFmt ''ssh handshake: %v'' [AErr err]
      | None \<Rightarrow> handle_channels chans)"

section \<open>The daemon\<close>

text \<open>One turn of \<open>metaReloader\<close>, and the initial load of \<open>runServe\<close>: errors are logged.\<close>

definition try_reload :: "Config \<Rightarrow> 's s3api \<Rightarrow> metalib \<Rightarrow> maporder \<Rightarrow> (('s, 'z) mworld_scheme, unit) prog" where
  "try_reload cfg cli lib order =
     bindM (Try (Reload cfg cli lib order)) (\<lambda>exc. Catch exc (\<lambda>_. ret ()))"

text \<open>\<open>metaReloader\<close> for the first \<open>n\<close> ticks; a period that is not positive makes \<open>NewTicker\<close> panic.\<close>

definition metaReloader :: "Config \<Rightarrow> 's s3api \<Rightarrow> metalib \<Rightarrow> maporder \<Rightarrow> nat \<Rightarrow> (('s, 'z) mworld_scheme, unit) prog" where
  "metaReloader cfg cli lib order n = uncaught (
     if wrap64 (ReloadSecs cfg * 1000000000) \<le> 0 then panic (PForeign ''non-positive interval for NewTicker'')
     else forM (replicate n ()) (\<lambda>_. try_reload cfg cli lib order))"

text \<open>
  What happens to a daemon that is up: the result of an \<open>Accept\<close>, a tick of the reloader, the requests of any session, a prefetch goroutine, and a change
  of the bucket by another process. A request's answer goes to its client; here its effect on the shared state counts.
\<close>

datatype 's event =
    Accept "goerr option"
  | Tick
  | GetReq string
  | ListReq string string
  | PutReq string
  | CmdReq string
  | ReadReq virtualFile nat int
  | Prefetched string
  | Outside 's

fun serve_event ::
  "(panicval \<Rightarrow> panicval) \<Rightarrow> Config \<Rightarrow> 's s3api \<Rightarrow> metalib \<Rightarrow> maporder \<Rightarrow> sorter \<Rightarrow> 's event
    \<Rightarrow> (('s, 'z) mworld_scheme, unit) prog" where
  "serve_event sf cfg cli lib order srt (Accept err) = Throw err"
| "serve_event sf cfg cli lib order srt Tick = try_reload cfg cli lib order"
| "serve_event sf cfg cli lib order srt (GetReq p) = bindM (Fileread p) (\<lambda>_. ret ())"
| "serve_event sf cfg cli lib order srt (ListReq mthd p) = bindM (Filelist order srt mthd p) (\<lambda>_. ret ())"
| "serve_event sf cfg cli lib order srt (PutReq p) = bindM (Filewrite p) (\<lambda>_. ret ())"
| "serve_event sf cfg cli lib order srt (CmdReq p) = bindM (Filecmd p) (\<lambda>_. ret ())"
| "serve_event sf cfg cli lib order srt (ReadReq v plen off) = bindM (ReadAt sf cfg cli v plen off) (\<lambda>_. ret ())"
| "serve_event sf cfg cli lib order srt (Prefetched h) = prefetch sf cfg cli h"
| "serve_event sf cfg cli lib order srt (Outside s) = modifyM (\<lambda>w. w\<lparr>w_s3 := s\<rparr>)"

text \<open>
  \<open>runServe\<close>: the initial load, the reloader's ticker, the SSH configuration, the listener; then the
  events, which include the ticks.
\<close>

definition runServe ::
  "(panicval \<Rightarrow> panicval) \<Rightarrow> Config \<Rightarrow> 's s3api \<Rightarrow> metalib \<Rightarrow> maporder \<Rightarrow> sorter \<Rightarrow> sshlib \<Rightarrow> goerr option
    \<Rightarrow> 's event list \<Rightarrow> (('s, 'z) mworld_scheme, ServerConfig) prog" where
  "runServe sf cfg cli lib order srt ssh listen events =
     bindM (modifyM (\<lambda>w. w\<lparr>rw_cache := newLRU (LRUSize cfg), rw_spawned := [], m_byName := Map.empty, m_byHash := Map.empty\<rparr>)) (\<lambda>_.
     bindM (try_reload cfg cli lib order) (\<lambda>_.
     bindM (metaReloader cfg cli lib order 0) (\<lambda>_.
     bindM (buildSSHConfig ssh cfg) (\<lambda>sshCfg.
     bindM (Throw listen) (\<lambda>_.
     bindM (forM events (serve_event sf cfg cli lib order srt)) (\<lambda>_. ret sshCfg))))))"

section \<open>Sessions: who is served, and what is answered\<close>

text \<open>The requests up to the \<open>k + 1\<close>-st accepted one.\<close>

fun answered :: "nat \<Rightarrow> request list \<Rightarrow> request list" where
  "answered k [] = []"
| "answered k (r # rs) =
     (if req_ok r then (if k = 0 then [r] else r # answered (k - 1) rs) else r # answered k rs)"

definition oks :: "request list \<Rightarrow> nat" where
  "oks rs = length (filter req_ok rs)"

lemma answered_all: "oks rs \<le> k \<Longrightarrow> answered k rs = rs"
  by (induction k rs rule: answered.induct) (auto simp: oks_def)

lemma answered_stop: "oks pre = k + 1 \<Longrightarrow> pre \<noteq> [] \<Longrightarrow> req_ok (last pre) \<Longrightarrow> answered k (pre @ rest) = pre"
proof (induction k pre rule: answered.induct)
  case (2 k r rs)
  show ?case
  proof (cases "rs = []")
    case True
    with 2 show ?thesis by (simp add: oks_def)
  next
    case False
    show ?thesis
    proof (cases "req_ok r")
      case True
      have "last rs \<in> set rs" using False by simp
      with 2(5) False have "filter req_ok rs \<noteq> []" by (auto simp: filter_empty_conv)
      with 2(3) True have k: "k \<noteq> 0" by (cases k) (auto simp: oks_def)
      with 2 True False show ?thesis by (simp add: oks_def)
    next
      case no: False
      with 2 False show ?thesis by (simp add: oks_def)
    qed
  qed
qed simp

text \<open>What every step keeps: each accepted request so far is being sent, in the channel, or taken by the main goroutine.\<close>

definition sess_inv :: "request list \<Rightarrow> sess \<Rightarrow> bool" where
  "sess_inv reqs s \<longleftrightarrow> (\<exists>pre. reqs = pre @ ss_todo s \<and> ss_replies s = map req_ok pre
     \<and> oks pre = of_bool (ss_sending s) + of_bool (ss_full s) + of_bool (ss_main s = Serving)
     \<and> (ss_sending s \<longrightarrow> pre \<noteq> [] \<and> req_ok (last pre))
     \<and> (ss_closed s \<longrightarrow> ss_todo s = [] \<and> \<not> ss_sending s)
     \<and> (ss_main s = Returned \<longrightarrow> ss_closed s \<and> \<not> ss_full s))"

lemma sess_inv_step: "sess_step s s' \<Longrightarrow> sess_inv reqs s \<Longrightarrow> sess_inv reqs s'"
proof (induction rule: sess_step.induct)
  case (reply s r rs)
  then obtain pre where pre: "reqs = pre @ ss_todo s" "ss_replies s = map req_ok pre"
     "oks pre = of_bool (ss_sending s) + of_bool (ss_full s) + of_bool (ss_main s = Serving)"
     "ss_closed s \<longrightarrow> ss_todo s = [] \<and> \<not> ss_sending s" "ss_main s = Returned \<longrightarrow> ss_closed s \<and> \<not> ss_full s"
    by (auto simp: sess_inv_def)
  with reply show ?case
    unfolding sess_inv_def by (intro exI [of _ "pre @ [r]"]) (auto simp: oks_def)
qed (auto simp: sess_inv_def)

text \<open>Where a session has no step left: the request loop waits for ever on the full channel, or it is over.\<close>

definition sess_over :: "sess \<Rightarrow> bool" where
  "sess_over s \<longleftrightarrow> (ss_sending s \<and> ss_full s \<and> ss_main s = Serving) \<or>
    (\<not> ss_sending s \<and> ss_todo s = [] \<and> ss_closed s \<and> (ss_main s = Serving \<or> ss_main s = Returned))"

lemma sess_stuck:
  assumes "sess_inv reqs s" and "\<nexists>s'. sess_step s s'"
  shows "sess_over s"
proof (cases "ss_sending s")
  case True
  with assms(2) send have "ss_full s" by blast
  moreover from this assms(2) accept have "ss_main s \<noteq> Waiting" by blast
  moreover have "ss_main s \<noteq> Returned" using \<open>ss_full s\<close> assms(1) by (auto simp: sess_inv_def)
  ultimately show ?thesis using True by (cases "ss_main s") (auto simp: sess_over_def)
next
  case False
  with assms(2) reply have "ss_todo s = []" by (cases "ss_todo s") blast+
  moreover from this False assms(2) finish have c: "ss_closed s" by blast
  moreover from c assms(2) accept refuse have "ss_main s \<noteq> Waiting" by blast
  ultimately show ?thesis using False by (cases "ss_main s") (auto simp: sess_over_def)
qed

definition sess_size :: "sess \<Rightarrow> nat" where
  "sess_size s = 4 * length (ss_todo s) + 3 * of_bool (ss_sending s) + 2 * of_bool (ss_full s)
     + of_bool (\<not> ss_closed s) + of_bool (ss_main s = Waiting)"

lemma sess_size_step: "sess_step s s' \<Longrightarrow> sess_size s' < sess_size s"
  by (induction rule: sess_step.induct) (auto simp: sess_size_def)

interpretation session: runs_to_goal sess_step "sess_inv reqs" sess_size sess_over for reqs
  by (unfold_locales, rule sess_inv_step, assumption+, erule sess_size_step, rule sess_stuck)

lemma sess_inv_run: "sess_run (sess0 reqs) s \<Longrightarrow> sess_inv reqs s"
  by (erule session.inv_run) (simp add: sess_inv_def sess0_def oks_def)


text \<open>
  C27: a session is served exactly when the client asks for SFTP. In every interleaving of the two goroutines:
  replies come in order and are positive exactly for a subsystem request with an SFTP payload; the
  handlers run only after such a request was answered, and a session that ends without them never
  had one. No run is infinite, and where no goroutine can go on, the session is served if any request was for SFTP and closed
  otherwise, and all requests up to the third such one have their reply; any later ones wait for ever, because
  the request loop is stuck on a channel that nobody reads again.
\<close>

theorem session_gate:
  assumes "sess_run (sess0 reqs) s"
  shows "ss_replies s = map req_ok (take (length (ss_replies s)) reqs)
    \<and> (ss_main s = Serving \<longrightarrow> True \<in> set (ss_replies s))
    \<and> (ss_main s = Returned \<longrightarrow> (\<forall>r\<in>set reqs. \<not> req_ok r))
    \<and> ((\<nexists>s'. sess_step s s') \<longrightarrow>
        ss_main s = (if \<exists>r\<in>set reqs. req_ok r then Serving else Returned)
        \<and> ss_replies s = map req_ok (answered 2 reqs))
    \<and> wfp (\<lambda>s' s. sess_step s s')"
proof -
  note inv = sess_inv_run [OF assms]
  then obtain pre where pre: "reqs = pre @ ss_todo s" "ss_replies s = map req_ok pre"
     "oks pre = of_bool (ss_sending s) + of_bool (ss_full s) + of_bool (ss_main s = Serving)"
     "ss_sending s \<longrightarrow> pre \<noteq> [] \<and> req_ok (last pre)" "ss_closed s \<longrightarrow> ss_todo s = [] \<and> \<not> ss_sending s"
     "ss_main s = Returned \<longrightarrow> ss_closed s \<and> \<not> ss_full s"
    by (auto simp: sess_inv_def)
  have ex: "(\<exists>r\<in>set pre. req_ok r) \<longleftrightarrow> 0 < oks pre" by (auto simp: oks_def filter_empty_conv)
  have s1: "ss_main s = Serving \<longrightarrow> (\<exists>r\<in>set pre. req_ok r)" using pre(3) by (simp add: ex)
  have s2: "ss_main s = Returned \<longrightarrow> (\<forall>r\<in>set reqs. \<not> req_ok r)" using pre(1,3,5,6) ex by auto
  have s3: "ss_main s = (if \<exists>r\<in>set reqs. req_ok r then Serving else Returned) \<and> ss_replies s = map req_ok (answered 2 reqs)"
    if stuck: "\<nexists>s'. sess_step s s'"
  proof -
    from sess_stuck [OF inv stuck] show ?thesis unfolding sess_over_def
    proof
      assume f: "ss_sending s \<and> ss_full s \<and> ss_main s = Serving"
      with pre have "answered 2 reqs = pre" by (simp add: answered_stop)
      with f pre s1 show ?thesis by auto
    next
      assume f: "\<not> ss_sending s \<and> ss_todo s = [] \<and> ss_closed s \<and> (ss_main s = Serving \<or> ss_main s = Returned)"
      with pre(1,3) have "answered 2 reqs = reqs" by (intro answered_all) auto
      with f pre s1 s2 show ?thesis by auto
    qed
  qed
  note c = session.steps_wf
  have a: "ss_replies s = map req_ok (take (length (ss_replies s)) reqs)" by (simp add: pre(1,2))
  have b: "ss_main s = Serving \<longrightarrow> True \<in> set (ss_replies s)" using s1 by (auto simp: pre(2) image_iff)
  show ?thesis
    by (rule conjI [OF a conjI [OF b conjI [OF s2 conjI [OF _ c]]]]) (rule impI, erule s3)
qed

text \<open>A client that asks for a shell, then for SFTP: both are answered and the session is served.\<close>

definition reqs0 :: "request list" where
  "reqs0 = [(''shell'', []), (''subsystem'', [0, 0, 0, 4] @ bytes_of ''sftp'')]"

theorem session_gate_witness:
  "\<exists>s. sess_run (sess0 reqs0) s \<and> ss_main s = Serving \<and> ss_replies s = [False, True] \<and> True \<in> set (ss_replies s)"
proof -
  have ok: "req_ok (''shell'', []) = False" "req_ok (''subsystem'', [0, 0, 0, 4] @ bytes_of ''sftp'') = True"
    by (simp_all add: req_ok_def isSftpPayload_def)
  let ?s1 = "(sess0 reqs0)\<lparr>ss_todo := tl reqs0, ss_replies := [False], ss_sending := False\<rparr>"
  let ?s2 = "?s1\<lparr>ss_todo := [], ss_replies := [False, True], ss_sending := True\<rparr>"
  let ?s3 = "?s2\<lparr>ss_sending := False, ss_full := True\<rparr>"
  let ?s4 = "?s3\<lparr>ss_full := False, ss_main := Serving\<rparr>"
  have "sess_step (sess0 reqs0) ?s1"
    using reply [of "sess0 reqs0" "(''shell'', [])" "tl reqs0"] ok by (simp add: sess0_def reqs0_def)
  moreover have "sess_step ?s1 ?s2"
    using reply [of ?s1 "(''subsystem'', [0, 0, 0, 4] @ bytes_of ''sftp'')" "[]"] ok by (simp add: sess0_def reqs0_def)
  moreover have "sess_step ?s2 ?s3" using send [of ?s2] by (simp add: sess0_def)
  moreover have "sess_step ?s3 ?s4" using accept [of ?s3] by (simp add: sess0_def)
  ultimately have run: "sess_run (sess0 reqs0) ?s4" by (meson rtranclp.rtrancl_into_rtrancl rtranclp.rtrancl_refl)
  have m: "ss_main ?s4 = Serving" "ss_replies ?s4 = [False, True]" by simp_all
  have "True \<in> set (ss_replies ?s4)" by (rule session_gate [OF run, THEN conjunct2, THEN conjunct1, THEN mp, OF m(1)])
  with run m show ?thesis by blast
qed

text \<open>The length word of the payload is not looked at.\<close>

lemma isSftpPayload_iff: "isSftpPayload p \<longleftrightarrow> (\<exists>n. length n = 4 \<and> p = n @ bytes_of ''sftp'')"
proof
  assume "isSftpPayload p"
  then have "4 \<le> length p" "drop 4 p = bytes_of ''sftp''" by (auto simp: isSftpPayload_def split: if_splits)
  then have "length (take 4 p) = 4 \<and> p = take 4 p @ bytes_of ''sftp''"
    using append_take_drop_id [of 4 p] by (simp del: append_take_drop_id)
  then show "\<exists>n. length n = 4 \<and> p = n @ bytes_of ''sftp''" by blast
qed (auto simp: isSftpPayload_def)

section \<open>Logging in\<close>

text \<open>What a file of authorized keys lists, by the parser's documented use.\<close>

inductive lists_keys :: "sshlib \<Rightarrow> bytes \<Rightarrow> pubkey list \<Rightarrow> bool" for lib where
  "bytes_TrimSpace rest = [] \<Longrightarrow> lists_keys lib rest []"
| "bytes_TrimSpace rest \<noteq> [] \<Longrightarrow> ParseAuthorizedKey lib rest = Inr (key, next) \<Longrightarrow> lists_keys lib next keys \<Longrightarrow>
    lists_keys lib rest (key # keys)"

text \<open>The parser returns the rest of its input behind the line it read.\<close>

definition parser_law :: "sshlib \<Rightarrow> bool" where
  "parser_law lib \<longleftrightarrow> (\<forall>rest key next. ParseAuthorizedKey lib rest = Inr (key, next) \<longrightarrow> length next < length rest)"

lemma auth_loop_lists:
  assumes "auth_loop lib path rest out = Some r"
  shows "\<forall>keys. r = Inr keys \<longrightarrow> (\<exists>ks. keys = out @ ks \<and> lists_keys lib rest ks)"
proof (rule auth_loop.raw_induct [OF _ assms], intro allI impI)
  fix loop :: "sshlib \<Rightarrow> string \<Rightarrow> bytes \<Rightarrow> pubkey list \<Rightarrow> (exception + pubkey list) option"
    and lib path rest out r keys
  assume IH: "\<And>path rest out b y. loop path rest out b = Some y \<Longrightarrow> \<forall>keys. y = Inr keys \<longrightarrow> (\<exists>ks. keys = b @ ks \<and> lists_keys path out ks)"
    and body: "(if bytes_TrimSpace rest = [] then Some (Inr out)
      else case ParseAuthorizedKey lib rest of
           Inl err \<Rightarrow> Some (Inl (Fmt ''parse %s: %v'' [AStr path, AErr err]))
         | Inr (key, next) \<Rightarrow> loop lib path next (out @ [key])) = Some r" and r: "r = Inr keys"
  show "\<exists>ks. keys = out @ ks \<and> lists_keys lib rest ks"
  proof (cases "bytes_TrimSpace rest = []")
    case True
    with body r lists_keys.intros(1) [OF True, of lib] show ?thesis by simp
  next
    case False
    then obtain key nxt where p: "ParseAuthorizedKey lib rest = Inr (key, nxt)" and l: "loop lib path nxt (out @ [key]) = Some r"
      using body r by (auto split: sum.splits)
    from IH [OF l] r obtain ks where "keys = (out @ [key]) @ ks" "lists_keys lib nxt ks" by blast
    with lists_keys.intros(2) [OF False p] show ?thesis by (intro exI [of _ "key # ks"]) simp
  qed
qed

lemma auth_loop_total:
  assumes "parser_law lib" shows "\<exists>r. auth_loop lib path rest out = Some r"
proof (induction "length rest" arbitrary: rest out rule: less_induct)
  case less
  show ?case
  proof (cases "bytes_TrimSpace rest = [] \<or> (\<exists>e. ParseAuthorizedKey lib rest = Inl e)")
    case True
    then show ?thesis by (subst auth_loop.simps) auto
  next
    case False
    then obtain key nxt where p: "ParseAuthorizedKey lib rest = Inr (key, nxt)" by (metis old.prod.exhaust sum.exhaust)
    with assms have "length nxt < length rest" unfolding parser_law_def by blast
    from less [OF this, of "out @ [key]"] False p show ?thesis by (subst auth_loop.simps) simp
  qed
qed

lemma loadAuthorizedKeys_Ret:
  assumes "loadAuthorizedKeys lib path w = (Ret keys, w')"
  shows "w' = w \<and> keys \<noteq> [] \<and> (\<exists>data. ReadFile lib path = Inr data \<and> lists_keys lib data keys)"
proof -
  from assms obtain data where d: "ReadFile lib path = Inr data"
    and l: "(case auth_loop lib path data [] of None \<Rightarrow> block | Some (Inl e) \<Rightarrow> throw e
       | Some (Inr out) \<Rightarrow> if out = [] then ThrowFmt ''authorized_keys %s is empty'' [AStr path] else ret out) w = (Ret keys, w')"
    by (auto simp: loadAuthorizedKeys_def parse_Ret)
  from l have "auth_loop lib path data [] = Some (Inr keys) \<and> keys \<noteq> [] \<and> w' = w"
    by (auto simp: block_run throw_run ret_run ThrowFmt_run split: option.splits sum.splits if_splits)
  with auth_loop_lists [of lib path data "[]" "Inr keys"] d show ?thesis by auto
qed

lemma PublicKeyCallback_iff: "PublicKeyCallback allowed k = None \<longleftrightarrow> k \<in> set allowed"
  by (induction allowed) auto

lemma loadAuthorizedKeys_ends:
  assumes "parser_law lib" shows "fst (loadAuthorizedKeys lib pth v) \<noteq> Blocked"
proof (cases "ReadFile lib pth")
  case (Inr data)
  obtain r where "auth_loop lib pth data [] = Some r" using auth_loop_total [OF assms] by blast
  with Inr show ?thesis by (cases r) (simp_all add: loadAuthorizedKeys_def bindM_def ThrowE_run throw_run ret_run ThrowFmt_run)
qed (simp add: loadAuthorizedKeys_def bindM_def ThrowE_run)

lemma buildSSHConfig_ends:
  fixes v :: 'w
  assumes "parser_law lib" shows "fst (buildSSHConfig lib cfg v) \<noteq> Blocked"
proof -
  have h: "loadHostKey lib pth v \<noteq> (Blocked, v')" for pth and v v' :: 'w
    by (cases "ReadFile lib pth"; cases "ParsePrivateKey lib (projr (ReadFile lib pth))")
      (simp_all add: loadHostKey_def bindM_def ThrowE_run)
  have k: "loadAuthorizedKeys lib pth v \<noteq> (Blocked, v')" for pth and v v' :: 'w
    using loadAuthorizedKeys_ends [OF assms, of pth v] by auto
  show ?thesis by (auto simp: buildSSHConfig_def Let_def bindM_def ret_run h k split: prod.splits outcome.splits)
qed

text \<open>What the callbacks of a configuration admit.\<close>

lemma buildSSHConfig_admits:
  assumes "buildSSHConfig lib cfg w = (Ret scfg, w')"
  shows "w' = w \<and> (\<exists>host. sc_hostkeys scfg = [host])
    \<and> (\<forall>u p. admits scfg u (Password p) \<longleftrightarrow> User cfg \<noteq> '''' \<and> u = User cfg \<and> p = bytes_of (Pass cfg))
    \<and> (AuthKeys cfg = '''' \<longrightarrow> (\<forall>u k. \<not> admits scfg u (PublicKey k)))
    \<and> (AuthKeys cfg \<noteq> '''' \<longrightarrow> (\<exists>data keys. ReadFile lib (AuthKeys cfg) = Inr data \<and> lists_keys lib data keys \<and> keys \<noteq> []
         \<and> (\<forall>u k. admits scfg u (PublicKey k) \<longleftrightarrow> k \<in> set keys)))"
proof -
  let ?base = "if User cfg \<noteq> '''' then \<lparr>sc_password = Some (PasswordCallback (User cfg) (bytes_of (Pass cfg))), sc_pubkey = None, sc_hostkeys = []\<rparr>
    else \<lparr>sc_password = None, sc_pubkey = None, sc_hostkeys = []\<rparr>"
  obtain mid wm signer where m: "(if AuthKeys cfg \<noteq> '''' then
        bindM (loadAuthorizedKeys lib (AuthKeys cfg)) (\<lambda>allowed. ret (?base\<lparr>sc_pubkey := Some (PublicKeyCallback allowed)\<rparr>))
      else ret ?base) w = (Ret mid, wm)"
    and h: "loadHostKey lib (HostKey cfg) wm = (Ret signer, w')" "scfg = mid\<lparr>sc_hostkeys := sc_hostkeys mid @ [signer]\<rparr>"
    using assms by (auto simp: buildSSHConfig_def Let_def bindM_Ret_iff ret_run split: if_splits)
  have wm: "w' = wm" using h(1) by (auto simp: loadHostKey_def parse_Ret)
  have pw: "admits scfg u (Password p) \<longleftrightarrow> User cfg \<noteq> '''' \<and> u = User cfg \<and> p = bytes_of (Pass cfg)" for u p
    using m by (auto simp: h(2) bindM_Ret_iff ret_run PasswordCallback_def ConstantTimeCompare_1 split: if_splits)
  show ?thesis
  proof (cases "AuthKeys cfg = ''''")
    case True
    with m have mid: "mid = ?base" "wm = w" by (simp_all add: ret_run)
    then have "\<not> admits scfg u (PublicKey k)" for u k by (simp add: h(2))
    moreover have "\<exists>host. sc_hostkeys scfg = [host]" by (simp add: h(2) mid)
    ultimately show ?thesis using pw wm mid(2) True by blast
  next
    case False
    with m obtain keys wk where k: "loadAuthorizedKeys lib (AuthKeys cfg) w = (Ret keys, wk)"
        "mid = ?base\<lparr>sc_pubkey := Some (PublicKeyCallback keys)\<rparr>" "wm = wk"
      by (auto simp: bindM_Ret_iff ret_run)
    have "admits scfg u (PublicKey key) \<longleftrightarrow> key \<in> set keys" for u key
      by (simp add: h(2) k(2) PublicKeyCallback_iff)
    moreover have "\<exists>host. sc_hostkeys scfg = [host]" by (simp add: h(2) k(2))
    ultimately show ?thesis using loadAuthorizedKeys_Ret [OF k(1)] pw wm k(3) False by blast
  qed
qed

text \<open>
  C15: exactly the right clients get in. With a configuration that the command line check of \<open>serve\<close> accepts: a password is
  admitted exactly when password login is configured and both the user and the
  password are the configured ones, so never an empty password; a public key, exactly when it is listed in the
  file of authorized keys, for any user name. There is a credential that is admitted, and there is exactly one host
  key. With a parser that consumes its input, setting this up ends.
\<close>

theorem login_exact:
  assumes "parseServeArgs getenv args w0 = (Ret cfg, w1)" and "buildSSHConfig lib cfg w = (Ret scfg, w')"
  shows "w' = w \<and> (\<exists>host. sc_hostkeys scfg = [host]) \<and> (\<exists>u c. admits scfg u c)
    \<and> (admits scfg u (Password p) \<longleftrightarrow> User cfg \<noteq> '''' \<and> u = User cfg \<and> p = bytes_of (Pass cfg))
    \<and> \<not> admits scfg u (Password [])
    \<and> (if AuthKeys cfg = '''' then \<not> admits scfg u (PublicKey k)
       else \<exists>data keys. ReadFile lib (AuthKeys cfg) = Inr data \<and> lists_keys lib data keys
         \<and> (admits scfg u (PublicKey k) \<longleftrightarrow> k \<in> set keys))
    \<and> (parser_law lib \<longrightarrow> (\<forall>cfg v. fst (buildSSHConfig lib cfg v) \<noteq> Blocked))"
proof -
  from serve_args_Ret [OF assms(1)] have c: "User cfg \<noteq> '''' \<or> AuthKeys cfg \<noteq> ''''" "User cfg \<noteq> '''' \<longrightarrow> Pass cfg \<noteq> ''''" by simp_all
  note b = buildSSHConfig_admits [OF assms(2)]
  have np: "\<not> admits scfg u (Password [])" using b c(2) by (cases "Pass cfg") (auto simp: bytes_of_def)
  have ex: "\<exists>u c. admits scfg u c"
  proof (cases "AuthKeys cfg = ''''")
    case True
    with b c(1) have "admits scfg (User cfg) (Password (bytes_of (Pass cfg)))" by simp
    then show ?thesis by blast
  next
    case False
    with b obtain keys where "keys \<noteq> []" "admits scfg u (PublicKey (hd keys)) \<longleftrightarrow> hd keys \<in> set keys" by blast
    then show ?thesis by (meson hd_in_set)
  qed
  show ?thesis
  proof (cases "AuthKeys cfg = ''''")
    case True
    with b np ex show ?thesis by (simp add: buildSSHConfig_ends)
  next
    case False
    with b obtain data keys where "ReadFile lib (AuthKeys cfg) = Inr data" "lists_keys lib data keys"
      "admits scfg u (PublicKey k) \<longleftrightarrow> k \<in> set keys" by blast
    with b np ex False show ?thesis by (auto simp: buildSSHConfig_ends)
  qed
qed

definition ssh0 :: sshlib where
  "ssh0 = \<lparr>ReadFile = (\<lambda>p. Inr (bytes_of p)), ParsePrivateKey = Inr, ParseAuthorizedKey = (\<lambda>rest. Inr (rest, []))\<rparr>"

definition args_k :: "string list" where
  "args_k = [''--host-key=k'', ''-user'', ''u'', ''--pass'', ''p'', ''--authorized-keys=a'']"

lemma login_k:
  "\<exists>c scfg. parseServeArgs env_s args_k () = (Ret c, ()) \<and> buildSSHConfig ssh0 c () = (Ret scfg, ())
    \<and> User c = ''u'' \<and> Pass c = ''p''"
proof -
  have "case parseServeArgs env_s args_k () of (Ret c, _) \<Rightarrow>
      HostKey c = ''k'' \<and> User c = ''u'' \<and> Pass c = ''p'' \<and> AuthKeys c = ''a'' | _ \<Rightarrow> False"
    by code_simp
  then obtain c where c: "parseServeArgs env_s args_k () = (Ret c, ())" "HostKey c = ''k''" "User c = ''u''" "Pass c = ''p''" "AuthKeys c = ''a''"
    by (auto split: prod.splits outcome.splits)
  have "bytes_TrimSpace (bytes_of ''a'') \<noteq> []" "bytes_TrimSpace [] = []" by code_simp+
  then have a: "auth_loop ssh0 ''a'' (bytes_of ''a'') [] = Some (Inr [bytes_of ''a''])"
    by (subst auth_loop.simps, subst auth_loop.simps) (simp add: ssh0_def)
  have f: "ReadFile ssh0 p = Inr (bytes_of p)" "ParsePrivateKey ssh0 d = Inr d" for p d by (simp_all add: ssh0_def)
  have "\<exists>scfg. buildSSHConfig ssh0 c () = (Ret scfg, ())"
    by (simp add: buildSSHConfig_def loadAuthorizedKeys_def loadHostKey_def c(2-5) bindM_def f a ThrowE_run ret_run)
  with c show ?thesis by blast
qed

theorem login_exact_witness:
  "\<exists>cfg scfg. parseServeArgs env_s args_k () = (Ret cfg, ()) \<and> buildSSHConfig ssh0 cfg () = (Ret scfg, ())
    \<and> (\<forall>q. (admits scfg ''u'' (Password q) \<longleftrightarrow> q = bytes_of ''p'') \<and> \<not> admits scfg ''v'' (Password q))"
proof -
  obtain c scfg where c: "parseServeArgs env_s args_k () = (Ret c, ())" "User c = ''u''" "Pass c = ''p''"
    and b: "buildSSHConfig ssh0 c () = (Ret scfg, ())" using login_k by blast
  have "(admits scfg ''u'' (Password q) \<longleftrightarrow> q = bytes_of ''p'') \<and> \<not> admits scfg ''v'' (Password q)" for q
    using login_exact [OF c(1) b, of "''u''" q "[]"] login_exact [OF c(1) b, of "''v''" q "[]"] c by auto
  with c(1) b show ?thesis by blast
qed

text \<open>Who reaches the files.\<close>

definition chan_of :: "string \<times> goerr option \<times> request list \<Rightarrow> channel" where
  "chan_of ch = (case ch of (t, accepted, reqs) \<Rightarrow>
     if t \<noteq> ''session'' then Rejected
     else (case accepted of Some err \<Rightarrow> Failed (Fmt ''accept channel: %v'' [AErr err]) | None \<Rightarrow> Session (sess0 reqs)))"

lemma handle_channels_run: "handle_channels chans w = (Ret (map chan_of chans), w)"
  by (induction chans) (auto simp: bindM_def ret_run Try_def handleSession_def ThrowFmt_run Fmt_def New_def chan_of_def split: option.split)

lemma sess_serving:
  assumes "sess_run (sess0 reqs) s" and "ss_main s = Serving"
  shows "\<exists>r\<in>set reqs. req_ok r"
proof -
  from sess_inv_run [OF assms(1)] assms(2) obtain pre where "reqs = pre @ ss_todo s" "0 < oks pre" by (auto simp: sess_inv_def)
  then show ?thesis by (auto simp: oks_def filter_empty_conv)
qed

text \<open>
  C10: nobody gets at the files without a credential. \<open>offers\<close> are the credentials that a client
  presented; the SSH library lets a handshake succeed only if the configuration admitted one of them. Then in every
  connection, and every interleaving of a session's goroutines: handlers run only if the client presented the configured
  user and password, or a key that the file of authorized keys lists; only in a channel of type
  session; and only after a request for the SFTP subsystem. A failed handshake or channel leaves the other sessions alone.
\<close>

theorem access_control:
  assumes "parseServeArgs getenv args w0 = (Ret cfg, w1)" and "buildSSHConfig lib cfg w2 = (Ret scfg, w3)"
    and "handshake = None \<longrightarrow> (\<exists>(u, c)\<in>set offers. admits scfg u c)"
    and "handleConn handshake chans v = (r, v')"
  shows "v' = v \<and> (handshake \<noteq> None \<longrightarrow> (\<exists>e. r = Panicked (PException e)))
    \<and> (handshake = None \<longrightarrow> (\<exists>outs. r = Ret outs \<and> length outs = length chans
        \<and> (\<forall>i s0 s. i < length outs \<and> outs ! i = Session s0 \<and> sess_run s0 s \<and> ss_main s = Serving \<longrightarrow>
             fst (chans ! i) = ''session'' \<and> (\<exists>q\<in>set (snd (snd (chans ! i))). req_ok q)
             \<and> ((User cfg, Password (bytes_of (Pass cfg))) \<in> set offers \<and> User cfg \<noteq> '''' \<and> Pass cfg \<noteq> ''''
                \<or> (\<exists>u k data keys. (u, PublicKey k) \<in> set offers \<and> ReadFile lib (AuthKeys cfg) = Inr data
                     \<and> lists_keys lib data keys \<and> k \<in> set keys)))))"
proof (cases handshake)
  case (Some err)
  with assms(4) show ?thesis by (auto simp: handleConn_def ThrowFmt_run)
next
  case None
  with assms(4) have r: "r = Ret (map chan_of chans)" "v' = v" by (simp_all add: handleConn_def handle_channels_run)
  note b = buildSSHConfig_admits [OF assms(2)]
  from serve_args_Ret [OF assms(1)] have c: "User cfg \<noteq> '''' \<longrightarrow> Pass cfg \<noteq> ''''" by simp
  obtain u cr where off: "(u, cr) \<in> set offers" "admits scfg u cr" using assms(3) None by blast
  have who: "(User cfg, Password (bytes_of (Pass cfg))) \<in> set offers \<and> User cfg \<noteq> '''' \<and> Pass cfg \<noteq> ''''
      \<or> (\<exists>u k data keys. (u, PublicKey k) \<in> set offers \<and> ReadFile lib (AuthKeys cfg) = Inr data \<and> lists_keys lib data keys \<and> k \<in> set keys)"
  proof (cases cr)
    case (Password p)
    with off b have "u = User cfg" "p = bytes_of (Pass cfg)" "User cfg \<noteq> ''''" by blast+
    with off(1) c Password show ?thesis by simp
  next
    case (PublicKey k)
    with off b have "AuthKeys cfg \<noteq> ''''" by blast
    with off b PublicKey show ?thesis by blast
  qed
  have "fst (chans ! i) = ''session'' \<and> (\<exists>q\<in>set (snd (snd (chans ! i))). req_ok q)"
    if "i < length chans" "chan_of (chans ! i) = Session s0" "sess_run s0 s" "ss_main s = Serving" for i s0 s
  proof -
    obtain t acc reqs where ch: "chans ! i = (t, acc, reqs)" by (cases "chans ! i")
    with that(2) have "t = ''session''" "s0 = sess0 reqs" by (auto simp: chan_of_def split: if_splits option.splits)
    with sess_serving that(3,4) ch show ?thesis by auto
  qed
  with who None r show ?thesis by auto
qed

text \<open>The user of the witness above logs in with the password and asks for SFTP in one of two channels.\<close>

definition sftp_req :: "request" where
  "sftp_req = (''subsystem'', [0, 0, 0, 4] @ bytes_of ''sftp'')"

lemma sftp_req_run: "\<exists>s. sess_run (sess0 [sftp_req]) s \<and> ss_main s = Serving"
proof -
  let ?s1 = "(sess0 [sftp_req])\<lparr>ss_todo := [], ss_replies := [True], ss_sending := True\<rparr>"
  let ?s2 = "?s1\<lparr>ss_sending := False, ss_full := True\<rparr>"
  let ?s3 = "?s2\<lparr>ss_full := False, ss_main := Serving\<rparr>"
  have "req_ok sftp_req = True" by (simp add: req_ok_def isSftpPayload_def sftp_req_def)
  then have "sess_step (sess0 [sftp_req]) ?s1" using reply [of "sess0 [sftp_req]" sftp_req "[]"] by (simp add: sess0_def)
  moreover have "sess_step ?s1 ?s2" using send [of ?s1] by (simp add: sess0_def)
  moreover have "sess_step ?s2 ?s3" using accept [of ?s2] by (simp add: sess0_def)
  ultimately have "sess_run (sess0 [sftp_req]) ?s3" by (meson rtranclp.rtrancl_into_rtrancl rtranclp.rtrancl_refl)
  moreover have "ss_main ?s3 = Serving" by simp
  ultimately show ?thesis by blast
qed

theorem access_control_witness:
  "\<exists>cfg scfg s. parseServeArgs env_s args_k () = (Ret cfg, ()) \<and> buildSSHConfig ssh0 cfg () = (Ret scfg, ())
    \<and> handleConn None [(''x11'', None, []), (''session'', None, [sftp_req])] () = (Ret [Rejected, Session (sess0 [sftp_req])], ())
    \<and> sess_run (sess0 [sftp_req]) s \<and> ss_main s = Serving
    \<and> (User cfg, Password (bytes_of (Pass cfg))) \<in> set [(''u'', Password (bytes_of ''p''))]"
proof -
  let ?chans = "[(''x11'', None, []), (''session'', None, [sftp_req])]" and ?offers = "[(''u'', Password (bytes_of ''p''))]"
  obtain c scfg where c: "parseServeArgs env_s args_k () = (Ret c, ())" "User c = ''u''" "Pass c = ''p''"
    and b: "buildSSHConfig ssh0 c () = (Ret scfg, ())" using login_k by blast
  obtain s where s: "sess_run (sess0 [sftp_req]) s" "ss_main s = Serving" using sftp_req_run by blast
  have h: "handleConn None ?chans () = (Ret [Rejected, Session (sess0 [sftp_req])], ())"
    by (simp add: handleConn_def handle_channels_run chan_of_def del: handle_channels.simps)
  have "admits scfg ''u'' (Password (bytes_of ''p''))" using buildSSHConfig_admits [OF b] c by simp
  then have o: "None = None \<longrightarrow> (\<exists>(u, c)\<in>set ?offers. admits scfg u c)" by simp
  have "[Rejected, Session (sess0 [sftp_req])] ! 1 = Session (sess0 [sftp_req])" by simp
  with access_control [OF c(1) b o h] s have
    "(User c, Password (bytes_of (Pass c))) \<in> set ?offers
      \<or> (\<exists>u k data keys. (u, PublicKey k) \<in> set ?offers \<and> ReadFile ssh0 (AuthKeys c) = Inr data
           \<and> lists_keys ssh0 data keys \<and> k \<in> set keys)"
    by (metis (no_types, lifting) One_nat_def length_Cons lessI list.size(3) outcome.inject(1))
  then have "(User c, Password (bytes_of (Pass c))) \<in> set ?offers" by auto
  with c(1) b h s show ?thesis by blast
qed

section \<open>The daemon\<close>

lemma coherent_maps [simp]:
  fixes w :: "('s, 'z) mworld_scheme"
  shows "coherent cfg cli objs content (w\<lparr>m_byHash := F, m_byName := G\<rparr>) = coherent cfg cli objs content w"
  by (simp add: coherent_def)

lemma keeps_coherent_Reload: "keeps (coherent cfg cli objs content) (Reload cfg cli lib order)"
proof (rule keeps_Reload)
  fix k show "keeps (coherent cfg cli objs content) (Cat cfg cli k)"
  proof (rule keepsI)
    fix w r w' assume c: "coherent cfg cli objs content w" and r: "Cat cfg cli k w = (r, w')"
    then have "s3_laws cli objs" by (simp add: coherent_def)
    from Cat_law [OF this r] Cat_frame [OF r] c show "coherent cfg cli objs content w'"
      by (auto simp: coherent_def sound_store_def)
  qed
next
  fix p show "keeps (coherent cfg cli objs content) (List cfg cli p)"
  proof (rule keepsI)
    fix w r w' assume c: "coherent cfg cli objs content w" and r: "List cfg cli p w = (r, w')"
    then have "s3_laws cli objs" by (simp add: coherent_def)
    from List_law(1) [OF this r] List_frame [OF r] c show "coherent cfg cli objs content w'"
      by (auto simp: coherent_def sound_store_def)
  qed
qed simp

text \<open>The catalogue is untouched by everything that only looks or reads.\<close>

lemma keeps_meta_Cat: "keeps meta_wf (Cat cfg cli k :: (('s, 'z) mworld_scheme, bytes) prog)"
  by (rule keepsI) (simp add: Cat_maps(3))

lemma keeps_meta_cache [keeps_intros]:
  fixes h :: string
  shows "keeps (meta_wf :: ('s, 'z) mworld_scheme \<Rightarrow> bool) (cacheGet h)"
    and "keeps (meta_wf :: ('s, 'z) mworld_scheme \<Rightarrow> bool) (cachePut h d)"
    and "keeps (meta_wf :: ('s, 'z) mworld_scheme \<Rightarrow> bool) (spawn h)"
  by (simp_all add: keeps_def cacheGet_run cachePut_def spawn_def modifyM_run meta_wf_def)

lemma keeps_meta_read: "keeps meta_wf (ReadAt sf cfg cli v plen off :: (('s, 'z) mworld_scheme, bytes \<times> goerr option) prog)"
  unfolding ReadAt_def getPiece_def fillPiece_def Let_def
  by (intro keeps_ReadAt_with keeps_intros keeps_meta_Cat) (auto split: option.split intro!: keeps_intros keeps_meta_Cat)

lemma keeps_meta_prefetch: "keeps meta_wf (prefetch sf cfg cli h :: (('s, 'z) mworld_scheme, unit) prog)"
  unfolding prefetch_def by (intro keeps_intros keeps_meta_Cat)

lemma keeps_pure: "(\<And>w. \<exists>r. m w = (Ret r, w)) \<Longrightarrow> keeps I m"
  unfolding keeps_def by (metis snd_conv)

lemma keeps_handlers [keeps_intros]:
  "keeps I (Fileread p)" "keeps I (Filelist order srt mthd p)"
  "keeps I (Filewrite p :: (('s, 'z) mworld_scheme, goerr) prog)" "keeps I (Filecmd p :: (('s, 'z) mworld_scheme, goerr) prog)"
  by (rule keeps_pure, use handlers_run in blast)+

lemma keeps_try_reload: "keeps I (Reload cfg cli lib order) \<Longrightarrow> keeps I (try_reload cfg cli lib order)"
  unfolding try_reload_def by (intro keeps_intros)

text \<open>What reloads, reads and prefetches keep, the daemon keeps.\<close>

lemma keeps_serve_event:
  assumes "keeps I (Reload cfg cli lib order)" and "\<And>v n off. keeps I (ReadAt sf cfg cli v n off)"
    and "\<And>h. keeps I (prefetch sf cfg cli h)" and "\<And>s w. e = Outside s \<Longrightarrow> I w \<Longrightarrow> I (w\<lparr>w_s3 := s\<rparr>)"
  shows "keeps I (serve_event sf cfg cli lib order srt e)"
proof (cases e)
  case (Outside s)
  with assms(4) show ?thesis by (simp add: keeps_modifyM)
qed (auto intro!: keeps_intros keeps_try_reload assms(1-3))

definition serve_reset :: "Config \<Rightarrow> ('s, 'z) mworld_scheme \<Rightarrow> ('s, 'z) mworld_scheme" where
  "serve_reset cfg w = w\<lparr>rw_cache := newLRU (LRUSize cfg), rw_spawned := [], m_byName := Map.empty, m_byHash := Map.empty\<rparr>"

lemma buildSSHConfig_state: "buildSSHConfig lib cfg w = (r, w') \<Longrightarrow> w' = w"
proof -
  have l: "keeps (\<lambda>v. v = w) (loadAuthorizedKeys lib p)" for p
    unfolding loadAuthorizedKeys_def by (intro keeps_intros) (auto split: option.split sum.split intro!: keeps_intros)
  have "keeps (\<lambda>v. v = w) (buildSSHConfig lib cfg)"
    unfolding buildSSHConfig_def loadHostKey_def Let_def by (intro keeps_intros l)
  then show "buildSSHConfig lib cfg w = (r, w') \<Longrightarrow> w' = w" by (rule keepsD) simp_all
qed

lemma keeps_runServe:
  assumes "keeps I (Reload cfg cli lib order)"
    and "\<And>e. e \<in> set events \<Longrightarrow> keeps I (serve_event sf cfg cli lib order srt e)"
    and "I (serve_reset cfg w)" and "runServe sf cfg cli lib order srt ssh listen events w = (r, w')"
  shows "I w'"
proof -
  have b: "keeps I (buildSSHConfig ssh cfg)" by (rule keepsI, drule buildSSHConfig_state) simp
  have m: "keeps I (metaReloader cfg cli lib order 0)" unfolding metaReloader_def by (intro keeps_intros keeps_try_reload assms(1))
  have "keeps I (bindM (try_reload cfg cli lib order) (\<lambda>_.
     bindM (metaReloader cfg cli lib order 0) (\<lambda>_.
     bindM (buildSSHConfig ssh cfg) (\<lambda>sshCfg.
     bindM (Throw listen) (\<lambda>_.
     bindM (forM events (serve_event sf cfg cli lib order srt)) (\<lambda>_. ret sshCfg))))))"
    by (intro keeps_intros keeps_try_reload assms(1) b m assms(2))
  then show ?thesis
    by (rule keepsD) (use assms(3,4) in \<open>simp_all add: runServe_def serve_reset_def [symmetric]\<close>)
qed

lemma runServe_coherent:
  fixes w :: "('s, 'z) mworld_scheme"
  assumes laws: "s3_laws cli objs" and store: "sound_store cfg objs content (w_s3 w)"
    and outside: "\<forall>s. Outside s \<in> set events \<longrightarrow> sound_store cfg objs content s"
    and run: "runServe sf cfg cli lib order srt ssh listen events w = (r, w')"
  shows "coherent cfg cli objs content w'"
proof (rule keeps_runServe [OF keeps_coherent_Reload _ _ run])
  let ?co = "coherent cfg cli objs content :: ('s, 'z) mworld_scheme \<Rightarrow> bool"
  fix e assume e: "e \<in> set events"
  have rd: "keeps ?co (ReadAt sf cfg cli v n off)" for v n off
    unfolding ReadAt_def by (intro keeps_ReadAt_with keeps_getPiece)
  show "keeps ?co (serve_event sf cfg cli lib order srt e)"
    by (rule keeps_serve_event [OF keeps_coherent_Reload rd keeps_prefetch])
      (use e outside in \<open>auto simp: coherent_def\<close>)
next
  show "coherent cfg cli objs content (serve_reset cfg w)"
    by (rule reset_coherent [OF laws, of cfg content _ "LRUSize cfg"]) (use store in \<open>simp_all add: serve_reset_def\<close>)
qed

lemma runServe_reads_only:
  fixes w :: "('s, 'z) mworld_scheme"
  assumes laws: "s3_laws cli objs" and no: "\<forall>s. Outside s \<notin> set events"
    and run: "runServe sf cfg cli lib order srt ssh listen events w = (r, w')"
  shows "objs (w_s3 w') = objs (w_s3 w)"
proof -
  let ?I = "\<lambda>v :: ('s, 'z) mworld_scheme. objs (w_s3 v) = objs (w_s3 w)"
  have c: "keeps ?I (Cat cfg cli k)" and l: "keeps ?I (List cfg cli k)" for k
    by (rule keepsI, use Cat_law [OF laws] List_law(1) [OF laws] in fastforce)+
  have g: "keeps ?I (cacheGet h)" "keeps ?I (cachePut h d)" "keeps ?I (spawn h)" for h d
    by (simp_all add: keeps_def cacheGet_run cachePut_def spawn_def modifyM_run)
  have rl: "keeps ?I (Reload cfg cli lib order)" by (rule keeps_Reload [OF c l]) simp
  have rd: "keeps ?I (ReadAt sf cfg cli v n off)" for v n off
    unfolding ReadAt_def getPiece_def fillPiece_def Let_def
    by (intro keeps_ReadAt_with keeps_intros c g) (auto split: option.split intro!: keeps_intros c g)
  have pf: "keeps ?I (prefetch sf cfg cli h)" for h
    unfolding prefetch_def by (intro keeps_intros c g)
  show ?thesis
    by (rule keeps_runServe [OF rl keeps_serve_event [OF rl rd pf] _ run]) (use no in \<open>auto simp: serve_reset_def\<close>)
qed

text \<open>
  C14: every session reads the truth, at any time. Over any sequence of reloads, requests, reads and prefetches of
  all sessions, with the bucket changing from outside as long as pieces keep their content, and wherever the daemon
  ends: the two maps of the catalogue fit together, the shared cache holds only right pieces, and a read that
  returns then gives a prefix of the slice it was asked for, and \<open>EOF\<close> when that is short. The daemon
  itself never changes the bucket.
\<close>

theorem serve_safe:
  assumes laws: "s3_laws cli objs" and order: "order_law order" and store: "sound_store cfg objs content (w_s3 w)"
    and outside: "\<forall>s. Outside s \<in> set events \<longrightarrow> sound_store cfg objs content s"
    and run: "runServe sf cfg cli lib order srt ssh listen events w = (r, w')"
  shows "meta_wf w' \<and> coherent cfg cli objs content w'
    \<and> (file_in v content L ps \<longrightarrow> 0 \<le> off \<longrightarrow> off < Size (vf_file v) \<longrightarrow>
        (case ReadAt_with (getPiece_busy sf cfg cli bg (PieceHashes (vf_tm v))) v plen off w' of
          (Ret (p, err), w2) \<Rightarrow> prefix p (slice (nat off) plen (file_bytes v ps)) \<and> err = read_error v plen off p
        | _ \<Rightarrow> True))
    \<and> ((\<forall>s. Outside s \<notin> set events) \<longrightarrow> objs (w_s3 w') = objs (w_s3 w))"
proof -
  note co = runServe_coherent [OF laws store outside run]
  have "meta_wf w'"
  proof (rule keeps_runServe [OF keeps_meta_Reload [OF order] _ _ run])
    fix e show "keeps meta_wf (serve_event sf cfg cli lib order srt e :: (('a, 'd) mworld_scheme, unit) prog)"
      by (rule keeps_serve_event [OF keeps_meta_Reload [OF order] keeps_meta_read keeps_meta_prefetch]) simp
  qed (simp add: serve_reset_def meta_wf_def)
  moreover have "prefix p (slice (nat off) plen (file_bytes v ps)) \<and> err = read_error v plen off p"
    if "file_in v content L ps" "0 \<le> off" "off < Size (vf_file v)"
      "ReadAt_with (getPiece_busy sf cfg cli bg (PieceHashes (vf_tm v))) v plen off w' = (Ret (p, err), w2)" for p err w2
    using ReadAt_returns [OF co that] by simp
  ultimately show ?thesis using co runServe_reads_only [OF laws _ run] by (auto split: prod.split outcome.split)
qed

text \<open>A daemon on the bucket of one file: loads it, is asked for things, and another process empties the bucket.\<close>

definition events0 :: "mem event list" where
  "events0 = [GetReq ''/a/a'', Prefetched ''p1'', ReadReq vf0 2 0, PutReq ''/x'', ListReq ''List'' ''/'', Tick]"

theorem serve_safe_witness:
  "case runServe id cfg0 mem_s3 lib0 order0 (\<lambda>es. es) ssh0 None events0 ((newMeta cfg0 bucket_p)) of (r, w') \<Rightarrow>
    meta_wf w' \<and> (case ReadAt_with (getPiece_busy id cfg0 mem_s3 (\<lambda>_. others_at Storing [''p1'']) [''p0'', ''p1'']) vf0 2 1 w' of
        (Ret (p, err), w2) \<Rightarrow> prefix p [2, 3] | _ \<Rightarrow> True) \<and> mem_view (w_s3 w') = mem_view bucket_p"
proof -
  obtain r w' where run: "runServe id cfg0 mem_s3 lib0 order0 (\<lambda>es. es) ssh0 None events0 (newMeta cfg0 bucket_p) = (r, w')"
    by fastforce
  have st: "sound_store cfg0 mem_view content0 (w_s3 (newMeta cfg0 bucket_p))"
    using coherent_reader0 [of 1] by (simp add: coherent_def newMeta_def reader0_def)
  have out: "\<forall>s. Outside s \<in> set events0 \<longrightarrow> sound_store cfg0 mem_view content0 s" "\<forall>s. Outside s \<notin> set events0"
    by (simp_all add: events0_def)
  have h: "PieceHashes (vf_tm vf0) = [''p0'', ''p1'']" "1 < Size (vf_file vf0)" "slice (nat 1) 2 (file_bytes vf0 two_pieces) = [2, 3]"
    "w_s3 (newMeta cfg0 bucket_p) = bucket_p"
    by (simp_all add: vf0_def file_bytes_def slice_def two_pieces_def newMeta_def)
  from serve_safe [OF mem_laws order0_law st out(1) run, where v = vf0 and L = 2 and ps = two_pieces and off = 1 and bg = "\<lambda>_. others_at Storing [''p1'']" and plen = 2,
      unfolded h] file_in_vf0 h(2) out(2) show ?thesis
    unfolding run by (auto split: prod.splits outcome.splits)
qed

section \<open>What the daemon survives\<close>

lemma loadOne_v1:
  assumes laws: "s3_laws cli objs"
    and v1: "\<forall>ih info. torrent_at cfg lib (objs (w_s3 w) (S3Bucket cfg)) ih = Some info \<longrightarrow> v1_info lib info"
    and run: "loadOne cfg cli lib ih w = (r, w')"
  shows "(\<exists>u. r = Ret u) \<or> (\<exists>e. r = Panicked (PException e))"
proof -
  obtain rc w1 where cat: "Cat cfg cli (KeyTorrent cfg ih) w = (rc, w1)" by fastforce
  show ?thesis
  proof (cases "\<exists>d. rc = Ret d")
    case False
    with loadOne_noread [OF cat, of lib] run show ?thesis by auto
  next
    case True
    then obtain d where d: "rc = Ret d" by blast
    have st: "objs (w_s3 w) (S3Bucket cfg) (KeyTorrent cfg ih) = Some d" using Cat_law [OF laws cat] d by blast
    show ?thesis
    proof (cases "parsed lib d")
      case None
      from loadOne_bad [OF cat [unfolded d] None] run show ?thesis by auto
    next
      case (Some info)
      with st have "torrent_at cfg lib (objs (w_s3 w) (S3Bucket cfg)) ih = Some info" by (simp add: torrent_at_def)
      with v1 have "v1_info lib info" by blast
      from loadOne_run [OF cat [unfolded d] Some this] run show ?thesis by simp
    qed
  qed
qed

text \<open>What the events leave as it is: the objects of the bucket and the invariant of the catalogue.\<close>

definition serves :: "Config \<Rightarrow> 's view \<Rightarrow> (string \<Rightarrow> bytes option) \<Rightarrow> ('s, 'z) mworld_scheme \<Rightarrow> bool" where
  "serves cfg objs f w \<longleftrightarrow> objs (w_s3 w) (S3Bucket cfg) = f \<and> meta_wf w"

lemma serves_Cat:
  assumes "s3_laws cli objs" shows "keeps (serves cfg objs f) (Cat cfg cli k)"
proof (rule keepsI)
  fix v :: "('a, 'b) mworld_scheme" and r v' assume "serves cfg objs f v" and "Cat cfg cli k v = (r, v')"
  with Cat_law [OF assms this(2)] Cat_maps(3) [OF this(2)] show "serves cfg objs f v'" by (simp add: serves_def)
qed

lemma serves_loadOne:
  assumes laws: "s3_laws cli objs" and v1: "\<forall>ih info. torrent_at cfg lib f ih = Some info \<longrightarrow> v1_info lib info"
  shows "returns (serves cfg objs f) (reload_one cfg cli lib k)"
proof (rule returnsI)
  fix v :: "('a, 'b) mworld_scheme" assume v: "serves cfg objs f v"
  obtain r l where l: "loadOne cfg cli lib (path_Base k) v = (r, l)" by fastforce
  have cf: "objs (w_s3 v') = objs (w_s3 v)" if "Cat cfg cli (KeyTorrent cfg (path_Base k)) v = (rc, v')" for rc v'
    using Cat_law [OF laws that] by simp
  have "objs (w_s3 l) (S3Bucket cfg) = f"
    using loadOne_cases [OF l] v by (auto simp: install_def Let_def serves_def dest!: cf)
  moreover have "(\<exists>u. r = Ret u) \<or> (\<exists>e. r = Panicked (PException e))"
    by (rule loadOne_v1 [OF laws _ l]) (use v v1 in \<open>simp add: serves_def\<close>)
  ultimately have "\<exists>v'. reload_one cfg cli lib k v = (Ret (), v') \<and> objs (w_s3 v') (S3Bucket cfg) = f"
    using v l by (cases "m_byHash v (path_Base k)") (auto simp: reload_one_def Let_def bindM_def getM_run Try_def ret_run serves_def)
  with keepsD [OF keeps_meta_reload_one] v show "\<exists>x v'. reload_one cfg cli lib k v = (Ret x, v') \<and> serves cfg objs f v'"
    unfolding serves_def by blast
qed

lemma serves_List:
  assumes "s3_laws cli objs" shows "catchable (serves cfg objs f) (List cfg cli p)"
proof (rule catchableI)
  fix w :: "('a, 'b) mworld_scheme" assume w: "serves cfg objs f w"
  obtain r w1 where l: "List cfg cli p w = (r, w1)" by fastforce
  obtain s where s: "w1 = w\<lparr>w_s3 := s\<rparr>" using List_frame [OF l] by blast
  have "serves cfg objs f w1" using List_law(1) [OF assms l] w s by (simp add: serves_def)
  with l List_outcome [OF l] show "\<exists>r w'. List cfg cli p w = (r, w') \<and> serves cfg objs f w'
      \<and> ((\<exists>x. r = Ret x) \<or> (\<exists>e. r = Panicked (PException e)))" by auto
qed

lemma serves_prune:
  assumes "order_law order" shows "returns (serves cfg objs f) (pruneGone order ks)"
proof (rule returnsI)
  fix v :: "('a, 'b) mworld_scheme" assume v: "serves cfg objs f v"
  then have fin: "finite (dom (m_byHash v))" by (simp add: serves_def meta_wf_def)
  obtain v' where p: "pruneGone order ks v = (Ret (), v')" "w_s3 v' = w_s3 v" using pruneGone_run [OF assms fin, of ks] by simp
  have "meta_wf v'" by (rule keepsD [OF keeps_meta_pruneGone [OF assms] _ p(1)]) (use v in \<open>simp add: serves_def\<close>)
  with p v show "\<exists>x v'. pruneGone order ks v = (Ret x, v') \<and> serves cfg objs f v'" by (simp add: serves_def)
qed

lemma serves_reload:
  assumes "s3_laws cli objs" and "order_law order" and "\<forall>ih info. torrent_at cfg lib f ih = Some info \<longrightarrow> v1_info lib info"
  shows "returns (serves cfg objs f) (try_reload cfg cli lib order)"
  unfolding try_reload_def Reload_def
  by (intro returns_intros catchable_bindM serves_List [OF assms(1)] returns_catchable [OF returns_bindM] serves_loadOne [OF assms(1,3)]
      serves_prune [OF assms(2)])

lemma serves_prefetch:
  assumes "s3_laws cli objs" shows "returns (serves cfg objs f) (prefetch sf cfg cli h)"
proof (rule returnsI)
  have "keeps (serves cfg objs f) (prefetch sf cfg cli h)"
    unfolding prefetch_def
    by (intro keeps_intros serves_Cat [OF assms]) (simp_all add: keeps_def cacheGet_run cachePut_def modifyM_run meta_wf_def serves_def)
  moreover fix v :: "('a, 'b) mworld_scheme" assume "serves cfg objs f v"
  ultimately show "\<exists>x v'. prefetch sf cfg cli h v = (Ret x, v') \<and> serves cfg objs f v'"
    using prefetch_returns keepsD by metis
qed

lemma serves_event:
  assumes "s3_laws cli objs" and "order_law order" and "\<forall>ih info. torrent_at cfg lib f ih = Some info \<longrightarrow> v1_info lib info"
    and "(\<nexists>s. e = Outside s) \<and> (\<nexists>v n off. e = ReadReq v n off) \<and> (\<nexists>err. e = Accept (Some err))"
  shows "returns (serves cfg objs f) (serve_event sf cfg cli lib order srt e)"
proof (cases e)
  case (Accept err)
  with assms(4) show ?thesis by (cases err) (auto intro: returns_intros)
next
  case Tick
  then show ?thesis using serves_reload [OF assms(1-3)] by simp
next
  case (Prefetched h)
  then show ?thesis using serves_prefetch [OF assms(1)] by simp
next
  case (GetReq p)
  have "returns (serves cfg objs f) (Fileread p)" by (rule returns_pure) (use handlers_run in blast)
  then show ?thesis unfolding GetReq serve_event.simps by (intro returns_intros)
next
  case (ListReq m p)
  have "returns (serves cfg objs f) (Filelist order srt m p)" by (rule returns_pure) (use handlers_run in blast)
  then show ?thesis unfolding ListReq serve_event.simps by (intro returns_intros)
qed (use assms(4) in \<open>auto simp: Filewrite_def Filecmd_def intro: returns_intros\<close>)

text \<open>
  C30: the daemon outlives its object store. With torrents that have v1 hashes in the bucket, an accepted
  configuration, keys that load and a listener: whatever the service answers and however long it fails, reloads, listings, opens,
  refused requests, prefetches and new connections do not end the process; it goes through all of them and serves on. (A
  foreground read can end it; see \<open>ReadAt_store_error\<close> of theory \<open>Reader\<close>.)
\<close>

theorem serve_survives:
  assumes laws: "s3_laws cli objs" and order: "order_law order"
    and v1: "\<forall>ih info. torrent_at cfg lib (objs (w_s3 w) (S3Bucket cfg)) ih = Some info \<longrightarrow> v1_info lib info"
    and tick: "0 < wrap64 (ReloadSecs cfg * 1000000000)"
    and keys: "\<forall>v. buildSSHConfig ssh cfg v = (Ret scfg, (v :: ('s, 'z) mworld_scheme))"
    and evs: "\<forall>e\<in>set events. (\<nexists>s. e = Outside s) \<and> (\<nexists>v n off. e = ReadReq v n off) \<and> (\<nexists>err. e = Accept (Some err))"
  shows "\<exists>w'. runServe sf cfg cli lib order srt ssh None events w = (Ret scfg, (w' :: ('s, 'z) mworld_scheme))"
proof -
  let ?f = "objs (w_s3 w) (S3Bucket cfg)"
  have "serves cfg objs ?f (serve_reset cfg w)" by (simp add: serves_def serve_reset_def meta_wf_def)
  from returnsD [OF serves_reload [OF laws order v1] this] obtain v where
    v: "try_reload cfg cli lib order (serve_reset cfg w) = (Ret (), v)" "serves cfg objs ?f v" by auto
  have "returns (serves cfg objs ?f) (forM events (serve_event sf cfg cli lib order srt))"
    by (intro returns_forM serves_event [OF laws order v1]) (use evs in blast)
  from returnsD [OF this v(2)] obtain v' where ev: "forM events (serve_event sf cfg cli lib order srt) v = (Ret (), v')" by auto
  have "metaReloader cfg cli lib order 0 v = (Ret (), v)"
    using tick by (simp add: metaReloader_def uncaught_run(1) ret_run)
  with v(1) ev keys show ?thesis
    by (simp add: runServe_def serve_reset_def [symmetric] bindM_def modifyM_run Throw_run ret_run)
qed

text \<open>A service that fails five times in a row.\<close>

definition cfg_k :: Config where
  "cfg_k = cfg0\<lparr>User := ''u'', Pass := ''p'', HostKey := ''k''\<rparr>"

theorem serve_survives_witness:
  "\<exists>scfg w'. runServe id cfg_k mem_s3 lib0 order0 (\<lambda>es. es) ssh0 None [Accept None, Tick, Prefetched ''p1'', GetReq ''/a'', Tick]
     ((newMeta cfg_k (fst bucket_p, [True, True, True, True, True])) :: mem mworld) = (Ret scfg, w')"
proof -
  let ?w = "newMeta cfg_k (fst bucket_p, [True, True, True, True, True]) :: mem mworld"
  have "\<forall>v. buildSSHConfig ssh0 cfg_k v =
      (Ret \<lparr>sc_password = Some (PasswordCallback ''u'' (bytes_of ''p'')), sc_pubkey = None, sc_hostkeys = [bytes_of ''k'']\<rparr>, v :: mem mworld)"
    by (simp add: buildSSHConfig_def loadHostKey_def cfg_k_def ssh0_def bindM_def ThrowE_run ret_run)
  moreover have "torrent_at cfg_k lib0 (mem_view (w_s3 ?w) (S3Bucket cfg_k)) ih = None" for ih
    by (simp add: torrent_at_def newMeta_def mem_view_def bucket_p_def mem_of_def cfg_k_def KeyTorrent_def)
  moreover have "0 < wrap64 (ReloadSecs cfg_k * 1000000000)" by (simp add: cfg_k_def cfg0_def loadCommon_def wrap64_def)
  ultimately show ?thesis
    using serve_survives [OF mem_laws order0_law, of cfg_k lib0 ?w ssh0 _ "[Accept None, Tick, Prefetched ''p1'', GetReq ''/a'', Tick]" id "\<lambda>es. es"]
    by auto
qed

end
