(* ===== verification/GoNum.thy ===== *)
theory GoNum
  imports Flags
begin

text \<open>Decimal numbers: \<open>%d\<close> of package \<^verbatim>\<open>fmt\<close>, and \<open>strconv.ParseInt\<close> with base 10 as its inverse.\<close>

section \<open>Printing\<close>

definition digit :: "int \<Rightarrow> char" where
  "digit n = char_of (48 + n)"

function dec :: "int \<Rightarrow> string" where
  "dec n = (if n < 10 then [digit n] else dec (n div 10) @ [digit (n mod 10)])"
  by pat_completeness auto
termination
  by (relation "measure nat") auto

declare dec.simps [simp del]

definition fmt_d :: "int \<Rightarrow> string" where
  "fmt_d n = (if n < 0 then CHR ''-'' # dec (- n) else dec n)"

section \<open>Reading back\<close>

lemma digit_cases: "0 \<le> n \<Longrightarrow> n < 10 \<Longrightarrow> n \<in> {0, 1, 2, 3, 4, 5, 6, 7, 8, 9 :: int}"
  by (simp only: insert_iff empty_iff) presburger

lemma digit_of_digit: "0 \<le> n \<Longrightarrow> n < 10 \<Longrightarrow> digit_of (digit n) = Some n"
  by (drule (1) digit_cases) (elim insertE emptyE; simp add: digit_def digit_of_def Let_def)

definition reserved :: "char set" where
  "reserved = {CHR ''_'', CHR ''-'', CHR ''+'', CHR ''.'', CHR '','', CHR '' '', CHR ''/''}"

lemma digit_code: "0 \<le> n \<Longrightarrow> n < 10 \<Longrightarrow> (of_char (digit n) :: int) = 48 + n"
  by (drule (1) digit_cases) (elim insertE emptyE; simp add: digit_def)

lemma digit_plain: "0 \<le> n \<Longrightarrow> n < 10 \<Longrightarrow> digit n \<notin> reserved"
  using digit_code [of n] by (auto simp: reserved_def)

lemma dec_digits: "0 \<le> n \<Longrightarrow> c \<in> set (dec n) \<Longrightarrow> \<exists>d. 0 \<le> d \<and> d < 10 \<and> c = digit d"
proof (induction n rule: dec.induct)
  case (1 n)
  show ?case
  proof (cases "n < 10")
    case True
    with 1 show ?thesis by (subst (asm) dec.simps) auto
  next
    case False
    with 1(3) have "c = digit (n mod 10) \<or> c \<in> set (dec (n div 10))" by (subst (asm) dec.simps) simp
    moreover have "0 \<le> n mod 10 \<and> n mod 10 < 10" by simp
    moreover have "0 \<le> n div 10" using 1(2) by simp
    ultimately show ?thesis using 1(1) [OF False] by blast
  qed
qed

lemma dec_neq_Nil: "dec n \<noteq> []"
  by (subst dec.simps) simp

lemma uint_loop_append:
  "uint_loop b False n us (xs @ ys) = (case uint_loop b False n us xs of Inl e \<Rightarrow> Inl e | Inr (m, us') \<Rightarrow> uint_loop b False m us' ys)"
  by (induction xs arbitrary: n) (auto split: option.split)

lemma uint_loop_dec: "0 \<le> n \<Longrightarrow> n < 2 ^ 64 \<Longrightarrow> uint_loop 10 False 0 False (dec n) = Inr (n, False)"
proof (induction n rule: dec.induct)
  case (1 n)
  show ?case
  proof (cases "n < 10")
    case True
    with 1 show ?thesis by (subst dec.simps) (simp add: digit_of_digit)
  next
    case False
    have d: "0 \<le> n mod 10" "n mod 10 < 10" by simp_all
    have "uint_loop 10 False 0 False (dec (n div 10)) = Inr (n div 10, False)"
      by (rule "1.IH" [OF False]) (use 1(2,3) False in simp_all)
    with False 1(3) digit_of_digit [OF d] show ?thesis
      by (subst dec.simps) (simp add: uint_loop_append mult.commute [of _ 10])
  qed
qed

lemma dec_plain: "0 \<le> n \<Longrightarrow> c \<in> reserved \<Longrightarrow> c \<notin> set (dec n)"
  using dec_digits digit_plain by blast

lemma hd_dec: "0 \<le> n \<Longrightarrow> hd (dec n) \<notin> reserved"
  using dec_plain [of n] dec_neq_Nil [of n] list.set_sel(1) by blast

lemma ParseUint_dec: "0 \<le> n \<Longrightarrow> n < 2 ^ 64 \<Longrightarrow> ParseUint (dec n) 10 = Inr n"
  using dec_neq_Nil [of n] by (simp add: ParseUint_def base_of_def uint_loop_dec)

lemma ParseInt_fmt_d:
  assumes "- (2 ^ 63) \<le> n" and "n < 2 ^ 63"
  shows "ParseInt (fmt_d n) 10 = Inr n"
proof (cases "n < 0")
  case True
  with assms have "ParseUint (dec (- n)) 10 = Inr (- n)" by (intro ParseUint_dec) auto
  with True assms show ?thesis by (simp add: ParseInt_def fmt_d_def)
next
  case False
  with assms have u: "ParseUint (dec n) 10 = Inr n" by (intro ParseUint_dec) auto
  have "hd (dec n) \<noteq> CHR ''-''" "hd (dec n) \<noteq> CHR ''+''"
    using hd_dec [of n] False by (auto simp: reserved_def)
  with False u assms show ?thesis by (simp add: ParseInt_def fmt_d_def dec_neq_Nil)
qed

text \<open>The number that digits stand for: printing is injective on all integers.\<close>

definition dec_value :: "string \<Rightarrow> int" where
  "dec_value = foldl (\<lambda>n c. 10 * n + (of_char c - 48)) 0"

lemma dec_value_dec: "0 \<le> n \<Longrightarrow> dec_value (dec n) = n"
proof (induction n rule: dec.induct)
  case (1 n)
  show ?case
  proof (cases "n < 10")
    case True
    with 1(2) show ?thesis by (subst dec.simps) (simp add: dec_value_def digit_code)
  next
    case False
    have d: "(of_char (digit (n mod 10)) :: int) = 48 + n mod 10" by (rule digit_code) simp_all
    have "dec_value (dec (n div 10)) = n div 10" using 1(1) [OF False] 1(2) by simp
    with False d show ?thesis by (subst dec.simps) (simp add: dec_value_def)
  qed
qed

lemma fmt_d_inj [simp]: "fmt_d m = fmt_d n \<longleftrightarrow> m = n"
proof
  have neg: "hd (dec \<bar>a\<bar>) \<noteq> CHR ''-''" for a
    using hd_dec [of "\<bar>a\<bar>"] by (simp add: reserved_def)
  have abs: "dec \<bar>a\<bar> = (if a < 0 then tl (fmt_d a) else fmt_d a)" for a
    by (simp add: fmt_d_def)
  have sgn: "a < 0 \<longleftrightarrow> hd (fmt_d a) = CHR ''-''" for a
    using neg [of a] by (cases "a < 0") (simp_all add: fmt_d_def)
  assume eq: "fmt_d m = fmt_d n"
  have s: "m < 0 \<longleftrightarrow> n < 0" by (simp only: sgn eq)
  have "dec \<bar>m\<bar> = dec \<bar>n\<bar>" by (simp only: abs eq s)
  then have "\<bar>m\<bar> = \<bar>n\<bar>" by (metis dec_value_dec abs_ge_zero)
  with s show "m = n" by linarith
qed simp

lemma fmt_d_plain:
  assumes "c \<in> reserved" and "c \<noteq> CHR ''-''"
  shows "c \<notin> set (fmt_d n)"
  using dec_plain [of n c] dec_plain [of "- n" c] assms by (auto simp: fmt_d_def)

end
