(* ===== verification/Bench.thy ===== *)
theory Bench
  imports Testbed Args GoNum
begin

text \<open>
  \<^verbatim>\<open>samogon bench\<close> (\<^verbatim>\<open>bench.go\<close>): writers that put objects of one size under
  keys of their own until a deadline. The clock and the scheduler are the argument \<open>turns\<close>:
  one entry for each pass through the loop of \<open>benchWorker\<close> by any goroutine, in the order in
  which their requests reach the service, with the time the request took. The printed rates
  are left out.
\<close>

section \<open>State and operations\<close>

text \<open>The three counters, and the variable \<open>m\<close> of each goroutine.\<close>

record 's benchworld = "'s world" +
  bw_ops :: int
  bw_latency :: int
  bw_errs :: int
  bw_m :: "int \<Rightarrow> int"

type_synonym turn = "int \<times> int"

definition bench_key :: "Config \<Rightarrow> int \<Rightarrow> int \<Rightarrow> string" where
  "bench_key cfg gid m = S3Root cfg @ ''/bench/'' @ fmt_d gid @ ''.'' @ fmt_d m"

definition bench_turn :: "Config \<Rightarrow> 's s3api \<Rightarrow> bytes \<Rightarrow> turn \<Rightarrow> (('s, 'z) benchworld_scheme, unit) prog" where
  "bench_turn cfg cli payload t = (case t of (gid, lat) \<Rightarrow>
     bindM (getM (\<lambda>w. bw_m w gid)) (\<lambda>m.
     bindM (call (PutObject cli (S3Bucket cfg) (bench_key cfg gid m) payload)) (\<lambda>err. case err of
       Some e \<Rightarrow> modifyM (\<lambda>w. w\<lparr>bw_errs := bw_errs w + 1, bw_m := (bw_m w)(gid := m + 1)\<rparr>)
     | None \<Rightarrow> modifyM (\<lambda>w. w\<lparr>bw_latency := bw_latency w + lat, bw_ops := bw_ops w + 1, bw_m := (bw_m w)(gid := m + 1)\<rparr>))))"

text \<open>The summary that \<open>runBench\<close> prints at the end, if any operation completed.\<close>

definition runBench ::
  "Config \<Rightarrow> 's s3api \<Rightarrow> turn list \<Rightarrow> benchOpts \<Rightarrow> (('s, 'z) benchworld_scheme, (int \<times> int \<times> int) option) prog" where
  "runBench cfg cli turns opts =
     (let payload = replicate (nat (b_chunkSize opts)) (of_char (CHR ''x'')) in
      bindM (modifyM (\<lambda>w. w\<lparr>bw_ops := 0, bw_latency := 0, bw_errs := 0, bw_m := (\<lambda>_. 0)\<rparr>)) (\<lambda>_.
      bindM (forM turns (bench_turn cfg cli payload)) (\<lambda>_.
        getM (\<lambda>w. if bw_ops w = 0 then None else Some (bw_ops w, bw_errs w, bw_latency w)))))"

section \<open>Keys\<close>

lemma split_at_sep:
  "c \<notin> set a \<Longrightarrow> c \<notin> set a' \<Longrightarrow> a @ c # b = a' @ c # b' \<longleftrightarrow> a = a' \<and> b = b'"
proof (induction a arbitrary: a')
  case Nil
  then show ?case by (cases a') auto
next
  case (Cons x a)
  then show ?case by (cases a') auto
qed

lemma bench_key_inj [simp]: "bench_key cfg g m = bench_key cfg g' m' \<longleftrightarrow> g = g' \<and> m = m'"
  using split_at_sep [of "CHR ''.''" "fmt_d g" "fmt_d g'" "fmt_d m" "fmt_d m'"]
    fmt_d_plain [of "CHR ''.''"] by (simp add: bench_key_def reserved_def)

lemma bench_key_apart: "bench_key cfg g m \<noteq> KeyTorrent cfg h" "bench_key cfg g m \<noteq> KeyPiece cfg h"
  by (simp_all add: bench_key_def KeyTorrent_def KeyPiece_def)

section \<open>What a run does\<close>

text \<open>The number of turns of a goroutine.\<close>

definition turns_of :: "int \<Rightarrow> turn list \<Rightarrow> int" where
  "turns_of g ts = int (count_list (map fst ts) g)"

lemma turns_of_simps [simp]:
  "turns_of g [] = 0" "turns_of g (t # ts) = turns_of g ts + of_bool (fst t = g)"
  by (simp_all add: turns_of_def)

lemma turns_of_nonneg: "0 \<le> turns_of g ts"
  by (simp add: turns_of_def)

lemma turns_of_pos: "0 < turns_of g ts \<longleftrightarrow> g \<in> set (map fst ts)"
  using count_list_0_iff [of "map fst ts" g] by (auto simp: turns_of_def neq0_conv [symmetric] simp del: neq0_conv)

text \<open>The objects that the turns \<open>ts\<close> may write when the goroutines stand at \<open>m\<close>.\<close>

definition bench_keys :: "Config \<Rightarrow> (int \<Rightarrow> int) \<Rightarrow> turn list \<Rightarrow> string set" where
  "bench_keys cfg m ts = {bench_key cfg g i |g i. m g \<le> i \<and> i < m g + turns_of g ts}"

lemma bench_keys_Nil [simp]: "bench_keys cfg m [] = {}"
  by (simp add: bench_keys_def)

lemma bench_keys_Cons:
  "bench_keys cfg m (t # ts) = insert (bench_key cfg (fst t) (m (fst t))) (bench_keys cfg (m(fst t := m (fst t) + 1)) ts)"
  using turns_of_nonneg [of _ ts]
  by (auto simp: bench_keys_def split: if_splits) (smt (verit) fun_upd_apply)+

lemma bench_keys_fresh: "bench_key cfg (fst t) (m (fst t)) \<notin> bench_keys cfg (m(fst t := m (fst t) + 1)) ts"
  by (auto simp: bench_keys_def)

definition overlay :: "('k \<Rightarrow> 'v option) \<Rightarrow> 'k set \<Rightarrow> 'v \<Rightarrow> 'k \<Rightarrow> 'v option" where
  "overlay f ks v = (\<lambda>k. if k \<in> ks then Some v else f k)"

lemma bench_turn_run:
  assumes "s3_laws cli objs"
  shows "\<exists>w'. bench_turn cfg cli p t w = (Ret (), w') \<and> bw_m w' = (bw_m w)(fst t := bw_m w (fst t) + 1)
    \<and> bw_ops w' + bw_errs w' = bw_ops w + bw_errs w + 1 \<and> bw_errs w \<le> bw_errs w'
    \<and> (objs (w_s3 w') = upd2 (objs (w_s3 w)) (S3Bucket cfg) (bench_key cfg (fst t) (bw_m w (fst t))) (Some p)
       \<or> bw_errs w' = bw_errs w + 1 \<and> objs (w_s3 w') = objs (w_s3 w))
    \<and> (s3_up cli objs up \<and> up (w_s3 w) \<longrightarrow> up (w_s3 w') \<and> bw_errs w' = bw_errs w)"
proof -
  let ?k = "bench_key cfg (fst t) (bw_m w (fst t))"
  obtain err s' where put: "PutObject cli (S3Bucket cfg) ?k p (w_s3 w) = (err, s')" by fastforce
  with assms have "objs s' = upd2 (objs (w_s3 w)) (S3Bucket cfg) ?k (Some p) \<or> err \<noteq> None \<and> objs s' = objs (w_s3 w)"
    unfolding s3_laws_def put_law_def by metis
  moreover have "s3_up cli objs up \<and> up (w_s3 w) \<Longrightarrow> up s' \<and> err = None"
    using put unfolding s3_up_def by (metis fst_conv snd_conv)
  ultimately show ?thesis
    using put by (cases err; cases t)
      (auto simp: bench_turn_def bindM_def getM_run call_def modifyM_run)
qed

text \<open>All turns: a set of keys that grows by one for every operation that succeeds.\<close>

lemma bench_all_run:
  assumes "s3_laws cli objs"
  shows "\<exists>w' ks. forM ts (bench_turn cfg cli p) w = (Ret (), w') \<and> ks \<subseteq> bench_keys cfg (bw_m w) ts \<and> finite ks
    \<and> objs (w_s3 w') = (objs (w_s3 w))(S3Bucket cfg := overlay (objs (w_s3 w) (S3Bucket cfg)) ks p)
    \<and> bw_ops w' + bw_errs w' = bw_ops w + bw_errs w + int (length ts) \<and> bw_ops w' - bw_ops w \<le> int (card ks)
    \<and> bw_errs w \<le> bw_errs w'
    \<and> (s3_up cli objs up \<and> up (w_s3 w) \<longrightarrow> bw_errs w' = bw_errs w \<and> ks = bench_keys cfg (bw_m w) ts)"
proof (induction ts arbitrary: w)
  case Nil
  have "overlay f {} p = f" for f :: "string \<Rightarrow> bytes option" by (simp add: overlay_def)
  then show ?case by (intro exI [of _ w] exI [of _ "{}"]) (simp add: ret_run)
next
  case (Cons t ts)
  let ?k = "bench_key cfg (fst t) (bw_m w (fst t))" and ?rest = "bench_keys cfg ((bw_m w)(fst t := bw_m w (fst t) + 1)) ts"
  from bench_turn_run [OF assms, of cfg p t w up] obtain w1 where
    w1: "bench_turn cfg cli p t w = (Ret (), w1)" "bw_m w1 = (bw_m w)(fst t := bw_m w (fst t) + 1)"
      "bw_ops w1 + bw_errs w1 = bw_ops w + bw_errs w + 1" "bw_errs w \<le> bw_errs w1"
    and ob: "objs (w_s3 w1) = upd2 (objs (w_s3 w)) (S3Bucket cfg) ?k (Some p)
       \<or> bw_errs w1 = bw_errs w + 1 \<and> objs (w_s3 w1) = objs (w_s3 w)"
    and up1: "s3_up cli objs up \<and> up (w_s3 w) \<Longrightarrow> up (w_s3 w1) \<and> bw_errs w1 = bw_errs w" by blast
  from Cons.IH [of w1] obtain w2 ks where
    w2: "forM ts (bench_turn cfg cli p) w1 = (Ret (), w2)" "ks \<subseteq> ?rest" "finite ks"
      "objs (w_s3 w2) = (objs (w_s3 w1))(S3Bucket cfg := overlay (objs (w_s3 w1) (S3Bucket cfg)) ks p)"
      "bw_ops w2 + bw_errs w2 = bw_ops w1 + bw_errs w1 + int (length ts)" "bw_ops w2 - bw_ops w1 \<le> int (card ks)"
      "bw_errs w1 \<le> bw_errs w2"
    and up2: "s3_up cli objs up \<and> up (w_s3 w1) \<Longrightarrow> bw_errs w2 = bw_errs w1 \<and> ks = ?rest"
    unfolding w1(2) by blast
  have run: "forM (t # ts) (bench_turn cfg cli p) w = (Ret (), w2)" using w1(1) w2(1) by (simp add: bindM_def)
  have fresh: "?k \<notin> ks" using bench_keys_fresh w2(2) by blast
  have sum: "bw_ops w2 + bw_errs w2 = bw_ops w + bw_errs w + int (length (t # ts))" "bw_errs w \<le> bw_errs w2"
    using w1(3,4) w2(5,7) by simp_all
  note keys = bench_keys_Cons [of cfg "bw_m w" t ts]
  from ob show ?case
  proof
    assume o: "objs (w_s3 w1) = upd2 (objs (w_s3 w)) (S3Bucket cfg) ?k (Some p)"
    have "objs (w_s3 w2) = (objs (w_s3 w))(S3Bucket cfg := overlay (objs (w_s3 w) (S3Bucket cfg)) (insert ?k ks) p)"
      by (auto simp: w2(4) o upd2_def overlay_def fun_eq_iff)
    moreover have "bw_ops w2 - bw_ops w \<le> int (card (insert ?k ks))"
      using w2(3,6) w1(3,4) fresh by simp
    moreover have "insert ?k ks \<subseteq> bench_keys cfg (bw_m w) (t # ts)" using w2(2) keys by blast
    moreover have "bw_errs w2 = bw_errs w \<and> insert ?k ks = bench_keys cfg (bw_m w) (t # ts)"
      if "s3_up cli objs up \<and> up (w_s3 w)"
      using up1 [OF that] up2 that keys by simp
    ultimately show ?thesis using run sum w2(3) by (intro exI [of _ w2] exI [of _ "insert ?k ks"]) simp
  next
    assume o: "bw_errs w1 = bw_errs w + 1 \<and> objs (w_s3 w1) = objs (w_s3 w)"
    moreover have "\<not> (s3_up cli objs up \<and> up (w_s3 w))" using up1 o by auto
    ultimately show ?thesis
      using run sum w2(2-4,6) keys w1(3) by (intro exI [of _ w2] exI [of _ ks]) auto
  qed
qed

text \<open>
  \<^verbatim>\<open>bench\<close> counts honestly and stays in its corner of the bucket. In any order of the
  goroutines' requests and whatever the service answers: the run goes through, each attempt counts as an operation or
  as an error, and there are at least as many objects written by the run as the reported operations, since no two attempts
  share a key. Every object that changed lies under \<open>bench/\<close>, is the \<open>i\<close>-th of a goroutine that made more than \<open>i\<close>
  attempts, and holds the payload of the chosen size; torrents, pieces and other buckets are untouched.
  With the service up there are no errors, and exactly those objects are written.
\<close>

theorem bench_counts:
  assumes "s3_laws cli objs"
  shows "\<exists>w' ks. runBench cfg cli turns opts w
      = (Ret (if bw_ops w' = 0 then None else Some (bw_ops w', bw_errs w', bw_latency w')), w')
    \<and> bw_ops w' + bw_errs w' = int (length turns) \<and> bw_ops w' \<le> int (card ks)
    \<and> ks \<subseteq> {bench_key cfg g i |g i. 0 \<le> i \<and> i < turns_of g turns}
    \<and> (\<forall>b k. objs (w_s3 w') b k = (if b = S3Bucket cfg \<and> k \<in> ks
          then Some (replicate (nat (b_chunkSize opts)) (of_char (CHR ''x''))) else objs (w_s3 w) b k))
    \<and> (\<forall>h. KeyTorrent cfg h \<notin> ks \<and> KeyPiece cfg h \<notin> ks)
    \<and> (s3_up cli objs up \<and> up (w_s3 w) \<longrightarrow>
        bw_ops w' = int (length turns) \<and> ks = {bench_key cfg g i |g i. 0 \<le> i \<and> i < turns_of g turns})"
proof -
  let ?p = "replicate (nat (b_chunkSize opts)) (of_char (CHR ''x'')) :: bytes"
  let ?w = "w\<lparr>bw_ops := 0, bw_latency := 0, bw_errs := 0, bw_m := (\<lambda>_. 0)\<rparr>"
  from bench_all_run [OF assms, of turns cfg ?p ?w up] obtain w' ks where
    r: "forM turns (bench_turn cfg cli ?p) ?w = (Ret (), w')" "ks \<subseteq> bench_keys cfg (\<lambda>_. 0) turns"
      "objs (w_s3 w') = (objs (w_s3 w))(S3Bucket cfg := overlay (objs (w_s3 w) (S3Bucket cfg)) ks ?p)"
      "bw_ops w' + bw_errs w' = int (length turns)" "bw_ops w' \<le> int (card ks)"
    and u: "s3_up cli objs up \<and> up (w_s3 w) \<Longrightarrow> bw_errs w' = 0 \<and> ks = bench_keys cfg (\<lambda>_. 0) turns"
    by auto
  have run: "runBench cfg cli turns opts w
      = (Ret (if bw_ops w' = 0 then None else Some (bw_ops w', bw_errs w', bw_latency w')), w')"
    using r(1) by (simp add: runBench_def Let_def bindM_def modifyM_run getM_run)
  have "KeyTorrent cfg h \<notin> ks \<and> KeyPiece cfg h \<notin> ks" for h
    using r(2) bench_key_apart [symmetric] unfolding bench_keys_def by fastforce
  moreover have "bench_keys cfg (\<lambda>_. 0) turns = {bench_key cfg g i |g i. 0 \<le> i \<and> i < turns_of g turns}"
    by (simp add: bench_keys_def)
  ultimately show ?thesis using run r u by (intro exI [of _ w'] exI [of _ ks]) (auto simp: overlay_def)
qed

text \<open>Two goroutines, one of which gets two requests through.\<close>

definition bench0 :: "mem benchworld" where
  "bench0 = \<lparr>w_s3 = mem_of [(''t/torrents/h'', [1])], w_puts = 0, bw_ops = 7, bw_latency = 0, bw_errs = 7, bw_m = (\<lambda>_. 3)\<rparr>"

definition opts_b :: benchOpts where
  "opts_b = \<lparr>b_parallel = 2, b_chunkSize = 2, b_duration = 1\<rparr>"

theorem bench_counts_witness:
  "\<exists>w'. runBench cfg0 mem_s3 [(0, 5), (1, 7), (0, 3)] opts_b bench0 = (Ret (Some (3, 0, bw_latency w')), w')
    \<and> mem_view (w_s3 w') ''b'' ''t/bench/0.1'' = Some [120, 120] \<and> mem_view (w_s3 w') ''b'' ''t/torrents/h'' = Some [1]"
proof -
  let ?ts = "[(0, 5), (1, 7), (0, 3)] :: turn list" and ?keys = "{bench_key cfg0 g i |g i. 0 \<le> i \<and> i < turns_of g [(0, 5), (1, 7), (0, 3)]}"
  have up: "s3_up mem_s3 mem_view mem_up \<and> mem_up (w_s3 bench0)" using mem_is_up by (simp add: bench0_def)
  from bench_counts [OF mem_laws, where cfg = cfg0 and turns = ?ts and opts = opts_b and w = bench0 and up = mem_up] up
  obtain w' where r: "runBench cfg0 mem_s3 ?ts opts_b bench0
      = (Ret (if bw_ops w' = 0 then None else Some (bw_ops w', bw_errs w', bw_latency w')), w')"
    "bw_ops w' + bw_errs w' = 3" "bw_ops w' = 3"
    and o: "\<And>b k. mem_view (w_s3 w') b k = (if b = S3Bucket cfg0 \<and> k \<in> ?keys
          then Some (replicate (nat (b_chunkSize opts_b)) (of_char (CHR ''x''))) else mem_view (w_s3 bench0) b k)"
    and apart: "\<And>h. KeyTorrent cfg0 h \<notin> ?keys" by auto
  have k: "bench_key cfg0 0 1 = ''t/bench/0.1''" "KeyTorrent cfg0 ''h'' = ''t/torrents/h''" by code_simp+
  have "bench_key cfg0 0 1 \<in> ?keys" by (intro CollectI exI [of _ 0] exI [of _ 1]) simp
  with o have "mem_view (w_s3 w') ''b'' ''t/bench/0.1'' = Some [120, 120]"
    by (simp add: k opts_b_def numeral_2_eq_2)
  moreover have "mem_view (w_s3 w') ''b'' ''t/torrents/h'' = Some [1]"
    using apart [of "''h''", unfolded k] by (simp only: o simp_thms if_False) (simp add: bench0_def mem_view_def mem_of_def)
  ultimately show ?thesis using r by (intro exI [of _ w']) simp
qed

end
