(* ===== verification/Bot.thy ===== *)
theory Bot
  imports Args GoNum GoText Steps
begin

text \<open>
  \<^verbatim>\<open>samogon bot\<close> (\<^verbatim>\<open>bot.go\<close>): the allow list, the loop over Telegram updates, and
  the goroutine that turns a document into a job of \<^verbatim>\<open>gorn ignite\<close>. The loop and the goroutines
  interleave at their outside calls, as steps of a relation.

  Telegram, the HTTP client, the proxy dialer and the \<^verbatim>\<open>gorn\<close> command are parameters: functions on a state
  of their own. Every outside call is logged with who made it and its result; the log serves the
  theorems and steers nothing.
\<close>

section \<open>Messages and the outside\<close>

record tguser =
  u_ID :: int
  u_UserName :: string

record document =
  FileID :: string
  FileName :: string
  FileSize :: int

text \<open>Pointers that may be nil are options.\<close>

record message =
  m_From :: "tguser option"
  m_Chat :: "int option"
  m_MessageID :: int
  m_Document :: "document option"

type_synonym update = "message option"

text \<open>\<open>http.DefaultClient\<close>, or the client that dials through a proxy.\<close>

datatype client = DefaultClient | Socks5Client string

record 't tglib =
  Socks5Dialer :: "string \<Rightarrow> goerr + bool"
  NewBotAPI :: "string \<Rightarrow> client \<Rightarrow> 't \<Rightarrow> goerr option \<times> 't"
  GetFile :: "client \<Rightarrow> string \<Rightarrow> 't \<Rightarrow> (goerr + string) \<times> 't"
  Link :: "string \<Rightarrow> string \<Rightarrow> string"
  HttpGet :: "client \<Rightarrow> string \<Rightarrow> 't \<Rightarrow> (goerr + bytes \<times> goerr option) \<times> 't"
  Send :: "client \<Rightarrow> int \<Rightarrow> int \<Rightarrow> string \<Rightarrow> 't \<Rightarrow> goerr option \<times> 't"
  Gorn :: "string list \<Rightarrow> bytes \<Rightarrow> 't \<Rightarrow> (goerr option \<times> string) \<times> 't"
  ErrText :: "goerr \<Rightarrow> string"

datatype outcall =
    CGetFile client string "goerr + string"
  | CHttpGet client string "goerr + bytes \<times> goerr option"
  | CGorn "string list" bytes "goerr option \<times> string"
  | CSend client int int string "goerr option"

datatype hphase = HStart | HFile string | HRaw bytes | HReply string | HDone

text \<open>
  The state: the outside, the log (\<open>None\<close> is the loop, \<open>Some i\<close> the \<open>i\<close>-th goroutine), the updates still
  to come, the goroutines, and whether the process runs.
\<close>

record 't botsys =
  bs_ext :: 't
  bs_log :: "(nat option \<times> outcall) list"
  bs_updates :: "update list"
  bs_handlers :: "(message \<times> document \<times> hphase) list"
  bs_up :: bool

text \<open>What \<open>runBot\<close> sets up before its loop.\<close>

record botAPI =
  api_client :: client
  api_token :: string
  api_allow :: "int set"

section \<open>The allow list\<close>

fun allow_loop :: "string list \<Rightarrow> int set \<Rightarrow> ('w, int set) prog" where
  "allow_loop [] out = ret out"
| "allow_loop (s # ss) out =
     (let s = strings_TrimSpace s in
      if s = '''' then allow_loop ss out
      else case ParseInt s 10 of
          Inl err \<Rightarrow> ThrowFmt ''bot: bad user ID %q in allow list: %v'' [AStr s, AErr err]
        | Inr i \<Rightarrow> allow_loop ss (insert i out))"

definition parseAllowUsers :: "string \<Rightarrow> ('w, int set) prog" where
  "parseAllowUsers csv = allow_loop (strings_Split csv (CHR '','')) {}"

definition newSocks5Client :: "'t tglib \<Rightarrow> string \<Rightarrow> ('w, client) prog" where
  "newSocks5Client lib addr = (case Socks5Dialer lib addr of
     Inl err \<Rightarrow> ThrowFmt ''bot: socks5 dialer %q: %v'' [AStr addr, AErr err]
   | Inr ok \<Rightarrow>
       if \<not> ok then ThrowFmt ''bot: socks5 dialer %q is not a ContextDialer'' [AStr addr]
       else ret (Socks5Client addr))"

text \<open>\<open>runBot\<close> up to its loop.\<close>

definition runBot :: "Config \<Rightarrow> 't tglib \<Rightarrow> ('t botsys, botAPI) prog" where
  "runBot cfg lib =
     bindM (parseAllowUsers (TgAllowUsers cfg)) (\<lambda>allow.
       if allow = {} then ThrowFmt ''bot: allow list is empty after parsing %q'' [AStr (TgAllowUsers cfg)]
       else bindM (if Socks5 cfg \<noteq> '''' then newSocks5Client lib (Socks5 cfg) else ret DefaultClient) (\<lambda>httpClient.
         bindM (\<lambda>s. case NewBotAPI lib (TgToken cfg) httpClient (bs_ext s) of (err, t) \<Rightarrow> Throw err (s\<lparr>bs_ext := t\<rparr>)) (\<lambda>_.
           ret \<lparr>api_client = httpClient, api_token = TgToken cfg, api_allow = allow\<rparr>)))"

section \<open>Replies, the loop, a document\<close>

definition outside :: "nat option \<Rightarrow> ('t \<Rightarrow> 'r \<times> 't) \<Rightarrow> ('r \<Rightarrow> outcall) \<Rightarrow> ('t botsys, 'r) prog" where
  "outside who f entry s = (case f (bs_ext s) of (r, t) \<Rightarrow> (Ret r, s\<lparr>bs_ext := t, bs_log := bs_log s @ [(who, entry r)]\<rparr>))"

definition reply :: "'t tglib \<Rightarrow> botAPI \<Rightarrow> nat option \<Rightarrow> message \<Rightarrow> string \<Rightarrow> ('t botsys, unit) prog" where
  "reply lib api who msg text = (case m_Chat msg of
     None \<Rightarrow> panic (PRuntime ''nil pointer dereference'')
   | Some chat \<Rightarrow>
       bindM (outside who (Send lib (api_client api) chat (m_MessageID msg) text)
         (CSend (api_client api) chat (m_MessageID msg) text)) (\<lambda>_. ret ()))"

text \<open>One update. Starting a goroutine adds it to the goroutines.\<close>

definition bot_update :: "'t tglib \<Rightarrow> botAPI \<Rightarrow> update \<Rightarrow> ('t botsys, unit) prog" where
  "bot_update lib api u = (case u of
     None \<Rightarrow> ret ()
   | Some msg \<Rightarrow> (case m_From msg of
       None \<Rightarrow> ret ()
     | Some user \<Rightarrow>
         if u_ID user \<notin> api_allow api then reply lib api None msg ''not authorized''
         else (case m_Document msg of
             None \<Rightarrow> reply lib api None msg ''send a .torrent file as a document''
           | Some doc \<Rightarrow> modifyM (\<lambda>s. s\<lparr>bs_handlers := bs_handlers s @ [(msg, doc, HStart)]\<rparr>))))"

definition forwarded :: "string list" where
  "forwarded = [''AWS_ACCESS_KEY_ID'', ''AWS_SECRET_ACCESS_KEY'', ''S3_ENDPOINT'', ''S3_BUCKET'', ''SAMOGON_S3_ROOT'']"

definition ignite_args :: "env \<Rightarrow> document \<Rightarrow> string list" where
  "ignite_args getenv doc =
     [''ignite'', ''--root'', ''samogon'', ''--descr'', ''samogon fetch '' @ FileName doc, ''--retry-error'']
     @ concat (map (\<lambda>k. let v = getenv k in if v \<noteq> '''' then [''--env'', k @ ''='' @ v] else []) forwarded)
     @ [''--'', ''samogon'', ''fetch'']"

text \<open>\<open>handleDocument\<close>, one outside call at a time.\<close>

definition handle_step ::
  "'t tglib \<Rightarrow> env \<Rightarrow> botAPI \<Rightarrow> nat \<Rightarrow> message \<Rightarrow> document \<Rightarrow> hphase \<Rightarrow> ('t botsys, hphase) prog" where
  "handle_step lib getenv api i msg doc ph = (case ph of
     HStart \<Rightarrow>
       bindM (outside (Some i) (GetFile lib (api_client api) (FileID doc)) (CGetFile (api_client api) (FileID doc))) (\<lambda>r.
         case r of
           Inl err \<Rightarrow> ret (HReply (''telegram getFile failed: '' @ ErrText lib err))
         | Inr fpath \<Rightarrow> ret (HFile fpath))
   | HFile fpath \<Rightarrow>
       (let url = Link lib fpath (api_token api) in
        bindM (outside (Some i) (HttpGet lib (api_client api) url) (CHttpGet (api_client api) url)) (\<lambda>r. case r of
           Inl err \<Rightarrow> ret (HReply (''download failed: '' @ ErrText lib err))
         | Inr (raw, Some err) \<Rightarrow> ret (HReply (''read failed: '' @ ErrText lib err))
         | Inr (raw, None) \<Rightarrow> ret (HRaw raw)))
   | HRaw raw \<Rightarrow>
       bindM (outside (Some i) (Gorn lib (ignite_args getenv doc) raw) (CGorn (ignite_args getenv doc) raw)) (\<lambda>r. case r of
           (Some err, _) \<Rightarrow> ret (HReply (''ignite failed: '' @ ErrText lib err))
         | (None, out) \<Rightarrow> ret (HReply (''queued: '' @ FileName doc @ ''  guid='' @ strings_TrimSpace out)))
   | HReply text \<Rightarrow> bindM (reply lib api (Some i) msg text) (\<lambda>_. ret HDone)
   | HDone \<Rightarrow> ret HDone)"

inductive bot_step :: "'t tglib \<Rightarrow> env \<Rightarrow> botAPI \<Rightarrow> 't botsys \<Rightarrow> 't botsys \<Rightarrow> bool" for lib getenv api where
  turn: "bs_up s \<Longrightarrow> bs_updates s = u # us \<Longrightarrow> bot_update lib api u (s\<lparr>bs_updates := us\<rparr>) = (Ret (), s') \<Longrightarrow>
    bot_step lib getenv api s s'"
| turn_panic: "bs_up s \<Longrightarrow> bs_updates s = u # us \<Longrightarrow> bot_update lib api u (s\<lparr>bs_updates := us\<rparr>) = (Panicked p, s') \<Longrightarrow>
    bot_step lib getenv api s (s'\<lparr>bs_up := False\<rparr>)"
| handle: "bs_up s \<Longrightarrow> i < length (bs_handlers s) \<Longrightarrow> bs_handlers s ! i = (msg, doc, ph) \<Longrightarrow> ph \<noteq> HDone \<Longrightarrow>
    handle_step lib getenv api i msg doc ph s = (Ret ph', s') \<Longrightarrow>
    bot_step lib getenv api s (s'\<lparr>bs_handlers := (bs_handlers s)[i := (msg, doc, ph')]\<rparr>)"
| handle_panic: "bs_up s \<Longrightarrow> i < length (bs_handlers s) \<Longrightarrow> bs_handlers s ! i = (msg, doc, ph) \<Longrightarrow> ph \<noteq> HDone \<Longrightarrow>
    handle_step lib getenv api i msg doc ph s = (Panicked p, s') \<Longrightarrow>
    bot_step lib getenv api s (s'\<lparr>bs_up := False\<rparr>)"

abbreviation bot_run :: "'t tglib \<Rightarrow> env \<Rightarrow> botAPI \<Rightarrow> 't botsys \<Rightarrow> 't botsys \<Rightarrow> bool" where
  "bot_run lib getenv api \<equiv> (bot_step lib getenv api)\<^sup>*\<^sup>*"

definition bot0 :: "'t \<Rightarrow> update list \<Rightarrow> 't botsys" where
  "bot0 t us = \<lparr>bs_ext = t, bs_log = [], bs_updates = us, bs_handlers = [], bs_up = True\<rparr>"

section \<open>The allow list, read back\<close>

lemma lead_space_None:
  "s \<noteq> [] \<Longrightarrow> (\<forall>r\<in>set runes. r \<noteq> [] \<and> hd r \<noteq> hd s) \<Longrightarrow> lead_space runes s = None"
  unfolding lead_space_def
  by (induction runes) (auto simp: neq_Nil_conv take_Cons' split: if_splits)

lemma trim_lead_stop: "s \<noteq> [] \<Longrightarrow> (\<forall>r\<in>set runes. r \<noteq> [] \<and> hd r \<noteq> hd s) \<Longrightarrow> trim_lead runes s = s"
  by (subst trim_lead.simps) (simp add: lead_space_None)

lemma trim_lead_blanks:
  assumes "lead_space runes (32 # s) = Some [32]" "[] \<notin> set runes"
    and "\<And>s. lead_space runes (32 # s) = Some [32]"
  shows "trim_lead runes (replicate n 32 @ s) = trim_lead runes s"
proof (induction n)
  case (Suc n)
  with assms(2,3) show ?case by (subst trim_lead.simps) simp
qed simp

definition blanks :: "nat \<Rightarrow> string" where
  "blanks n = replicate n (CHR '' '')"

lemma space_lead: "lead_space space_runes (32 # s) = Some [32]" "lead_space (map rev space_runes) (32 # s) = Some [32]"
  by (simp_all add: lead_space_def space_runes_def upto.simps)

lemma space_firsts:
  "\<forall>r\<in>set space_runes. r \<noteq> [] \<and> hd r \<notin> {33..126}" "\<forall>r\<in>set (map rev space_runes). r \<noteq> [] \<and> hd r \<notin> {33..126}"
  by code_simp+

text \<open>Blanks around a text of printable ASCII characters go, and nothing else.\<close>

lemma TrimSpace_blanks:
  assumes "s \<noteq> []" and "\<forall>c\<in>set s. of_char c \<in> {33..126 :: int}"
  shows "strings_TrimSpace (blanks a @ s @ blanks b) = s"
proof -
  let ?c = "codes s"
  have nn: "?c \<noteq> []" "hd ?c \<in> {33..126}" "last ?c \<in> {33..126}" "\<forall>x\<in>set ?c. x \<in> {33..126}"
    using assms by (auto simp: codes_def hd_map last_map)
  have cb: "codes (blanks n) = replicate n 32" for n by (simp add: codes_def blanks_def)
  have app: "codes (x @ y) = codes x @ codes y" for x y by (simp add: codes_def)
  have e: "[] \<notin> set space_runes" "[] \<notin> set (map rev space_runes)" using space_firsts by auto
  have "trim_lead space_runes (replicate a 32 @ ?c @ replicate b 32) = ?c @ replicate b 32"
    unfolding trim_lead_blanks [OF space_lead(1) e(1) space_lead(1)]
    by (rule trim_lead_stop) (use nn space_firsts(1) in auto)
  moreover have "trim_lead (map rev space_runes) (replicate b 32 @ rev ?c) = rev ?c"
    unfolding trim_lead_blanks [OF space_lead(2) e(2) space_lead(2)]
    by (rule trim_lead_stop) (use nn space_firsts(2) in \<open>auto simp: hd_rev\<close>)
  ultimately have "TrimSpace (codes (blanks a @ s @ blanks b)) = ?c" by (simp add: TrimSpace_def app cb)
  then show ?thesis by (simp add: strings_TrimSpace_def codes_def comp_def)
qed

lemma fmt_d_ascii: "c \<in> set (fmt_d n) \<Longrightarrow> of_char c \<in> {33..126 :: int}"
  using dec_digits [of "n" c] dec_digits [of "- n" c] digit_code by (auto simp: fmt_d_def split: if_splits)

lemma fmt_d_neq_Nil [simp]: "fmt_d n \<noteq> []"
  by (simp add: fmt_d_def dec_neq_Nil)

lemma allow_loop_exact:
  "allow_loop ss out w = (Ret allow, w') \<longleftrightarrow> w' = w
    \<and> (\<forall>s\<in>set ss. strings_TrimSpace s = '''' \<or> (\<exists>i. ParseInt (strings_TrimSpace s) 10 = Inr i))
    \<and> allow = out \<union> {i. \<exists>s\<in>set ss. strings_TrimSpace s \<noteq> '''' \<and> ParseInt (strings_TrimSpace s) 10 = Inr i}"
  by (induction ss arbitrary: out) (auto simp: ret_run ThrowFmt_run Let_def split: sum.splits)

definition padded :: "int \<times> nat \<times> nat \<Rightarrow> string" where
  "padded x = (case x of (i, a, b) \<Rightarrow> blanks a @ fmt_d i @ blanks b)"

lemma padded_comma: "CHR '','' \<notin> set (padded x)"
  using fmt_d_plain [of "CHR '',''"] by (auto simp: padded_def blanks_def reserved_def split: prod.splits)

lemma parseAllowUsers_padded:
  assumes "\<forall>x\<in>set ids. in_i64 (fst x)"
  shows "parseAllowUsers (strings_Join (map padded ids) '','') w = (Ret (fst ` set ids), w)"
proof (cases "ids = []")
  case True
  then show ?thesis by (simp add: parseAllowUsers_def Let_def ret_run strings_TrimSpace_def TrimSpace_def codes_def
      trim_lead.simps lead_space_def space_runes_def upto.simps)
next
  case False
  then have sp: "strings_Split (strings_Join (map padded ids) '','') (CHR '','') = map padded ids"
    by (intro Split_Join) (use padded_comma in auto)
  have tr: "strings_TrimSpace (padded x) = fmt_d (fst x)" for x
    using TrimSpace_blanks [of "fmt_d (fst x)"] fmt_d_ascii by (cases x) (simp add: padded_def)
  have "ParseInt (fmt_d (fst x)) 10 = Inr (fst x)" if "x \<in> set ids" for x
    using assms that ParseInt_fmt_d by (auto simp: in_i64_def)
  then show ?thesis by (auto simp: parseAllowUsers_def sp allow_loop_exact tr image_iff)
qed

text \<open>
  The bot starts with exactly the users it was given. For an allow list that prints 64-bit IDs in decimal,
  with any blanks around them: the loop starts exactly when the list is not empty, the proxy (if one is
  named) gives a dialer that takes a context, and Telegram accepts the token; then exactly these IDs are allowed, and the
  client is the one that goes through the proxy. Otherwise an exception is thrown.
\<close>

theorem bot_start_exact:
  assumes "\<forall>x\<in>set ids. in_i64 (fst x)" and "TgAllowUsers cfg = strings_Join (map padded ids) '',''"
  shows "let client = (if Socks5 cfg = '''' then DefaultClient else Socks5Client (Socks5 cfg));
        start = (ids \<noteq> [] \<and> (Socks5 cfg \<noteq> '''' \<longrightarrow> Socks5Dialer lib (Socks5 cfg) = Inr True)
          \<and> fst (NewBotAPI lib (TgToken cfg) client (bs_ext s)) = None)
    in if start then fst (runBot cfg lib s)
        = Ret \<lparr>api_client = client, api_token = TgToken cfg, api_allow = fst ` set ids\<rparr>
       else \<exists>e. fst (runBot cfg lib s) = Panicked (PException e)"
  using parseAllowUsers_padded [OF assms(1), folded assms(2), of s]
  by (auto simp: Let_def runBot_def newSocks5Client_def bindM_def Throw_def throw_def panic_def ret_run ThrowFmt_run
      split: prod.splits option.splits sum.splits)

definition tg0 :: "nat tglib" where
  "tg0 = \<lparr>Socks5Dialer = (\<lambda>_. Inr True), NewBotAPI = (\<lambda>_ _ n. (None, n)), GetFile = (\<lambda>_ f n. (Inr f, n)),
     Link = (\<lambda>f t. t @ ''/'' @ f), HttpGet = (\<lambda>_ u n. (Inr ([1, 2], None), n)), Send = (\<lambda>_ _ _ _ n. (None, n)),
     Gorn = (\<lambda>_ _ n. ((None, '' g1 ''), n + 1)), ErrText = (\<lambda>_. ''error'')\<rparr>"

definition cfg_t :: Config where
  "cfg_t = (loadCommon (\<lambda>_. ''''))\<lparr>TgToken := ''T'', TgAllowUsers := '' 12, -7'', Socks5 := ''p:1''\<rparr>"

theorem bot_start_exact_witness:
  "fst (runBot cfg_t tg0 (bot0 0 [])) = Ret \<lparr>api_client = Socks5Client ''p:1'', api_token = ''T'', api_allow = {12, -7}\<rparr>"
proof -
  have "\<forall>x\<in>set [(12, 1, 0), (-7, 1, 0)]. in_i64 (fst x)" by (simp add: in_i64_def)
  moreover have "TgAllowUsers cfg_t = strings_Join (map padded [(12, 1, 0), (-7, 1, 0)]) '',''" by code_simp
  ultimately show ?thesis
    using bot_start_exact [of "[(12, 1, 0), (-7, 1, 0)]" cfg_t tg0 "bot0 0 []"]
    by (simp add: Let_def cfg_t_def tg0_def)
qed

section \<open>What is done for whom\<close>

definition log_of :: "'t botsys \<Rightarrow> nat option \<Rightarrow> outcall list" where
  "log_of s who = map snd (filter (\<lambda>e. fst e = who) (bs_log s))"

text \<open>The documents that \<open>us\<close> brings from allowed users, and the refusals the loop answers itself.\<close>

definition admitted :: "botAPI \<Rightarrow> update \<Rightarrow> (message \<times> document) list" where
  "admitted api u = (case u of
     Some msg \<Rightarrow> (case (m_From msg, m_Document msg) of
         (Some user, Some doc) \<Rightarrow> if u_ID user \<in> api_allow api then [(msg, doc)] else []
       | _ \<Rightarrow> [])
   | None \<Rightarrow> [])"

definition docs :: "botAPI \<Rightarrow> update list \<Rightarrow> (message \<times> document) list" where
  "docs api us = concat (map (admitted api) us)"

definition refused :: "botAPI \<Rightarrow> update \<Rightarrow> (message \<times> string) list" where
  "refused api u = (case u of
     Some msg \<Rightarrow> (case m_From msg of
         Some user \<Rightarrow> if u_ID user \<notin> api_allow api then [(msg, ''not authorized'')]
           else if m_Document msg = None then [(msg, ''send a .torrent file as a document'')] else []
       | None \<Rightarrow> [])
   | None \<Rightarrow> [])"

text \<open>A reply to a message as it goes out.\<close>

definition sent :: "botAPI \<Rightarrow> message \<Rightarrow> string \<Rightarrow> outcall \<Rightarrow> bool" where
  "sent api msg text c \<longleftrightarrow> (\<exists>chat r. m_Chat msg = Some chat \<and> c = CSend (api_client api) chat (m_MessageID msg) text r)"

text \<open>What a goroutine may have done when it is about to reply with a text, and at each of its points.\<close>

definition outcome_trace :: "'t tglib \<Rightarrow> env \<Rightarrow> botAPI \<Rightarrow> document \<Rightarrow> string \<Rightarrow> outcall list \<Rightarrow> bool" where
  "outcome_trace lib getenv api doc text cs \<longleftrightarrow>
     (let gf = CGetFile (api_client api) (FileID doc); hg = (\<lambda>f. CHttpGet (api_client api) (Link lib f (api_token api)));
          ig = CGorn (ignite_args getenv doc)
      in (\<exists>e. cs = [gf (Inl e)] \<and> text = ''telegram getFile failed: '' @ ErrText lib e)
       \<or> (\<exists>f e. cs = [gf (Inr f), hg f (Inl e)] \<and> text = ''download failed: '' @ ErrText lib e)
       \<or> (\<exists>f raw e. cs = [gf (Inr f), hg f (Inr (raw, Some e))] \<and> text = ''read failed: '' @ ErrText lib e)
       \<or> (\<exists>f raw e out. cs = [gf (Inr f), hg f (Inr (raw, None)), ig raw (Some e, out)]
            \<and> text = ''ignite failed: '' @ ErrText lib e)
       \<or> (\<exists>f raw out. cs = [gf (Inr f), hg f (Inr (raw, None)), ig raw (None, out)]
            \<and> text = ''queued: '' @ FileName doc @ ''  guid='' @ strings_TrimSpace out))"

fun trace_ok :: "'t tglib \<Rightarrow> env \<Rightarrow> botAPI \<Rightarrow> message \<times> document \<times> hphase \<Rightarrow> outcall list \<Rightarrow> bool" where
  "trace_ok lib getenv api (msg, doc, HStart) cs = (cs = [])"
| "trace_ok lib getenv api (msg, doc, HFile f) cs = (cs = [CGetFile (api_client api) (FileID doc) (Inr f)])"
| "trace_ok lib getenv api (msg, doc, HRaw raw) cs = (\<exists>f. cs = [CGetFile (api_client api) (FileID doc) (Inr f),
     CHttpGet (api_client api) (Link lib f (api_token api)) (Inr (raw, None))])"
| "trace_ok lib getenv api (msg, doc, HReply text) cs = outcome_trace lib getenv api doc text cs"
| "trace_ok lib getenv api (msg, doc, HDone) cs =
     (\<exists>text cs' c. cs = cs' @ [c] \<and> sent api msg text c \<and> outcome_trace lib getenv api doc text cs')"

fun weight :: "hphase \<Rightarrow> nat" where
  "weight HStart = 4"
| "weight (HFile f) = 3"
| "weight (HRaw raw) = 2"
| "weight (HReply t) = 1"
| "weight HDone = 0"

lemma handle_step_Ret:
  assumes "handle_step lib getenv api i msg doc ph s = (Ret ph', s')" and "ph \<noteq> HDone"
  shows "\<exists>t c. s' = s\<lparr>bs_ext := t, bs_log := bs_log s @ [(Some i, c)]\<rparr> \<and> weight ph' < weight ph
    \<and> (\<forall>cs. trace_ok lib getenv api (msg, doc, ph) cs \<longrightarrow> trace_ok lib getenv api (msg, doc, ph') (cs @ [c]))"
proof (cases ph)
  case (HReply tx)
  with assms(1) obtain chat r t where c: "m_Chat msg = Some chat" "ph' = HDone"
    "s' = s\<lparr>bs_ext := t, bs_log := bs_log s @ [(Some i, CSend (api_client api) chat (m_MessageID msg) tx r)]\<rparr>"
    by (auto simp: handle_step_def reply_def outside_def bindM_def ret_run panic_run split: prod.splits option.splits)
  moreover have "sent api msg tx (CSend (api_client api) chat (m_MessageID msg) tx r)" using c(1) by (simp add: sent_def)
  ultimately show ?thesis using HReply by auto
next
  case (HRaw raw)
  obtain err out t where g: "Gorn lib (ignite_args getenv doc) raw (bs_ext s) = ((err, out), t)" by (metis surj_pair)
  with HRaw assms show ?thesis
    by (intro exI [of _ t] exI [of _ "CGorn (ignite_args getenv doc) raw (err, out)"])
      (auto simp: handle_step_def outside_def bindM_def ret_run outcome_trace_def split: option.splits)
next
  case HStart
  obtain r t where g: "GetFile lib (api_client api) (FileID doc) (bs_ext s) = (r, t)" by fastforce
  with HStart assms show ?thesis
    by (intro exI [of _ t] exI [of _ "CGetFile (api_client api) (FileID doc) r"])
      (auto simp: handle_step_def outside_def bindM_def ret_run outcome_trace_def split: sum.splits)
next
  case (HFile f)
  let ?u = "Link lib f (api_token api)"
  obtain r t where g: "HttpGet lib (api_client api) ?u (bs_ext s) = (r, t)" by fastforce
  with HFile assms show ?thesis
    by (intro exI [of _ t] exI [of _ "CHttpGet (api_client api) ?u r"])
      (auto simp: handle_step_def outside_def bindM_def ret_run outcome_trace_def Let_def split: sum.splits option.splits)
qed (use assms in simp)

lemma handle_step_Panicked:
  "handle_step lib getenv api i msg doc ph s = (Panicked p, s') \<Longrightarrow> s' = s \<and> m_Chat msg = None"
  by (cases ph)
    (auto simp: handle_step_def outside_def bindM_def ret_run reply_def panic_run Let_def
      split: prod.splits sum.splits option.splits if_splits)

lemma handle_step_runs: "fst (handle_step lib getenv api i msg doc ph s) \<noteq> Blocked"
  by (cases ph)
    (auto simp: handle_step_def outside_def bindM_def ret_run reply_def panic_run Let_def
      split: prod.splits sum.splits option.splits if_splits)

lemma bot_update_Ret:
  assumes "bot_update lib api u s = (Ret (), s')"
  shows "bs_updates s' = bs_updates s \<and> bs_up s' = bs_up s
    \<and> bs_handlers s' = bs_handlers s @ map (\<lambda>(m, d). (m, d, HStart)) (admitted api u)
    \<and> (\<exists>cs. bs_log s' = bs_log s @ map (Pair None) cs \<and> list_all2 (\<lambda>(m, t). sent api m t) (refused api u) cs)"
  using assms
  by (auto simp: bot_update_def admitted_def refused_def reply_def outside_def bindM_def ret_run panic_run modifyM_run sent_def
      split: prod.splits option.splits if_splits intro!: exI [of _ "[_]"])

lemma bot_update_Panicked:
  "bot_update lib api u s = (Panicked p, s') \<Longrightarrow>
    s' = s \<and> admitted api u = [] \<and> (\<exists>m. u = Some m \<and> m_Chat m = None)"
  by (auto simp: bot_update_def admitted_def reply_def outside_def bindM_def ret_run panic_run modifyM_run
      split: prod.splits option.splits if_splits)

lemma bot_update_runs: "fst (bot_update lib api u s) \<noteq> Blocked"
  by (auto simp: bot_update_def reply_def outside_def bindM_def ret_run panic_run modifyM_run
      split: prod.splits option.splits if_splits)

section \<open>The invariant of every interleaving\<close>

definition bot_inv :: "'t tglib \<Rightarrow> env \<Rightarrow> botAPI \<Rightarrow> update list \<Rightarrow> 't botsys \<Rightarrow> bool" where
  "bot_inv lib getenv api us s \<longleftrightarrow> (\<exists>old. us = old @ bs_updates s
     \<and> map (\<lambda>(m, d, ph). (m, d)) (bs_handlers s) = docs api old
     \<and> (\<forall>i<length (bs_handlers s). trace_ok lib getenv api (bs_handlers s ! i) (log_of s (Some i)))
     \<and> (\<forall>i\<ge>length (bs_handlers s). log_of s (Some i) = [])
     \<and> (bs_up s \<longrightarrow> list_all2 (\<lambda>(m, t). sent api m t) (concat (map (refused api) old)) (log_of s None))
     \<and> (\<forall>c\<in>set (log_of s None). \<exists>m t. sent api m t c)
     \<and> (bs_up s \<or> (\<exists>m. Some m \<in> set us \<and> m_Chat m = None)))"

lemma log_of_append [simp]:
  "bs_log s' = bs_log s @ es \<Longrightarrow> log_of s' who = log_of s who @ map snd (filter (\<lambda>e. fst e = who) es)"
  by (simp add: log_of_def)

lemma log_of_cong: "bs_log s' = bs_log s \<Longrightarrow> log_of s' who = log_of s who"
  by (simp add: log_of_def)

lemma docs_append: "docs api (us @ vs) = docs api us @ docs api vs"
  by (simp add: docs_def)

lemma docs_members: "(m, d) \<in> set (docs api us) \<Longrightarrow>
    Some m \<in> set us \<and> m_Document m = Some d \<and> (\<exists>user. m_From m = Some user \<and> u_ID user \<in> api_allow api)"
  by (auto simp: docs_def admitted_def eq_commute [of "Some _"] split: option.splits if_splits)

lemma list_all2_sent: "list_all2 (\<lambda>(m, t). sent api m t) ps cs \<Longrightarrow> c \<in> set cs \<Longrightarrow> \<exists>m t. sent api m t c"
  by (induction ps cs rule: list_all2_induct) auto

lemma bot_inv_turn:
  assumes inv: "bot_inv lib getenv api us s" and u: "bs_up s" "bs_updates s = u # rest"
    and run: "bot_update lib api u (s\<lparr>bs_updates := rest\<rparr>) = (Ret (), s')"
  shows "bot_inv lib getenv api us s'"
proof -
  from inv u obtain old where old: "us = old @ u # rest" "map (\<lambda>(m, d, ph). (m, d)) (bs_handlers s) = docs api old"
    and tr: "\<forall>i<length (bs_handlers s). trace_ok lib getenv api (bs_handlers s ! i) (log_of s (Some i))"
      "\<forall>i\<ge>length (bs_handlers s). log_of s (Some i) = []"
    and lp: "list_all2 (\<lambda>(m, t). sent api m t) (concat (map (refused api) old)) (log_of s None)"
      "\<forall>c\<in>set (log_of s None). \<exists>m t. sent api m t c"
    by (auto simp: bot_inv_def)
  from bot_update_Ret [OF run] obtain cs where
    new: "bs_updates s' = rest" "bs_up s' = bs_up s" "bs_log s' = bs_log s @ map (Pair None) cs"
      "bs_handlers s' = bs_handlers s @ map (\<lambda>(m, d). (m, d, HStart)) (admitted api u)"
    and cs: "list_all2 (\<lambda>(m, t). sent api m t) (refused api u) cs" by auto
  have f: "map snd (filter (\<lambda>e. fst e = None) (map (Pair None) cs)) = cs"
    "\<And>i. map snd (filter (\<lambda>e. fst e = Some i) (map (Pair (None :: nat option)) cs)) = []"
    by (induction cs) auto
  have lo: "log_of s' None = log_of s None @ cs" "\<And>i. log_of s' (Some i) = log_of s (Some i)"
    unfolding log_of_append [OF new(3)] f by simp_all
  have "us = (old @ [u]) @ bs_updates s'" by (simp add: new(1) old(1))
  moreover have "map (\<lambda>(m, d, ph). (m, d)) (bs_handlers s') = docs api (old @ [u])"
    by (simp add: new(4) old(2) docs_append) (simp add: docs_def split_def comp_def)
  moreover have "\<forall>i<length (bs_handlers s'). trace_ok lib getenv api (bs_handlers s' ! i) (log_of s' (Some i))"
    using tr by (auto simp: new(4) lo nth_append split_def)
  moreover have "\<forall>i\<ge>length (bs_handlers s'). log_of s' (Some i) = []" using tr(2) by (simp add: new(4) lo)
  moreover have "list_all2 (\<lambda>(m, t). sent api m t) (concat (map (refused api) (old @ [u]))) (log_of s' None)"
    using lp(1) cs by (simp add: lo list_all2_appendI)
  moreover have "\<forall>c\<in>set (log_of s' None). \<exists>m t. sent api m t c"
    using lp(2) list_all2_sent [OF cs] by (auto simp: lo)
  ultimately show ?thesis unfolding bot_inv_def using new(2) u(1) by blast
qed

lemma bot_inv_handle:
  assumes inv: "bot_inv lib getenv api us s" and i: "bs_up s" "i < length (bs_handlers s)" "bs_handlers s ! i = (msg, doc, ph)"
    and run: "ph \<noteq> HDone" "handle_step lib getenv api i msg doc ph s = (Ret ph', s')"
  shows "bot_inv lib getenv api us (s'\<lparr>bs_handlers := (bs_handlers s)[i := (msg, doc, ph')]\<rparr>)" (is "bot_inv _ _ _ _ ?s")
proof -
  from inv obtain old where old: "us = old @ bs_updates s" "map (\<lambda>(m, d, ph). (m, d)) (bs_handlers s) = docs api old"
    and tr: "\<forall>i<length (bs_handlers s). trace_ok lib getenv api (bs_handlers s ! i) (log_of s (Some i))"
      "\<forall>i\<ge>length (bs_handlers s). log_of s (Some i) = []"
    and lp: "bs_up s \<longrightarrow> list_all2 (\<lambda>(m, t). sent api m t) (concat (map (refused api) old)) (log_of s None)"
      "\<forall>c\<in>set (log_of s None). \<exists>m t. sent api m t c"
    by (auto simp: bot_inv_def)
  from handle_step_Ret [OF run(2,1)] obtain t c where s': "s' = s\<lparr>bs_ext := t, bs_log := bs_log s @ [(Some i, c)]\<rparr>"
    and step: "\<forall>cs. trace_ok lib getenv api (msg, doc, ph) cs \<longrightarrow> trace_ok lib getenv api (msg, doc, ph') (cs @ [c])" by blast
  have lo: "log_of ?s None = log_of s None" "\<And>j. log_of ?s (Some j) = log_of s (Some j) @ (if j = i then [c] else [])"
    by (simp_all add: s' log_of_def)
  have "map (\<lambda>(m, d, ph). (m, d)) (bs_handlers ?s) = docs api old"
    using old(2) i(2,3) by (simp add: map_update) (metis (no_types, lifting) case_prod_conv list_update_id nth_map)
  moreover have "\<forall>j<length (bs_handlers ?s). trace_ok lib getenv api (bs_handlers ?s ! j) (log_of ?s (Some j))"
    using tr(1) step i(2,3) by (auto simp: lo nth_list_update)
  moreover have "\<forall>j\<ge>length (bs_handlers ?s). log_of ?s (Some j) = []" using tr(2) i(2) by (simp add: lo)
  ultimately show ?thesis unfolding bot_inv_def using lp old(1) i(1) by (intro exI [of _ old]) (simp add: lo s')
qed

lemma bot_inv_step: "bot_step lib getenv api s s' \<Longrightarrow> bot_inv lib getenv api us s \<Longrightarrow> bot_inv lib getenv api us s'"
proof (induction rule: bot_step.induct)
  case (turn s u rest s')
  then show ?case by (blast intro: bot_inv_turn)
next
  case (turn_panic s u rest p s')
  from bot_update_Panicked [OF turn_panic(3)] obtain m where
    s': "s' = s\<lparr>bs_updates := rest\<rparr>" "admitted api u = []" "u = Some m" "m_Chat m = None" by blast
  from turn_panic(4) turn_panic(2) obtain old where "us = old @ u # rest" "map (\<lambda>(m, d, ph). (m, d)) (bs_handlers s) = docs api old"
    "\<forall>i<length (bs_handlers s). trace_ok lib getenv api (bs_handlers s ! i) (log_of s (Some i))"
    "\<forall>i\<ge>length (bs_handlers s). log_of s (Some i) = []" "\<forall>c\<in>set (log_of s None). \<exists>m t. sent api m t c"
    by (auto simp: bot_inv_def)
  with s' show ?case
    unfolding bot_inv_def by (intro exI [of _ "old @ [u]"]) (auto simp: log_of_def docs_def)
next
  case (handle s i msg doc ph ph' s')
  then show ?case by (blast intro: bot_inv_handle)
next
  case (handle_panic s i msg doc ph p s')
  from handle_step_Panicked [OF handle_panic(5)] have s': "s' = s" "m_Chat msg = None" by auto
  from handle_panic(6) obtain old where old: "us = old @ bs_updates s" "map (\<lambda>(m, d, ph). (m, d)) (bs_handlers s) = docs api old"
    by (auto simp: bot_inv_def)
  have "(msg, doc) \<in> set (docs api old)"
    using handle_panic(2,3) unfolding old(2) [symmetric] by (force simp: in_set_conv_nth)
  then have "Some msg \<in> set us" using docs_members old(1) by fastforce
  with handle_panic(6) s' show ?case unfolding bot_inv_def by (auto simp: log_of_def)
qed

section \<open>Runs of the bot\<close>

text \<open>Where nothing can go on although the process is up: every update is taken, every document at its end.\<close>

definition bot_over :: "'t botsys \<Rightarrow> bool" where
  "bot_over s \<longleftrightarrow> (bs_up s \<longrightarrow> bs_updates s = [] \<and> (\<forall>i<length (bs_handlers s). snd (snd (bs_handlers s ! i)) = HDone))"

lemma bot_stuck_loop:
  assumes "\<nexists>s'. bot_step lib getenv api s s'" and "bs_up s"
  shows "bs_updates s = []"
proof (rule ccontr)
  assume "bs_updates s \<noteq> []"
  then obtain u rest where u: "bs_updates s = u # rest" by (meson neq_Nil_conv)
  obtain r s' where r: "bot_update lib api u (s\<lparr>bs_updates := rest\<rparr>) = (r, s')" by fastforce
  moreover have "r \<noteq> Blocked" using bot_update_runs [of lib api u "s\<lparr>bs_updates := rest\<rparr>"] r by simp
  ultimately show False
    using assms(1) turn [OF assms(2) u, of lib api s' getenv] turn_panic [OF assms(2) u, of lib api _ s' getenv]
    by (cases r) auto
qed

lemma bot_stuck_handler:
  assumes "\<nexists>s'. bot_step lib getenv api s s'" and "bs_up s" and i: "i < length (bs_handlers s)"
  shows "snd (snd (bs_handlers s ! i)) = HDone"
proof -
  obtain msg doc ph where h: "bs_handlers s ! i = (msg, doc, ph)" by (metis surj_pair)
  obtain r s' where r: "handle_step lib getenv api i msg doc ph s = (r, s')" by fastforce
  moreover have "r \<noteq> Blocked" using handle_step_runs [of lib getenv api i msg doc ph s] r by simp
  ultimately have "ph = HDone"
    using assms(1) handle [OF assms(2) i h, of lib getenv api _ s'] handle_panic [OF assms(2) i h, of lib getenv api _ s']
    by (cases r) auto
  with h show ?thesis by simp
qed

lemma bot_stuck: "\<nexists>s'. bot_step lib getenv api s s' \<Longrightarrow> bot_over s"
  unfolding bot_over_def using bot_stuck_loop bot_stuck_handler by blast

lemma admitted_weight: "(\<Sum>h\<leftarrow>map (\<lambda>(m, d). (m, d, HStart)) (admitted api u). weight (snd (snd h))) \<le> 4"
  by (auto simp: admitted_def split: option.splits)

lemma weight_update:
  assumes "i < length hs" and "hs ! i = (m, d, ph)" and "weight ph' < weight ph"
  shows "(\<Sum>h\<leftarrow>hs[i := (m, d, ph')]. weight (snd (snd h))) < (\<Sum>h\<leftarrow>hs. weight (snd (snd h)))"
proof -
  have "hs = take i hs @ (m, d, ph) # drop (Suc i) hs" using id_take_nth_drop [OF assms(1)] assms(2) by simp
  from arg_cong [OF this, of "\<lambda>hs. \<Sum>h\<leftarrow>hs. weight (snd (snd h))"] assms(1,3) show ?thesis
    by (simp add: upd_conv_take_nth_drop)
qed

definition bot_size :: "'t botsys \<Rightarrow> nat" where
  "bot_size s = 6 * length (bs_updates s) + (\<Sum>h\<leftarrow>bs_handlers s. weight (snd (snd h))) + of_bool (bs_up s)"

lemma bot_size_step: "bot_step lib getenv api s s' \<Longrightarrow> bot_size s' < bot_size s"
proof (induction rule: bot_step.induct)
  case (turn s u rest s')
  from bot_update_Ret [OF turn(3)] turn(1,2) admitted_weight [of api u] show ?case by (simp add: bot_size_def)
next
  case (turn_panic s u rest p s')
  from bot_update_Panicked [OF turn_panic(3)] turn_panic(1,2) show ?case by (simp add: bot_size_def)
next
  case (handle s i msg doc ph ph' s')
  from handle_step_Ret [OF handle(5,4)] have "weight ph' < weight ph" "bs_updates s' = bs_updates s" "bs_up s' = bs_up s" by auto
  with weight_update [OF handle(2,3)] show ?case by (simp add: bot_size_def)
next
  case (handle_panic s i msg doc ph p s')
  from handle_step_Panicked [OF handle_panic(5)] handle_panic(1) show ?case by (simp add: bot_size_def)
qed

interpretation bot: runs_to_goal "bot_step lib getenv api" "bot_inv lib getenv api us" bot_size bot_over for lib getenv api us
  by (unfold_locales, rule bot_inv_step, assumption+, erule bot_size_step, rule bot_stuck)

lemma bot_inv_run: "bot_run lib getenv api (bot0 t us) s \<Longrightarrow> bot_inv lib getenv api us s"
  by (erule bot.inv_run) (simp add: bot_inv_def bot0_def log_of_def docs_def)

section \<open>What users get\<close>

definition client_of :: "outcall \<Rightarrow> client option" where
  "client_of c = (case c of CGetFile cl _ _ \<Rightarrow> Some cl | CHttpGet cl _ _ \<Rightarrow> Some cl | CSend cl _ _ _ _ \<Rightarrow> Some cl
     | CGorn _ _ _ \<Rightarrow> None)"

definition is_job :: "outcall \<Rightarrow> bool" where
  "is_job c = (case c of CGorn _ _ _ \<Rightarrow> True | _ \<Rightarrow> False)"

lemma sent_facts: "sent api m t c \<Longrightarrow> client_of c = Some (api_client api) \<and> \<not> is_job c"
  by (auto simp: sent_def client_of_def is_job_def)

text \<open>A trace has at most one job, behind the two downloads whose result it gets as its input.\<close>

definition job_trace :: "'t tglib \<Rightarrow> env \<Rightarrow> botAPI \<Rightarrow> document \<Rightarrow> outcall list \<Rightarrow> outcall \<Rightarrow> bool" where
  "job_trace lib getenv api doc cs job \<longleftrightarrow> (\<exists>f raw r. job = CGorn (ignite_args getenv doc) raw r
     \<and> prefix [CGetFile (api_client api) (FileID doc) (Inr f),
         CHttpGet (api_client api) (Link lib f (api_token api)) (Inr (raw, None)), job] cs
     \<and> filter is_job cs = [job])"

lemma outcome_jobs:
  assumes "outcome_trace lib getenv api doc t cs"
  shows "(\<forall>c\<in>set cs. client_of c \<in> {None, Some (api_client api)}) \<and> (\<forall>c\<in>set cs. is_job c \<longrightarrow> job_trace lib getenv api doc cs c)"
  using assms unfolding outcome_trace_def Let_def
  by (elim disjE exE conjE) (auto simp: client_of_def is_job_def job_trace_def)

lemma job_trace_snoc: "job_trace lib getenv api doc cs j \<Longrightarrow> \<not> is_job c \<Longrightarrow> job_trace lib getenv api doc (cs @ [c]) j"
  unfolding job_trace_def by (elim exE conjE) (simp add: prefix_snoc, blast)

lemma trace_jobs:
  assumes "trace_ok lib getenv api (msg, doc, ph) cs"
  shows "(\<forall>c\<in>set cs. client_of c \<in> {None, Some (api_client api)}) \<and> (\<forall>c\<in>set cs. is_job c \<longrightarrow> job_trace lib getenv api doc cs c)"
proof (cases ph)
  case (HReply t)
  with assms outcome_jobs show ?thesis by simp
next
  case HDone
  with assms obtain t cs' c where c: "cs = cs' @ [c]" "sent api msg t c" "outcome_trace lib getenv api doc t cs'" by auto
  with sent_facts [OF c(2)] outcome_jobs [OF c(3)] job_trace_snoc [of lib getenv api doc cs' _ c] show ?thesis
    by auto
qed (use assms in \<open>auto simp: client_of_def is_job_def\<close>)

lemma log_of_mem: "(who, c) \<in> set (bs_log s) \<longleftrightarrow> c \<in> set (log_of s who)"
  by (force simp: log_of_def)

lemma docs_nth: "i < length (docs api old) \<Longrightarrow> docs api (old @ new) ! i = docs api old ! i \<and> i < length (docs api (old @ new))"
  by (simp add: docs_append nth_append)

text \<open>
  C22: only allowed users can start jobs, and a job is exactly what the user sent. In every interleaving of the loop and
  the goroutines: a run of \<^verbatim>\<open>gorn\<close> was made by the goroutine of one document message, whose sender is on the
  allow list; its arguments are those of \<open>ignite_args\<close> for this document, its input is the file
  that Telegram returned for this document's ID, read to the end without an error, and it is the only job of that
  message. All HTTP traffic goes through the one client, so through the proxy when there is one.
\<close>

theorem bot_gate:
  assumes "bot_run lib getenv api (bot0 t us) s" and "(who, c) \<in> set (bs_log s)"
  shows "client_of c \<in> {None, Some (api_client api)}
    \<and> (is_job c \<longrightarrow> (\<exists>i msg doc user. who = Some i \<and> i < length (docs api us) \<and> docs api us ! i = (msg, doc)
        \<and> Some msg \<in> set us \<and> m_From msg = Some user \<and> u_ID user \<in> api_allow api \<and> m_Document msg = Some doc
        \<and> job_trace lib getenv api doc (log_of s who) c))"
proof -
  from bot_inv_run [OF assms(1)] obtain old where old: "us = old @ bs_updates s"
      "map (\<lambda>(m, d, ph). (m, d)) (bs_handlers s) = docs api old"
    and tr: "\<forall>i<length (bs_handlers s). trace_ok lib getenv api (bs_handlers s ! i) (log_of s (Some i))"
      "\<forall>i\<ge>length (bs_handlers s). log_of s (Some i) = []"
    and lp: "\<forall>c\<in>set (log_of s None). \<exists>m t. sent api m t c"
    by (auto simp: bot_inv_def)
  have c: "c \<in> set (log_of s who)" using assms(2) log_of_mem by blast
  show ?thesis
  proof (cases who)
    case None
    with lp c obtain m t where "sent api m t c" by blast
    from sent_facts [OF this] show ?thesis by simp
  next
    case (Some i)
    with tr(2) c have i: "i < length (bs_handlers s)" by (metis empty_iff list.set(1) not_le_imp_less)
    obtain msg doc ph where h: "bs_handlers s ! i = (msg, doc, ph)" by (metis surj_pair)
    with tr(1) i Some have t: "trace_ok lib getenv api (msg, doc, ph) (log_of s who)" by metis
    have li: "i < length (docs api old)" "docs api old ! i = (msg, doc)"
      using i h unfolding old(2) [symmetric] by simp_all
    from docs_nth [OF li(1), of "bs_updates s"] li(2) have n: "docs api us ! i = (msg, doc)" "i < length (docs api us)"
      by (simp_all add: old(1) [symmetric])
    then have "(msg, doc) \<in> set (docs api us)" by (metis nth_mem)
    from docs_members [OF this] n trace_jobs [OF t] c Some show ?thesis by metis
  qed
qed

text \<open>
  C31: every message gets its answer. In every interleaving: the process can only end through a message without a
  chat; no run is infinite; and when nothing can go on, every update was processed, every refused
  message has exactly its one reply, in order, and every document of an allowed user has been taken to its end: one of the five outcomes,
  followed by exactly one reply to the sender's chat with the text of that outcome.
\<close>

theorem bot_answers:
  assumes "bot_run lib getenv api (bot0 t us) s"
  shows "(bs_up s \<or> (\<exists>m. Some m \<in> set us \<and> m_Chat m = None))
    \<and> (bs_up s \<and> (\<nexists>s'. bot_step lib getenv api s s') \<longrightarrow>
        list_all2 (\<lambda>(m, t). sent api m t) (concat (map (refused api) us)) (log_of s None)
        \<and> (\<forall>i<length (docs api us). \<exists>text cs c. log_of s (Some i) = cs @ [c]
             \<and> sent api (fst (docs api us ! i)) text c \<and> outcome_trace lib getenv api (snd (docs api us ! i)) text cs)
        \<and> (\<forall>i\<ge>length (docs api us). log_of s (Some i) = []))
    \<and> wfp (\<lambda>s' s. bot_step lib getenv api s s')"
proof -
  from bot_inv_run [OF assms(1)] obtain old where old: "us = old @ bs_updates s"
      "map (\<lambda>(m, d, ph). (m, d)) (bs_handlers s) = docs api old"
    and tr: "\<forall>i<length (bs_handlers s). trace_ok lib getenv api (bs_handlers s ! i) (log_of s (Some i))"
      "\<forall>i\<ge>length (bs_handlers s). log_of s (Some i) = []"
    and lp: "bs_up s \<longrightarrow> list_all2 (\<lambda>(m, t). sent api m t) (concat (map (refused api) old)) (log_of s None)"
    and up: "bs_up s \<or> (\<exists>m. Some m \<in> set us \<and> m_Chat m = None)"
    unfolding bot_inv_def by (elim exE conjE) (rule that)
  have fin: "bs_updates s = [] \<and> (\<forall>i<length (bs_handlers s). snd (snd (bs_handlers s ! i)) = HDone)"
    if "bs_up s" "\<nexists>s'. bot_step lib getenv api s s'"
    using bot_stuck [OF that(2)] that(1) by (simp add: bot_over_def)
  have "list_all2 (\<lambda>(m, t). sent api m t) (concat (map (refused api) us)) (log_of s None)
        \<and> (\<forall>i<length (docs api us). \<exists>text cs c. log_of s (Some i) = cs @ [c]
             \<and> sent api (fst (docs api us ! i)) text c \<and> outcome_trace lib getenv api (snd (docs api us ! i)) text cs)
        \<and> (\<forall>i\<ge>length (docs api us). log_of s (Some i) = [])"
    if st: "bs_up s" "\<nexists>s'. bot_step lib getenv api s s'"
  proof -
    from fin [OF st] old(1) have us: "us = old" by simp
    have len: "length (docs api us) = length (bs_handlers s)" unfolding us old(2) [symmetric] by simp
    have "\<exists>text cs c. log_of s (Some i) = cs @ [c]
             \<and> sent api (fst (docs api us ! i)) text c \<and> outcome_trace lib getenv api (snd (docs api us ! i)) text cs"
      if i: "i < length (bs_handlers s)" for i
    proof -
      obtain msg doc where h: "bs_handlers s ! i = (msg, doc, HDone)" using fin [OF st] i by (metis prod.collapse)
      have "docs api us ! i = (msg, doc)" using h i unfolding us old(2) [symmetric] by simp
      with tr(1) i h show ?thesis by (metis fst_conv snd_conv trace_ok.simps(5))
    qed
    with lp st(1) tr(2) len us show ?thesis by simp
  qed
  with up bot.steps_wf [of lib getenv api] show ?thesis by blast
qed

text \<open>A stranger, then a document of user 12.\<close>

definition api_t :: botAPI where
  "api_t = \<lparr>api_client = Socks5Client ''p:1'', api_token = ''T'', api_allow = {12, -7}\<rparr>"

definition env_t :: env where
  "env_t v = (if v = ''S3_BUCKET'' then ''b'' else '''')"

definition msg_t :: "int \<Rightarrow> message" where
  "msg_t i = \<lparr>m_From = Some \<lparr>u_ID = i, u_UserName = ''u''\<rparr>, m_Chat = Some 5, m_MessageID = i,
     m_Document = Some \<lparr>FileID = ''f'', FileName = ''x'', FileSize = 2\<rparr>\<rparr>"

abbreviation doc_t :: document where
  "doc_t \<equiv> \<lparr>FileID = ''f'', FileName = ''x'', FileSize = 2\<rparr>"

definition args_t :: "string list" where
  "args_t = [''ignite'', ''--root'', ''samogon'', ''--descr'', ''samogon fetch x'', ''--retry-error'', ''--env'', ''S3_BUCKET=b'',
     ''--'', ''samogon'', ''fetch'']"

lemma ignite_args_t: "ignite_args env_t doc_t = args_t"
  by code_simp

definition log_t :: "(nat option \<times> outcall) list" where
  "log_t = [(None, CSend (Socks5Client ''p:1'') 5 13 ''not authorized'' None),
     (Some 0, CGetFile (Socks5Client ''p:1'') ''f'' (Inr ''f'')),
     (Some 0, CHttpGet (Socks5Client ''p:1'') ''T/f'' (Inr ([1, 2], None))),
     (Some 0, CGorn args_t [1, 2] (None, '' g1 '')),
     (Some 0, CSend (Socks5Client ''p:1'') 5 12 ''queued: x  guid=g1'' None)]"

definition state_t :: "nat \<Rightarrow> nat \<Rightarrow> hphase list \<Rightarrow> update list \<Rightarrow> nat botsys" where
  "state_t t n phs us = \<lparr>bs_ext = t, bs_log = take n log_t, bs_updates = us, bs_handlers = map (\<lambda>ph. (msg_t 12, doc_t, ph)) phs, bs_up = True\<rparr>"

lemma state_t_handle:
  assumes "handle_step tg0 env_t api_t 0 (msg_t 12) doc_t ph (state_t t n [ph] []) = (Ret ph', (state_t t' m [ph] []))" and "ph \<noteq> HDone"
  shows "bot_step tg0 env_t api_t (state_t t n [ph] []) (state_t t' m [ph'] [])"
  using handle [of "state_t t n [ph] []" 0 "msg_t 12" doc_t ph tg0 env_t api_t ph'] assms by (simp add: state_t_def)

lemma state_t_run:
  assumes "handle_step tg0 env_t api_t 0 (msg_t 12) doc_t ph (state_t t n [ph] []) = (Ret ph', (state_t t' m [ph] []))" and "ph \<noteq> HDone"
    and "bot_run tg0 env_t api_t (state_t t' m [ph'] []) s"
  shows "bot_run tg0 env_t api_t (state_t t n [ph] []) s"
  using state_t_handle [OF assms(1,2)] assms(3) by (rule converse_rtranclp_into_rtranclp)

lemma run_t: "bot_run tg0 env_t api_t (bot0 0 [Some (msg_t 13), Some (msg_t 12)]) (state_t 1 5 [HDone] [])"
proof -
  note defs = state_t_def log_t_def bindM_def outside_def ret_run tg0_def api_t_def msg_t_def
  have sp: "strings_TrimSpace '' g1 '' = ''g1''"
  proof -
    have "\<forall>c\<in>set ''g1''. of_char c \<in> {33..126 :: int}" by code_simp
    from TrimSpace_blanks [OF _ this, of 1 1] show ?thesis by (simp add: blanks_def)
  qed
  have h: "handle_step tg0 env_t api_t 0 (msg_t 12) doc_t HStart (state_t 0 1 [HStart] []) = (Ret (HFile ''f''), state_t 0 2 [HStart] [])"
    "handle_step tg0 env_t api_t 0 (msg_t 12) doc_t (HFile ''f'') (state_t 0 2 [HFile ''f''] []) = (Ret (HRaw [1, 2]), state_t 0 3 [HFile ''f''] [])"
    "handle_step tg0 env_t api_t 0 (msg_t 12) doc_t (HRaw [1, 2]) (state_t 0 3 [HRaw [1, 2]] [])
      = (Ret (HReply ''queued: x  guid=g1''), state_t 1 4 [HRaw [1, 2]] [])"
    "handle_step tg0 env_t api_t 0 (msg_t 12) doc_t (HReply ''queued: x  guid=g1'') (state_t 1 4 [HReply ''queued: x  guid=g1''] [])
      = (Ret HDone, state_t 1 5 [HReply ''queued: x  guid=g1''] [])"
    by (simp_all add: handle_step_def reply_def ignite_args_t) (simp_all add: defs sp numeral_nat)
  have "bot_step tg0 env_t api_t (bot0 0 [Some (msg_t 13), Some (msg_t 12)]) (state_t 0 1 [] [Some (msg_t 12)])"
    by (rule turn [of _ "Some (msg_t 13)" "[Some (msg_t 12)]"]) (simp_all add: bot0_def bot_update_def reply_def defs)
  moreover have "bot_step tg0 env_t api_t (state_t 0 1 [] [Some (msg_t 12)]) (state_t 0 1 [HStart] [])"
    by (rule turn [of _ "Some (msg_t 12)" "[]"]) (simp_all add: bot_update_def modifyM_run defs)
  moreover have "bot_run tg0 env_t api_t (state_t 0 1 [HStart] []) (state_t 1 5 [HDone] [])"
    by (rule state_t_run [OF h(1)], simp, rule state_t_run [OF h(2)], simp, rule state_t_run [OF h(3)], simp,
        rule state_t_run [OF h(4)], simp, rule rtranclp.rtrancl_refl)
  ultimately show ?thesis by (meson converse_rtranclp_into_rtranclp)
qed

lemma log_of_t: "bs_log (state_t 1 5 [HDone] []) = log_t"
  by (simp add: state_t_def log_t_def)

lemma docs_t: "docs api_t [Some (msg_t 13), Some (msg_t 12)] = [(msg_t 12, doc_t)]"
  by (simp add: docs_def admitted_def msg_t_def api_t_def)

theorem bot_gate_witness:
  "\<exists>s. bot_run tg0 env_t api_t (bot0 0 [Some (msg_t 13), Some (msg_t 12)]) s
    \<and> job_trace tg0 env_t api_t doc_t (log_of s (Some 0)) (CGorn args_t [1, 2] (None, '' g1 ''))"
proof -
  have m: "(Some 0, CGorn args_t [1, 2] (None, '' g1 '')) \<in> set (bs_log (state_t 1 5 [HDone] []))"
    unfolding log_of_t by (simp add: log_t_def)
  from bot_gate [OF run_t m] docs_t have "job_trace tg0 env_t api_t doc_t (log_of (state_t 1 5 [HDone] []) (Some 0)) (CGorn args_t [1, 2] (None, '' g1 ''))"
    by (auto simp: is_job_def)
  with run_t show ?thesis by blast
qed

theorem bot_answers_witness:
  "\<exists>s. bot_run tg0 env_t api_t (bot0 0 [Some (msg_t 13), Some (msg_t 12)]) s \<and> bs_up s
    \<and> list_all2 (\<lambda>(m, t). sent api_t m t) [(msg_t 13, ''not authorized'')] (log_of s None)
    \<and> (\<exists>text cs c. log_of s (Some 0) = cs @ [c] \<and> sent api_t (msg_t 12) text c \<and> outcome_trace tg0 env_t api_t doc_t text cs)"
proof -
  let ?s = "state_t 1 5 [HDone] []"
  have up: "bs_up ?s" by (simp add: state_t_def)
  have "\<not> bot_step tg0 env_t api_t ?s s'" for s'
    by (rule notI, erule bot_step.cases) (auto simp: state_t_def)
  moreover have "concat (map (refused api_t) [Some (msg_t 13), Some (msg_t 12)]) = [(msg_t 13, ''not authorized'')]"
    by (simp add: refused_def msg_t_def api_t_def)
  ultimately show ?thesis using bot_answers [OF run_t] run_t up docs_t by (intro exI [of _ ?s]) auto
qed

end
