(* ===== verification/Effects.thy ===== *)
theory Effects
  imports Gc Repack Fetch Get2 Serve Bench
begin

text \<open>
  What each subcommand can change in the object service, whatever the service answers and wherever the run
  ends: one rule for each operation of the store, and from them one fact for each \<open>run\<close> function.
  \<open>only objs f Q\<close> says that the objects are those of \<open>f\<close>, except where \<open>Q\<close> allows the value.
\<close>

section \<open>Operations of the store\<close>

definition only :: "'s view \<Rightarrow> (string \<Rightarrow> string \<Rightarrow> bytes option) \<Rightarrow> (string \<Rightarrow> string \<Rightarrow> bytes option \<Rightarrow> bool)
    \<Rightarrow> ('s, 'z) world_scheme \<Rightarrow> bool" where
  "only objs f Q w \<longleftrightarrow> (\<forall>b k. objs (w_s3 w) b k = f b k \<or> Q b k (objs (w_s3 w) b k))"

lemma only_cong: "objs (w_s3 w') = objs (w_s3 w) \<Longrightarrow> only objs f Q w' = only objs f Q w"
  by (simp add: only_def)

lemma keeps_call:
  assumes "\<And>s r s'. g s = (r, s') \<Longrightarrow> objs s' = objs s"
  shows "keeps (only objs f Q) (call g)"
proof (rule keepsI)
  fix w r w' assume o: "only objs f Q w" and r: "call g w = (r, w')"
  obtain x s' where g: "g (w_s3 w) = (x, s')" by fastforce
  then have "objs (w_s3 w') = objs (w_s3 w)" using r assms [OF g] by (auto simp: call_def)
  with o show "only objs f Q w'" using only_cong by blast
qed

lemma keeps_call_put:
  assumes "\<And>s r s'. g s = (r, s') \<Longrightarrow> objs s' = objs s \<or> objs s' = upd2 (objs s) b k v" and "Q b k v"
  shows "keeps (only objs f Q) (call g)"
proof (rule keepsI)
  fix w r w' assume o: "only objs f Q w" and r: "call g w = (r, w')"
  obtain x s' where g: "g (w_s3 w) = (x, s')" by fastforce
  then have w: "w' = w\<lparr>w_s3 := s'\<rparr>" using r by (simp add: call_def)
  from assms(1) [OF g] show "only objs f Q w'"
    by (elim disjE; use o assms(2) in \<open>simp add: w only_def upd2_def\<close>)
qed

lemma keeps_same: "(\<And>w. w_s3 (g w) = w_s3 w) \<Longrightarrow> keeps (only objs f Q) (modifyM g)"
  by (rule keeps_modifyM) (simp add: only_def)

lemma keeps_reads:
  assumes "s3_laws cli objs"
  shows "keeps (only objs f Q) (Stat cfg cli k)" "keeps (only objs f Q) (Cat cfg cli k)"
    "keeps (only objs f Q) (List cfg cli k)" "keeps (only objs f Q) (ListStream cfg cli k)"
    "keeps (only objs f Q) (ListPieces cfg cli)" "keeps (only objs f Q) (get2Fetch cfg cli k)"
proof -
  have h: "keeps (only objs f Q) (call (HeadObject cli b k))"
    and g: "keeps (only objs f Q) (call (GetObject cli b k))"
    and l: "keeps (only objs f Q) (call (ListPages cli b k))" for b k
    by (rule keeps_call; use assms in \<open>simp add: s3_laws_def head_law_def get_law_def list_law_def\<close>)+
  have p: "keeps I (list_pages pfx ks pages)" for I :: "'w \<Rightarrow> bool" and pfx ks pages
    by (induction pfx ks pages rule: list_pages.induct) (auto intro!: keeps_intros)
  show "keeps (only objs f Q) (Stat cfg cli k)" unfolding Stat_def by (intro keeps_intros h)
  show "keeps (only objs f Q) (Cat cfg cli k)" unfolding Cat_def
    by (intro keeps_intros g) (auto split: sum.split intro!: keeps_intros)
  show "keeps (only objs f Q) (get2Fetch cfg cli k)" unfolding get2Fetch_def
    by (intro keeps_intros g) (auto split: sum.split prod.split intro!: keeps_intros)
  show "keeps (only objs f Q) (List cfg cli k)" unfolding List_def by (intro keeps_intros l p)
  show "keeps (only objs f Q) (ListStream cfg cli k)" unfolding ListStream_def by (intro keeps_intros l)
  show "keeps (only objs f Q) (ListPieces cfg cli)" unfolding ListPieces_def List_def by (intro keeps_intros l p)
qed

lemma keeps_PutBytes:
  assumes "s3_laws cli objs" and "Q (S3Bucket cfg) k (Some d)"
  shows "keeps (only objs f Q) (PutBytes cfg cli k d)"
proof -
  have "keeps (only objs f Q) (call (PutObject cli (S3Bucket cfg) k d))"
    by (rule keeps_call_put [where Q = Q and b = "S3Bucket cfg" and k = k and v = "Some d", OF _ assms(2)])
      (use assms(1) in \<open>unfold s3_laws_def put_law_def, blast\<close>)
  then show ?thesis unfolding PutBytes_def
    by (intro keeps_intros) (auto split: option.split intro!: keeps_intros keeps_same)
qed

lemma keeps_Delete:
  assumes "s3_laws cli objs" and "Q (S3Bucket cfg) k None"
  shows "keeps (only objs f Q) (Delete cfg cli k)"
proof -
  have "keeps (only objs f Q) (call (DeleteObject cli (S3Bucket cfg) k))"
    by (rule keeps_call_put [where Q = Q and b = "S3Bucket cfg" and k = k and v = None, OF _ assms(2)])
      (use assms(1) in \<open>unfold s3_laws_def delete_law_def, blast\<close>)
  then show ?thesis unfolding Delete_def
    by (intro keeps_intros) (auto split: option.split intro!: keeps_intros)
qed

lemma keeps_cache [keeps_intros]:
  "keeps (only objs f Q) (cacheGet h)" "keeps (only objs f Q) (cachePut h d)" "keeps (only objs f Q) (spawn h)"
  by (simp_all add: keeps_def only_def cacheGet_run cachePut_def spawn_def modifyM_run)

text \<open>Where the value that was read matters.\<close>

lemma keeps_getM_bind:
  assumes "\<And>w. I w \<Longrightarrow> keeps I (h (g w))"
  shows "keeps I (bindM (getM g) h)"
  using assms by (auto simp: keeps_def)

section \<open>fetch\<close>

text \<open>Objects stay or are overwritten, and only pieces and torrents are written.\<close>

definition adds :: "Config \<Rightarrow> string \<Rightarrow> string \<Rightarrow> bytes option \<Rightarrow> bool" where
  "adds cfg b k v \<longleftrightarrow> b = S3Bucket cfg \<and> v \<noteq> None \<and> (\<exists>h. k = KeyPiece cfg h \<or> k = KeyTorrent cfg h)"

lemma adds_simps [simp]: "adds cfg (S3Bucket cfg) (KeyPiece cfg h) (Some d)" "adds cfg (S3Bucket cfg) (KeyTorrent cfg h) (Some d)"
  by (auto simp: adds_def)

lemma keeps_piece [keeps_intros]:
  fixes objs :: "'s view"
  shows "keeps (only objs f Q) (pieceOf idx :: (('s, 'z) samogonStorage_scheme, pieceState) prog)"
    "keeps (only objs f Q) (setPiece idx g :: (('s, 'z) samogonStorage_scheme, unit) prog)"
    "keeps (only objs f Q) (stateFor idx hash len :: (('s, 'z) samogonStorage_scheme, unit) prog)"
    "keeps (only objs f Q) (acquireBuf cfg :: (('s, 'z) samogonStorage_scheme, unit) prog)"
    "keeps (only objs f Q) (releaseBuf :: (('s, 'z) samogonStorage_scheme, unit) prog)"
  unfolding pieceOf_def setPiece_def stateFor_def acquireBuf_def releaseBuf_def
  by (intro keeps_intros keeps_same; auto split: option.split intro!: keeps_intros)+

text \<open>Of the calls of the client only \<open>MarkComplete\<close> writes.\<close>

lemma keeps_run_call_reads:
  assumes "s3_laws cli objs" and "\<And>i. c \<noteq> CComplete i"
  shows "keeps (only objs f Q) (run_call cfg cli c)"
proof (cases c)
  case (CComplete i)
  with assms(2) show ?thesis by blast
next
  case (CRead i n off)
  have "keeps (only objs f Q) (piece_ReadAt cfg cli i n off)"
    unfolding piece_ReadAt_def
    by (intro keeps_intros) (auto split: option.split intro!: keeps_intros keeps_reads [OF assms(1)] keeps_read_from)
  with CRead show ?thesis by (auto simp: ignore_def intro!: keeps_intros)
qed (auto simp: ignore_def pieceFn_def piece_WriteAt_def MarkNotComplete_def Completion_def Let_def
    split: option.split intro!: keeps_intros)

lemma keeps_run_call_only:
  assumes "s3_laws cli objs"
  shows "keeps (only objs f (adds cfg)) (run_call cfg cli c)"
proof (cases "\<exists>i. c = CComplete i")
  case True
  then obtain i where c: "c = CComplete i" by blast
  have "keeps (only objs f (adds cfg)) (MarkComplete cfg cli i)"
    unfolding MarkComplete_def runCatch_def Let_def
    by (intro keeps_intros keeps_PutBytes [OF assms]) (auto split: sum.split intro!: keeps_intros)
  with c show ?thesis by (auto simp: ignore_def intro!: keeps_intros)
next
  case False
  then show ?thesis by (intro keeps_run_call_reads [OF assms]) simp
qed

lemma keeps_runFetch:
  assumes "s3_laws cli objs"
  shows "keeps (only objs f (adds cfg)) (runFetch cfg cli lib env)"
  unfolding runFetch_def newSamogonStorage_def Let_def
  by (intro keeps_intros keeps_reads [OF assms] keeps_run_call_only [OF assms] keeps_PutBytes [OF assms] keeps_same) simp_all

section \<open>The readers\<close>

lemma keeps_only_Reload:
  assumes "s3_laws cli objs" shows "keeps (only objs f Q) (Reload cfg cli lib order)"
  by (rule keeps_Reload [OF keeps_reads(2) [OF assms] keeps_reads(3) [OF assms]]) (simp add: only_def)

lemma keeps_only_prefetch:
  assumes "s3_laws cli objs" shows "keeps (only objs f Q) (prefetch sf cfg cli h)"
  unfolding prefetch_def by (intro keeps_intros keeps_reads [OF assms])

lemma keeps_only_getPiece_busy:
  assumes "s3_laws cli objs" shows "keeps (only objs f Q) (getPiece_busy sf cfg cli bg hashes i)"
  by (rule keeps_getPiece_busy [OF _ _ keeps_only_prefetch [OF assms]]) (intro keeps_intros keeps_reads [OF assms]; assumption)+

lemma keeps_only_getPiece:
  assumes "s3_laws cli objs" shows "keeps (only objs f Q) (getPiece sf cfg cli hashes i)"
  using keeps_only_getPiece_busy [OF assms, where bg = "\<lambda>_. alone"] by (simp add: getPiece_busy_idle)

lemma keeps_only_ReadAt:
  assumes "s3_laws cli objs" shows "keeps (only objs f Q) (ReadAt sf cfg cli v n off)"
  unfolding ReadAt_def by (intro keeps_ReadAt_with keeps_only_getPiece [OF assms])

lemma get_loop_keeps:
  assumes "\<And>k i. keeps I (get k i)" and "\<And>d. keeps I (put d)"
  shows "I w \<Longrightarrow> I (snd (get_loop get v chunk put k off w))"
  using assms
proof (induction get v chunk put k off w rule: get_loop.induct)
  case (1 get v chunk put k off w)
  show ?case
  proof (cases "off < Size (vf_file v) \<and> chunk \<noteq> 0")
    case True
    let ?want = "if int chunk > Size (vf_file v) - off then nat (Size (vf_file v) - off) else chunk"
    obtain r w1 where r: "ReadAt_with (get k) v ?want off w = (r, w1)" by fastforce
    have I1: "I w1" using keepsD [OF keeps_ReadAt_with [OF "1.prems"(2)] "1.prems"(1) r] .
    show ?thesis
    proof (cases "\<exists>p err. r = Ret (p, err)")
      case rt: True
      then obtain p err where p: "r = Ret (p, err)" by blast
      obtain r2 w2 where r2: "(if p \<noteq> [] then put p else ret ()) w1 = (r2, w2)" by fastforce
      have "keeps I (if p \<noteq> [] then put p else ret ())" by (intro keeps_intros "1.prems"(3))
      from keepsD [OF this I1 r2] have I2: "I w2" .
      show ?thesis
      proof (cases "r2 = Ret () \<and> err = None")
        case go: True
        have "I (snd (get_loop get v chunk put (k + 1) (off + int (length p)) w2))"
          by (rule "1.IH" [OF _ _ refl refl r [symmetric, unfolded p] refl refl r2 [symmetric] _ refl])
            (use True go p I2 "1.prems" in simp_all)
        then show ?thesis using True go r r2 p by (subst get_loop.simps) (simp add: Let_def)
      next
        case stop: False
        then show ?thesis using True r r2 p I2
          by (subst get_loop.simps) (auto simp: Let_def throw_run ThrowFmt_run split: outcome.split option.split)
      qed
    next
      case False
      then show ?thesis using True r I1
        by (subst get_loop.simps) (auto simp: Let_def split: outcome.split)
    qed
  next
    case False
    with "1.prems" show ?thesis by (subst get_loop.simps) auto
  qed
qed

lemma keeps_get_loop:
  assumes "\<And>k i. keeps I (get k i)" and "\<And>d. keeps I (put d)"
  shows "keeps I (get_loop get v chunk put k off)"
  unfolding keeps_def [of I "get_loop get v chunk put k off"] by (intro allI impI) (rule get_loop_keeps [OF assms])

lemma keeps_only_runGet:
  assumes "s3_laws cli objs"
  shows "keeps (only objs f Q) (runGet sf cfg cli lib order bg disk opts)"
proof -
  have w: "keeps (only objs f Q) (write_out disk d)" for d
    unfolding write_out_def by (intro keeps_intros keeps_same) (auto split: prod.split intro!: keeps_intros keeps_same)
  have c: "keeps (only objs f Q) (os_Create disk p)" for p
    unfolding os_Create_def by (intro keeps_intros keeps_same) simp
  have l: "keeps (only objs f Q) (get_loop (\<lambda>k. getPiece_busy sf cfg cli (bg k) hs) v n (write_out disk) 0 0)" for hs v n
    by (intro keeps_get_loop keeps_only_getPiece_busy [OF assms] w)
  have p: "keeps I (pick_file tm tname fpath)" for I :: "'w \<Rightarrow> bool" and tm tname fpath
    unfolding pick_file_def by (auto split: option.split list.split intro!: keeps_intros)
  show ?thesis
    unfolding runGet_def get_file_def ByName_def Names_def
    by (intro keeps_intros keeps_same keeps_only_Reload [OF assms])
      (auto split: prod.split option.split intro!: keeps_intros c l p)
qed

lemma keeps_only_runGet2:
  assumes "s3_laws cli objs"
  shows "keeps (only objs f Q) (runGet2 cfg cli lib order shuffle sched opts)"
proof -
  have o: "keeps (only objs f Q) (get2_one cfg cli h)" for h
    unfolding get2_one_def
    by (intro keeps_intros keeps_same) (auto split: prod.split option.split intro!: keeps_intros keeps_same keeps_reads [OF assms])
  have h: "keeps I (hashes_at tm is)" for I :: "'w \<Rightarrow> bool" and tm "is"
    by (induction "is") (auto simp: go_index_def intro!: keeps_intros)
  have r: "keeps (only objs f Q) (resolveHashes target)" for target
    unfolding resolveHashes_def file_hashes_def ByName_def Let_def
    by (auto split: prod.split option.split intro!: keeps_intros h)
  show ?thesis
    unfolding runGet2_def get2_workers_def Let_def
    by (intro keeps_intros keeps_same keeps_only_Reload [OF assms] r o) simp_all
qed

lemma keeps_only_runServe:
  assumes "s3_laws cli objs" and "\<forall>s. Outside s \<notin> set events" and "only objs f Q w"
    and "runServe sf cfg cli lib order srt ssh listen events w = (r, w')"
  shows "only objs f Q w'"
proof (rule keeps_runServe [OF keeps_only_Reload [OF assms(1)] _ _ assms(4)])
  fix e assume "e \<in> set events"
  then show "keeps (only objs f Q) (serve_event sf cfg cli lib order srt e)"
    by (intro keeps_serve_event keeps_only_Reload [OF assms(1)] keeps_only_ReadAt [OF assms(1)] keeps_only_prefetch [OF assms(1)])
      (use assms(2) in auto)
qed (use assms(3) in \<open>simp add: only_def serve_reset_def\<close>)

section \<open>repack\<close>

lemma Read_keeps:
  assumes "\<And>i. keeps I (get i)"
  shows "I w \<Longrightarrow> I (snd (Read get nh plen s acc w))"
  using assms
proof (induction get nh plen s acc w rule: Read.induct)
  case (1 get nh plen s acc w)
  have t: "keeps I (Read_turn get k s)" for k
    unfolding Read_turn_def Let_def using "1.prems"(2)
    by (intro keeps_intros) (auto split: option.split prod.split intro!: keeps_intros)
  show ?case
  proof (cases "length acc < plen \<and> st_cur s < nh")
    case True
    obtain r w1 where r: "Read_turn get (plen - length acc) s w = (r, w1)" by fastforce
    have I1: "I w1" using keepsD [OF t "1.prems"(1) r] .
    show ?thesis
    proof (cases "\<exists>c s'. r = Ret (c, s')")
      case go: True
      then obtain c s' where c: "r = Ret (c, s')" by blast
      have "I (snd (Read get nh plen s' (acc @ c) w1))"
        by (rule "1.IH" [OF _ _ r [symmetric, unfolded c] refl refl I1]) (use True "1.prems" in simp_all)
      with True r c show ?thesis by (subst Read.simps) simp
    next
      case False
      with True r I1 show ?thesis by (subst Read.simps) (auto split: outcome.split)
    qed
  next
    case False
    with "1.prems" show ?thesis by (subst Read.simps) auto
  qed
qed

lemma keeps_Read:
  assumes "\<And>i. keeps I (get i)" shows "keeps I (Read get nh plen s acc)"
  unfolding keeps_def [of I "Read get nh plen s acc"] by (intro allI impI) (rule Read_keeps [OF assms])

lemma ReadFull_keeps:
  assumes "\<And>i. keeps I (get i)"
  shows "I w \<Longrightarrow> I (snd (ReadFull get nh plen s acc w))"
  using assms
proof (induction get nh plen s acc w rule: ReadFull.induct)
  case (1 get nh plen s acc w)
  show ?case
  proof (cases "length acc < plen")
    case True
    obtain r w1 where r: "Read get nh (plen - length acc) s [] w = (r, w1)" by fastforce
    have I1: "I w1" using keepsD [OF keeps_Read [OF "1.prems"(2)] "1.prems"(1) r] .
    show ?thesis
    proof (cases "\<exists>bs s'. r = Ret ((bs, None), s')")
      case go: True
      then obtain bs s' where c: "r = Ret ((bs, None), s')" by blast
      have "I (snd (ReadFull get nh plen s' (acc @ bs) w1))"
        by (rule "1.IH" [OF True r [symmetric, unfolded c] refl refl refl refl I1]) (rule "1.prems"(2))
      with True r c show ?thesis by (subst ReadFull.simps) simp
    next
      case False
      with True r I1 show ?thesis by (subst ReadFull.simps) (auto simp: Let_def split: outcome.split option.split)
    qed
  next
    case False
    with "1.prems" show ?thesis by (subst ReadFull.simps) auto
  qed
qed

lemma repack_loop_keeps:
  assumes "\<And>i. keeps I (get i)" and "\<And>k c. keeps I (em k c)"
  shows "I w \<Longrightarrow> I (snd (repack_loop get nh plen em k s np br w))"
  using assms
proof (induction get nh plen em k s np br w rule: repack_loop.induct)
  case (1 get nh plen em k s np br w)
  obtain r w1 where r: "ReadFull get nh plen s [] w = (r, w1)" by fastforce
  have "I (snd (ReadFull get nh plen s [] w))" by (rule ReadFull_keeps [OF "1.prems"(2,1)])
  then have I1: "I w1" by (simp add: r)
  show ?case
  proof (cases "plen \<noteq> 0 \<and> (\<exists>chunk err s'. r = Ret ((chunk, err), s'))")
    case True
    then obtain chunk err s' where c: "r = Ret ((chunk, err), s')" by blast
    obtain r2 w2 where r2: "(if chunk \<noteq> [] then em k chunk else ret ()) w1 = (r2, w2)" by fastforce
    have "keeps I (if chunk \<noteq> [] then em k chunk else ret ())" by (intro keeps_intros "1.prems"(3))
    from keepsD [OF this I1 r2] have I2: "I w2" .
    show ?thesis
    proof (cases "r2 = Ret () \<and> err = None")
      case go: True
      let ?np = "if chunk \<noteq> [] then np @ sha1_Sum chunk else np"
      let ?br = "if chunk \<noteq> [] then wrap64 (br + int (length chunk)) else br"
      have "I (snd (repack_loop get nh plen em (k + 1) s' ?np ?br w2))"
        by (rule "1.IH" [OF _ r [symmetric, unfolded c] refl refl refl r2 [symmetric] _ refl refl _ I2 "1.prems"(2,3)])
          (use True go in simp_all)
      with True go r r2 c show ?thesis by (subst repack_loop.simps) (simp add: Let_def)
    next
      case False
      with True r r2 c I2 show ?thesis
        by (subst repack_loop.simps) (auto simp: Let_def split: outcome.split option.split)
    qed
  next
    case False
    with r I1 "1.prems"(1) show ?thesis by (subst repack_loop.simps) (auto split: outcome.split)
  qed
qed

lemma keeps_repack_loop:
  assumes "\<And>i. keeps I (get i)" and "\<And>k c. keeps I (em k c)"
  shows "keeps I (repack_loop get nh plen em k s np br)"
  unfolding keeps_def [of I "repack_loop get nh plen em k s np br"] by (intro allI impI) (rule repack_loop_keeps [OF assms])

text \<open>The uploads that wait are all of pieces.\<close>

definition pend :: "Config \<Rightarrow> ('s, 'z) rworld_scheme \<Rightarrow> bool" where
  "pend cfg w \<longleftrightarrow> (\<forall>kc\<in>set (rp_pending w). \<exists>h. fst kc = KeyPiece cfg h)"

definition repacks :: "Config \<Rightarrow> 's view \<Rightarrow> (string \<Rightarrow> string \<Rightarrow> bytes option) \<Rightarrow> ('s, 'z) rworld_scheme \<Rightarrow> bool" where
  "repacks cfg objs f = (\<lambda>w. only objs f (adds cfg) w \<and> pend cfg w)"

lemma keeps_pend:
  "keeps (pend cfg) (call g)" "keeps (pend cfg) (cacheGet h)" "keeps (pend cfg) (cachePut h d)" "keeps (pend cfg) (spawn h)"
  by (simp_all add: keeps_def pend_def call_def cacheGet_run cachePut_def spawn_def modifyM_run split: prod.splits)

lemma keeps_pend_same: "(\<And>w. rp_pending (g w) = rp_pending w) \<Longrightarrow> keeps (pend cfg) (modifyM g)"
  by (rule keeps_modifyM) (simp add: pend_def)

lemma keeps_repacks_same:
  "(\<And>w. w_s3 (g w) = w_s3 w) \<Longrightarrow> (\<And>w. rp_pending (g w) = rp_pending w) \<Longrightarrow> keeps (repacks cfg objs f) (modifyM g)"
  unfolding repacks_def by (intro keeps_conj keeps_same keeps_pend_same)

lemma keeps_repacks:
  assumes "s3_laws cli objs"
  shows "keeps (repacks cfg objs f) (Cat cfg cli k)" "keeps (repacks cfg objs f) (Stat cfg cli k)"
    "keeps (repacks cfg objs f) (cacheGet h)" "keeps (repacks cfg objs f) (cachePut h d)" "keeps (repacks cfg objs f) (spawn h)"
    "(\<exists>h. k = KeyPiece cfg h \<or> k = KeyTorrent cfg h) \<Longrightarrow> keeps (repacks cfg objs f) (PutBytes cfg cli k d)"
proof -
  have "keeps (pend cfg) (Cat cfg cli k)"
    unfolding Cat_def by (intro keeps_intros keeps_pend) (auto split: sum.split intro!: keeps_intros)
  then show "keeps (repacks cfg objs f) (Cat cfg cli k)" unfolding repacks_def by (intro keeps_conj keeps_reads [OF assms])
  have "keeps (pend cfg) (Stat cfg cli k)" unfolding Stat_def by (intro keeps_intros keeps_pend)
  then show "keeps (repacks cfg objs f) (Stat cfg cli k)" unfolding repacks_def by (intro keeps_conj keeps_reads [OF assms])
  show "keeps (repacks cfg objs f) (cacheGet h)" "keeps (repacks cfg objs f) (cachePut h d)" "keeps (repacks cfg objs f) (spawn h)"
    unfolding repacks_def by (intro keeps_conj keeps_cache keeps_pend)+
  have "keeps (pend cfg) (PutBytes cfg cli k d)"
    unfolding PutBytes_def
    by (intro keeps_intros keeps_pend) (auto split: option.split intro!: keeps_intros keeps_pend_same)
  then show "(\<exists>h. k = KeyPiece cfg h \<or> k = KeyTorrent cfg h) \<Longrightarrow> keeps (repacks cfg objs f) (PutBytes cfg cli k d)"
    unfolding repacks_def by (intro keeps_conj keeps_PutBytes [OF assms]) auto
qed

lemma keeps_upload:
  assumes "s3_laws cli objs" and "\<exists>h. fst kc = KeyPiece cfg h"
  shows "keeps (repacks cfg objs f) (upload cfg cli kc)"
  unfolding upload_def by (intro keeps_intros keeps_repacks [OF assms(1)] keeps_repacks_same) (use assms(2) in auto)

lemma keeps_fetch_busy_repacks:
  assumes "s3_laws cli objs"
  shows "keeps (repacks cfg objs f) (fetch_busy sf cfg cli bg hashes idx)"
proof -
  note k = keeps_repacks [OF assms]
  have cat: "keeps (repacks cfg objs f) (slot_cat cfg cli h)" for h unfolding slot_cat_def by (intro keeps_intros k)
  have pre: "keeps (repacks cfg objs f) (stream_prefetch sf cfg cli h)" for h
    unfolding stream_prefetch_def catUnderSem_def by (intro keeps_intros k)
  have "keeps (repacks cfg objs f) (busy_cache sf cfg (slot_cat cfg cli) (stream_prefetch sf cfg cli) (bg idx) hashes idx)"
    by (rule keeps_busy_cache [OF k(5,3) pre]) (intro keeps_bindM cat k(4))
  then show ?thesis unfolding fetch_busy_def by (rule keeps_bindM) (auto split: option.split intro!: keeps_intros)
qed

lemma keeps_emit:
  assumes "s3_laws cli objs" and "uploads_law ups"
  shows "keeps (repacks cfg objs f) (emit cfg cli ups k chunk)"
  unfolding emit_def Let_def
proof (rule keeps_getM_bind)
  fix w assume "repacks cfg objs f w"
  then have p: "\<exists>h. fst kc = KeyPiece cfg h" if "kc \<in> set (rp_pending w)" for kc using that by (simp add: repacks_def pend_def)
  let ?p = "rp_pending w @ [(KeyPiece cfg (hex_EncodeToString (sha1_Sum chunk)), chunk)]"
  have "mset (fst (ups k ?p)) + mset (snd (ups k ?p)) = mset ?p" using assms(2) by (simp add: uploads_law_def)
  then have sub: "set (fst (ups k ?p)) \<subseteq> set ?p" "set (snd (ups k ?p)) \<subseteq> set ?p"
    by (metis mset_subset_eq_add_left set_mset_mono set_mset_mset, metis mset_subset_eq_add_right set_mset_mono set_mset_mset)
  have q: "\<exists>h. fst kc = KeyPiece cfg h" if "kc \<in> set ?p" for kc using that p [of kc] by auto
  have up: "\<forall>kc\<in>set (fst (ups k ?p)). \<exists>h. fst kc = KeyPiece cfg h" "\<forall>kc\<in>set (snd (ups k ?p)). \<exists>h. fst kc = KeyPiece cfg h"
    using sub q by blast+
  have m: "keeps (repacks cfg objs f) (modifyM (\<lambda>w. w\<lparr>rp_pending := snd (ups k ?p)\<rparr>))"
    by (rule keeps_modifyM) (use up(2) in \<open>simp add: repacks_def pend_def only_def\<close>)
  show "keeps (repacks cfg objs f) (bindM (modifyM (\<lambda>w. w\<lparr>rp_pending := snd (ups k ?p)\<rparr>)) (\<lambda>_. forM (fst (ups k ?p)) (upload cfg cli)))"
    by (intro keeps_bindM m keeps_forM keeps_upload [OF assms(1)] bspec [OF up(1)])
qed

lemma keeps_repack_publish:
  assumes "s3_laws cli objs"
  shows "keeps (repacks cfg objs f) (repack_publish cfg cli lib ih mi info ps np br)"
  unfolding repack_publish_def Let_def
proof (rule keeps_getM_bind)
  fix w assume "repacks cfg objs f w"
  then have p: "\<exists>h. fst kc = KeyPiece cfg h" if "kc \<in> set (rp_pending w)" for kc using that by (simp add: repacks_def pend_def)
  have m: "keeps (repacks cfg objs f) (modifyM (\<lambda>w. w\<lparr>rp_pending := []\<rparr>))"
    by (rule keeps_modifyM) (auto simp: repacks_def pend_def only_def)
  show "keeps (repacks cfg objs f) (bindM (modifyM (\<lambda>w. w\<lparr>rp_pending := []\<rparr>)) (\<lambda>_.
    bindM (forM (rp_pending w) (upload cfg cli)) (\<lambda>_.
    if br \<noteq> TotalLength lib info then
      ThrowFmt ''repack: streamed %d bytes but expected %d'' [AInt br, AInt (TotalLength lib info)]
    else
    bindM (ThrowE (Marshal lib (info\<lparr>info_PieceLength := ps, info_Pieces := np\<rparr>))) (\<lambda>infoBytes.
    bindM (ThrowE (Write lib (mi\<lparr>mi_InfoBytes := infoBytes\<rparr>))) (\<lambda>rawNew.
    if hex_EncodeToString (HashInfoBytes lib (mi\<lparr>mi_InfoBytes := infoBytes\<rparr>)) = ih then ret ()
    else PutBytes cfg cli (KeyTorrent cfg (hex_EncodeToString (HashInfoBytes lib (mi\<lparr>mi_InfoBytes := infoBytes\<rparr>)))) rawNew)))))"
    by (intro keeps_intros m keeps_upload [OF assms] keeps_repacks(6) [OF assms]) (use p in auto)
qed

lemma keeps_extractInfohash: "keeps I (extractInfohash p)"
  unfolding extractInfohash_def Let_def by (auto split: sum.split intro!: keeps_intros)

lemma keeps_runRepack:
  assumes "s3_laws cli objs" and "uploads_law ups" and "only objs f (adds cfg) w"
    and "runRepack sf cfg cli lib bg ups target n w = (r, w')"
  shows "only objs f (adds cfg) w'"
proof -
  have src: "keeps (repacks cfg objs f) (repack_source cfg cli lib ih)" for ih
    unfolding repack_source_def Let_def by (intro keeps_intros keeps_repacks [OF assms(1)])
  have body: "keeps (repacks cfg objs f) (bindM (repack_source cfg cli lib ih) (\<lambda>(mi, info, tm).
     if UpSem cfg < 0 then panic (PRuntime ''makechan: size out of range'')
     else if n < 0 then panic (PRuntime ''makeslice: len out of range'')
     else if n = 0 then panic (PRuntime ''integer divide by zero'')
     else if wrap64 (20 * (wrap64 (TotalLength lib info + n - 1) sdiv n)) < 0 then
       panic (PRuntime ''makeslice: cap out of range'')
     else
     bindM (repack_loop (\<lambda>i. fetch_busy sf cfg cli bg (PieceHashes tm) (int i)) (length (PieceHashes tm))
              (nat n) (emit cfg cli ups) 0 stream0 [] 0) (\<lambda>(newPieces, bytesRead).
     repack_publish cfg cli lib ih mi info n newPieces bytesRead)))" for ih
    by (intro keeps_bindM src) (auto split: prod.split intro!: keeps_intros keeps_repack_loop keeps_fetch_busy_repacks [OF assms(1)]
      keeps_emit [OF assms(1,2)] keeps_repack_publish [OF assms(1)])
  obtain ri wi where e: "extractInfohash target w = (ri, wi)" by fastforce
  then have wi: "wi = w" using keepsD [OF keeps_extractInfohash [of "\<lambda>v. v = w"] refl e] by simp
  show ?thesis
  proof (cases "\<exists>ih. ri = Ret ih")
    case True
    then obtain ih where ih: "ri = Ret ih" by blast
    let ?w = "w\<lparr>rw_cache := newLRU (LRUSize cfg), rp_pending := [], rp_new := 0, rp_skip := 0\<rparr>"
    have "repacks cfg objs f ?w" using assms(3) by (simp add: repacks_def pend_def only_def)
    from keepsD [OF body [of ih] this] have "repacks cfg objs f w'"
      using assms(4) e ih wi by (simp add: runRepack_def bindM_def modifyM_run)
    then show ?thesis by (simp add: repacks_def)
  next
    case False
    with assms(3,4) e wi show ?thesis by (cases ri) (auto simp: runRepack_def bindM_def)
  qed
qed

section \<open>gc and bench\<close>

lemma keeps_runGc_bucket:
  assumes "s3_laws cli objs"
  shows "keeps (only objs f (\<lambda>b k v. b = S3Bucket cfg)) (runGc sched1 sched2 n cfg cli lib)"
proof -
  have m: "keeps (only objs f Q) (mark_one cfg cli lib k)" for Q k
    unfolding mark_one_def mark_load_def mark_piece_def
    by (intro keeps_intros keeps_reads [OF assms] keeps_same) (auto split: option.split intro!: keeps_intros keeps_same)
  have s: "keeps (only objs f (\<lambda>b k v. b = S3Bucket cfg)) (sweep_one cfg cli k)" for k
    unfolding sweep_one_def by (intro keeps_intros keeps_Delete [OF assms] keeps_same) simp_all
  show ?thesis
    unfolding runGc_def sweep_def Let_def
    by (intro keeps_intros keeps_pmap keeps_reads [OF assms] m s keeps_same)
      (auto split: option.split intro!: keeps_intros s)
qed

lemma runGc_only:
  assumes "s3_laws cli objs" and "sched_law sched2" and "runGc sched1 sched2 n cfg cli lib w = (r, w')"
  shows "only objs (objs (w_s3 w)) (\<lambda>b k v. b = S3Bucket cfg \<and> v = None \<and> prefix (PrefixPieces cfg) k) w'"
proof -
  have "only objs (objs (w_s3 w)) (\<lambda>b k v. b = S3Bucket cfg) w" by (simp add: only_def)
  from keepsD [OF keeps_runGc_bucket [OF assms(1)] this assms(3)]
  have "only objs (objs (w_s3 w)) (\<lambda>b k v. b = S3Bucket cfg) w'" .
  moreover have "holds cfg objs (objs (w_s3 w) (S3Bucket cfg)) w" by (simp add: holds_def)
  from runGc_swept [OF assms(1,2) this assms(3)]
  have "swept cfg objs (objs (w_s3 w) (S3Bucket cfg)) {k. prefix (PrefixPieces cfg) k} w'" .
  ultimately show ?thesis by (auto simp: only_def swept_def)
qed

definition bench_writes :: "Config \<Rightarrow> benchOpts \<Rightarrow> string \<Rightarrow> string \<Rightarrow> bytes option \<Rightarrow> bool" where
  "bench_writes cfg opts b k v \<longleftrightarrow> b = S3Bucket cfg \<and> (\<exists>g m. k = bench_key cfg g m)
     \<and> v = Some (replicate (nat (b_chunkSize opts)) (of_char (CHR ''x'')))"

lemma keeps_runBench:
  assumes "s3_laws cli objs"
  shows "keeps (only objs f (bench_writes cfg opts)) (runBench cfg cli turns opts)"
proof -
  let ?p = "replicate (nat (b_chunkSize opts)) (of_char (CHR ''x'')) :: bytes"
  have c: "keeps (only objs f (bench_writes cfg opts)) (call (PutObject cli (S3Bucket cfg) (bench_key cfg g m) ?p))" for g m
    by (rule keeps_call_put [where Q = "bench_writes cfg opts" and b = "S3Bucket cfg" and k = "bench_key cfg g m" and v = "Some ?p"])
      (use assms in \<open>unfold s3_laws_def put_law_def, blast\<close>, auto simp: bench_writes_def)
  show ?thesis
    unfolding runBench_def bench_turn_def Let_def
    by (intro keeps_intros keeps_same) (auto split: prod.split option.split intro!: keeps_intros keeps_same c [simplified])
qed

end
