(* ===== verification/App.thy ===== *)
theory App
  imports Effects Bot
begin

text \<open>
  \<^verbatim>\<open>main.go\<close>, the construction of the S3 client (\<^verbatim>\<open>storage.go\<close>) and
  \<^verbatim>\<open>colors.go\<close>: the process as a whole. The state is the object service; everything else
  a subcommand keeps is built fresh when it starts. What lies outside the program (libraries, disks, clients,
  schedules, the events of a run) is collected in one record.

  The theorems say how every command line ends, and what each subcommand can do to the bucket at all.
\<close>

section \<open>The client\<close>

record s3options =
  o_Region :: string
  o_AccessKey :: string
  o_SecretKey :: string
  o_Timeout :: int
  o_MaxIdleConns :: int
  o_MaxIdleConnsPerHost :: int
  o_IdleConnTimeout :: int
  o_BaseEndpoint :: string
  o_UsePathStyle :: bool
  o_RetryMaxAttempts :: int

text \<open>\<open>new\<close> is \<open>s3.NewFromConfig\<close>. Durations are in nanoseconds.\<close>

definition newStorage :: "(s3options \<Rightarrow> 's s3api) \<Rightarrow> Config \<Rightarrow> 's s3api" where
  "newStorage new cfg = new \<lparr>
     o_Region = Region cfg, o_AccessKey = AWSKey cfg, o_SecretKey = AWSSecret cfg,
     o_Timeout = 30000000000, o_MaxIdleConns = 256, o_MaxIdleConnsPerHost = 256, o_IdleConnTimeout = 90000000000,
     o_BaseEndpoint = S3Endpt cfg, o_UsePathStyle = True, o_RetryMaxAttempts = 6\<rparr>"

section \<open>Colours\<close>

definition clrRst :: string where "clrRst = [char_of (27 :: nat)] @ ''[0m''"

text \<open>\<open>stat\<close> is the result of \<open>os.Stderr.Stat\<close>: whether it is a character device.\<close>

definition useColor :: "env \<Rightarrow> goerr + bool \<Rightarrow> bool" where
  "useColor getenv stat =
     (if getenv ''NO_COLOR'' \<noteq> '''' then False
      else if getenv ''TERM'' = ''dumb'' then False
      else case stat of Inl err \<Rightarrow> False | Inr chardev \<Rightarrow> chardev)"

definition clr :: "bool \<Rightarrow> string \<Rightarrow> string \<Rightarrow> string" where
  "clr use_color code t = (if \<not> use_color then t else code @ t @ clrRst)"

section \<open>The outside\<close>

record ('s, 't) platform =
  pf_s3 :: "s3options \<Rightarrow> 's s3api"
  pf_lib :: metalib
  pf_order :: maporder
  pf_sf :: "panicval \<Rightarrow> panicval"
  pf_fetch :: fetchenv
  pf_sched1 :: "string list \<Rightarrow> string list"
  pf_sched2 :: "string list \<Rightarrow> string list"
  pf_cut :: nat
  pf_bg :: "nat \<Rightarrow> int \<Rightarrow> others"
  pf_disk :: disk
  pf_shuffle :: "string list \<Rightarrow> string list"
  pf_turns :: "turn list"
  pf_duration :: "string \<Rightarrow> goerr + int"
  pf_rbg :: "int \<Rightarrow> others"
  pf_uploads :: uploads
  pf_sort :: sorter
  pf_ssh :: sshlib
  pf_listen :: "goerr option"
  pf_events :: "'s event list"
  pf_tg :: "'t tglib"
  pf_tgstate :: 't
  pf_setenv :: "goerr option"
  pf_exe :: "goerr + string"
  pf_exec :: "goerr option"

section \<open>Subcommands\<close>

text \<open>The right side of a case of the \<open>switch\<close>: the parser's results, for the \<open>run\<close> function.\<close>

datatype job =
    JFetch Config
  | JServe Config
  | JGet Config getOpts
  | JGet2 Config get2Opts
  | JBench Config benchOpts
  | JRepack Config repackOpts
  | JGc Config
  | JBot Config

definition parse_command :: "('s, 't) platform \<Rightarrow> env \<Rightarrow> string \<Rightarrow> string list \<Rightarrow> ('w, job) prog" where
  "parse_command pf getenv sub rest =
     (if sub = ''fetch'' then bindM (parseFetchArgs getenv rest) (\<lambda>c. ret (JFetch c))
      else if sub = ''serve'' then bindM (parseServeArgs getenv rest) (\<lambda>c. ret (JServe c))
      else if sub = ''get'' then bindM (parseGetArgs getenv rest) (\<lambda>(c, opts). ret (JGet c opts))
      else if sub = ''get2'' then bindM (parseGet2Args getenv rest) (\<lambda>(c, opts). ret (JGet2 c opts))
      else if sub = ''bench'' then bindM (parseBenchArgs (pf_duration pf) getenv rest) (\<lambda>(c, opts). ret (JBench c opts))
      else if sub = ''repack'' then bindM (parseRepackArgs getenv rest) (\<lambda>(c, opts). ret (JRepack c opts))
      else if sub = ''gc'' then bindM (parseGcArgs getenv rest) (\<lambda>c. ret (JGc c))
      else if sub = ''bot'' then bindM (parseBotArgs getenv rest) (\<lambda>c. ret (JBot c))
      else ThrowFmt ''unknown subcommand: %s'' [AStr sub])"

text \<open>A program on a subcommand's own state, run from a fresh one, as a program on the service.\<close>

definition run_from :: "('s \<Rightarrow> ('s, 'z) world_scheme) \<Rightarrow> (('s, 'z) world_scheme, 'a) prog \<Rightarrow> ('s, 'a) prog" where
  "run_from fresh m s = (case m (fresh s) of (r, w) \<Rightarrow> (r, w_s3 w))"

definition fetch_start :: "'s \<Rightarrow> 's samogonStorage" where
  "fetch_start s = \<lparr>w_s3 = s, w_puts = 0, fw_known = {}, fw_states = Map.empty, fw_tokens = 0\<rparr>"

definition meta_start :: "'s \<Rightarrow> 's mworld" where
  "meta_start s = \<lparr>w_s3 = s, w_puts = 0, rw_cache = newLRU 0, rw_spawned = [], m_byName = Map.empty, m_byHash = Map.empty\<rparr>"

definition get_start :: "'s \<Rightarrow> 's gtworld" where
  "get_start s = \<lparr>w_s3 = s, w_puts = 0, rw_cache = newLRU 0, rw_spawned = [], m_byName = Map.empty, m_byHash = Map.empty, gt_out = None\<rparr>"

definition get2_start :: "'s \<Rightarrow> 's g2world" where
  "get2_start s = \<lparr>w_s3 = s, w_puts = 0, rw_cache = newLRU 0, rw_spawned = [], m_byName = Map.empty, m_byHash = Map.empty,
     g2_ops = 0, g2_bytes = 0, g2_inFlight = 0, g2_errs = 0\<rparr>"

definition bench_start :: "'s \<Rightarrow> 's benchworld" where
  "bench_start s = \<lparr>w_s3 = s, w_puts = 0, bw_ops = 0, bw_latency = 0, bw_errs = 0, bw_m = (\<lambda>_. 0)\<rparr>"

definition repack_start :: "'s \<Rightarrow> 's rworld" where
  "repack_start s = \<lparr>w_s3 = s, w_puts = 0, rw_cache = newLRU 0, rw_spawned = [], rp_pending = [], rp_new = 0, rp_skip = 0\<rparr>"

text \<open>
  The two daemons never return: \<open>serve\<close> accepts connections until something ends the process, and once \<open>bot\<close> is
  set up it goes on by the steps of theory \<open>Bot\<close>, which do not touch the service.
\<close>

fun run_job :: "('s, 't) platform \<Rightarrow> job \<Rightarrow> ('s, unit) prog" where
  "run_job pf (JFetch c) =
     run_from fetch_start (runFetch c (newStorage (pf_s3 pf) c) (pf_lib pf) (pf_fetch pf))"
| "run_job pf (JServe c) =
     run_from meta_start (bindM (runServe (pf_sf pf) c (newStorage (pf_s3 pf) c) (pf_lib pf) (pf_order pf) (pf_sort pf)
       (pf_ssh pf) (pf_listen pf) (pf_events pf)) (\<lambda>_. block))"
| "run_job pf (JGet c opts) =
     run_from get_start (runGet (pf_sf pf) c (newStorage (pf_s3 pf) c) (pf_lib pf) (pf_order pf) (pf_bg pf) (pf_disk pf) opts)"
| "run_job pf (JGet2 c opts) =
     run_from get2_start (runGet2 c (newStorage (pf_s3 pf) c) (pf_lib pf) (pf_order pf) (pf_shuffle pf) (pf_sched1 pf) opts)"
| "run_job pf (JBench c opts) =
     run_from bench_start (bindM (runBench c (newStorage (pf_s3 pf) c) (pf_turns pf) opts) (\<lambda>_. ret ()))"
| "run_job pf (JRepack c opts) =
     run_from repack_start (runRepack (pf_sf pf) c (newStorage (pf_s3 pf) c) (pf_lib pf) (pf_rbg pf) (pf_uploads pf)
       (rp_target opts) (rp_pieceSize opts))"
| "run_job pf (JGc c) =
     run_from gc_start (runGc (pf_sched1 pf) (pf_sched2 pf) (pf_cut pf) c (newStorage (pf_s3 pf) c) (pf_lib pf))"
| "run_job pf (JBot c) =
     bindM (\<lambda>s. (fst (runBot c (pf_tg pf) (bot0 (pf_tgstate pf) [])), s)) (\<lambda>_. block)"

section \<open>main\<close>

definition maxHashersEnv :: string where
  "maxHashersEnv = ''TORRENT_MAX_ACTIVE_PIECE_HASHERS''"

definition maxHashersWant :: string where
  "maxHashersWant = ''128''"

text \<open>
  What becomes of a process: an exit status, a panic that nothing recovers, or running for ever. \<open>ensureHashersEnv\<close>
  either returns, or replaces the process by one with another environment, or throws outside every \<open>Try\<close>.
\<close>

datatype ending = Exit int | Crashed | Running

datatype reexec = Go | Replaced env | Thrown exception

definition ensureHashersEnv :: "('s, 't) platform \<Rightarrow> env \<Rightarrow> reexec" where
  "ensureHashersEnv pf getenv =
     (if getenv maxHashersEnv \<noteq> '''' then Go
      else (case pf_setenv pf of
          Some e \<Rightarrow> Thrown (New e)
        | None \<Rightarrow> (case pf_exe pf of
            Inl e \<Rightarrow> Thrown (New e)
          | Inr exe \<Rightarrow> (case pf_exec pf of
              Some e \<Rightarrow> Thrown (New e)
            | None \<Rightarrow> Replaced (getenv(maxHashersEnv := maxHashersWant))))))"

definition run_sub :: "('s, 't) platform \<Rightarrow> env \<Rightarrow> string \<Rightarrow> string list \<Rightarrow> 's \<Rightarrow> ending \<times> 's" where
  "run_sub pf getenv sub rest s =
     (case Try (bindM (parse_command pf getenv sub rest) (run_job pf)) s of
        (Ret (Inr _), s') \<Rightarrow> (Exit 0, s')
      | (Ret (Inl e), s') \<Rightarrow> (Exit 1, s')
      | (Panicked p, s') \<Rightarrow> (Crashed, s')
      | (Blocked, s') \<Rightarrow> (Running, s'))"

text \<open>The replaced process starts \<open>main\<close> again, with the same arguments.\<close>

function main :: "('s, 't) platform \<Rightarrow> env \<Rightarrow> string list \<Rightarrow> 's \<Rightarrow> ending \<times> 's" where
  "main pf getenv args s =
     (if length args < 2 then (Exit 2, s)
      else
        let sub = args ! 1; rest = drop 2 args in
        if sub = ''-h'' \<or> sub = ''--help'' \<or> sub = ''help'' then (Exit 0, s)
        else if sub = ''fetch'' then
          (case ensureHashersEnv pf getenv of
             Replaced getenv' \<Rightarrow> main pf getenv' args s
           | Thrown e \<Rightarrow> (Crashed, s)
           | Go \<Rightarrow> run_sub pf getenv sub rest s)
        else run_sub pf getenv sub rest s)"
  by pat_completeness auto
termination
  by (relation "measure (\<lambda>(pf, getenv, args, s). if getenv maxHashersEnv = '''' then 1 else 0)")
    (auto simp: ensureHashersEnv_def maxHashersWant_def split: if_splits option.splits sum.splits)

declare main.simps [simp del]

section \<open>How a command line ends\<close>

text \<open>Which job a subcommand is, and the configuration it runs with.\<close>

fun job_name :: "job \<Rightarrow> string" where
  "job_name (JFetch c) = ''fetch''"
| "job_name (JServe c) = ''serve''"
| "job_name (JGet c p) = ''get''"
| "job_name (JGet2 c p) = ''get2''"
| "job_name (JBench c p) = ''bench''"
| "job_name (JRepack c p) = ''repack''"
| "job_name (JGc c) = ''gc''"
| "job_name (JBot c) = ''bot''"

lemma parse_command_settles: "settles (parse_command pf getenv sub rest)"
  unfolding parse_command_def parse_defs Let_def split_def
  by (intro settles_bindM settles_ThrowE settles_intros settles_validate)

lemma parse_command_name:
  "parse_command pf getenv sub rest w = (Ret j, w') \<Longrightarrow> job_name j = sub"
  by (auto simp: parse_command_def bindM_Ret_iff ret_run ThrowFmt_run split: if_splits)

definition is_help :: "string \<Rightarrow> bool" where
  "is_help sub \<longleftrightarrow> sub = ''-h'' \<or> sub = ''--help'' \<or> sub = ''help''"

definition commands :: "string list" where
  "commands = [''fetch'', ''serve'', ''get'', ''get2'', ''bench'', ''repack'', ''gc'', ''bot'']"

lemma job_name_commands: "job_name j \<in> set commands"
  by (cases j) (simp_all add: commands_def)

lemma run_sub_cases:
  "(\<exists>j. parse_command pf getenv sub rest s = (Ret j, s) \<and> job_name j = sub
      \<and> run_sub pf getenv sub rest s = (case run_job pf j s of
          (Ret _, s') \<Rightarrow> (Exit 0, s') | (Panicked (PException e), s') \<Rightarrow> (Exit 1, s')
        | (Panicked p, s') \<Rightarrow> (Crashed, s') | (Blocked, s') \<Rightarrow> (Running, s')))
   \<or> (\<exists>e. parse_command pf getenv sub rest s = (Panicked (PException e), s) \<and> run_sub pf getenv sub rest s = (Exit 1, s))"
proof -
  have "(\<exists>j. parse_command pf getenv sub rest s = (Ret j, s)) \<or> (\<exists>e. parse_command pf getenv sub rest s = (Panicked (PException e), s))"
    using parse_command_settles [of pf getenv sub rest] unfolding settles_def by (metis prod.collapse)
  then show ?thesis
  proof (elim disjE exE)
    fix j assume p: "parse_command pf getenv sub rest s = (Ret j, s)"
    then have "run_sub pf getenv sub rest s = (case run_job pf j s of
          (Ret _, s') \<Rightarrow> (Exit 0, s') | (Panicked (PException e), s') \<Rightarrow> (Exit 1, s')
        | (Panicked p, s') \<Rightarrow> (Crashed, s') | (Blocked, s') \<Rightarrow> (Running, s'))"
      by (simp add: run_sub_def Try_def bindM_def split: prod.split outcome.split panicval.split)
    with p parse_command_name [OF p] show ?thesis by blast
  next
    fix e assume p: "parse_command pf getenv sub rest s = (Panicked (PException e), s)"
    then have "run_sub pf getenv sub rest s = (Exit 1, s)" by (simp add: run_sub_def Try_def bindM_def)
    with p show ?thesis by blast
  qed
qed

lemma run_sub_state:
  assumes "run_sub pf getenv sub rest s = (r, s')"
  shows "s' = s \<or> (\<exists>j. parse_command pf getenv sub rest s = (Ret j, s) \<and> job_name j = sub \<and> snd (run_job pf j s) = s')"
  using run_sub_cases [of pf getenv sub rest s]
proof (elim disjE exE conjE)
  fix j assume j: "parse_command pf getenv sub rest s = (Ret j, s)" "job_name j = sub"
    and "run_sub pf getenv sub rest s = (case run_job pf j s of
          (Ret _, s') \<Rightarrow> (Exit 0, s') | (Panicked (PException e), s') \<Rightarrow> (Exit 1, s')
        | (Panicked p, s') \<Rightarrow> (Crashed, s') | (Blocked, s') \<Rightarrow> (Running, s'))"
  with assms have "snd (run_job pf j s) = s'" by (simp split: prod.splits outcome.splits panicval.splits)
  with j show ?thesis by blast
qed (use assms in simp)

text \<open>The environment a subcommand finds: \<open>fetch\<close> has the variable for the hashers set.\<close>

definition sub_env :: "string \<Rightarrow> env \<Rightarrow> env" where
  "sub_env sub getenv =
     (if sub = ''fetch'' \<and> getenv maxHashersEnv = '''' then getenv(maxHashersEnv := maxHashersWant) else getenv)"

lemma main_cases:
  assumes "2 \<le> length args" and "\<not> is_help (args ! 1)"
  shows "main pf getenv args s =
    (if args ! 1 = ''fetch'' \<and> (\<exists>e. ensureHashersEnv pf getenv = Thrown e) then (Crashed, s)
     else run_sub pf (sub_env (args ! 1) getenv) (args ! 1) (drop 2 args) s)"
proof -
  have two: "length args < 2 \<longleftrightarrow> False" using assms(1) by simp
  have nh: "(args ! 1 = ''-h'' \<or> args ! 1 = ''--help'' \<or> args ! 1 = ''help'') = False" using assms(2) by (simp add: is_help_def)
  have go: "main pf env args s = run_sub pf env (args ! 1) (drop 2 args) s" if "env maxHashersEnv \<noteq> ''''" for env
    by (subst main.simps) (simp add: two nh Let_def ensureHashersEnv_def that del: One_nat_def)
  show ?thesis
  proof (cases "args ! 1 = ''fetch''")
    case False
    then show ?thesis by (subst main.simps) (simp add: two nh Let_def sub_env_def del: One_nat_def)
  next
    case True
    show ?thesis
    proof (cases "ensureHashersEnv pf getenv")
      case Go
      then have "getenv maxHashersEnv \<noteq> ''''" by (auto simp: ensureHashersEnv_def split: option.splits sum.splits)
      with go [of getenv] Go show ?thesis by (simp add: sub_env_def)
    next
      case (Replaced env)
      then have env: "env = getenv(maxHashersEnv := maxHashersWant)" "getenv maxHashersEnv = ''''"
        by (auto simp: ensureHashersEnv_def split: option.splits sum.splits if_splits)
      have "main pf getenv args s = main pf env args s"
        using True Replaced by (subst main.simps) (simp add: two nh Let_def del: One_nat_def)
      also have "\<dots> = run_sub pf env (args ! 1) (drop 2 args) s" by (rule go [of env]) (simp add: env maxHashersWant_def)
      finally show ?thesis using True env Replaced by (simp add: sub_env_def)
    next
      case (Thrown e)
      with True show ?thesis by (subst main.simps) (simp add: two nh Let_def del: One_nat_def)
    qed
  qed
qed

text \<open>A subcommand that exists: the re-execution failed, its arguments were rejected, or its job ran.\<close>

lemma command_ends:
  assumes "2 \<le> length args" and "args ! 1 \<in> set commands"
    and "P = parse_command pf (sub_env (args ! 1) getenv) (args ! 1) (drop 2 args) s" and "main pf getenv args s = (r, s')"
  shows "(r = Crashed \<and> s' = s \<and> args ! 1 = ''fetch'' \<and> getenv maxHashersEnv = '''')
    \<or> (r = Exit 1 \<and> s' = s \<and> (\<exists>e. fst P = Panicked (PException e)))
    \<or> (\<exists>j. fst P = Ret j \<and> job_name j = args ! 1 \<and> snd (run_job pf j s) = s'
         \<and> (r = Exit 0 \<longleftrightarrow> (\<exists>u. fst (run_job pf j s) = Ret u))
         \<and> (r = Exit 1 \<longleftrightarrow> (\<exists>e. fst (run_job pf j s) = Panicked (PException e)))
         \<and> (r = Running \<longleftrightarrow> fst (run_job pf j s) = Blocked))"
proof -
  have nh: "\<not> is_help (args ! 1)" using assms(2) by (auto simp: is_help_def commands_def)
  show ?thesis
  proof (cases "args ! 1 = ''fetch'' \<and> (\<exists>e. ensureHashersEnv pf getenv = Thrown e)")
    case True
    then have "getenv maxHashersEnv = ''''" by (auto simp: ensureHashersEnv_def split: if_splits)
    with True main_cases [OF assms(1) nh, of pf getenv s] assms(4) show ?thesis by simp
  next
    case False
    with main_cases [OF assms(1) nh, of pf getenv s]
    have m: "main pf getenv args s = run_sub pf (sub_env (args ! 1) getenv) (args ! 1) (drop 2 args) s" by auto
    from run_sub_cases [of pf "sub_env (args ! 1) getenv" "args ! 1" "drop 2 args" s] show ?thesis
    proof (elim disjE exE conjE)
      fix j assume p: "parse_command pf (sub_env (args ! 1) getenv) (args ! 1) (drop 2 args) s = (Ret j, s)" "job_name j = args ! 1"
        and run: "run_sub pf (sub_env (args ! 1) getenv) (args ! 1) (drop 2 args) s = (case run_job pf j s of
          (Ret _, s') \<Rightarrow> (Exit 0, s') | (Panicked (PException e), s') \<Rightarrow> (Exit 1, s')
        | (Panicked p, s') \<Rightarrow> (Crashed, s') | (Blocked, s') \<Rightarrow> (Running, s'))"
      with assms(3,4) show ?thesis unfolding m by (auto split: prod.splits outcome.splits panicval.splits)
    qed (use assms(3,4) m in simp_all)
  qed
qed

text \<open>
  C35: how every command line ends. Without a subcommand the status is 2 and with a request for help 0; a
  subcommand that does not exist, or whose arguments are rejected, is status 1; in all these cases the
  service was not touched. Otherwise the job of that name runs, with the environment that has the
  variable for the hashers set in the case of \<open>fetch\<close>: after at most one re-execution, whose failure ends the
  process before anything happened. The status is 0 exactly when the job returns, and 1 exactly when it throws an exception.
\<close>

theorem main_endings:
  "(length args < 2 \<longrightarrow> main pf getenv args s = (Exit 2, s))
   \<and> (2 \<le> length args \<and> is_help (args ! 1) \<longrightarrow> main pf getenv args s = (Exit 0, s))
   \<and> (2 \<le> length args \<and> args ! 1 \<notin> {''-h'', ''--help'', ''help''} \<union> set commands \<longrightarrow> main pf getenv args s = (Exit 1, s))
   \<and> (2 \<le> length args \<and> args ! 1 \<in> set commands \<longrightarrow>
       (case main pf getenv args s of (r, s') \<Rightarrow>
          (r = Crashed \<and> s' = s \<and> args ! 1 = ''fetch'' \<and> getenv maxHashersEnv = '''')
        \<or> (r = Exit 1 \<and> s' = s \<and> (\<exists>e. fst (parse_command pf (sub_env (args ! 1) getenv) (args ! 1) (drop 2 args) s) = Panicked (PException e)))
        \<or> (\<exists>j. fst (parse_command pf (sub_env (args ! 1) getenv) (args ! 1) (drop 2 args) s) = Ret j \<and> job_name j = args ! 1
             \<and> snd (run_job pf j s) = s'
             \<and> (r = Exit 0 \<longleftrightarrow> (\<exists>u. fst (run_job pf j s) = Ret u))
             \<and> (r = Exit 1 \<longleftrightarrow> (\<exists>e. fst (run_job pf j s) = Panicked (PException e)))
             \<and> (r = Running \<longleftrightarrow> fst (run_job pf j s) = Blocked))))"
proof (intro conjI impI)
  assume "length args < 2"
  then show "main pf getenv args s = (Exit 2, s)" by (subst main.simps) simp
next
  assume "2 \<le> length args \<and> is_help (args ! 1)"
  then show "main pf getenv args s = (Exit 0, s)" by (subst main.simps) (auto simp: is_help_def Let_def)
next
  assume a: "2 \<le> length args \<and> args ! 1 \<notin> {''-h'', ''--help'', ''help''} \<union> set commands"
  then have m: "main pf getenv args s = run_sub pf (sub_env (args ! 1) getenv) (args ! 1) (drop 2 args) s"
    using main_cases [of args pf getenv s] by (auto simp: is_help_def commands_def)
  from run_sub_cases [of pf "sub_env (args ! 1) getenv" "args ! 1" "drop 2 args" s] show "main pf getenv args s = (Exit 1, s)"
  proof (elim disjE exE conjE)
    fix j assume "job_name j = args ! 1"
    with job_name_commands [of j] a show ?thesis by simp
  qed (simp add: m)
next
  assume a: "2 \<le> length args \<and> args ! 1 \<in> set commands"
  obtain r s' where m: "main pf getenv args s = (r, s')" by fastforce
  from command_ends [OF conjunct1 [OF a] conjunct2 [OF a] refl m] show "case main pf getenv args s of (r, s') \<Rightarrow>
          (r = Crashed \<and> s' = s \<and> args ! 1 = ''fetch'' \<and> getenv maxHashersEnv = '''')
        \<or> (r = Exit 1 \<and> s' = s \<and> (\<exists>e. fst (parse_command pf (sub_env (args ! 1) getenv) (args ! 1) (drop 2 args) s) = Panicked (PException e)))
        \<or> (\<exists>j. fst (parse_command pf (sub_env (args ! 1) getenv) (args ! 1) (drop 2 args) s) = Ret j \<and> job_name j = args ! 1
             \<and> snd (run_job pf j s) = s'
             \<and> (r = Exit 0 \<longleftrightarrow> (\<exists>u. fst (run_job pf j s) = Ret u))
             \<and> (r = Exit 1 \<longleftrightarrow> (\<exists>e. fst (run_job pf j s) = Panicked (PException e)))
             \<and> (r = Running \<longleftrightarrow> fst (run_job pf j s) = Blocked))"
    unfolding m prod.case .
qed

text \<open>A platform on the in-memory service.\<close>

definition pf0 :: "(mem, nat) platform" where
  "pf0 = \<lparr>pf_s3 = (\<lambda>_. mem_s3), pf_lib = lib0, pf_order = order0, pf_sf = id,
     pf_fetch = \<lparr>fe_stdin = Inr tor_a, fe_mkdir = None, fe_client = None, fe_add = None, fe_calls = [], fe_waited = True\<rparr>,
     pf_sched1 = rev, pf_sched2 = rev, pf_cut = 0, pf_bg = bg_g, pf_disk = disk_full, pf_shuffle = rev,
     pf_turns = [(0, 1)], pf_duration = (\<lambda>_. Inr 1), pf_rbg = (\<lambda>_. others_at Returning [''p1'']), pf_uploads = (\<lambda>_ p. (p, [])), pf_sort = (\<lambda>es. es),
     pf_ssh = ssh0, pf_listen = None, pf_events = [Tick], pf_tg = tg0, pf_tgstate = 0,
     pf_setenv = None, pf_exe = Inr ''/samogon'', pf_exec = Some EOF\<rparr>"

section \<open>What a command line can do to the service\<close>

text \<open>The changes that a job may make: the value that a key of a bucket may have afterwards.\<close>

fun may_leave :: "job \<Rightarrow> string \<Rightarrow> string \<Rightarrow> bytes option \<Rightarrow> bool" where
  "may_leave (JFetch c) b k v = adds c b k v"
| "may_leave (JRepack c opts) b k v = adds c b k v"
| "may_leave (JGc c) b k v = (b = S3Bucket c \<and> v = None \<and> prefix (PrefixPieces c) k)"
| "may_leave (JBench c opts) b k v = bench_writes c opts b k v"
| "may_leave (JServe c) b k v = False"
| "may_leave (JGet c opts) b k v = False"
| "may_leave (JGet2 c opts) b k v = False"
| "may_leave (JBot c) b k v = False"

text \<open>What the program relies on of the outside.\<close>

definition platform_laws :: "('s, 't) platform \<Rightarrow> 's view \<Rightarrow> bool" where
  "platform_laws pf objs \<longleftrightarrow> (\<forall>opts. s3_laws (pf_s3 pf opts) objs) \<and> sched_law (pf_sched2 pf) \<and> uploads_law (pf_uploads pf)
     \<and> (\<forall>s. Outside s \<notin> set (pf_events pf))"

lemma run_from_only:
  assumes "run_from fresh m s = (r, s')" and "\<And>r w'. m (fresh s) = (r, w') \<Longrightarrow> only objs (objs s) Q w'"
  shows "objs s' b k = objs s b k \<or> Q b k (objs s' b k)"
  using assms by (auto simp: run_from_def only_def split: prod.splits)

lemma only_start: "w_s3 w = s \<Longrightarrow> only objs (objs s) Q w"
  by (simp add: only_def)

lemma run_from_keeps:
  assumes "run_from fresh m s = (r, s')" and "w_s3 (fresh s) = s" and "keeps (only objs (objs s) Q) m"
  shows "objs s' b k = objs s b k \<or> Q b k (objs s' b k)"
  by (rule run_from_only [OF assms(1)]) (rule keepsD [OF assms(3) only_start [OF assms(2)]])

lemma run_job_changes:
  assumes "platform_laws pf objs" and "run_job pf j s = (r, s')"
  shows "objs s' b k = objs s b k \<or> may_leave j b k (objs s' b k)"
proof -
  have laws: "s3_laws (newStorage (pf_s3 pf) c) objs" "sched_law (pf_sched2 pf)" "uploads_law (pf_uploads pf)"
    "\<forall>s. Outside s \<notin> set (pf_events pf)" for c
    using assms(1) by (simp_all add: platform_laws_def newStorage_def)
  note run = assms(2)
  show ?thesis
  proof (cases j)
    case (JFetch c)
    show ?thesis unfolding JFetch may_leave.simps
      by (rule run_from_keeps [OF run [unfolded JFetch run_job.simps] _ keeps_runFetch [OF laws(1)]]) (simp add: fetch_start_def)
  next
    case (JGc c)
    show ?thesis unfolding JGc may_leave.simps
    proof (rule run_from_only [OF run [unfolded JGc run_job.simps], where Q = "\<lambda>b k v. b = S3Bucket c \<and> v = None \<and> prefix (PrefixPieces c) k"])
      fix r w' assume "runGc (pf_sched1 pf) (pf_sched2 pf) (pf_cut pf) c (newStorage (pf_s3 pf) c) (pf_lib pf) (gc_start s) = (r, w')"
      from runGc_only [OF laws(1,2) this]
      show "only objs (objs s) (\<lambda>b k v. b = S3Bucket c \<and> v = None \<and> prefix (PrefixPieces c) k) w'" by (simp add: gc_start_def)
    qed
  next
    case (JRepack c opts)
    have start: "only objs (objs s) (adds c) (repack_start s)" by (simp add: only_start repack_start_def)
    show ?thesis unfolding JRepack may_leave.simps
      by (rule run_from_only [OF run [unfolded JRepack run_job.simps] keeps_runRepack [OF laws(1,3) start]])
  next
    case (JBench c opts)
    have "keeps (only objs (objs s) (bench_writes c opts)) (bindM (runBench c (newStorage (pf_s3 pf) c) (pf_turns pf) opts) (\<lambda>_. ret ()))"
      by (intro keeps_intros keeps_runBench [OF laws(1)])
    from run_from_keeps [OF run [unfolded JBench run_job.simps] _ this] show ?thesis
      unfolding JBench may_leave.simps by (simp add: bench_start_def)
  next
    case (JServe c)
    show ?thesis unfolding JServe may_leave.simps
    proof (rule run_from_only [OF run [unfolded JServe run_job.simps], where Q = "\<lambda>b k v. False"])
      fix r w' assume "bindM (runServe (pf_sf pf) c (newStorage (pf_s3 pf) c) (pf_lib pf) (pf_order pf) (pf_sort pf)
         (pf_ssh pf) (pf_listen pf) (pf_events pf)) (\<lambda>_. block) (meta_start s) = (r, w')"
      then obtain r1 where "runServe (pf_sf pf) c (newStorage (pf_s3 pf) c) (pf_lib pf) (pf_order pf) (pf_sort pf)
         (pf_ssh pf) (pf_listen pf) (pf_events pf) (meta_start s) = (r1, w')"
        by (auto simp: bindM_def block_run split: prod.splits outcome.splits)
      from keeps_only_runServe [OF laws(1,4) _ this] show "only objs (objs s) (\<lambda>b k v. False) w'"
        by (simp add: only_start meta_start_def)
    qed
  next
    case (JGet c opts)
    show ?thesis unfolding JGet may_leave.simps
      by (rule run_from_keeps [OF run [unfolded JGet run_job.simps] _ keeps_only_runGet [OF laws(1)]]) (simp add: get_start_def)
  next
    case (JGet2 c opts)
    show ?thesis unfolding JGet2 may_leave.simps
      by (rule run_from_keeps [OF run [unfolded JGet2 run_job.simps] _ keeps_only_runGet2 [OF laws(1)]]) (simp add: get2_start_def)
  next
    case (JBot c)
    with run have "s' = s" by (auto simp: bindM_def block_run split: outcome.splits)
    then show ?thesis by simp
  qed
qed

lemma parse_command_usable:
  "parse_command pf getenv sub rest w = (Ret j, w') \<Longrightarrow> may_leave j b k v \<Longrightarrow> \<exists>c. b = S3Bucket c \<and> usable c"
  by (auto simp: parse_command_def bindM_Ret_iff ret_run ThrowFmt_run adds_def bench_writes_def split: if_splits
      dest: fetch_args_Ret repack_args_Ret gc_args_Ret bench_args_Ret)

text \<open>
  C6: what any command line can do to the object service. Whatever the arguments, the environment, the answers
  and failures of the service, the schedules, and wherever the process ends: if an object is not as before,
  then the arguments were accepted as one of four jobs, it lies in the one bucket that this job was configured for, and the change is of
  the job's own kind. \<^verbatim>\<open>fetch\<close> and \<^verbatim>\<open>repack\<close> only store pieces and torrents and
  remove nothing; \<^verbatim>\<open>gc\<close> only removes pieces; \<^verbatim>\<open>bench\<close> only stores its payload under its own keys. The other
  subcommands, help and every rejected command line leave the service as it was.
\<close>

theorem main_effects:
  assumes "platform_laws pf objs" and "main pf getenv args s = (r, s')" and "objs s' b k \<noteq> objs s b k"
  shows "\<exists>j. parse_command pf (sub_env (args ! 1) getenv) (args ! 1) (drop 2 args) s = (Ret j, s)
    \<and> args ! 1 \<in> {''fetch'', ''repack'', ''gc'', ''bench''} \<and> job_name j = args ! 1
    \<and> may_leave j b k (objs s' b k) \<and> (\<exists>c. b = S3Bucket c \<and> usable c)"
proof -
  have "2 \<le> length args" "\<not> is_help (args ! 1)"
    using assms(2,3) by (subst (asm) main.simps, auto simp: is_help_def Let_def split: if_splits)+
  note m = main_cases [OF this, of pf getenv s]
  let ?e = "sub_env (args ! 1) getenv"
  have run: "run_sub pf ?e (args ! 1) (drop 2 args) s = (r, s')" using assms(2,3) unfolding m by (auto split: if_splits)
  obtain j where
    j: "parse_command pf ?e (args ! 1) (drop 2 args) s = (Ret j, s)" "job_name j = args ! 1" and s': "snd (run_job pf j s) = s'"
    using run_sub_state [OF run] assms(3) by blast
  from run_job_changes [OF assms(1), of j s "fst (run_job pf j s)" s'] s' assms(3) have l: "may_leave j b k (objs s' b k)"
    by (metis prod.collapse)
  then have "args ! 1 \<in> {''fetch'', ''repack'', ''gc'', ''bench''}" using j(2) by (cases j) auto
  with j l parse_command_usable [OF j(1) l] show ?thesis by blast
qed

text \<open>\<^verbatim>\<open>samogon bench\<close> on an empty service, with one turn.\<close>

lemma pf0_laws: "platform_laws pf0 mem_view"
  using mem_laws sched_law_rev by (simp add: platform_laws_def pf0_def uploads_law_def)

lemma bench_run0:
  "\<exists>s'. main pf0 env_s [''samogon'', ''bench''] (mem_of []) = (Exit 0, s') \<and> mem_view s' ''x'' ''torrents/bench/0.0'' \<noteq> None"
proof -
  let ?c = "loadCommon env_s" and ?p = "\<lparr>b_parallel = 32, b_chunkSize = 262144, b_duration = 30000000000\<rparr>"
  have u: "usable ?c" by code_simp
  have c: "S3Bucket ?c = ''x''" "S3Root ?c = ''torrents''" by code_simp+
  have p: "parse_command pf0 env_s ''bench'' [] w = (Ret (JBench ?c ?p), w)" for w :: mem
    by (simp add: parse_command_def parseBenchArgs_def bindM_def ThrowE_run ret_run validate_run [OF u])
  let ?d = "replicate (nat (b_chunkSize ?p)) (of_char (CHR ''x'')) :: bytes"
  have k: "bench_key ?c 0 0 = ''torrents/bench/0.0''" unfolding bench_key_def c(2) by code_simp
  have r: "run_job pf0 (JBench ?c ?p) (mem_of []) = (Ret (), ([((''x'', ''torrents/bench/0.0''), ?d)], []))"
    by (simp add: run_from_def runBench_def bench_turn_def bindM_def modifyM_run getM_run call_def ret_run newStorage_def
        pf0_def mem_s3_def mem_of_def mem_fails_def bench_start_def k c(1))
  have "main pf0 env_s [''samogon'', ''bench''] (mem_of []) = run_sub pf0 env_s ''bench'' [] (mem_of [])"
    using main_cases [of "[''samogon'', ''bench'']" pf0 env_s "mem_of []"] by (simp add: is_help_def sub_env_def)
  also have "\<dots> = (Exit 0, ([((''x'', ''torrents/bench/0.0''), ?d)], []))"
    unfolding run_sub_def Try_def bindM_def p by (simp only: r prod.case outcome.case sum.case)
  finally show ?thesis by (simp add: mem_view_def)
qed

theorem main_endings_witness:
  "main pf0 env_s [''samogon''] (mem_of []) = (Exit 2, mem_of []) \<and> main pf0 env_s [''samogon'', ''help''] (mem_of []) = (Exit 0, mem_of [])
   \<and> main pf0 env_s [''samogon'', ''push'', ''x''] (mem_of []) = (Exit 1, mem_of [])
   \<and> (\<exists>j u s'. job_name j = ''bench'' \<and> run_job pf0 j (mem_of []) = (Ret u, s') \<and> mem_view s' ''x'' ''torrents/bench/0.0'' \<noteq> None)"
proof -
  let ?b = "[''samogon'', ''bench'']"
  obtain s' where r: "main pf0 env_s ?b (mem_of []) = (Exit 0, s')" "mem_view s' ''x'' ''torrents/bench/0.0'' \<noteq> None"
    using bench_run0 by blast
  have "2 \<le> length ?b \<and> ?b ! 1 \<in> set commands" by (simp add: commands_def)
  from main_endings [of ?b pf0 env_s "mem_of []", THEN conjunct2, THEN conjunct2, THEN conjunct2, THEN mp, OF this]
  have "\<exists>j. job_name j = ''bench'' \<and> snd (run_job pf0 j (mem_of [])) = s' \<and> (\<exists>u. fst (run_job pf0 j (mem_of [])) = Ret u)"
    unfolding r(1) prod.case by (elim disjE conjE exE) auto
  then have "\<exists>j u s'. job_name j = ''bench'' \<and> run_job pf0 j (mem_of []) = (Ret u, s') \<and> mem_view s' ''x'' ''torrents/bench/0.0'' \<noteq> None"
    using r(2) by (metis prod.collapse)
  with main_endings [of "[''samogon'']" pf0 env_s "mem_of []"] main_endings [of "[''samogon'', ''help'']" pf0 env_s "mem_of []"]
    main_endings [of "[''samogon'', ''push'', ''x'']" pf0 env_s "mem_of []"]
  show ?thesis by (simp add: is_help_def commands_def)
qed

theorem main_effects_witness:
  "\<exists>s'. main pf0 env_s [''samogon'', ''bench''] (mem_of []) = (Exit 0, s') \<and> mem_view s' ''x'' ''torrents/bench/0.0'' \<noteq> None
    \<and> (\<exists>j c. job_name j = ''bench'' \<and> ''x'' = S3Bucket c \<and> usable c
         \<and> may_leave j ''x'' ''torrents/bench/0.0'' (mem_view s' ''x'' ''torrents/bench/0.0''))"
proof -
  obtain s' where r: "main pf0 env_s [''samogon'', ''bench''] (mem_of []) = (Exit 0, s')" "mem_view s' ''x'' ''torrents/bench/0.0'' \<noteq> None"
    using bench_run0 by blast
  then have d: "mem_view s' ''x'' ''torrents/bench/0.0'' \<noteq> mem_view (mem_of []) ''x'' ''torrents/bench/0.0''"
    by (simp add: mem_view_def mem_of_def)
  have "[''samogon'', ''bench''] ! 1 = ''bench''" by simp
  with main_effects [where pf = pf0 and objs = mem_view and b = "''x''" and k = "''torrents/bench/0.0''", OF pf0_laws r(1) d] r
  show ?thesis by metis
qed

end
