(* ===== verification/Flight.thy ===== *)
theory Flight
  imports Reader Steps "HOL-Library.Multiset"
begin

text \<open>
  \<open>getPiece\<close> of \<^verbatim>\<open>sftp.go\<close> with many goroutines at once: the requests of all sessions and the
  prefetches they launch. All of them share the cache; each session has a singleflight group of its own
  (\<open>newSftpHandlers\<close>, called once per session). Every cache operation, every entry
  into a group and every answer of the store is one step of some goroutine, and the steps interleave freely.

  The package \<^verbatim>\<open>singleflight\<close> is not in the repository. The relation has its documented contract:
  a call of \<open>Do\<close> runs its function unless a call for the same key is running; then it waits for that call and
  returns with it, and the panic of a function is the panic of every call that waited for it.

  The theorems show that interleaving never makes a read wrong, that each piece has at most one
  request to the store per session at a time, that a burst of requests is answered correctly while the cache has room for the
  pieces it is about, and where the code falls short: a read that joins a failing prefetch gets nothing, and no error.
\<close>

section \<open>Goroutines and their steps\<close>

text \<open>
  A flight is named by the session, whose group it is in, and the hash. Where a goroutine stands: the flag says whether it is a read (true) or a prefetch. \<open>GCheck\<close>, \<open>GLoad\<close>
  and \<open>GFill\<close> are inside the function given to \<open>Do\<close>; \<open>GJoin\<close> waits for the call of another goroutine.
\<close>

datatype flight = Flight (fl_group: nat) (fl_hash: string)

datatype goro =
    GBegin nat "string list" int
  | GLook flight
  | GDo bool flight
  | GJoin bool flight
  | GCheck bool flight
  | GLoad bool flight
  | GFill bool flight bytes
  | GLast flight

text \<open>Goroutines, the state they share, and what \<open>getPiece\<close> returned so far (\<open>None\<close> is \<open>nil\<close>); or a panic that nothing recovers.\<close>

datatype 's readers =
    Readers "goro multiset" "'s cworld" "(flight \<times> bytes option) list"
  | Down panicval "'s cworld"

fun leads :: "flight \<Rightarrow> goro \<Rightarrow> bool" where
  "leads h (GCheck fg k) = (k = h)"
| "leads h (GLoad fg k) = (k = h)"
| "leads h (GFill fg k d) = (k = h)"
| "leads h _ = False"

definition in_flight :: "flight \<Rightarrow> goro multiset \<Rightarrow> bool" where
  "in_flight h T \<longleftrightarrow> (\<exists>t\<in>#T. leads h t)"

text \<open>The end of a call for \<open>h\<close>: the goroutines that waited go on, a prefetch is done with it.\<close>

definition release :: "flight \<Rightarrow> goro multiset \<Rightarrow> goro multiset" where
  "release h T = image_mset (\<lambda>t. if t = GJoin True h then GLast h else t) (filter_mset (\<lambda>t. t \<noteq> GJoin False h) T)"

definition finish :: "bool \<Rightarrow> flight \<Rightarrow> goro multiset \<Rightarrow> goro multiset" where
  "finish fg h T = release h T + (if fg then {#GLast h#} else {#})"

text \<open>The hashes to prefetch for a read of piece \<open>i\<close>: none, one, or an index out of range.\<close>

definition ahead :: "Config \<Rightarrow> string list \<Rightarrow> int \<Rightarrow> string list option" where
  "ahead cfg hs i = (let d = PrefetchDistance cfg; j = wrap64 (i + d) in
     if d > 0 \<and> j < int (length hs) then (if 0 \<le> j then Some [hs ! nat j] else None) else Some [])"

inductive rd_step :: "(panicval \<Rightarrow> panicval) \<Rightarrow> Config \<Rightarrow> 's s3api \<Rightarrow> 's readers \<Rightarrow> 's readers \<Rightarrow> bool"
  for sf :: "panicval \<Rightarrow> panicval" and cfg :: Config and cli :: "'s s3api" where
  start: "0 \<le> i \<Longrightarrow> i < int (length hs) \<Longrightarrow> ahead cfg hs i = Some ps \<Longrightarrow>
    rd_step sf cfg cli (Readers (add_mset (GBegin g hs i) T) w rs)
      (Readers (add_mset (GLook (Flight g (hs ! nat i))) (T + mset (map (\<lambda>p. GDo False (Flight g p)) ps))) (w\<lparr>rw_spawned := rw_spawned w @ ps\<rparr>) rs)"
| start_bad: "\<not> (0 \<le> i \<and> i < int (length hs) \<and> ahead cfg hs i \<noteq> None) \<Longrightarrow>
    rd_step sf cfg cli (Readers (add_mset (GBegin g hs i) T) w rs) (Down (PRuntime ''index out of range'') w)"
| hit: "cacheGet (fl_hash h) w = (Ret (Some d), w') \<Longrightarrow>
    rd_step sf cfg cli (Readers (add_mset (GLook h) T) w rs) (Readers T w' (rs @ [(h, Some d)]))"
| miss: "cacheGet (fl_hash h) w = (Ret None, w') \<Longrightarrow>
    rd_step sf cfg cli (Readers (add_mset (GLook h) T) w rs) (Readers (add_mset (GDo True h) T) w' rs)"
| lead: "\<not> in_flight h T \<Longrightarrow>
    rd_step sf cfg cli (Readers (add_mset (GDo fg h) T) w rs) (Readers (add_mset (GCheck fg h) T) w rs)"
| join: "in_flight h T \<Longrightarrow>
    rd_step sf cfg cli (Readers (add_mset (GDo fg h) T) w rs) (Readers (add_mset (GJoin fg h) T) w rs)"
| check_hit: "cacheGet (fl_hash h) w = (Ret (Some d), w') \<Longrightarrow>
    rd_step sf cfg cli (Readers (add_mset (GCheck fg h) T) w rs) (Readers (finish fg h T) w' rs)"
| check_miss: "cacheGet (fl_hash h) w = (Ret None, w') \<Longrightarrow>
    rd_step sf cfg cli (Readers (add_mset (GCheck fg h) T) w rs) (Readers (add_mset (GLoad fg h) T) w' rs)"
| load: "Cat cfg cli (KeyPiece cfg (fl_hash h)) w = (Ret d, w') \<Longrightarrow>
    rd_step sf cfg cli (Readers (add_mset (GLoad fg h) T) w rs) (Readers (add_mset (GFill fg h d) T) w' rs)"
| load_fails: "Cat cfg cli (KeyPiece cfg (fl_hash h)) w = (Panicked (PException e), w') \<Longrightarrow>
    rd_step sf cfg cli (Readers (add_mset (GLoad False h) T) w rs) (Readers (finish False h T) w' rs)"
| load_panics: "Cat cfg cli (KeyPiece cfg (fl_hash h)) w = (Panicked p, w') \<Longrightarrow>
    rd_step sf cfg cli (Readers (add_mset (GLoad True h) T) w rs) (Down (sf p) w')"
| fill: "cachePut (fl_hash h) d w = (Ret u, w') \<Longrightarrow>
    rd_step sf cfg cli (Readers (add_mset (GFill fg h d) T) w rs) (Readers (finish fg h T) w' rs)"
| final: "cacheGet (fl_hash h) w = (Ret r, w') \<Longrightarrow>
    rd_step sf cfg cli (Readers (add_mset (GLast h) T) w rs) (Readers T w' (rs @ [(h, r)]))"

text \<open>Requests that arrive: another call of \<open>getPiece\<close> begins, in any session.\<close>

inductive rd_open :: "(panicval \<Rightarrow> panicval) \<Rightarrow> Config \<Rightarrow> 's s3api \<Rightarrow> 's readers \<Rightarrow> 's readers \<Rightarrow> bool"
  for sf :: "panicval \<Rightarrow> panicval" and cfg :: Config and cli :: "'s s3api" where
  arrive: "rd_open sf cfg cli (Readers T w rs) (Readers (add_mset (GBegin g hs i) T) w rs)"
| go: "rd_step sf cfg cli s s' \<Longrightarrow> rd_open sf cfg cli s s'"

section \<open>Flights\<close>

lemma in_flight_simps [simp]:
  "in_flight h {#} = False"
  "in_flight h (add_mset t T) = (leads h t \<or> in_flight h T)"
  "in_flight h (S + T) = (in_flight h S \<or> in_flight h T)"
  by (auto simp: in_flight_def)

lemma release_simps [simp]:
  "release h {#} = {#}"
  "release h (add_mset t T) = (if t = GJoin False h then {#} else {#if t = GJoin True h then GLast h else t#}) + release h T"
  by (auto simp: release_def)

lemma in_flight_release [simp]: "in_flight k (release h T) = in_flight k T"
  by (induction T) auto

lemma in_flight_finish [simp]: "in_flight k (finish fg h T) = in_flight k T"
  by (simp add: finish_def)

lemma in_release: "t \<in># release h T \<Longrightarrow> t \<in># T \<or> (t = GLast h \<and> GJoin True h \<in># T)"
  by (induction T) (auto split: if_splits)

lemma in_finish: "t \<in># finish fg h T \<Longrightarrow> t \<in># T \<or> t = GLast h"
  by (auto simp: finish_def dest: in_release split: if_splits)

lemma no_joins_left: "GJoin b h \<notin># finish fg h T"
  by (cases b) (auto simp: finish_def release_def split: if_splits)

lemma joins_kept: "k \<noteq> h \<Longrightarrow> GJoin b k \<in># finish fg h T \<longleftrightarrow> GJoin b k \<in># T"
  by (auto simp: finish_def release_def split: if_splits)

text \<open>One call per key at a time, and nobody waits for a call that is over.\<close>

definition calls :: "flight \<Rightarrow> goro multiset \<Rightarrow> nat" where
  "calls h T = size (filter_mset (leads h) T)"

definition flights :: "goro multiset \<Rightarrow> bool" where
  "flights T \<longleftrightarrow> (\<forall>h. calls h T \<le> 1) \<and> (\<forall>b h. GJoin b h \<in># T \<longrightarrow> in_flight h T)"

lemma calls_add [simp]: "calls h (add_mset t T) = (if leads h t then 1 else 0) + calls h T"
  by (simp add: calls_def)

lemma calls_none: "\<not> in_flight h T \<Longrightarrow> calls h T = 0"
  by (auto simp: calls_def in_flight_def filter_mset_eq_conv)

lemma calls_finish [simp]: "calls k (finish fg h T) = calls k T"
proof -
  have "filter_mset (leads k) (release h T) = filter_mset (leads k) T" by (induction T) auto
  then show ?thesis by (simp add: calls_def finish_def)
qed

lemma flightsD: "flights T \<Longrightarrow> calls h T \<le> 1" "flights T \<Longrightarrow> GJoin b h \<in># T \<Longrightarrow> in_flight h T"
  by (simp_all add: flights_def)

lemma calls_less: "flights (add_mset t T) \<Longrightarrow> calls h T \<le> 1"
  using flightsD(1) [of "add_mset t T" h] by simp

lemma flights_finish:
  assumes "flights (add_mset t T)" and "leads h t"
  shows "flights (finish fg h T)"
proof -
  have only: "k = h" if "leads k t" for k using that assms(2) by (cases t) auto
  have "in_flight k (finish fg h T)" if "GJoin b k \<in># finish fg h T" for b k
  proof -
    have "k \<noteq> h" using that no_joins_left by blast
    with that joins_kept have "GJoin b k \<in># add_mset t T" by simp
    from flightsD(2) [OF assms(1) this] only \<open>k \<noteq> h\<close> show ?thesis by auto
  qed
  with calls_less [OF assms(1)] show ?thesis by (simp add: flights_def)
qed

lemma flights_same:
  assumes "flights (add_mset t T)" and "\<And>h. leads h t' = leads h t" and "\<And>b h. t' \<noteq> GJoin b h"
  shows "flights (add_mset t' T)"
proof -
  have "in_flight h (add_mset t' T)" if "GJoin b h \<in># add_mset t' T" for b h
    using that assms(3) [of b h] flightsD(2) [OF assms(1), of b h] by (auto simp: assms(2))
  moreover have "calls h (add_mset t' T) \<le> 1" for h
    using flightsD(1) [OF assms(1), of h] by (simp add: assms(2))
  ultimately show ?thesis by (simp add: flights_def)
qed

lemma flights_less:
  assumes "flights (add_mset t T)" and "\<And>h. \<not> leads h t"
  shows "flights T"
  using flightsD [OF assms(1)] assms(2) by (auto simp: flights_def)

lemma flights_lead:
  assumes "flights (add_mset (GDo fg h) T)" and "\<not> in_flight h T"
  shows "flights (add_mset (GCheck fg h) T)"
proof -
  have "calls k (add_mset (GCheck fg h) T) \<le> 1" for k
    using calls_less [OF assms(1), of k] calls_none [OF assms(2)] by auto
  with flightsD(2) [OF assms(1)] show ?thesis by (auto simp: flights_def)
qed

lemma flights_join:
  assumes "flights (add_mset (GDo fg h) T)" and "in_flight h T"
  shows "flights (add_mset (GJoin fg h) T)"
  using assms by (auto simp: flights_def)

lemma flights_prefetch: "flights T \<Longrightarrow> flights (T + mset (map (\<lambda>p. GDo False (Flight g p)) ps))"
proof (induction ps)
  case (Cons p ps)
  then show ?case by (auto simp: flights_def)
qed simp

section \<open>The invariant of the shared state\<close>

definition rd_inv ::
  "Config \<Rightarrow> 's s3api \<Rightarrow> 's view \<Rightarrow> (string \<Rightarrow> bytes option) \<Rightarrow> 's readers \<Rightarrow> bool" where
  "rd_inv cfg cli objs content s = (case s of
      Down p w \<Rightarrow> coherent cfg cli objs content w
    | Readers T w rs \<Rightarrow> coherent cfg cli objs content w \<and> flights T
        \<and> (\<forall>fg h d. GFill fg h d \<in># T \<longrightarrow> content (fl_hash h) = Some d)
        \<and> (\<forall>a\<in>set rs. snd a = None \<or> snd a = content (fl_hash (fst a))))"

lemma cacheGet_coherent:
  assumes "coherent cfg cli objs content w" and "cacheGet h w = (Ret r, w')"
  shows "coherent cfg cli objs content w' \<and> (r = None \<or> r = content h)"
proof -
  have "fst (LRU_Get h (rw_cache w)) = r" using assms(2) by (simp add: cacheGet_run)
  moreover have "coherent cfg cli objs content w'" by (rule keepsD [OF keeps_cacheGet assms])
  ultimately show ?thesis using assms(1) by (cases r) (auto simp: coherent_def dest: lru.agrees_hit)
qed

lemma fill_finish: "GFill b k d \<in># finish fg h T \<Longrightarrow> GFill b k d \<in># T"
  by (auto dest: in_finish)

lemma rd_inv_step:
  assumes "rd_step sf cfg cli s s'" and "rd_inv cfg cli objs content s"
  shows "rd_inv cfg cli objs content s'"
  using assms
proof (induction rule: rd_step.induct)
  case (start i hs ps g T w rs)
  from start(4) have "flights (add_mset (GLook (Flight g (hs ! nat i))) T)"
    by (auto simp: rd_inv_def intro: flights_same [of "GBegin g hs i"])
  from flights_prefetch [OF this, of g ps] start(4) show ?case by (auto simp: rd_inv_def coherent_def)
next
  case (hit h w d w' T rs)
  then show ?case using cacheGet_coherent [OF _ hit(1)] by (auto simp: rd_inv_def intro: flights_less)
next
  case (miss h w w' T rs)
  then show ?case using cacheGet_coherent [OF _ miss(1)]
    by (auto simp: rd_inv_def intro: flights_same [of "GLook h"])
next
  case (lead h T fg w rs)
  then show ?case by (auto simp: rd_inv_def intro: flights_lead)
next
  case (join h T fg w rs)
  then show ?case by (auto simp: rd_inv_def intro: flights_join)
next
  case (check_hit h w d w' fg T rs)
  then show ?case using cacheGet_coherent [OF _ check_hit(1)]
    by (auto simp: rd_inv_def intro: flights_finish [of "GCheck fg h"] dest: fill_finish)
next
  case (check_miss h w w' fg T rs)
  then show ?case using cacheGet_coherent [OF _ check_miss(1)]
    by (auto simp: rd_inv_def intro: flights_same [of "GCheck fg h"])
next
  case (load h w d w' fg T rs)
  then show ?case using coherent_Cat [OF _ load(1)]
    by (auto simp: rd_inv_def intro: flights_same [of "GLoad fg h"])
next
  case (load_fails h w e w' T rs)
  then show ?case using coherent_Cat [OF _ load_fails(1)]
    by (auto simp: rd_inv_def intro: flights_finish [of "GLoad False h"] dest: fill_finish)
next
  case (load_panics h w p w' T rs)
  then show ?case using coherent_Cat [OF _ load_panics(1)] by (auto simp: rd_inv_def)
next
  case (fill h d w u w' fg T rs)
  have "coherent cfg cli objs content w'"
    using fill by (auto simp: rd_inv_def coherent_def cachePut_def modifyM_run lru.put_ok lru.agrees_put)
  with fill(2) show ?case
    by (auto simp: rd_inv_def intro: flights_finish [of "GFill fg h d"] dest: fill_finish)
next
  case (final h w r w' T rs)
  then show ?case using cacheGet_coherent [OF _ final(1)] by (auto simp: rd_inv_def intro: flights_less)
qed (simp add: rd_inv_def)

lemma rd_inv_open:
  assumes "rd_open sf cfg cli s s'" and "rd_inv cfg cli objs content s"
  shows "rd_inv cfg cli objs content s'"
  using assms
proof (induction rule: rd_open.induct)
  case (arrive T w rs g hs i)
  then show ?case by (auto simp: rd_inv_def flights_def)
qed (rule rd_inv_step)

interpretation flight: kept_by_steps "rd_open sf cfg cli" "rd_inv cfg cli objs content" for sf cfg cli objs content
  by unfold_locales (rule rd_inv_open)

lemma steps_open: "(rd_step sf cfg cli)\<^sup>*\<^sup>* s s' \<Longrightarrow> (rd_open sf cfg cli)\<^sup>*\<^sup>* s s'"
  by (induction rule: rtranclp_induct) (auto intro: rtranclp.rtrancl_into_rtrancl rd_open.go)

section \<open>Progress and termination\<close>

lemma rd_progress:
  assumes "flights T" and "T \<noteq> {#}"
  shows "\<exists>s'. rd_step sf cfg cli (Readers T w rs) s'"
proof -
  have leader: "\<exists>s'. rd_step sf cfg cli (Readers (add_mset t T') w rs) s'" if "leads h t" for t T' h
  proof -
    obtain r w1 where g: "cacheGet (fl_hash h) w = (Ret r, w1)" by (simp add: cacheGet_run)
    obtain x w2 where c: "Cat cfg cli (KeyPiece cfg (fl_hash h)) w = (x, w2)" by fastforce
    show ?thesis
    proof (cases t)
      case (GCheck fg k)
      with that g show ?thesis by (cases r) (auto intro: rd_step.check_hit rd_step.check_miss)
    next
      case (GLoad fg k)
      with that c Cat_outcome [OF c] show ?thesis
        by (cases fg) (auto intro: rd_step.load rd_step.load_fails rd_step.load_panics)
    next
      case (GFill fg k d)
      obtain w3 where "cachePut (fl_hash k) d w = (Ret (), w3)" by (simp add: cachePut_def modifyM_run)
      with GFill show ?thesis by (auto intro: rd_step.fill)
    qed (use that in auto)
  qed
  obtain t T' where T: "T = add_mset t T'" using assms(2) by (metis multiset_cases)
  show ?thesis
  proof (cases "\<exists>h u. u \<in># T \<and> leads h u")
    case True
    then obtain h u T2 where "T = add_mset u T2" "leads h u" by (metis multi_member_split)
    with leader show ?thesis by simp
  next
    case False
    then have nf: "\<not> in_flight h T" for h by (auto simp: in_flight_def)
    have nj: "t \<noteq> GJoin b h" for b h using flightsD(2) [OF assms(1), of b h] nf T by auto
    have nl: "\<not> leads h t" for h using False T by auto
    show ?thesis
    proof (cases t)
      case (GBegin g hs i)
      then show ?thesis unfolding T
        by (cases "0 \<le> i \<and> i < int (length hs) \<and> ahead cfg hs i \<noteq> None") (auto intro: rd_step.start rd_step.start_bad)
    next
      case (GLook h)
      obtain r w1 where g: "cacheGet (fl_hash h) w = (Ret r, w1)" by (simp add: cacheGet_run)
      with GLook show ?thesis unfolding T by (cases r) (auto intro: rd_step.hit rd_step.miss)
    next
      case (GDo fg h)
      with nf [of h] T show ?thesis by (auto intro: rd_step.lead)
    next
      case (GLast h)
      obtain r w1 where "cacheGet (fl_hash h) w = (Ret r, w1)" by (simp add: cacheGet_run)
      with GLast show ?thesis unfolding T by (auto intro: rd_step.final)
    qed (use nj nl in auto)
  qed
qed

fun weight :: "goro \<Rightarrow> nat" where
  "weight (GBegin g hs i) = 16"
| "weight (GLook h) = 8"
| "weight (GDo fg h) = 7"
| "weight (GJoin fg h) = 2"
| "weight (GCheck fg h) = 6"
| "weight (GLoad fg h) = 5"
| "weight (GFill fg h d) = 4"
| "weight (GLast h) = 1"

fun work :: "'s readers \<Rightarrow> nat" where
  "work (Readers T w rs) = Suc (\<Sum>t\<in>#T. weight t)"
| "work (Down p w) = 0"

lemma weight_release: "(\<Sum>t\<in>#release h T. weight t) \<le> (\<Sum>t\<in>#T. weight t)"
  by (induction T) auto

lemma weight_finish: "(\<Sum>t\<in>#finish fg h T. weight t) \<le> (\<Sum>t\<in>#T. weight t) + 1"
  using weight_release [of h T] by (simp add: finish_def)

lemma ahead_short: "ahead cfg hs i = Some ps \<Longrightarrow> length ps \<le> 1"
  by (auto simp: ahead_def Let_def split: if_splits)

lemma rd_step_works: "rd_step sf cfg cli s s' \<Longrightarrow> work s' < work s"
proof (induction rule: rd_step.induct)
  case (start i hs ps g T w rs)
  have "(\<Sum>t\<in>#mset (map (\<lambda>p. GDo False (Flight g p)) ps). weight t) \<le> 7"
    using ahead_short [OF start(3)] by (cases ps) auto
  then show ?case by simp
next
  case (check_hit h w d w' fg T rs)
  show ?case using weight_finish [of fg h T] by simp
next
  case (load_fails h w e w' T rs)
  show ?case using weight_finish [of False h T] by simp
next
  case (fill h d w u w' fg T rs)
  show ?case using weight_finish [of fg h T] by simp
qed simp_all

section \<open>Room in the cache\<close>

text \<open>The entries of \<open>F\<close> are in the cache, and only entries of \<open>K\<close> are more recent than them.\<close>

definition recent :: "string set \<Rightarrow> string set \<Rightarrow> LRU \<Rightarrow> bool" where
  "recent K F c \<longleftrightarrow> (\<exists>xs ys. map fst (lru_abs c) = xs @ ys \<and> set xs \<subseteq> K \<and> F \<subseteq> set xs)"

lemma recent_mono: "recent K F c \<Longrightarrow> G \<subseteq> F \<Longrightarrow> recent K G c"
  unfolding recent_def by blast

lemma recent_found: "lru_wf c \<Longrightarrow> recent K F c \<Longrightarrow> h \<in> F \<Longrightarrow> lru_lookup c h \<noteq> None"
proof -
  assume "lru_wf c" "recent K F c" "h \<in> F"
  then obtain xs ys where l: "map fst (lru_abs c) = xs @ ys" and "h \<in> set xs" by (auto simp: recent_def)
  then have "h \<in> set (map fst (lru_abs c))" unfolding l by simp
  then have "map_of (lru_abs c) h \<noteq> None" by (simp add: map_of_eq_None_iff)
  with map_of_lru_abs [OF \<open>lru_wf c\<close>] show ?thesis by simp
qed

lemma keys_touch: "map fst (spec_touch k v zs) = k # filter (\<lambda>x. x \<noteq> k) (map fst zs)"
  by (induction zs) (auto simp: spec_touch_def)

lemma recent_get:
  assumes "lru_wf c" and "recent K F c" and "k \<in> K"
  shows "recent K (if lru_lookup c k = None then F else insert k F) (snd (LRU_Get k c))"
proof -
  obtain xs ys where l: "map fst (lru_abs c) = xs @ ys" "set xs \<subseteq> K" "F \<subseteq> set xs"
    using assms(2) by (auto simp: recent_def)
  have g: "lru_abs (snd (LRU_Get k c)) = snd (spec_get k (lru_abs c))"
    using lru_Get_refines [OF assms(1), of k] by (cases "LRU_Get k c") (auto dest: arg_cong [where f = snd])
  show ?thesis
  proof (cases "lru_lookup c k")
    case None
    then have "lru_abs (snd (LRU_Get k c)) = lru_abs c" by (simp add: g spec_get_def map_of_lru_abs [OF assms(1)])
    with l None show ?thesis by (auto simp: recent_def)
  next
    case (Some v)
    then have "lru_abs (snd (LRU_Get k c)) = spec_touch k v (lru_abs c)"
      by (simp add: g spec_get_def map_of_lru_abs [OF assms(1)])
    then have "map fst (lru_abs (snd (LRU_Get k c))) = (k # filter (\<lambda>x. x \<noteq> k) xs) @ filter (\<lambda>x. x \<noteq> k) ys"
      by (simp add: keys_touch l(1))
    moreover have "set (k # filter (\<lambda>x. x \<noteq> k) xs) \<subseteq> K" "insert k F \<subseteq> set (k # filter (\<lambda>x. x \<noteq> k) xs)"
      using l(2,3) assms(3) by auto
    ultimately have "recent K (insert k F) (snd (LRU_Get k c))" unfolding recent_def by blast
    with Some show ?thesis by simp
  qed
qed

lemma recent_put:
  assumes "lru_wf c" and "recent K F c" and "k \<in> K" and "finite K" and "int (card K) \<le> lru_cap c"
  shows "recent K (insert k F) (LRU_Put k v c)"
proof -
  obtain xs ys where l: "map fst (lru_abs c) = xs @ ys" "set xs \<subseteq> K" "F \<subseteq> set xs"
    using assms(2) by (auto simp: recent_def)
  let ?n = "nat (lru_cap c)" and ?xs = "k # filter (\<lambda>x. x \<noteq> k) xs" and ?ys = "filter (\<lambda>x. x \<noteq> k) ys"
  have "distinct xs" using distinct_lru_keys [OF assms(1)] l(1) by simp
  then have "length ?xs = card (set ?xs)" by (intro distinct_card [symmetric]) simp
  also have "\<dots> \<le> card K" using l(2) assms(3) by (intro card_mono [OF assms(4)]) auto
  finally have n: "length ?xs \<le> ?n" using assms(5) by linarith
  have "map fst (lru_abs (LRU_Put k v c)) = take ?n (?xs @ ?ys)"
    by (simp add: lru_abs_Put [OF assms(1)] spec_put_def take_map [symmetric] keys_touch l(1))
  also have "\<dots> = ?xs @ take (?n - length ?xs) ?ys" by (simp only: take_append take_all [OF n])
  finally show ?thesis using l(2,3) assms(3) unfolding recent_def
    by (intro exI [of _ ?xs] exI [of _ "take (?n - length ?xs) ?ys"]) auto
qed

section \<open>A burst of requests\<close>

fun asked :: "goro \<Rightarrow> flight multiset" where
  "asked (GBegin g hs i) = {#Flight g (hs ! nat i)#}"
| "asked (GLook h) = {#h#}"
| "asked (GDo fg h) = (if fg then {#h#} else {#})"
| "asked (GJoin fg h) = (if fg then {#h#} else {#})"
| "asked (GCheck fg h) = (if fg then {#h#} else {#})"
| "asked (GLoad fg h) = (if fg then {#h#} else {#})"
| "asked (GFill fg h d) = (if fg then {#h#} else {#})"
| "asked (GLast h) = {#h#}"

text \<open>A goroutine that only ever touches pieces of \<open>K\<close>.\<close>

fun fits :: "Config \<Rightarrow> string set \<Rightarrow> goro \<Rightarrow> bool" where
  "fits cfg K (GBegin g hs i) = (0 \<le> i \<and> i < int (length hs) \<and> hs ! nat i \<in> K
     \<and> (case ahead cfg hs i of None \<Rightarrow> False | Some ps \<Rightarrow> set ps \<subseteq> K))"
| "fits cfg K (GLook h) = (fl_hash h \<in> K)"
| "fits cfg K (GDo fg h) = (fl_hash h \<in> K)"
| "fits cfg K (GJoin fg h) = (fl_hash h \<in> K)"
| "fits cfg K (GCheck fg h) = (fl_hash h \<in> K)"
| "fits cfg K (GLoad fg h) = (fl_hash h \<in> K)"
| "fits cfg K (GFill fg h d) = (fl_hash h \<in> K)"
| "fits cfg K (GLast h) = (fl_hash h \<in> K)"

definition requests :: "goro multiset \<Rightarrow> flight multiset" where
  "requests T = (\<Sum>t\<in>#T. asked t)"

definition lasts :: "goro multiset \<Rightarrow> string set" where
  "lasts T = {fl_hash h | h. GLast h \<in># T}"

lemma requests_simps [simp]:
  "requests {#} = {#}"
  "requests (add_mset t T) = asked t + requests T"
  "requests (S + T) = requests S + requests T"
  by (simp_all add: requests_def)

lemma requests_finish [simp]: "requests (finish fg h T) = (if fg then {#h#} else {#}) + requests T"
proof -
  have "requests (release h T) = requests T" by (induction T) auto
  then show ?thesis by (simp add: finish_def)
qed

lemma requests_prefetch [simp]: "requests (image_mset (\<lambda>p. GDo False (Flight g p)) (mset ps)) = {#}"
  by (induction ps) simp_all

lemma lasts_add: "lasts (add_mset t T) = (case t of GLast h \<Rightarrow> insert (fl_hash h) (lasts T) | _ \<Rightarrow> lasts T)"
  by (auto simp: lasts_def split: goro.split)

lemma lasts_prefetch: "lasts (T + image_mset (\<lambda>p. GDo False (Flight g p)) (mset ps)) = lasts T"
  by (auto simp: lasts_def)

lemma lasts_finish: "lasts (finish fg h T) \<subseteq> insert (fl_hash h) (lasts T)"
  by (auto simp: lasts_def dest: in_finish)

lemma fits_finish: "fl_hash h \<in> K \<Longrightarrow> \<forall>t\<in>#T. fits cfg K t \<Longrightarrow> \<forall>t\<in>#finish fg h T. fits cfg K t"
  by (auto dest: in_finish)

definition burst ::
  "Config \<Rightarrow> 's s3api \<Rightarrow> 's view \<Rightarrow> ('s \<Rightarrow> bool) \<Rightarrow> string set \<Rightarrow> flight multiset \<Rightarrow> 's readers \<Rightarrow> bool" where
  "burst cfg cli objs up K R s = (case s of
      Down p w \<Rightarrow> False
    | Readers T w rs \<Rightarrow> up (w_s3 w) \<and> (\<forall>h\<in>K. objs (w_s3 w) (S3Bucket cfg) (KeyPiece cfg h) \<noteq> None)
        \<and> int (card K) \<le> lru_cap (rw_cache w) \<and> (\<forall>t\<in>#T. fits cfg K t) \<and> recent K (lasts T) (rw_cache w)
        \<and> (\<forall>a\<in>set rs. snd a \<noteq> None) \<and> mset (map fst rs) + requests T = R)"

lemma burst_cache:
  assumes "burst cfg cli objs up K R (Readers T0 w rs)" and "lru_wf (rw_cache w)" and "cacheGet h w = (Ret r, w')" and "h \<in> K"
  shows "w_s3 w' = w_s3 w" and "lru_cap (rw_cache w') = lru_cap (rw_cache w)"
    and "recent K (if r = None then lasts T0 else insert h (lasts T0)) (rw_cache w')"
    and "h \<in> lasts T0 \<Longrightarrow> r \<noteq> None"
proof -
  have w': "w' = w\<lparr>rw_cache := snd (LRU_Get h (rw_cache w))\<rparr>" and r: "r = lru_lookup (rw_cache w) h"
    using assms(3) by (auto simp: cacheGet_run lru_Get_value)
  have rec: "recent K (lasts T0) (rw_cache w)" using assms(1) by (simp add: burst_def)
  show "w_s3 w' = w_s3 w" "lru_cap (rw_cache w') = lru_cap (rw_cache w)" by (simp_all add: w')
  show "recent K (if r = None then lasts T0 else insert h (lasts T0)) (rw_cache w')"
    using recent_get [OF assms(2) rec assms(4)] by (simp add: w' r)
  show "h \<in> lasts T0 \<Longrightarrow> r \<noteq> None" using recent_found [OF assms(2) rec] by (simp add: r)
qed

lemma burst_get:
  assumes "burst cfg cli objs up K R (Readers T0 w rs)" and "lru_wf (rw_cache w)" and "cacheGet h w = (Ret r, w')" and "h \<in> K"
    and "\<forall>t\<in>#T. fits cfg K t" and "lasts T \<subseteq> (if r = None then lasts T0 else insert h (lasts T0))"
    and "\<forall>a\<in>set rs'. snd a \<noteq> None" and "mset (map fst rs') + requests T = mset (map fst rs) + requests T0"
  shows "burst cfg cli objs up K R (Readers T w' rs')"
  using assms(1,5,7,8) burst_cache(1,2) [OF assms(1-4)] recent_mono [OF burst_cache(3) [OF assms(1-4)] assms(6)]
  by (simp add: burst_def)

lemma burst_moves:
  assumes "burst cfg cli objs up K R (Readers T0 w rs)" and "\<forall>t\<in>#T. fits cfg K t" and "lasts T \<subseteq> lasts T0"
    and "requests T = requests T0" and "w_s3 w' = w_s3 w" and "rw_cache w' = rw_cache w"
  shows "burst cfg cli objs up K R (Readers T w' rs)"
  using assms(1,2,4-6) recent_mono [OF _ assms(3)] by (auto simp: burst_def)

lemma burst_step:
  assumes "rd_step sf cfg cli s s'" and "s3_laws cli objs" and "s3_up cli objs up" and "finite K"
    and "rd_inv cfg cli objs content s" and "burst cfg cli objs up K R s"
  shows "burst cfg cli objs up K R s'"
  using assms
proof (induction rule: rd_step.induct)
  case (start i hs ps g T w rs)
  from start(8) start(3) have "set ps \<subseteq> K" by (simp add: burst_def)
  moreover have "\<forall>t\<in>#add_mset (GBegin g hs i) T. fits cfg K t" using start(8) by (simp add: burst_def)
  ultimately show ?case
    by (intro burst_moves [OF start(8)]) (auto simp: lasts_add lasts_prefetch)
next
  case (start_bad i hs g T w rs)
  then show ?case by (auto simp: burst_def split: option.splits)
next
  case (hit h w d w' T rs)
  then show ?case
    by (intro burst_get [OF hit(6) _ hit(1)]) (auto simp: lasts_add burst_def rd_inv_def coherent_def)
next
  case (miss h w w' T rs)
  then show ?case
    by (intro burst_get [OF miss(6) _ miss(1)]) (auto simp: lasts_add burst_def rd_inv_def coherent_def)
next
  case (lead h T fg w rs)
  then show ?case by (intro burst_moves [OF lead(6)]) (auto simp: lasts_add burst_def)
next
  case (join h T fg w rs)
  then show ?case by (intro burst_moves [OF join(6)]) (auto simp: lasts_add burst_def)
next
  case (check_hit h w d w' fg T rs)
  then show ?case using lasts_finish [of fg h T]
    by (intro burst_get [OF check_hit(6) _ check_hit(1)])
      (auto simp: lasts_add burst_def rd_inv_def coherent_def dest: in_finish)
next
  case (check_miss h w w' fg T rs)
  then show ?case
    by (intro burst_get [OF check_miss(6) _ check_miss(1)]) (auto simp: lasts_add burst_def rd_inv_def coherent_def)
next
  case (load h w d w' fg T rs)
  obtain s' where w': "w' = w\<lparr>w_s3 := s'\<rparr>" using Cat_frame [OF load(1)] by blast
  have "up (w_s3 w)" using load(6) by (simp add: burst_def)
  from Cat_keeps_up [OF load(3) this load(1)] Cat_law [OF load(2,1)] load(6) w' show ?case
    by (auto simp: burst_def lasts_add)
next
  case (load_fails h w e w' T rs)
  then obtain d where "objs (w_s3 w) (S3Bucket cfg) (KeyPiece cfg (fl_hash h)) = Some d" "up (w_s3 w)"
    by (auto simp: burst_def)
  from Cat_up [OF load_fails(3) this(2,1)] load_fails(1) show ?case by auto
next
  case (load_panics h w p w' T rs)
  then obtain d where "objs (w_s3 w) (S3Bucket cfg) (KeyPiece cfg (fl_hash h)) = Some d" "up (w_s3 w)"
    by (auto simp: burst_def)
  from Cat_up [OF load_panics(3) this(2,1)] load_panics(1) show ?case by auto
next
  case (fill h d w u w' fg T rs)
  have w': "w' = w\<lparr>rw_cache := LRU_Put (fl_hash h) d (rw_cache w)\<rparr>" using fill(1) by (simp add: cachePut_def modifyM_run)
  have b: "recent K (lasts T) (rw_cache w)" "fl_hash h \<in> K" "int (card K) \<le> lru_cap (rw_cache w)" "\<forall>t\<in>#T. fits cfg K t"
    using fill(6) by (simp_all add: burst_def lasts_add)
  have "lru_wf (rw_cache w)" using fill(5) by (simp add: rd_inv_def coherent_def)
  from recent_mono [OF recent_put [OF this b(1,2) fill(4) b(3)] lasts_finish] fits_finish [OF b(2,4)] fill(6) show ?case
    by (auto simp: burst_def w')
next
  case (final h w r w' T rs)
  have "fl_hash h \<in> lasts (add_mset (GLast h) T)" by (auto simp: lasts_def)
  moreover have "lru_wf (rw_cache w)" "fl_hash h \<in> K" using final by (simp_all add: burst_def rd_inv_def coherent_def)
  ultimately have "r \<noteq> None" using burst_cache(4) [OF final(6) _ final(1)] by blast
  with final show ?case
    by (intro burst_get [OF final(6) _ final(1)]) (auto simp: lasts_add burst_def rd_inv_def coherent_def)
qed

text \<open>A burst on a service that is up: what every step keeps, and where it ends.\<close>

definition bursting ::
  "Config \<Rightarrow> 's s3api \<Rightarrow> 's view \<Rightarrow> ('s \<Rightarrow> bool) \<Rightarrow> (string \<Rightarrow> bytes option) \<Rightarrow> string set \<Rightarrow> flight multiset \<Rightarrow> 's readers \<Rightarrow> bool" where
  "bursting cfg cli objs up content K R s \<longleftrightarrow> s3_laws cli objs \<and> s3_up cli objs up \<and> finite K
     \<and> rd_inv cfg cli objs content s \<and> burst cfg cli objs up K R s"

definition answered_all :: "(string \<Rightarrow> bytes option) \<Rightarrow> flight multiset \<Rightarrow> 's readers \<Rightarrow> bool" where
  "answered_all content R s \<longleftrightarrow> (\<exists>w rs. s = Readers {#} w rs \<and> (\<forall>a\<in>set rs. snd a \<noteq> None \<and> snd a = content (fl_hash (fst a)))
     \<and> mset (map fst rs) = R)"

lemma bursting_step: "rd_step sf cfg cli s s' \<Longrightarrow> bursting cfg cli objs up content K R s \<Longrightarrow> bursting cfg cli objs up content K R s'"
  unfolding bursting_def using rd_inv_step burst_step by blast

lemma bursting_state:
  assumes "bursting cfg cli objs up content K R s"
  obtains T w rs where "s = Readers T w rs" and "flights T" and "\<forall>a\<in>set rs. snd a \<noteq> None \<and> snd a = content (fl_hash (fst a))"
    and "mset (map fst rs) + requests T = R"
  using assms by (cases s) (fastforce simp: bursting_def burst_def rd_inv_def)+

lemma bursting_stuck:
  assumes "bursting cfg cli objs up content K R s" and "\<nexists>s'. rd_step sf cfg cli s s'"
  shows "answered_all content R s"
proof -
  from assms(1) obtain T w rs where s: "s = Readers T w rs" "flights T"
      "\<forall>a\<in>set rs. snd a \<noteq> None \<and> snd a = content (fl_hash (fst a))" "mset (map fst rs) + requests T = R"
    by (rule bursting_state)
  with rd_progress [OF s(2), of sf cfg cli w rs] assms(2) have "T = {#}" by blast
  with s show ?thesis unfolding answered_all_def by (metis add.right_neutral requests_simps(1))
qed

interpretation burst: runs_to_goal "rd_step sf cfg cli" "bursting cfg cli objs up content K R" work "answered_all content R"
  for sf cfg cli objs up content K R
  by (unfold_locales, rule bursting_step, assumption+, erule rd_step_works, rule bursting_stuck)

section \<open>Properties\<close>

text \<open>
  C9: interleaving never makes a read wrong. Whatever requests arrive, whatever the store answers, and
  however the goroutines interleave, \<open>getPiece\<close> returns the piece it was asked for or \<open>nil\<close>; the cache stays right;
  in each session at most one goroutine at a time fetches a given piece (each session has its own group, so two
  sessions may fetch the same one at once); and no goroutine waits for a call that has ended, so
  unless a panic ended the process, some goroutine can take a step while any is left.
\<close>

theorem flight_safe:
  assumes "coherent cfg cli objs content w" and "(rd_open sf cfg cli)\<^sup>*\<^sup>* (Readers {#} w []) (Readers T w' rs)"
  shows "(\<forall>a\<in>set rs. snd a = None \<or> snd a = content (fl_hash (fst a))) \<and> coherent cfg cli objs content w'
    \<and> (\<forall>h. size (filter_mset (leads h) T) \<le> 1)
    \<and> (\<forall>b h. GJoin b h \<in># T \<longrightarrow> in_flight h T)
    \<and> (T \<noteq> {#} \<longrightarrow> (\<exists>s'. rd_step sf cfg cli (Readers T w' rs) s'))"
proof -
  have "rd_inv cfg cli objs content (Readers {#} w [])" using assms(1) by (simp add: rd_inv_def flights_def calls_def)
  from flight.inv_run [OF assms(2) this]
  have inv: "coherent cfg cli objs content w'" "flights T" "\<forall>a\<in>set rs. snd a = None \<or> snd a = content (fl_hash (fst a))"
    by (simp_all add: rd_inv_def)
  with rd_progress [OF inv(2)] flightsD [OF inv(2)] show ?thesis by (auto simp: calls_def)
qed

text \<open>A burst: the requests, and the pieces they and their prefetches are about.\<close>

definition begins :: "(nat \<times> string list \<times> nat) list \<Rightarrow> goro multiset" where
  "begins reqs = mset (map (\<lambda>(g, hs, i). GBegin g hs (int i)) reqs)"

definition pieces :: "Config \<Rightarrow> (nat \<times> string list \<times> nat) list \<Rightarrow> string set" where
  "pieces cfg reqs = (\<Union>(g, hs, i)\<in>set reqs. insert (hs ! i) (case ahead cfg hs (int i) of None \<Rightarrow> {} | Some ps \<Rightarrow> set ps))"

lemma ahead_ok: "PrefetchDistance cfg + int (length hs) < 2 ^ 63 \<Longrightarrow> i < length hs \<Longrightarrow> ahead cfg hs (int i) \<noteq> None"
  using wrap64_nonneg [of "int i + PrefetchDistance cfg"] by (auto simp: ahead_def Let_def)

lemma begins_fit:
  assumes "\<forall>(g, hs, i)\<in>set reqs. i < length hs \<and> PrefetchDistance cfg + int (length hs) < 2 ^ 63" and "pieces cfg reqs \<subseteq> K"
  shows "(\<forall>t\<in>#begins reqs. fits cfg K t) \<and> requests (begins reqs) = mset (map (\<lambda>(g, hs, i). Flight g (hs ! i)) reqs)
    \<and> lasts (begins reqs) = {} \<and> flights (begins reqs)"
  using assms
proof (induction reqs)
  case Nil
  then show ?case by (simp add: begins_def lasts_def flights_def calls_def)
next
  case (Cons r reqs)
  obtain g hs i where r: "r = (g, hs, i)" by (cases r) auto
  have b: "begins (r # reqs) = add_mset (GBegin g hs (int i)) (begins reqs)" by (simp add: begins_def r)
  from Cons.prems(1) r have i: "i < length hs" "PrefetchDistance cfg + int (length hs) < 2 ^ 63" by auto
  obtain ps where ps: "ahead cfg hs (int i) = Some ps" using ahead_ok [OF i(2,1)] by blast
  have K: "hs ! i \<in> K" "set ps \<subseteq> K" "pieces cfg reqs \<subseteq> K" using Cons.prems(2) by (auto simp: pieces_def r ps)
  from Cons.IH [OF _ K(3)] Cons.prems(1) have
    IH: "\<forall>t\<in>#begins reqs. fits cfg K t" "requests (begins reqs) = mset (map (\<lambda>(g, hs, i). Flight g (hs ! i)) reqs)"
      "lasts (begins reqs) = {}" "flights (begins reqs)" by auto
  from i K(1,2) ps have f: "fits cfg K (GBegin g hs (int i))" by simp
  have "flights (begins (r # reqs))" using IH(4) by (auto simp: b flights_def)
  with IH f show ?case unfolding b by (simp add: r lasts_add)
qed

lemma burst_start:
  assumes "coherent cfg cli objs content w" and "s3_up cli objs up" and "up (w_s3 w)"
    and "\<forall>(g, hs, i)\<in>set reqs. i < length hs \<and> PrefetchDistance cfg + int (length hs) < 2 ^ 63"
    and "\<forall>h\<in>pieces cfg reqs. objs (w_s3 w) (S3Bucket cfg) (KeyPiece cfg h) \<noteq> None"
    and "int (card (pieces cfg reqs)) \<le> lru_cap (rw_cache w)"
  shows "bursting cfg cli objs up content (pieces cfg reqs) (mset (map (\<lambda>(g, hs, i). Flight g (hs ! i)) reqs)) (Readers (begins reqs) w [])"
proof -
  note b = begins_fit [OF assms(4) order_refl]
  have fin: "finite (pieces cfg reqs)" unfolding pieces_def by (rule finite_UN_I) (auto split: prod.split option.split)
  have "s3_laws cli objs" using assms(1) by (simp add: coherent_def)
  moreover have "GFill fg h d \<notin># begins reqs" for fg h d by (auto simp: begins_def)
  then have "rd_inv cfg cli objs content (Readers (begins reqs) w [])" using assms(1) b by (simp add: rd_inv_def)
  moreover have "recent (pieces cfg reqs) {} (rw_cache w)" unfolding recent_def by (rule exI [of _ "[]"]) simp
  ultimately show ?thesis using assms(2,3,5,6) b fin by (simp add: bursting_def burst_def)
qed

text \<open>
  C11: a burst of requests is answered if there is room. With the service up, take any number of reads of stored pieces at once, of any
  sessions, and a cache that has at least as many entries as the reads and their prefetches are about different pieces,
  whatever it held before. Then every interleaving ends, nothing panics on the way, no read gets a wrong piece or none, and at its
  end each read got its own piece, once. Without the room this fails (\<open>burst_needs_room\<close>).
\<close>

theorem flight_burst:
  assumes "coherent cfg cli objs content w" and "s3_up cli objs up" and "up (w_s3 w)"
    and "\<forall>(g, hs, i)\<in>set reqs. i < length hs \<and> PrefetchDistance cfg + int (length hs) < 2 ^ 63"
    and "\<forall>h\<in>pieces cfg reqs. objs (w_s3 w) (S3Bucket cfg) (KeyPiece cfg h) \<noteq> None"
    and "int (card (pieces cfg reqs)) \<le> lru_cap (rw_cache w)"
    and "(rd_step sf cfg cli)\<^sup>*\<^sup>* (Readers (begins reqs) w []) s"
  shows "wfP (\<lambda>s2 s1. rd_step sf cfg cli s1 s2)
    \<and> (\<exists>T w' rs. s = Readers T w' rs \<and> (\<forall>a\<in>set rs. snd a \<noteq> None \<and> snd a = content (fl_hash (fst a)))
        \<and> ((\<nexists>s'. rd_step sf cfg cli s s') \<longrightarrow> T = {#} \<and> mset (map fst rs) = mset (map (\<lambda>(g, hs, i). Flight g (hs ! i)) reqs)))"
proof -
  note b = burst_start [OF assms(1-6)]
  from burst.inv_run [OF assms(7) b] obtain T w' rs where "s = Readers T w' rs"
      "\<forall>a\<in>set rs. snd a \<noteq> None \<and> snd a = content (fl_hash (fst a))" by (rule bursting_state)
  with burst.goal_at_end [OF assms(7) b] burst.steps_wf show ?thesis by (auto simp: answered_all_def)
qed

text \<open>Three reads at once of the two pieces of a small torrent, in two sessions of a process whose cache is empty.\<close>

definition reqs0 :: "(nat \<times> string list \<times> nat) list" where
  "reqs0 = [(0, [''p0'', ''p1''], 0), (1, [''p0'', ''p1''], 0), (1, [''p0'', ''p1''], 1)]"

lemma answers_by:
  assumes "\<forall>a\<in>set rs. snd a \<noteq> None \<and> snd a = f (fst a)"
  shows "mset rs = image_mset (\<lambda>h. (h, f h)) (mset (map fst rs))"
proof -
  from assms have "\<forall>a\<in>set rs. snd a = f (fst a)" by blast
  then show ?thesis by (induction rs) auto
qed

lemma pieces_reqs0: "pieces cfg0 reqs0 = {''p0'', ''p1''}"
  by (auto simp: pieces_def reqs0_def ahead_def wrap64_def)

lemma reqs0_starts:
  "\<forall>(g, hs, i)\<in>set reqs0. i < length hs \<and> PrefetchDistance cfg0 + int (length hs) < 2 ^ 63"
  "\<forall>h\<in>pieces cfg0 reqs0. mem_view (w_s3 (reader0 bucket_p 2)) (S3Bucket cfg0) (KeyPiece cfg0 h) \<noteq> None"
  "int (card (pieces cfg0 reqs0)) \<le> lru_cap (rw_cache (reader0 bucket_p 2))"
  "mem_up (w_s3 (reader0 bucket_p 2))"
proof -
  note sv = serving_reader0 [of 2]
  show "\<forall>h\<in>pieces cfg0 reqs0. mem_view (w_s3 (reader0 bucket_p 2)) (S3Bucket cfg0) (KeyPiece cfg0 h) \<noteq> None"
    using sv by (simp add: serving_def pieces_reqs0)
  show "\<forall>(g, hs, i)\<in>set reqs0. i < length hs \<and> PrefetchDistance cfg0 + int (length hs) < 2 ^ 63" by (simp add: reqs0_def)
  show "int (card (pieces cfg0 reqs0)) \<le> lru_cap (rw_cache (reader0 bucket_p 2))"
    by (simp add: pieces_reqs0 reader0_def)
  show "mem_up (w_s3 (reader0 bucket_p 2))" using sv by (simp add: serving_def)
qed

definition answers0 :: "(flight \<times> bytes option) multiset" where
  "answers0 = {#(Flight 0 ''p0'', Some [1, 2]), (Flight 1 ''p0'', Some [1, 2]), (Flight 1 ''p1'', Some [3])#}"

lemma reqs0_answers:
  assumes "\<forall>a\<in>set rs. snd a \<noteq> None \<and> snd a = content0 (fl_hash (fst a))"
    and "mset (map fst rs) = mset (map (\<lambda>(g, hs, i). Flight g (hs ! i)) reqs0)"
  shows "mset rs = answers0"
  using answers_by [OF assms(1)] unfolding assms(2) by (simp add: reqs0_def content0_def answers0_def)

theorem flight_burst_witness:
  "\<exists>w' rs. (rd_step id cfg0 mem_s3)\<^sup>*\<^sup>* (Readers (begins reqs0) (reader0 bucket_p 2) []) (Readers {#} w' rs) \<and> mset rs = answers0"
proof -
  obtain s where s: "(rd_step id cfg0 mem_s3)\<^sup>*\<^sup>* (Readers (begins reqs0) (reader0 bucket_p 2) []) s"
    "\<nexists>s2. rd_step id cfg0 mem_s3 s s2" using burst.run_to_end by blast
  from flight_burst [OF coherent_reader0 mem_is_up reqs0_starts(4,1,2,3) s(1)] s(2) obtain w' rs where
    e: "s = Readers {#} w' rs" "\<forall>a\<in>set rs. snd a \<noteq> None \<and> snd a = content0 (fl_hash (fst a))"
      "mset (map fst rs) = mset (map (\<lambda>(g, hs, i). Flight g (hs ! i)) reqs0)" by blast
  from reqs0_answers [OF e(2,3)] s(1) e(1) show ?thesis by blast
qed

lemma arrive_steps: "(rd_open sf cfg cli)\<^sup>*\<^sup>* (Readers T w rs) (Readers (begins reqs + T) w rs)"
proof (induction reqs)
  case (Cons r reqs)
  obtain g hs i where r: "r = (g, hs, i)" by (cases r) auto
  from rd_open.arrive [of sf cfg cli "begins reqs + T" w rs g hs "int i"]
  have "rd_open sf cfg cli (Readers (begins reqs + T) w rs) (Readers (begins (r # reqs) + T) w rs)" by (simp add: begins_def r)
  with Cons show ?case by (rule rtranclp.rtrancl_into_rtrancl)
qed (simp add: begins_def)

theorem flight_safe_witness:
  "\<exists>w' rs. (rd_open id cfg0 mem_s3)\<^sup>*\<^sup>* (Readers {#} (reader0 bucket_p 2) []) (Readers {#} w' rs)
    \<and> mset rs = answers0 \<and> coherent cfg0 mem_s3 mem_view content0 w'"
proof -
  let ?w = "reader0 bucket_p 2"
  obtain s where s: "(rd_step id cfg0 mem_s3)\<^sup>*\<^sup>* (Readers (begins reqs0) ?w []) s" "\<nexists>s2. rd_step id cfg0 mem_s3 s s2"
    using burst.run_to_end by blast
  from burst.goal_at_end [OF s(1) burst_start [OF coherent_reader0 mem_is_up reqs0_starts(4,1,2,3)] s(2)] obtain w' rs where
    e: "s = Readers {#} w' rs" "\<forall>a\<in>set rs. snd a \<noteq> None \<and> snd a = content0 (fl_hash (fst a))"
      "mset (map fst rs) = mset (map (\<lambda>(g, hs, i). Flight g (hs ! i)) reqs0)" by (auto simp: answered_all_def)
  have "(rd_open id cfg0 mem_s3)\<^sup>*\<^sup>* (Readers {#} ?w []) (Readers (begins reqs0) ?w [])"
    using arrive_steps [of id cfg0 mem_s3 "{#}" ?w "[]" reqs0] by simp
  also have "(rd_open id cfg0 mem_s3)\<^sup>*\<^sup>* \<dots> (Readers {#} w' rs)" using steps_open [OF s(1)] e(1) by simp
  finally have run: "(rd_open id cfg0 mem_s3)\<^sup>*\<^sup>* (Readers {#} ?w []) (Readers {#} w' rs)" .
  with flight_safe [OF coherent_reader0 run] reqs0_answers [OF e(2,3)] show ?thesis by blast
qed

text \<open>One goroutine on its own.\<close>

lemma finish_alone [simp]:
  "finish fg h (image_mset (\<lambda>p. GDo False (Flight g p)) P) = (if fg then add_mset (GLast h) (image_mset (\<lambda>p. GDo False (Flight g p)) P) else image_mset (\<lambda>p. GDo False (Flight g p)) P)"
proof -
  have "release h (image_mset (\<lambda>p. GDo False (Flight g p)) P) = image_mset (\<lambda>p. GDo False (Flight g p)) P" by (induction P) auto
  then show ?thesis by (simp add: finish_def)
qed

lemma none_in_flight [simp]: "\<not> in_flight h (image_mset (\<lambda>p. GDo False (Flight g p)) P)"
  by (auto simp: in_flight_def)

lemma step_trans: "rd_step sf cfg cli s s1 \<Longrightarrow> (rd_step sf cfg cli)\<^sup>*\<^sup>* s1 s2 \<Longrightarrow> (rd_step sf cfg cli)\<^sup>*\<^sup>* s s2"
  by (rule converse_rtranclp_into_rtranclp)

text \<open>The call of \<open>Do\<close> by a goroutine that meets no other call for its key.\<close>

lemma solo_fill:
  fixes P :: "string multiset" and w :: "'s cworld"
  assumes "sf_Do sf (fillPiece cfg cli (fl_hash h)) w = (r, w')"
  shows "case r of
      Ret _ \<Rightarrow> (rd_step sf cfg cli)\<^sup>*\<^sup>* (Readers (add_mset (GDo True h) (image_mset (\<lambda>p. GDo False (Flight g p)) P)) w rs)
          (Readers (add_mset (GLast h) (image_mset (\<lambda>p. GDo False (Flight g p)) P)) w' rs)
    | Panicked p \<Rightarrow> (rd_step sf cfg cli)\<^sup>*\<^sup>* (Readers (add_mset (GDo True h) (image_mset (\<lambda>p. GDo False (Flight g p)) P)) w rs) (Down p w')
    | Blocked \<Rightarrow> False"
proof -
  let ?T = "image_mset (\<lambda>p. GDo False (Flight g p)) P"
  obtain hit w1 where g: "cacheGet (fl_hash h) w = (Ret hit, w1)" by (simp add: cacheGet_run)
  have enter: "rd_step sf cfg cli (Readers (add_mset (GDo True h) ?T) w rs) (Readers (add_mset (GCheck True h) ?T) w rs)"
    by (rule rd_step.lead) simp
  show ?thesis
  proof (cases hit)
    case (Some d)
    with g assms have r: "r = Ret ()" "w' = w1" by (simp_all add: sf_Do_def fillPiece_def bindM_def ret_run)
    have "rd_step sf cfg cli (Readers (add_mset (GCheck True h) ?T) w rs) (Readers (finish True h ?T) w1 rs)"
      by (rule rd_step.check_hit [OF g [unfolded Some]])
    with enter show ?thesis by (auto simp: r)
  next
    case None
    obtain x w2 where c: "Cat cfg cli (KeyPiece cfg (fl_hash h)) w1 = (x, w2)" by fastforce
    have check: "rd_step sf cfg cli (Readers (add_mset (GCheck True h) ?T) w rs) (Readers (add_mset (GLoad True h) ?T) w1 rs)"
      by (rule rd_step.check_miss [OF g [unfolded None]])
    from Cat_outcome [OF c] consider d where "x = Ret d" | e where "x = Panicked (PException e)" by blast
    then show ?thesis
    proof cases
      case 1
      have put: "cachePut (fl_hash h) d w2 = (Ret (), w2\<lparr>rw_cache := LRU_Put (fl_hash h) d (rw_cache w2)\<rparr>)"
        by (simp add: cachePut_def modifyM_run)
      with g c 1 None assms have r: "r = Ret ()" "w' = w2\<lparr>rw_cache := LRU_Put (fl_hash h) d (rw_cache w2)\<rparr>"
        by (simp_all add: sf_Do_def fillPiece_def bindM_def)
      have load: "rd_step sf cfg cli (Readers (add_mset (GLoad True h) ?T) w1 rs) (Readers (add_mset (GFill True h d) ?T) w2 rs)"
        by (rule rd_step.load [OF c [unfolded 1]])
      have "rd_step sf cfg cli (Readers (add_mset (GFill True h d) ?T) w2 rs) (Readers (finish True h ?T) w' rs)"
        unfolding r(2) by (rule rd_step.fill [OF put])
      then have "(rd_step sf cfg cli)\<^sup>*\<^sup>* (Readers (add_mset (GFill True h d) ?T) w2 rs) (Readers (add_mset (GLast h) ?T) w' rs)"
        by (simp add: r_into_rtranclp)
      from step_trans [OF enter step_trans [OF check step_trans [OF load this]]] show ?thesis by (simp add: r(1))
    next
      case 2
      with g c None assms have r: "r = Panicked (sf (PException e))" "w' = w2"
        by (simp_all add: sf_Do_def fillPiece_def bindM_def)
      have "rd_step sf cfg cli (Readers (add_mset (GLoad True h) ?T) w1 rs) (Down (sf (PException e)) w2)"
        by (rule rd_step.load_panics [OF c [unfolded 2]])
      from step_trans [OF enter step_trans [OF check r_into_rtranclp [of "rd_step sf cfg cli", OF this]]]
      show ?thesis by (simp add: r)
    qed
  qed
qed

lemma getPiece_unfold:
  assumes "0 \<le> i" and "i < int (length hs)" and "ahead cfg hs i = Some ps"
    and "cacheGet (hs ! nat i) (w\<lparr>rw_spawned := rw_spawned w @ ps\<rparr>) = (Ret hit, w2)"
  shows "getPiece sf cfg cli hs i w = (case hit of Some data \<Rightarrow> ret data | None \<Rightarrow>
      bindM (sf_Do sf (fillPiece cfg cli (hs ! nat i))) (\<lambda>_. bindM (cacheGet (hs ! nat i)) (\<lambda>r.
        ret (case r of Some data \<Rightarrow> data | None \<Rightarrow> [])))) w2"
proof -
  have pre: "(if 0 < PrefetchDistance cfg \<and> wrap64 (i + PrefetchDistance cfg) < int (length hs)
      then bindM (go_index hs (wrap64 (i + PrefetchDistance cfg))) (\<lambda>hash. spawn hash) else ret ()) w
      = (Ret (), w\<lparr>rw_spawned := rw_spawned w @ ps\<rparr>)"
    using assms(3) by (auto simp: ahead_def Let_def go_index_def spawn_def modifyM_run ret_run split: if_splits)
  have idx: "go_index hs i = ret (hs ! nat i)" using assms(1,2) by (simp add: go_index_def)
  show ?thesis unfolding getPiece_def Let_def idx bindM_ret
    by (subst bindM_def) (simp only: pre prod.case outcome.case, subst bindM_def, simp only: assms(4) prod.case outcome.case)
qed

text \<open>
  C33: the sequential \<open>getPiece\<close> of the other theories is a run of this relation. A read that runs without interruption
  does exactly what \<open>getPiece\<close> does: it ends in the same state, with the same bytes and with its prefetches
  started but not run, or in the same panic.
\<close>

theorem getPiece_is_a_run:
  assumes "0 \<le> i" and "i < int (length hs)" and "ahead cfg hs i = Some ps"
  shows "case getPiece sf cfg cli hs i w of
      (Ret d, w') \<Rightarrow> \<exists>r. (rd_step sf cfg cli)\<^sup>*\<^sup>* (Readers {#GBegin g hs i#} w [])
          (Readers (mset (map (\<lambda>p. GDo False (Flight g p)) ps)) w' [(Flight g (hs ! nat i), r)]) \<and> d = (case r of Some x \<Rightarrow> x | None \<Rightarrow> [])
    | (Panicked p, w') \<Rightarrow> (rd_step sf cfg cli)\<^sup>*\<^sup>* (Readers {#GBegin g hs i#} w []) (Down p w')
    | (Blocked, w') \<Rightarrow> False"
proof -
  let ?h = "hs ! nat i" and ?T = "image_mset (\<lambda>p. GDo False (Flight g p)) (mset ps)" and ?k = "Flight g (hs ! nat i)" and ?w1 = "w\<lparr>rw_spawned := rw_spawned w @ ps\<rparr>"
  have start: "rd_step sf cfg cli (Readers {#GBegin g hs i#} w []) (Readers (add_mset (GLook ?k) ?T) ?w1 [])"
    using rd_step.start [OF assms, of sf cli g "{#}" w "[]"] by simp
  obtain hit w2 where g: "cacheGet ?h ?w1 = (Ret hit, w2)" by (simp add: cacheGet_run)
  note run = getPiece_unfold [OF assms g, of sf cli]
  show ?thesis
  proof (cases hit)
    case (Some d)
    have "rd_step sf cfg cli (Readers (add_mset (GLook ?k) ?T) ?w1 []) (Readers ?T w2 ([] @ [(?k, Some d)]))"
      by (rule rd_step.hit) (use g Some in simp)
    with run Some show ?thesis
      by (auto simp: ret_run intro!: exI [of _ "Some d"] step_trans [OF start])
  next
    case None
    have miss: "rd_step sf cfg cli (Readers (add_mset (GLook ?k) ?T) ?w1 []) (Readers (add_mset (GDo True ?k) ?T) w2 [])"
      by (rule rd_step.miss) (use g None in simp)
    obtain x w3 where f: "sf_Do sf (fillPiece cfg cli ?h) w2 = (x, w3)" by fastforce
    obtain r w4 where g': "cacheGet ?h w3 = (Ret r, w4)" by (simp add: cacheGet_run)
    have final: "rd_step sf cfg cli (Readers (add_mset (GLast ?k) ?T) w3 []) (Readers ?T w4 ([] @ [(?k, r)]))"
      by (rule rd_step.final) (simp add: g')
    show ?thesis
    proof (cases x)
      case (Ret u)
      with solo_fill [of sf cfg cli ?k w2 x w3 g "mset ps" "[]"] f have
        "(rd_step sf cfg cli)\<^sup>*\<^sup>* (Readers (add_mset (GDo True ?k) ?T) w2 []) (Readers (add_mset (GLast ?k) ?T) w3 [])" by simp
      with final have "(rd_step sf cfg cli)\<^sup>*\<^sup>* (Readers {#GBegin g hs i#} w []) (Readers ?T w4 [(?k, r)])"
        by (auto intro: step_trans [OF start] step_trans [OF miss] rtranclp.rtrancl_into_rtrancl)
      with run None f Ret g' show ?thesis by (auto simp: bindM_def ret_run)
    next
      case (Panicked p)
      with solo_fill [of sf cfg cli ?k w2 x w3 g "mset ps" "[]"] f have
        "(rd_step sf cfg cli)\<^sup>*\<^sup>* (Readers (add_mset (GDo True ?k) ?T) w2 []) (Down p w3)" by simp
      then have "(rd_step sf cfg cli)\<^sup>*\<^sup>* (Readers {#GBegin g hs i#} w []) (Down p w3)"
        by (auto intro: step_trans [OF start] step_trans [OF miss])
      with run None f Panicked show ?thesis by (simp add: bindM_def)
    next
      case Blocked
      with solo_fill [of sf cfg cli ?k w2 x w3 g "mset ps" "[]"] f show ?thesis by simp
    qed
  qed
qed

text \<open>A configuration that prefetches the next piece.\<close>

definition cfg1 :: Config where
  "cfg1 = cfg0\<lparr>PrefetchDistance := 1\<rparr>"

lemma getPiece_p0:
  "fst (getPiece id cfg1 mem_s3 [''p0'', ''p1''] 0 (reader0 bucket_p 5)) = Ret [1, 2]" "ahead cfg1 [''p0'', ''p1''] 0 = Some [''p1'']"
  by code_simp+

theorem getPiece_is_a_run_witness:
  "\<exists>w' r. (rd_step id cfg1 mem_s3)\<^sup>*\<^sup>* (Readers {#GBegin 0 [''p0'', ''p1''] 0#} (reader0 bucket_p 5) [])
      (Readers {#GDo False (Flight 0 ''p1'')#} w' [(Flight 0 ''p0'', r)]) \<and> [1, 2] = (case r of Some x \<Rightarrow> x | None \<Rightarrow> [])"
proof -
  obtain w' where "getPiece id cfg1 mem_s3 [''p0'', ''p1''] 0 (reader0 bucket_p 5) = (Ret [1, 2], w')"
    using getPiece_p0(1) by (metis prod.collapse)
  with getPiece_is_a_run [OF _ _ getPiece_p0(2), of id mem_s3 0 "reader0 bucket_p 5"] show ?thesis by auto
qed

text \<open>
  C34: a read can lose the error of a prefetch. When the request of a prefetch fails while a read of the
  same piece waits for it, the read goes on without an error and without a request of its own: \<open>getPiece\<close> returns \<open>nil\<close>, and a
  \<open>ReadAt\<close> that gets \<open>nil\<close> at its first piece reports the end of the file, wherever in the file it is.
\<close>

theorem joined_failure:
  assumes "Cat cfg cli (KeyPiece cfg (fl_hash h)) w = (Panicked (PException e), w1)" and "lru_lookup (rw_cache w) (fl_hash h) = None"
    and "0 \<le> off" and "off < Size (vf_file v)" and "0 < plen" and "0 < PieceLen (vf_tm v)"
    and "0 \<le> Offset (vf_file v)" and "Offset (vf_file v) + off < 2 ^ 63"
  shows "(rd_step sf cfg cli)\<^sup>*\<^sup>* (Readers (add_mset (GLoad False h) (add_mset (GJoin True h) T)) w rs)
      (Readers (release h T) w1 (rs @ [(h, None)]))
    \<and> ReadAt_with (\<lambda>i. ret []) v plen off w1 = (Ret ([], Some EOF), w1)"
proof
  obtain s' where "w1 = w\<lparr>w_s3 := s'\<rparr>" using Cat_frame [OF assms(1)] by blast
  then have g: "cacheGet (fl_hash h) w1 = (Ret None, w1)"
    using assms(2) by (simp add: cacheGet_run lru_Get_value LRU_Get_def lru_lookup_def)
  have "rd_step sf cfg cli (Readers (add_mset (GLoad False h) (add_mset (GJoin True h) T)) w rs)
      (Readers (add_mset (GLast h) (release h T)) w1 rs)"
    using rd_step.load_fails [OF assms(1), of sf "add_mset (GJoin True h) T" rs] by (simp add: finish_def)
  moreover have "rd_step sf cfg cli (Readers (add_mset (GLast h) (release h T)) w1 rs) (Readers (release h T) w1 (rs @ [(h, None)]))"
    by (rule rd_step.final [OF g])
  ultimately show "(rd_step sf cfg cli)\<^sup>*\<^sup>* (Readers (add_mset (GLoad False h) (add_mset (GJoin True h) T)) w rs)
      (Readers (release h T) w1 (rs @ [(h, None)]))" by (blast intro: step_trans r_into_rtranclp)
next
  have so: "wrap64 (Offset (vf_file v) + off) = Offset (vf_file v) + off"
    using assms(3,7,8) by (intro wrap64_nonneg) auto
  have pos: "0 \<le> (Offset (vf_file v) + off) smod PieceLen (vf_tm v)"
    using assms(3,6,7) smod_nat [of "nat (PieceLen (vf_tm v))" "nat (Offset (vf_file v) + off)"] by simp
  have "read_loop (\<lambda>i. ret []) n (PieceLen (vf_tm v)) m (Offset (vf_file v) + off) [] w1 = (Ret [], w1)" for n m
    using assms(6) pos by (subst read_loop.simps) (simp add: Let_def ret_run)
  then show "ReadAt_with (\<lambda>i. ret []) v plen off w1 = (Ret ([], Some EOF), w1)"
    using assms(3-5) by (simp add: ReadAt_with_def so Let_def bindM_def ret_run)
qed

theorem joined_failure_witness:
  "\<exists>w1. (rd_step id cfg0 mem_s3)\<^sup>*\<^sup>* (Readers {#GLoad False (Flight 0 ''p0''), GJoin True (Flight 0 ''p0'')#} (reader0 (fst bucket_p, [True]) 5) [])
      (Readers {#} w1 [(Flight 0 ''p0'', None)])
    \<and> ReadAt_with (\<lambda>i. ret []) vf0 2 1 w1 = (Ret ([], Some EOF), w1)"
proof -
  let ?w = "reader0 (fst bucket_p, [True]) 5"
  obtain e w1 where c: "Cat cfg0 mem_s3 (KeyPiece cfg0 ''p0'') ?w = (Panicked (PException e), w1)"
    by (simp add: Cat_def bindM_def call_def reader0_def mem_s3_def mem_fails_def ThrowFmt_run)
  have "lru_lookup (rw_cache ?w) ''p0'' = None" by (simp add: reader0_def)
  from joined_failure [of cfg0 mem_s3 "Flight 0 ''p0''" ?w e w1 1 vf0 2 id "{#}" "[]"] c this show ?thesis by (auto simp: vf0_def)
qed

text \<open>The same for a prefetch among goroutines that are not concerned with its piece.\<close>

lemma finish_other: "GJoin True h \<notin># T \<Longrightarrow> GJoin False h \<notin># T \<Longrightarrow> finish False h T = T"
proof -
  assume "GJoin True h \<notin># T" "GJoin False h \<notin># T"
  then have "release h T = T" by (induction T) auto
  then show ?thesis by (simp add: finish_def)
qed

lemma prefetch_is_a_run:
  fixes w :: "'s cworld"
  assumes "prefetch sf cfg cli (fl_hash h) w = (Ret u, w')"
    and "\<not> in_flight h T" and "GJoin True h \<notin># T" and "GJoin False h \<notin># T"
  shows "(rd_step sf cfg cli)\<^sup>*\<^sup>* (Readers (add_mset (GDo False h) T) w rs) (Readers T w' rs)"
proof -
  note fin = finish_other [OF assms(3,4)]
  obtain hit w1 where g: "cacheGet (fl_hash h) w = (Ret hit, w1)" by (simp add: cacheGet_run)
  have enter: "rd_step sf cfg cli (Readers (add_mset (GDo False h) T) w rs) (Readers (add_mset (GCheck False h) T) w rs)"
    by (rule rd_step.lead [OF assms(2)])
  show ?thesis
  proof (cases hit)
    case (Some d)
    with g assms(1) have "w' = w1" by (simp add: prefetch_def sf_Do_def bindM_def ret_run)
    with rd_step.check_hit [OF g [unfolded Some], of sf cfg cli False T rs] have
      "rd_step sf cfg cli (Readers (add_mset (GCheck False h) T) w rs) (Readers T w' rs)" by (simp add: fin)
    from step_trans [OF enter r_into_rtranclp [of "rd_step sf cfg cli", OF this]] show ?thesis .
  next
    case None
    note check = rd_step.check_miss [OF g [unfolded None], of sf cfg cli False T rs]
    obtain x w2 where c: "Cat cfg cli (KeyPiece cfg (fl_hash h)) w1 = (x, w2)" by fastforce
    from Cat_outcome [OF c] consider d where "x = Ret d" | e where "x = Panicked (PException e)" by blast
    then show ?thesis
    proof cases
      case 1
      with assms(1) g c None have put: "cachePut (fl_hash h) d w2 = (Ret (), w')"
        by (simp add: prefetch_def sf_Do_def bindM_def Try_def ret_run cachePut_def modifyM_run)
      note load = rd_step.load [OF c [unfolded 1], of sf False T rs]
      from rd_step.fill [OF put, of sf cfg cli False T rs] have
        "(rd_step sf cfg cli)\<^sup>*\<^sup>* (Readers (add_mset (GFill False h d) T) w2 rs) (Readers T w' rs)"
        by (simp add: fin r_into_rtranclp)
      from step_trans [OF enter step_trans [OF check step_trans [OF load this]]] show ?thesis .
    next
      case 2
      with assms(1) g c None have "w' = w2" by (simp add: prefetch_def sf_Do_def bindM_def Try_def ret_run)
      with rd_step.load_fails [OF c [unfolded 2], of sf T rs] have
        "rd_step sf cfg cli (Readers (add_mset (GLoad False h) T) w1 rs) (Readers T w' rs)" by (simp add: fin)
      from step_trans [OF enter step_trans [OF check r_into_rtranclp [of "rd_step sf cfg cli", OF this]]] show ?thesis .
    qed
  qed
qed

text \<open>
  The room matters: with one entry for two pieces, a prefetch can drop the piece that a read has just fetched,
  before the read looks it up. The read gets \<open>nil\<close>, although the service was up all the time.
\<close>

lemma one_entry:
  "fst (cacheGet ''p0'' (reader0 bucket_p 1)) = Ret None"
  "fst (sf_Do id (fillPiece cfg1 mem_s3 ''p0'') (snd (cacheGet ''p0'' (reader0 bucket_p 1)))) = Ret ()"
  "fst (cacheGet ''p0'' (snd (prefetch id cfg1 mem_s3 ''p1'' (snd (sf_Do id (fillPiece cfg1 mem_s3 ''p0'')
     (snd (cacheGet ''p0'' (reader0 bucket_p 1)))))))) = Ret None"
  by code_simp+

lemma burst_needs_room:
  "\<exists>w'. (rd_step id cfg1 mem_s3)\<^sup>*\<^sup>* (Readers {#GLook (Flight 0 ''p0''), GDo False (Flight 0 ''p1'')#} (reader0 bucket_p 1) [])
      (Readers {#} w' [(Flight 0 ''p0'', None)])"
proof -
  let ?go = "rd_step id cfg1 mem_s3" and ?w0 = "reader0 bucket_p 1" and ?k = "Flight 0 ''p0''" and ?q = "GDo False (Flight 0 ''p1'')"
  obtain w1 where g: "cacheGet ''p0'' ?w0 = (Ret None, w1)" using one_entry(1) by (metis prod.collapse)
  obtain w2 where f: "sf_Do id (fillPiece cfg1 mem_s3 ''p0'') w1 = (Ret (), w2)"
    using one_entry(2) unfolding g snd_conv by (metis prod.collapse)
  obtain w3 where p: "prefetch id cfg1 mem_s3 ''p1'' w2 = (Ret (), w3)" using prefetch_returns by blast
  obtain w4 where l: "cacheGet ''p0'' w3 = (Ret None, w4)"
    using one_entry(3) unfolding g snd_conv f p by (metis prod.collapse)
  have miss: "?go (Readers {#GLook ?k, ?q#} ?w0 []) (Readers {#GDo True ?k, ?q#} w1 [])"
    by (rule rd_step.miss) (simp add: g)
  have read: "?go\<^sup>*\<^sup>* (Readers {#GDo True ?k, ?q#} w1 []) (Readers {#GLast ?k, ?q#} w2 [])"
    using solo_fill [of id cfg1 mem_s3 ?k w1 "Ret ()" w2 0 "{#''p1''#}" "[]"] f by simp
  have pre: "?go\<^sup>*\<^sup>* (Readers {#GLast ?k, ?q#} w2 []) (Readers {#GLast ?k#} w3 [])"
    using prefetch_is_a_run [of id cfg1 mem_s3 "Flight 0 ''p1''" w2 "()" w3 "{#GLast ?k#}" "[]"] p by (simp add: add_mset_commute)
  have last: "?go (Readers {#GLast ?k#} w3 []) (Readers {#} w4 [(?k, None)])"
    using rd_step.final [of ?k w3 None w4 id cfg1 mem_s3 "{#}" "[]"] l by simp
  from pre last have "?go\<^sup>*\<^sup>* (Readers {#GLast ?k, ?q#} w2 []) (Readers {#} w4 [(?k, None)])"
    by (rule rtranclp.rtrancl_into_rtrancl)
  with read have "?go\<^sup>*\<^sup>* (Readers {#GDo True ?k, ?q#} w1 []) (Readers {#} w4 [(?k, None)])"
    by (rule rtranclp_trans)
  with miss have "?go\<^sup>*\<^sup>* (Readers {#GLook ?k, ?q#} ?w0 []) (Readers {#} w4 [(?k, None)])"
    by (rule step_trans)
  then show ?thesis by (intro exI [of _ w4])
qed

end
