(* ===== verification/Resume.thy ===== *)
theory Resume
  imports Gc Fetch
begin

text \<open>
  A second run of \<^verbatim>\<open>samogon fetch\<close> for the same torrent. The repository promises that a torrent that is
  there is not fetched again, and that pieces that an earlier run left in the bucket are not downloaded
  again. The run knows them from one listing at its start: what happens to the bucket after it goes unnoticed.
\<close>

section \<open>What a run knows\<close>

lemma known_fixed:
  "keeps (\<lambda>w. fw_known w = K) (Cat cfg cli k)" "keeps (\<lambda>w. fw_known w = K) (PutBytes cfg cli k d)"
  "keeps (\<lambda>w. fw_known w = K) (pieceOf i)" "keeps (\<lambda>w. fw_known w = K) (setPiece i g)"
  "keeps (\<lambda>w. fw_known w = K) (acquireBuf cfg)" "keeps (\<lambda>w. fw_known w = K) releaseBuf"
  "keeps (\<lambda>w. fw_known w = K) (stateFor i h l)"
  by (auto split: option.splits simp: pieceOf_def setPiece_def acquireBuf_def releaseBuf_def stateFor_def
      dest!: Cat_frame PutBytes_fw intro!: keepsI [of _ "Cat _ _ _"] keepsI [of _ "PutBytes _ _ _ _"] keeps_intros keeps_modifyM)

lemma keeps_known: "keeps (\<lambda>w. fw_known w = K) (run_call cfg cli c)"
proof (cases c)
  case (CPiece i l h)
  show ?thesis unfolding CPiece run_call.simps pieceFn_def
    by (auto split: option.split intro!: keeps_intros known_fixed)
next
  case (CWrite i b off)
  show ?thesis unfolding CWrite run_call.simps ignore_def piece_WriteAt_def Let_def
    by (intro keeps_intros known_fixed)
next
  case (CRead i n off)
  show ?thesis unfolding CRead run_call.simps ignore_def piece_ReadAt_def
    by (intro keeps_uncaught keeps_bindM known_fixed keeps_ret)
      (auto split: option.split intro!: keeps_intros known_fixed keeps_read_from)
next
  case (CComplete i)
  show ?thesis unfolding CComplete run_call.simps ignore_def MarkComplete_def runCatch_def Let_def
    by (intro keeps_uncaught keeps_bindM known_fixed keeps_ret)
      (auto split: sum.split intro!: keeps_intros known_fixed)
next
  case (CNotComplete i)
  show ?thesis unfolding CNotComplete run_call.simps ignore_def MarkNotComplete_def Let_def
    by (intro keeps_intros known_fixed)
next
  case (CCompletion i)
  show ?thesis unfolding CCompletion run_call.simps ignore_def Completion_def
    by (intro keeps_intros known_fixed)
qed

lemma Completion_run:
  assumes "fw_states w idx = Some ps"
  shows "Completion idx w = (if ps_complete ps then (Ret True, w)
    else if ps_hash ps \<in> fw_known w then (Ret True, w\<lparr>fw_states := (fw_states w)(idx \<mapsto> ps\<lparr>ps_complete := True\<rparr>)\<rparr>)
    else (Ret False, w))"
  using assms by (simp add: Completion_def bindM_def pieceOf_run setPiece_run getM_run ret_run)

text \<open>With the service up the listing gives the names of exactly the pieces that are stored.\<close>

lemma ListPieces_up:
  assumes "s3_up cli objs up" and "s3_laws cli objs" and "up (w_s3 w)" and "flat cfg (objs (w_s3 w) (S3Bucket cfg))"
  shows "\<exists>ks s'. ListPieces cfg cli w = (Ret ks, w\<lparr>w_s3 := s'\<rparr>) \<and> up s'
    \<and> ks = {h. objs (w_s3 w) (S3Bucket cfg) (KeyPiece cfg h) \<noteq> None}"
proof -
  let ?f = "objs (w_s3 w) (S3Bucket cfg)"
  from List_up [OF assms(1-3), of cfg "PrefixPieces cfg"] obtain ks s' where
    l: "List cfg cli (PrefixPieces cfg) w = (Ret ks, w\<lparr>w_s3 := s'\<rparr>)" "up s'"
      "set ks = {k. prefix (PrefixPieces cfg) k \<and> ?f k \<noteq> None}" by blast
  have "path_Base ` {k. prefix (PrefixPieces cfg) k \<and> ?f k \<noteq> None} = path_Base ` KeyPiece cfg ` {h. ?f (KeyPiece cfg h) \<noteq> None}"
    by (auto simp: prefix_KeyPiece)
  also have "\<dots> = {h. ?f (KeyPiece cfg h) \<noteq> None}"
    using assms(4) by (force simp: flat_iff image_image path_Base_KeyPiece)
  finally have "path_Base ` {k. prefix (PrefixPieces cfg) k \<and> ?f k \<noteq> None} = {h. ?f (KeyPiece cfg h) \<noteq> None}" .
  moreover have "ListPieces cfg cli w = (Ret (path_Base ` set ks), w\<lparr>w_s3 := s'\<rparr>)"
    using l(1) by (simp add: ListPieces_def bindM_def ret_run)
  ultimately show ?thesis using l(2,3) by auto
qed

section \<open>A second run\<close>

text \<open>
  C20: a fetch that is run again goes on where it was. With the service up and a torrent that parses: when the
  torrent's object is there, the run returns at once, with nothing changed and no client started. Otherwise it comes to the calls of the
  client, and at any point among these a piece is reported as complete exactly when this run has completed it or
  it was in the bucket when the run began, and to say so takes no request. So what any earlier run has
  uploaded before it failed, for this torrent or another, is not downloaded again.
\<close>

theorem fetch_resumes:
  fixes w :: "('s, 'z) samogonStorage_scheme"
  assumes laws: "s3_laws cli objs" and up: "s3_up cli objs up" "up (w_s3 w)"
    and f: "f = objs (w_s3 w) (S3Bucket cfg)" and flat: "flat cfg f"
    and inp: "fe_stdin env = Inr raw" "raw \<noteq> []" "Load lib raw = Inr mi" "UnmarshalInfo lib mi = Inr info"
    and ih: "ih = hex_EncodeToString (HashInfoBytes lib mi)"
    and env: "fe_mkdir env = None" "fe_client env = None" "fe_add env = None" and sizes: "0 \<le> UpSem cfg" "0 \<le> InflightPieces cfg"
  shows "if f (KeyTorrent cfg ih) \<noteq> None
    then \<exists>w'. runFetch cfg cli lib env w = (Ret (), w') \<and> objs (w_s3 w') = objs (w_s3 w) \<and> fw_states w' = fw_states w
    else \<exists>w3. runFetch cfg cli lib env w = bindM (forM (fe_calls env) (run_call cfg cli)) (\<lambda>_. if \<not> fe_waited env then
              ThrowFmt ''fetch: client.WaitAll returned false (torrent %s)'' [AStr ih]
            else PutBytes cfg cli (KeyTorrent cfg ih) raw) w3
      \<and> objs (w_s3 w3) = objs (w_s3 w) \<and> fw_states w3 = Map.empty
      \<and> (\<forall>cs w4 i ps. forM cs (run_call cfg cli) w3 = (Ret (), w4) \<and> fw_states w4 i = Some ps \<longrightarrow>
          (\<exists>w5. Completion i w4 = (Ret (f (KeyPiece cfg (ps_hash ps)) \<noteq> None \<or> ps_complete ps), w5) \<and> w_s3 w5 = w_s3 w4))"
proof -
  from Stat_up [OF up, of cfg "KeyTorrent cfg ih"] obtain b s1 where
    st: "Stat cfg cli (KeyTorrent cfg ih) w = (Ret b, w\<lparr>w_s3 := s1\<rparr>)" and s1: "up s1" "f (KeyTorrent cfg ih) \<noteq> None \<longrightarrow> b"
    by (auto simp: f)
  from Stat_law [OF laws st] s1(2) have b: "b \<longleftrightarrow> f (KeyTorrent cfg ih) \<noteq> None" "objs s1 = objs (w_s3 w)"
    by (auto simp: f)
  let ?w1 = "w\<lparr>w_s3 := s1\<rparr>"
  show ?thesis
  proof (cases b)
    case True
    with inp st have "runFetch cfg cli lib env w = (Ret (), ?w1)"
      by (simp add: runFetch_def bindM_def ThrowE_run Let_def ret_run ih)
    with True b show ?thesis by auto
  next
    case False
    from ListPieces_up [OF up(1) laws, of ?w1 cfg] flat s1(1) b(2) obtain s2 where
      l: "ListPieces cfg cli ?w1 = (Ret {h. f (KeyPiece cfg h) \<noteq> None}, w\<lparr>w_s3 := s2\<rparr>)" by (auto simp: f)
    let ?K = "{h. f (KeyPiece cfg h) \<noteq> None}"
    let ?w3 = "w\<lparr>w_s3 := s2, fw_known := ?K, fw_states := Map.empty, fw_tokens := 0\<rparr>"
    from l have t: "Try (ListPieces cfg cli) ?w1 = (Ret (Inr ?K), w\<lparr>w_s3 := s2\<rparr>)" by (simp add: Try_def)
    from ListPieces_known [OF laws _ t] flat b(2) have o2: "objs s2 = objs (w_s3 w)" by (auto simp: f dest!: arg_cong [where f = w_s3])
    have run: "runFetch cfg cli lib env w = bindM (forM (fe_calls env) (run_call cfg cli)) (\<lambda>_. if \<not> fe_waited env then
              ThrowFmt ''fetch: client.WaitAll returned false (torrent %s)'' [AStr ih]
            else PutBytes cfg cli (KeyTorrent cfg ih) raw) ?w3"
      using inp st False t env sizes
      by (simp add: runFetch_def bindM_def [of "ThrowE _"] bindM_def [of "Stat _ _ _"] bindM_def [of "Throw _"] bindM_def [of "Try _"]
          bindM_def [of "newSamogonStorage _ _"] ThrowE_run Throw_run Let_def newSamogonStorage_def modifyM_run ih)
    have "\<exists>w5. Completion i w4 = (Ret (f (KeyPiece cfg (ps_hash ps)) \<noteq> None \<or> ps_complete ps), w5) \<and> w_s3 w5 = w_s3 w4"
      if "forM cs (run_call cfg cli) ?w3 = (Ret (), w4)" "fw_states w4 i = Some ps" for cs w4 i ps
    proof -
      have "fw_known w4 = ?K" by (rule keepsD [OF keeps_forM [OF keeps_known] _ that(1)]) simp
      with Completion_run [OF that(2)] show ?thesis by auto
    qed
    with run o2 b(1) False show ?thesis by (auto simp del: ex_simps)
  qed
qed

text \<open>A bucket in which an earlier run has left a piece.\<close>

definition start1 :: "mem samogonStorage" where
  "start1 = start0\<lparr>w_s3 := mem_of [(KeyPiece cfg0 ''ab'', [9, 9])]\<rparr>"

lemma start1_view: "mem_view (w_s3 start1) ''b'' k = (if k = KeyPiece cfg0 ''ab'' then Some [9, 9] else None)"
  by (simp add: start1_def mem_view_def mem_of_def)

theorem fetch_resumes_witness:
  "\<exists>w3 w4 w5. runFetch cfg0 mem_s3 lib0 env0 start1
      = bindM (forM (fe_calls env0) (run_call cfg0 mem_s3)) (\<lambda>_. PutBytes cfg0 mem_s3 (KeyTorrent cfg0 (hex_EncodeToString (pad20 tor_a))) tor_a) w3
    \<and> run_call cfg0 mem_s3 (CPiece 0 2 (Some [171])) w3 = (Ret (), w4) \<and> Completion 0 w4 = (Ret True, w5) \<and> w_s3 w5 = w_s3 w4"
proof -
  let ?mi = "\<lparr>mi_InfoBytes = tor_a, mi_Other = []\<rparr>"
  have up: "mem_up (w_s3 start1)" by (simp add: start1_def)
  have fl: "flat cfg0 (mem_view (w_s3 start1) (S3Bucket cfg0))" by (auto simp: flat_def start1_view)
  have load: "Load lib0 tor_a = Inr ?mi" "tor_a \<noteq> []" by (simp_all add: lib0_def tor_a_def)
  obtain info where info: "UnmarshalInfo lib0 ?mi = Inr info"
    by (simp add: lib0_def info0_def tor_a_def)
  have env: "fe_stdin env0 = Inr tor_a" "fe_mkdir env0 = None" "fe_client env0 = None" "fe_add env0 = None" "fe_waited env0"
    by (simp_all add: env0_def)
  have sizes: "0 \<le> UpSem cfg0" "0 \<le> InflightPieces cfg0" by simp_all
  have h: "HashInfoBytes lib0 ?mi = pad20 tor_a" by (simp add: lib0_def)
  from fetch_resumes [OF mem_laws mem_is_up up refl fl env(1) load(2,1) info refl env(2-4) sizes]
  obtain w3 where w3: "runFetch cfg0 mem_s3 lib0 env0 start1
      = bindM (forM (fe_calls env0) (run_call cfg0 mem_s3)) (\<lambda>_. PutBytes cfg0 mem_s3 (KeyTorrent cfg0 (hex_EncodeToString (pad20 tor_a))) tor_a) w3"
    "fw_states w3 = Map.empty"
    "\<And>cs w4 i ps. forM cs (run_call cfg0 mem_s3) w3 = (Ret (), w4) \<Longrightarrow> fw_states w4 i = Some ps \<Longrightarrow>
      \<exists>w5. Completion i w4 = (Ret (mem_view (w_s3 start1) ''b'' (KeyPiece cfg0 (ps_hash ps)) \<noteq> None \<or> ps_complete ps), w5) \<and> w_s3 w5 = w_s3 w4"
    by (auto simp: start1_view h env KeyTorrent_neq_KeyPiece simp del: ex_simps)
  let ?c = "CPiece 0 2 (Some [171])" and ?w4 = "w3\<lparr>fw_states := [0 \<mapsto> \<lparr>ps_hash = ''ab'', ps_length = 2, ps_buf = None, ps_complete = False\<rparr>]\<rparr>"
  have c: "run_call cfg0 mem_s3 ?c w3 = (Ret (), ?w4)"
    by (simp add: pieceFn_def stateFor_def modifyM_run uncaught_def hex_digits_def w3(2))
  then have "forM [?c] (run_call cfg0 mem_s3) w3 = (Ret (), ?w4)" by (simp add: bindM_def ret_run)
  from w3(3) [OF this, of 0] have "\<exists>w5. Completion 0 ?w4 = (Ret True, w5) \<and> w_s3 w5 = w_s3 ?w4" by (simp add: start1_view)
  with w3(1) c show ?thesis by blast
qed

section \<open>The collector beside a running fetch\<close>

text \<open>
  What a run knows can stop being true. While a fetch is in progress its pieces belong to no stored torrent: a collector
  that starts then deletes them, and the fetch goes on to report them as complete.
\<close>

lemma gc_beside_fetch:
  fixes w :: "('s, 'z) samogonStorage_scheme"
  assumes "s3_laws cli objs" and "s3_up cli objs up" and "sched_law sched1" and "sched_law sched2"
    and "0 < UpSem cfg" and "UpSem cfg * 2 < 2 ^ 63" and "up (w_s3 w)" and f: "f = objs (w_s3 w) (S3Bucket cfg)"
    and "\<forall>k d info. prefix (PrefixTorrents cfg) k \<and> f k = Some d \<and> parsed lib d = Some info \<longrightarrow> has_v1 lib info"
    and i: "fw_states w i = Some ps" "ps_hash ps \<in> fw_known w"
    and h: "ps_hash ps \<noteq> ''''" "CHR ''/'' \<notin> set (ps_hash ps)"
      "ps_hash ps \<notin> live_hashes lib f {k. prefix (PrefixTorrents cfg) k}"
  shows "\<exists>g w'. runGc sched1 sched2 n cfg cli lib (gc_start (w_s3 w)) = (Ret (), g)
    \<and> objs (w_s3 g) (S3Bucket cfg) (KeyPiece cfg (ps_hash ps)) = None
    \<and> Completion i (w\<lparr>w_s3 := w_s3 g\<rparr>) = (Ret True, w')"
proof -
  from gc_up [OF assms(1-7) f assms(9), of n] obtain g where
    g: "runGc sched1 sched2 n cfg cli lib (gc_start (w_s3 w)) = (Ret (), g)"
      "objs (w_s3 g) (S3Bucket cfg) (KeyPiece cfg (ps_hash ps)) = None"
    using h by (auto simp: prefix_KeyPiece path_Base_KeyPiece)
  moreover have "fst (Completion i (w\<lparr>w_s3 := w_s3 g\<rparr>)) = Ret True" using i by (simp add: Completion_run)
  ultimately show ?thesis by (metis prod.collapse)
qed

end
