(* ===== verification/Lifecycle.thy ===== *)
theory Lifecycle
  imports Effects
begin

text \<open>
  How the subcommands fit together through the bucket: what \<^verbatim>\<open>fetch\<close> publishes, \<^verbatim>\<open>repack\<close> rebuilds and
  \<^verbatim>\<open>gc\<close> leaves is what a later process reads, byte for byte. The currency is \<open>stored_as\<close>: a
  torrent object that parses, with all its pieces stored, and the stream of bytes they make up.
\<close>

section \<open>A torrent that is stored whole\<close>

definition stored_as ::
  "Config \<Rightarrow> metalib \<Rightarrow> (string \<Rightarrow> bytes option) \<Rightarrow> string \<Rightarrow> Info \<Rightarrow> nat \<Rightarrow> bytes list \<Rightarrow> bool" where
  "stored_as cfg lib f ih info L ps \<longleftrightarrow> torrent_at cfg lib f ih = Some info
     \<and> info_PieceLength info = int L \<and> 0 < L \<and> uniform L ps \<and> length (concat ps) < 2 ^ 63
     \<and> map (\<lambda>h. f (KeyPiece cfg h)) (hashes_of lib info) = map Some ps"

text \<open>The bytes of a file in that stream, and the answer to a read in it.\<close>

definition file_data :: "FileEntry \<Rightarrow> bytes list \<Rightarrow> bytes" where
  "file_data fe ps = slice (nat (Offset fe)) (nat (Size fe)) (concat ps)"

definition read_answer :: "FileEntry \<Rightarrow> bytes list \<Rightarrow> nat \<Rightarrow> int \<Rightarrow> bytes \<times> goerr option" where
  "read_answer fe ps plen off = (slice (nat off) plen (file_data fe ps), if Size fe \<le> off + int plen then Some EOF else None)"

definition lies_in :: "FileEntry \<Rightarrow> bytes list \<Rightarrow> bool" where
  "lies_in fe ps \<longleftrightarrow> 0 \<le> Offset fe \<and> 0 \<le> Size fe \<and> Offset fe + Size fe \<le> int (length (concat ps))"

text \<open>A process that has just started and can reach the service, and whose prefetching leaves room in its cache.\<close>

definition fresh_reader ::
  "Config \<Rightarrow> 's s3api \<Rightarrow> 's view \<Rightarrow> ('s \<Rightarrow> bool) \<Rightarrow> (int \<Rightarrow> others) \<Rightarrow> nat \<Rightarrow> ('s, 'z) cworld_scheme \<Rightarrow> bool" where
  "fresh_reader cfg cli objs up bg n v \<longleftrightarrow> s3_up cli objs up \<and> up (w_s3 v) \<and> rw_cache v = newLRU (LRUSize cfg) \<and> leaves_room cfg bg
     \<and> PrefetchDistance cfg + int n < 2 ^ 63"

lemma stored_reads:
  assumes "s3_laws cli objs" and "stored_as cfg lib (objs (w_s3 v) (S3Bucket cfg)) ih info L ps"
    and "fresh_reader cfg cli objs up bg (length ps) v" and "lies_in fe ps" and "0 \<le> off" and "off < Size fe"
  shows "\<exists>v'. ReadAt_with (getPiece_busy sf cfg cli bg (hashes_of lib info)) \<lparr>vf_tm = meta_of lib info ih, vf_file = fe\<rparr> plen off v
      = (Ret (read_answer fe ps plen off), v')"
proof -
  let ?f = "objs (w_s3 v) (S3Bucket cfg)" and ?vf = "\<lparr>vf_tm = meta_of lib info ih, vf_file = fe\<rparr>"
  let ?content = "\<lambda>h. ?f (KeyPiece cfg h)"
  have pieces: "map ?content (hashes_of lib info) = map Some ps" using assms(2) by (simp add: stored_as_def)
  have len: "length (hashes_of lib info) = length ps" using map_Some_nth [OF pieces] by simp
  have co: "coherent cfg cli objs ?content v"
    using assms(1,3) by (simp add: coherent_def sound_store_def fresh_reader_def agrees_def)
  have fi: "file_in ?vf ?content L ps"
    using assms(2,4) by (simp add: file_in_def stored_as_def lies_in_def meta_of_def)
  have "\<forall>h\<in>set (hashes_of lib info). ?content h \<noteq> None"
    using map_Some_nth [OF pieces] by (auto simp: in_set_conv_nth)
  then have sv: "serving cfg cli objs up (PieceHashes (vf_tm ?vf)) v"
    using assms(3) leaves_room_some by (auto simp: serving_def fresh_reader_def meta_of_def)
  have "leaves_room cfg bg" using assms(3) by (simp add: fresh_reader_def)
  from ReadAt_up [OF co fi sv this _ assms(5), of sf plen] assms(3,6) len show ?thesis
    by (auto simp: fresh_reader_def meta_of_def file_bytes_def file_data_def read_answer_def)
qed

section \<open>Fetching\<close>

text \<open>
  What the client of \<^verbatim>\<open>anacrolix/torrent\<close> promises: it marks a piece complete only when it has checked
  the hash of the bytes it wrote. \<open>content\<close> gives the bytes that belong to a hash.
\<close>

definition checked :: "(string \<Rightarrow> bytes option) \<Rightarrow> fcall \<Rightarrow> ('s, 'z) samogonStorage_scheme \<Rightarrow> bool" where
  "checked content c w = (case c of
      CComplete i \<Rightarrow> (case fw_states w i of None \<Rightarrow> True
        | Some ps \<Rightarrow> content (ps_hash ps) = Some (case ps_buf ps of None \<Rightarrow> [] | Some d \<Rightarrow> d))
    | _ \<Rightarrow> True)"

fun verified ::
  "Config \<Rightarrow> 's s3api \<Rightarrow> (string \<Rightarrow> bytes option) \<Rightarrow> fcall list \<Rightarrow> ('s, 'z) samogonStorage_scheme \<Rightarrow> bool" where
  "verified cfg cli content [] w = True"
| "verified cfg cli content (c # cs) w = (checked content c w
     \<and> (case run_call cfg cli c w of (Ret _, w') \<Rightarrow> verified cfg cli content cs w' | _ \<Rightarrow> True))"

text \<open>Which objects one call can write.\<close>

definition right_piece :: "Config \<Rightarrow> (string \<Rightarrow> bytes option) \<Rightarrow> string \<Rightarrow> string \<Rightarrow> bytes option \<Rightarrow> bool" where
  "right_piece cfg content b k v \<longleftrightarrow> b = S3Bucket cfg \<and> (\<exists>h. k = KeyPiece cfg h \<and> v = content h)"

lemma MarkComplete_writes:
  assumes laws: "s3_laws cli objs" and "checked content (CComplete i) w" and run: "MarkComplete cfg cli i w = (r, w')"
    and o: "only objs f (right_piece cfg content) w"
  shows "only objs f (right_piece cfg content) w'"
proof (cases "fw_states w i")
  case None
  with run o show ?thesis by (simp add: MarkComplete_def bindM_def pieceOf_missing)
next
  case (Some ps)
  let ?I = "only objs f (right_piece cfg content)" and ?d = "case ps_buf ps of None \<Rightarrow> [] | Some d \<Rightarrow> d"
  have "content (ps_hash ps) = Some ?d" using assms(2) Some by (simp add: checked_def)
  then have put: "keeps ?I (PutBytes cfg cli (KeyPiece cfg (ps_hash ps)) ?d)"
    by (intro keeps_PutBytes [OF laws]) (auto simp: right_piece_def)
  let ?m = "runCatch (if UpSem cfg \<le> 0 then block
         else bindM (PutBytes cfg cli (KeyPiece cfg (ps_hash ps)) ?d) (\<lambda>_.
           bindM (pieceOf i) (\<lambda>st. let freed = (ps_buf st \<noteq> None) in
             bindM (setPiece i (\<lambda>ps. ps\<lparr>ps_complete := True, ps_buf := None\<rparr>)) (\<lambda>_. if freed then releaseBuf else ret ()))))"
  have k: "keeps ?I ?m"
    unfolding runCatch_def Let_def by (intro keeps_intros put) (auto split: sum.split intro!: keeps_intros)
  have "?m w = (r, w')" using run Some by (simp add: MarkComplete_def bindM_def pieceOf_run Let_def)
  then show ?thesis by (rule keepsD [OF k o])
qed

lemma run_call_writes:
  assumes laws: "s3_laws cli objs" and "checked content c w" and run: "run_call cfg cli c w = (r, w')"
    and o: "only objs f (right_piece cfg content) w"
  shows "only objs f (right_piece cfg content) w'"
proof (cases "\<exists>i. c = CComplete i")
  case True
  then obtain i where c: "c = CComplete i" by blast
  obtain q w1 where m: "MarkComplete cfg cli i w = (q, w1)" by fastforce
  have "w' = w1" using run m by (auto simp: c ignore_def uncaught_def bindM_def ret_run split: outcome.splits panicval.splits)
  with MarkComplete_writes [OF laws _ m o] assms(2) show ?thesis by (simp add: c)
next
  case False
  then have "keeps (only objs f (right_piece cfg content)) (run_call cfg cli c)"
    by (intro keeps_run_call_reads [OF laws]) simp
  then show ?thesis using o run by (rule keepsD)
qed

lemma verified_writes:
  assumes "s3_laws cli objs"
  shows "verified cfg cli content cs w \<Longrightarrow> forM cs (run_call cfg cli) w = (r, w') \<Longrightarrow>
    only objs f (right_piece cfg content) w \<Longrightarrow> only objs f (right_piece cfg content) w'"
proof (induction cs arbitrary: w)
  case Nil
  then show ?case by (simp add: ret_run)
next
  case (Cons c cs)
  obtain q w1 where c: "run_call cfg cli c w = (q, w1)" by fastforce
  have o: "only objs f (right_piece cfg content) w1"
    using run_call_writes [OF assms _ c Cons.prems(3)] Cons.prems(1) by simp
  show ?case
  proof (cases q)
    case (Ret u)
    with Cons.IH [OF _ _ o] Cons.prems(1,2) c show ?thesis by (simp add: bindM_def)
  qed (use Cons.prems(2) c o in \<open>simp_all add: bindM_def\<close>)
qed

lemma sound_after:
  assumes "only objs f (right_piece cfg content) w" and "\<And>h d. f (S3Bucket cfg) (KeyPiece cfg h) = Some d \<Longrightarrow> content h = Some d"
  shows "sound_store cfg objs content (w_s3 w)"
  using assms(1) assms(2) unfolding sound_store_def only_def right_piece_def
  by (metis KeyPiece_inj)

lemma fetched_whole:
  fixes w :: "('s, 'z) samogonStorage_scheme"
  assumes laws: "s3_laws cli objs" and flat: "flat cfg (objs (w_s3 w) (S3Bucket cfg))"
    and run: "runFetch cfg cli lib env w = (r, w')" and inp: "fe_stdin env = Inr raw"
    and load: "Load lib raw = Inr mi" and um: "UnmarshalInfo lib mi = Inr info"
    and ih: "ih = hex_EncodeToString (HashInfoBytes lib mi)"
    and fresh: "objs (w_s3 w) (S3Bucket cfg) (KeyTorrent cfg ih) = None" "objs (w_s3 w') (S3Bucket cfg) (KeyTorrent cfg ih) \<noteq> None"
    and sound: "sound_store cfg objs content (w_s3 w)"
    and checks: "\<forall>w0. fw_states w0 = Map.empty \<longrightarrow> verified cfg cli content (fe_calls env) (w0 :: ('s, 'z) samogonStorage_scheme)"
    and waits: "fe_waited env \<longrightarrow> (\<forall>i<length (hashes_of lib info).
      \<exists>ps. fw_states w' (int i) = Some ps \<and> ps_hash ps = hashes_of lib info ! i \<and> ps_complete ps)"
    and data: "map content (hashes_of lib info) = map Some ps" "info_PieceLength info = int L" "0 < L" "uniform L ps"
      "length (concat ps) < 2 ^ 63"
  shows "stored_as cfg lib (objs (w_s3 w') (S3Bucket cfg)) ih info L ps"
proof -
  let ?f = "objs (w_s3 w)" and ?b = "S3Bucket cfg"
  have key: "KeyTorrent cfg ih = KeyTorrent cfg (hex_EncodeToString (HashInfoBytes lib mi))" by (simp add: ih)
  from fetch_published [OF laws flat run load inp key fresh] obtain w3 w4 :: "('s, 'z) samogonStorage_scheme" where
    w3: "objs (w_s3 w3) = ?f" "fw_states w3 = Map.empty" "forM (fe_calls env) (run_call cfg cli) w3 = (Ret (), w4)"
    and w4: "fetching cfg objs (?f ?b) w4" "fe_waited env" "fw_states w' = fw_states w4"
      "objs (w_s3 w') ?b = (objs (w_s3 w4) ?b)(KeyTorrent cfg ih \<mapsto> raw)"
    by blast
  have o: "only objs ?f (right_piece cfg content) w3" using w3(1) by (simp add: only_def)
  have "verified cfg cli content (fe_calls env) w3" by (rule checks [THEN spec, THEN mp, OF w3(2)])
  then have o4: "only objs ?f (right_piece cfg content) w4" by (rule verified_writes [OF laws _ w3(3) o])
  have s4: "sound_store cfg objs content (w_s3 w4)"
    by (rule sound_after [OF o4]) (use sound in \<open>simp add: sound_store_def\<close>)
  note nth = map_Some_nth [OF data(1)]
  have "objs (w_s3 w') ?b (KeyPiece cfg (hashes_of lib info ! i)) = Some (ps ! i)" if i: "i < length ps" for i
  proof -
    obtain p where p: "fw_states w4 (int i) = Some p" "ps_hash p = hashes_of lib info ! i" "ps_complete p"
      using waits w4(2,3) i nth by auto
    with w4(1) have "objs (w_s3 w4) ?b (KeyPiece cfg (hashes_of lib info ! i)) \<noteq> None"
      unfolding fetching_def backed_def by metis
    with s4 nth i show ?thesis by (auto simp: w4(4) sound_store_def)
  qed
  then have "map (\<lambda>h. objs (w_s3 w') ?b (KeyPiece cfg h)) (hashes_of lib info) = map Some ps"
    using nth by (intro nth_equalityI) auto
  moreover have "torrent_at cfg lib (objs (w_s3 w') ?b) ih = Some info"
    by (simp add: torrent_at_def w4(4) parsed_def load um)
  ultimately show ?thesis using data by (simp add: stored_as_def)
qed

text \<open>
  C7: what \<^verbatim>\<open>fetch\<close> publishes can be read. Let the client mark a piece complete only after it has checked its
  bytes, and let \<open>WaitAll\<close> say yes only when every piece is complete. If the torrent's object appears during a run, however that
  run ends, then for any process that starts later, has the bucket as it was left before it and can reach the
  service, the object at the torrent's key parses to the dictionary that was fetched, and each read in any of its files
  returns exactly the bytes that the hashes stand for, whatever is prefetched meanwhile as long as that leaves room in the cache
  (\<open>leaves_room\<close>: between the moment a piece comes in and the moment it is looked up, fewer prefetch goroutines use the
  cache than it has entries).
\<close>

theorem fetch_delivers:
  fixes w :: "('s, 'z) samogonStorage_scheme" and v :: "('s, 'y) cworld_scheme"
  assumes "s3_laws cli objs" and "flat cfg (objs (w_s3 w) (S3Bucket cfg))"
    and "runFetch cfg cli lib env w = (r, w')" and "fe_stdin env = Inr raw"
    and "Load lib raw = Inr mi" and "UnmarshalInfo lib mi = Inr info" and "ih = hex_EncodeToString (HashInfoBytes lib mi)"
    and "objs (w_s3 w) (S3Bucket cfg) (KeyTorrent cfg ih) = None" and "objs (w_s3 w') (S3Bucket cfg) (KeyTorrent cfg ih) \<noteq> None"
    and "sound_store cfg objs content (w_s3 w)"
    and "\<forall>w0. fw_states w0 = Map.empty \<longrightarrow> verified cfg cli content (fe_calls env) (w0 :: ('s, 'z) samogonStorage_scheme)"
    and "fe_waited env \<longrightarrow> (\<forall>i<length (hashes_of lib info).
      \<exists>ps. fw_states w' (int i) = Some ps \<and> ps_hash ps = hashes_of lib info ! i \<and> ps_complete ps)"
    and "map content (hashes_of lib info) = map Some ps" and "info_PieceLength info = int L" and "0 < L" and "uniform L ps"
    and "length (concat ps) < 2 ^ 63"
    and "objs (w_s3 v) (S3Bucket cfg) = objs (w_s3 w') (S3Bucket cfg)" and "fresh_reader cfg cli objs up bg (length ps) v"
    and "lies_in fe ps" and "0 \<le> off" and "off < Size fe"
  shows "torrent_at cfg lib (objs (w_s3 v) (S3Bucket cfg)) ih = Some info
    \<and> (\<exists>v'. ReadAt_with (getPiece_busy sf cfg cli bg (hashes_of lib info)) \<lparr>vf_tm = meta_of lib info ih, vf_file = fe\<rparr> plen off v
        = (Ret (slice (nat off) plen (file_data fe ps), if Size fe \<le> off + int plen then Some EOF else None), v'))"
proof -
  have "stored_as cfg lib (objs (w_s3 v) (S3Bucket cfg)) ih info L ps"
    unfolding assms(18) by (rule fetched_whole [OF assms(1-17)])
  from stored_reads [OF assms(1) this assms(19-22)] this show ?thesis by (simp add: read_answer_def stored_as_def)
qed

section \<open>Repacking\<close>

text \<open>The v1 hashes of an info dictionary are the 20-byte strings that its field \<^verbatim>\<open>pieces\<close> consists of.\<close>

definition v1_pieces :: "metalib \<Rightarrow> Info \<Rightarrow> bool" where
  "v1_pieces lib info \<longleftrightarrow> NumPieces lib info = int (length (info_Pieces info) div 20)
     \<and> (\<forall>i. 0 \<le> i \<and> i < NumPieces lib info \<longrightarrow> V1Hash lib info i = Some (take 20 (drop (20 * nat i) (info_Pieces info))))"

lemma concat_nth_20: "\<forall>x\<in>set xs. length x = 20 \<Longrightarrow> i < length xs \<Longrightarrow> take 20 (drop (20 * i) (concat xs)) = xs ! i"
proof (induction xs arbitrary: i)
  case (Cons x xs)
  then show ?case by (cases i) auto
qed simp

lemma hashes_of_v1:
  assumes "v1_pieces lib info" and "info_Pieces info = concat (map sha1_Sum cs)"
  shows "hashes_of lib info = map (\<lambda>c. hex_EncodeToString (sha1_Sum c)) cs"
proof -
  have "length (concat (map sha1_Sum cs)) = 20 * length cs" by (induction cs) simp_all
  then have n: "NumPieces lib info = int (length cs)" using assms by (simp add: v1_pieces_def)
  show ?thesis
  proof (rule nth_equalityI)
    show "length (hashes_of lib info) = length (map (\<lambda>c. hex_EncodeToString (sha1_Sum c)) cs)"
      by (simp add: hashes_of_def n)
  next
    fix i assume "i < length (hashes_of lib info)"
    then have i: "i < length cs" by (simp add: hashes_of_def n)
    then have "V1Hash lib info (int i) = Some (sha1_Sum (cs ! i))"
      using assms concat_nth_20 [of "map sha1_Sum cs" i] by (simp add: v1_pieces_def n)
    with i show "hashes_of lib info ! i = map (\<lambda>c. hex_EncodeToString (sha1_Sum c)) cs ! i"
      by (simp add: hashes_of_def n nth_upto)
  qed
qed

lemma repacked_whole:
  fixes w :: "('s, 'z) rworld_scheme"
  assumes laws: "s3_laws cli objs" and sound: "sound_store cfg objs content (w_s3 w)" and f0: "f0 = objs (w_s3 w) (S3Bucket cfg)"
    and ext: "extractInfohash target w = (Ret ih, w)" and raw: "f0 (KeyTorrent cfg ih) = Some raw"
    and load: "Load lib raw = Inr mi" "UnmarshalInfo lib mi = Inr info" and st: "stored_as cfg lib f0 ih info L ps"
    and n: "0 < n" and cs: "cs = chunks (nat n) (concat ps)" and nm: "named content cs" and ul: "uploads_law ups"
    and run: "runRepack sf cfg cli lib bg ups target n w = (r, w')" and f': "f' = objs (w_s3 w') (S3Bucket cfg)"
    and new: "f' (KeyTorrent cfg new) \<noteq> f0 (KeyTorrent cfg new)"
    and info': "info' = info\<lparr>info_PieceLength := n, info_Pieces := concat (map sha1_Sum cs)\<rparr>"
    and codec: "\<forall>ib out. Marshal lib info' = Inr ib \<and> Write lib (mi\<lparr>mi_InfoBytes := ib\<rparr>) = Inr out \<longrightarrow> parsed lib out = Some info'"
    and v1: "v1_pieces lib info'"
  shows "stored_as cfg lib f' new info' (nat n) cs"
proof -
  have pieces: "map (\<lambda>h. f0 (KeyPiece cfg h)) (hashes_of lib info) = map Some ps" and big: "length (concat ps) < 2 ^ 63"
    using st by (simp_all add: stored_as_def)
  note nth = map_Some_nth [OF pieces]
  have "map content (hashes_of lib info) = map Some ps"
    using nth sound by (intro nth_equalityI) (auto simp: sound_store_def f0)
  from repack_outcome [OF laws sound f0 ext raw load this big cs nm ul run f'] obtain f k out where
    g: "gained cfg f0 cs f" and out: "f' = f \<or> (\<forall>c\<in>set cs. f (piece_key cfg c) = Some c)
      \<and> new_torrent cfg lib mi info n cs k out \<and> f' = f(k \<mapsto> out)" by blast
  have "f (KeyTorrent cfg new) = f0 (KeyTorrent cfg new)" using g by (auto simp: gained_def piece_key_def)
  with out new have all: "\<forall>c\<in>set cs. f (piece_key cfg c) = Some c" and nt: "new_torrent cfg lib mi info n cs k out"
    and f'': "f' = f(k \<mapsto> out)" and k: "k = KeyTorrent cfg new" by (auto split: if_splits)
  from nt codec have "parsed lib out = Some info'" unfolding new_torrent_def info' [symmetric] by blast
  then have "torrent_at cfg lib f' new = Some info'" by (simp add: torrent_at_def f'' k)
  moreover have hs: "hashes_of lib info' = map (\<lambda>c. hex_EncodeToString (sha1_Sum c)) cs"
    by (rule hashes_of_v1 [OF v1]) (simp add: info')
  have "map (\<lambda>h. f' (KeyPiece cfg h)) (hashes_of lib info') = map Some cs"
    using all by (simp add: hs f'' k piece_key_def)
  moreover have "concat cs = concat ps" "uniform (nat n) cs" using n by (simp_all add: cs concat_chunks uniform_chunks)
  ultimately show ?thesis using big n by (simp add: stored_as_def info')
qed

text \<open>
  C8: repacking changes how the bytes are cut, not the bytes. Take a torrent that is stored whole. If a run of \<^verbatim>\<open>repack\<close>, however it
  ends, leaves a new torrent object, and the library reads back the dictionary it wrote, then for a
  process that starts later the object at the new infohash's key has the same files, and each read in any of them returns exactly
  the bytes that the old torrent has there, whatever is prefetched meanwhile as long as that leaves room in the cache (\<open>leaves_room\<close>).
\<close>

theorem repack_delivers:
  fixes w :: "('s, 'z) rworld_scheme" and v :: "('s, 'y) cworld_scheme"
  assumes "s3_laws cli objs" and "sound_store cfg objs content (w_s3 w)" and "f0 = objs (w_s3 w) (S3Bucket cfg)"
    and "extractInfohash target w = (Ret ih, w)" and "f0 (KeyTorrent cfg ih) = Some raw"
    and "Load lib raw = Inr mi" and "UnmarshalInfo lib mi = Inr info" and "stored_as cfg lib f0 ih info L ps"
    and "0 < n" and "cs = chunks (nat n) (concat ps)" and "named content cs" and "uploads_law ups"
    and "runRepack sf cfg cli lib bg ups target n w = (r, w')" and "f' = objs (w_s3 w') (S3Bucket cfg)"
    and "f' (KeyTorrent cfg new) \<noteq> f0 (KeyTorrent cfg new)"
    and "info' = info\<lparr>info_PieceLength := n, info_Pieces := concat (map sha1_Sum cs)\<rparr>"
    and "\<forall>ib out. Marshal lib info' = Inr ib \<and> Write lib (mi\<lparr>mi_InfoBytes := ib\<rparr>) = Inr out \<longrightarrow> parsed lib out = Some info'"
    and "v1_pieces lib info'"
    and "objs (w_s3 v) (S3Bucket cfg) = f'" and "fresh_reader cfg cli objs up bg' (length cs) v"
    and "lies_in fe ps" and "0 \<le> off" and "off < Size fe"
  shows "torrent_at cfg lib f' new = Some info' \<and> files_of info' = files_of info
    \<and> (\<exists>v'. ReadAt_with (getPiece_busy sf' cfg cli bg' (hashes_of lib info')) \<lparr>vf_tm = meta_of lib info' new, vf_file = fe\<rparr> plen off v
        = (Ret (slice (nat off) plen (file_data fe ps), if Size fe \<le> off + int plen then Some EOF else None), v'))"
proof -
  have st: "stored_as cfg lib f' new info' (nat n) cs" by (rule repacked_whole [OF assms(1-18)])
  have c: "concat cs = concat ps" using assms(9,10) by (simp add: concat_chunks)
  have "lies_in fe cs" using assms(21) by (simp add: lies_in_def c)
  from stored_reads [OF assms(1) st [folded assms(19)] assms(20) this assms(22,23)] st show ?thesis
    by (simp add: read_answer_def stored_as_def file_data_def c assms(16) files_of_def)
qed

section \<open>Collecting\<close>

text \<open>
  C37: the collector leaves every stored torrent readable. After a run of \<^verbatim>\<open>gc\<close> with the service up, in any order of its
  workers, a torrent that was stored whole still is, and every read that a later process makes in one of its files returns exactly its bytes, whatever is prefetched meanwhile as long as that leaves room in the cache (\<open>leaves_room\<close>).
\<close>

theorem gc_delivers:
  fixes v :: "('s, 'y) cworld_scheme"
  assumes "s3_laws cli objs" and "s3_up cli objs up" and "sched_law sched1" and "sched_law sched2"
    and "0 < UpSem cfg" and "UpSem cfg * 2 < 2 ^ 63" and "up s" and "f = objs s (S3Bucket cfg)"
    and "\<forall>k d info. prefix (PrefixTorrents cfg) k \<and> f k = Some d \<and> parsed lib d = Some info \<longrightarrow> has_v1 lib info"
    and "runGc sched1 sched2 m cfg cli lib (gc_start s) = (r, w')" and "stored_as cfg lib f ih info L ps"
    and "\<forall>h\<in>set (hashes_of lib info). h \<noteq> '''' \<and> CHR ''/'' \<notin> set h"
    and "objs (w_s3 v) (S3Bucket cfg) = objs (w_s3 w') (S3Bucket cfg)" and "fresh_reader cfg cli objs up bg (length ps) v"
    and "lies_in fe ps" and "0 \<le> off" and "off < Size fe"
  shows "r = Ret () \<and> stored_as cfg lib (objs (w_s3 w') (S3Bucket cfg)) ih info L ps
    \<and> (\<exists>v'. ReadAt_with (getPiece_busy sf cfg cli bg (hashes_of lib info)) \<lparr>vf_tm = meta_of lib info ih, vf_file = fe\<rparr> plen off v
        = (Ret (slice (nat off) plen (file_data fe ps), if Size fe \<le> off + int plen then Some EOF else None), v'))"
proof -
  let ?live = "live_hashes lib f {k. prefix (PrefixTorrents cfg) k}"
  from gc_up [OF assms(1-9), of m] assms(10) have r: "r = Ret ()"
    and g: "objs (w_s3 w') (S3Bucket cfg) = (\<lambda>k. if prefix (PrefixPieces cfg) k \<and> path_Base k \<notin> ?live then None else f k)"
    by auto
  obtain d where d: "f (KeyTorrent cfg ih) = Some d" "parsed lib d = Some info"
    using assms(11) by (auto simp: stored_as_def torrent_at_def split: option.splits)
  have live: "h \<in> ?live" if "h \<in> set (hashes_of lib info)" for h
    using that d prefix_KeyTorrent by (auto simp: live_hashes_def)
  have "objs (w_s3 w') (S3Bucket cfg) (KeyPiece cfg h) = f (KeyPiece cfg h)" if "h \<in> set (hashes_of lib info)" for h
    using live [OF that] assms(12) that path_Base_KeyPiece by (simp add: g)
  moreover have "\<not> prefix (PrefixPieces cfg) (KeyTorrent cfg ih)" using prefix_KeyPiece by auto
  then have "objs (w_s3 w') (S3Bucket cfg) (KeyTorrent cfg ih) = f (KeyTorrent cfg ih)" by (simp add: g)
  ultimately have st: "stored_as cfg lib (objs (w_s3 w') (S3Bucket cfg)) ih info L ps"
    using assms(11) by (simp add: stored_as_def torrent_at_def cong: map_cong)
  from stored_reads [OF assms(1) st [folded assms(13)] assms(14-17)] st r show ?thesis by (simp add: read_answer_def)
qed

section \<open>A small torrent through its life\<close>

definition hx :: bytes where "hx = replicate 20 7"

definition tor_f :: bytes where "tor_f = [1, 97, 2, 1, 2] @ hx"

definition ih_f :: string where "ih_f = hex_EncodeToString (pad20 tor_f)"

definition info_f :: Info where
  "info_f = \<lparr>info_Name = ''a'', info_PieceLength = 2, info_Pieces = hx, info_Length = 2, info_Files = [], info_Other = []\<rparr>"

definition fe_f :: FileEntry where "fe_f = \<lparr>Path = ''a'', Size = 2, Offset = 0\<rparr>"

definition content_f :: "string \<Rightarrow> bytes option" where
  "content_f h = (if h = hex_EncodeToString hx then Some [4, 5] else None)"

definition env_f :: fetchenv where
  "env_f = \<lparr>fe_stdin = Inr tor_f, fe_mkdir = None, fe_client = None, fe_add = None,
     fe_calls = [CPiece 0 2 (Some hx), CWrite 0 [4, 5] 0, CComplete 0], fe_waited = True\<rparr>"

definition reader_of :: "mem \<Rightarrow> mem cworld" where
  "reader_of m = \<lparr>w_s3 = (fst m, []), w_puts = 0, rw_cache = newLRU 1000, rw_spawned = []\<rparr>"

text \<open>While it reads, a piece of some other torrent is prefetched.\<close>

definition bg_f :: "int \<Rightarrow> others" where
  "bg_f i = others_at Returning [''zz'']"

lemma reader_of_fresh: "n < 100 \<Longrightarrow> fresh_reader cfg0 mem_s3 mem_view mem_up bg_f n (reader_of m)"
  "mem_view (w_s3 (reader_of m)) = mem_view m"
  by (simp_all add: leaves_room_def bg_f_def others_at_def fresh_reader_def reader_of_def mem_is_up mem_up_def mem_fails_def mem_view_def fun_eq_iff)

lemma tor_f_parses:
  "Load lib0 tor_f = Inr \<lparr>mi_InfoBytes = tor_f, mi_Other = []\<rparr>"
  "UnmarshalInfo lib0 \<lparr>mi_InfoBytes = tor_f, mi_Other = []\<rparr> = Inr info_f"
  "HashInfoBytes lib0 \<lparr>mi_InfoBytes = tor_f, mi_Other = []\<rparr> = pad20 tor_f"
  "hashes_of lib0 info_f = [hex_EncodeToString hx]"
  by (simp_all add: lib0_def tor_f_def info_f_def info0_def hashes_of_def chars_def char_of_a [simplified] hx_def)

lemma fe_f_in: "lies_in fe_f [[4, 5]]" "Size fe_f = 2" "file_data fe_f [[4, 5]] = [4, 5]"
  by (simp_all add: lies_in_def fe_f_def file_data_def slice_def)

lemma env_f_checks: "fw_states w0 = Map.empty \<Longrightarrow> verified cfg0 mem_s3 content_f (fe_calls env_f) w0"
  by (cases "fw_tokens w0 < 1000")
    (simp_all add: env_f_def checked_def pieceFn_def stateFor_def uncaught_def modifyM_run ignore_def bindM_def ret_run
      piece_WriteAt_def pieceOf_def getM_run acquireBuf_def setPiece_def block_run Let_def overwrite_def content_f_def wrap64_def
      numeral_2_eq_2 split: prod.split outcome.split)

lemma fetch_run_f:
  "case runFetch cfg0 mem_s3 lib0 env_f start0 of (r, w') \<Rightarrow> r = Ret ()
    \<and> mem_view (w_s3 w') ''b'' (KeyTorrent cfg0 ih_f) \<noteq> None
    \<and> (case fw_states w' 0 of Some ps \<Rightarrow> ps_hash ps = hex_EncodeToString hx \<and> ps_complete ps | None \<Rightarrow> False)"
  by code_simp

theorem fetch_delivers_witness:
  "\<exists>w' v'. runFetch cfg0 mem_s3 lib0 env_f start0 = (Ret (), w')
    \<and> ReadAt_with (getPiece_busy id cfg0 mem_s3 bg_f [hex_EncodeToString hx]) \<lparr>vf_tm = meta_of lib0 info_f ih_f, vf_file = fe_f\<rparr> 1 1
        (reader_of (w_s3 w')) = (Ret ([5], Some EOF), v')"
proof -
  obtain w' where run: "runFetch cfg0 mem_s3 lib0 env_f start0 = (Ret (), w')"
    and there: "mem_view (w_s3 w') (S3Bucket cfg0) (KeyTorrent cfg0 ih_f) \<noteq> None"
    and ps: "\<exists>ps. fw_states w' 0 = Some ps \<and> ps_hash ps = hex_EncodeToString hx \<and> ps_complete ps"
    using fetch_run_f by (auto split: prod.splits option.splits)
  have empty: "mem_view (w_s3 start0) b k = None" for b k by (simp add: start0_def mem_view_def mem_of_def)
  have e: "flat cfg0 (mem_view (w_s3 start0) (S3Bucket cfg0))" "sound_store cfg0 mem_view content_f (w_s3 start0)"
    by (simp_all add: flat_def sound_store_def empty)
  have waits: "fe_waited env_f \<longrightarrow> (\<forall>i<length (hashes_of lib0 info_f).
      \<exists>ps. fw_states w' (int i) = Some ps \<and> ps_hash ps = hashes_of lib0 info_f ! i \<and> ps_complete ps)"
    using ps by (simp add: tor_f_parses)
  have checks: "\<forall>w0. fw_states w0 = Map.empty \<longrightarrow> verified cfg0 mem_s3 content_f (fe_calls env_f) (w0 :: mem samogonStorage)"
    by (intro allI impI env_f_checks)
  have inp: "fe_stdin env_f = Inr tor_f" by (simp add: env_f_def)
  have ih: "ih_f = hex_EncodeToString (HashInfoBytes lib0 \<lparr>mi_InfoBytes = tor_f, mi_Other = []\<rparr>)"
    by (simp add: ih_f_def tor_f_parses)
  have "map content_f (hashes_of lib0 info_f) = map Some [[4, 5]]" by (simp add: tor_f_parses content_f_def)
  moreover have "info_PieceLength info_f = int 2" "uniform 2 [[4 :: byte, 5]]" by (simp_all add: info_f_def)
  ultimately have "map content_f (hashes_of lib0 info_f) = map Some [[4, 5]]" "info_PieceLength info_f = int 2" "uniform 2 [[4 :: byte, 5]]" .
  from fetch_delivers [OF mem_laws e(1) run inp tor_f_parses(1,2) ih empty there e(2) checks waits this(1,2) _ this(3) _
      _ reader_of_fresh(1) fe_f_in(1), of "w_s3 w'" 1 id 1] run show ?thesis
    by (auto simp: reader_of_fresh(2) fe_f_in tor_f_parses slice_def)
qed

text \<open>The torrent of theory \<open>Repack\<close>: two pieces made one.\<close>

definition info_r2 :: Info where
  "info_r2 = info_r\<lparr>info_PieceLength := 2, info_Pieces := concat (map sha1_Sum [[1, 2]])\<rparr>"

lemma parsed_ib_r: "parsed lib0 ib_r = Some info_r2" "v1_pieces lib0 info_r2" "hashes_of lib0 info_r2 = [hex_EncodeToString (sha1_Sum [1, 2])]"
proof -
  show "parsed lib0 ib_r = Some info_r2"
    by (simp add: parsed_def lib0_def ib_r_def info0_def info_r2_def info_r_def chars_def char_of_a [simplified])
  show v1: "v1_pieces lib0 info_r2"
    by (simp add: v1_pieces_def lib0_def info_r2_def info_r_def)
  show "hashes_of lib0 info_r2 = [hex_EncodeToString (sha1_Sum [1, 2])]"
    using hashes_of_v1 [OF v1, of "[[1, 2]]"] by (simp add: info_r2_def)
qed

lemma stored_r: "stored_as cfg0 lib0 (mem_view (w_s3 start_r) (S3Bucket cfg0)) ih_r info_r 1 [[1], [2]]"
proof -
  have "torrent_at cfg0 lib0 (mem_view bucket_r ''b'') ih_r = Some info_r"
    using source_r(1,2) by (simp add: torrent_at_def bucket_view parsed_def)
  moreover have "info_PieceLength info_r = 1" by (simp add: info_r_def)
  ultimately show ?thesis
    using hash_names(1-3) unfolding view_start_r by (auto simp: stored_as_def source_r(4) bucket_view)
qed

theorem repack_delivers_witness:
  "\<exists>w' v'. run_of_r = (Ret (), w')
    \<and> ReadAt_with (getPiece_busy id cfg0 mem_s3 bg_f [hex_EncodeToString (sha1_Sum [1, 2])])
        \<lparr>vf_tm = meta_of lib0 info_r2 (hex_EncodeToString (pad20 ib_r)), vf_file = fe_f\<rparr> 2 0 (reader_of (w_s3 w')) = (Ret ([1, 2], Some EOF), v')"
proof -
  let ?new = "hex_EncodeToString (pad20 ib_r)"
  have "hd (drop 2 (pad20 ib_r)) \<noteq> hd (drop 2 (pad20 tor_r))" by (simp add: pad20_def ib_r_def tor_r_def)
  then have ne: "?new \<noteq> ih_r" by (auto simp: ih_r_def)
  obtain w' f where run: "run_of_r = (Ret (), w')"
    and f': "mem_view (w_s3 w') (S3Bucket cfg0) = f(KeyTorrent cfg0 ?new \<mapsto> ib_r)" using run_r ne by auto
  have "mem_view (w_s3 start_r) (S3Bucket cfg0) (KeyTorrent cfg0 ?new) = None"
    using ne unfolding view_start_r by (simp add: bucket_r_def mem_view_def mem_of_def KeyTorrent_neq_KeyPiece)
  then have new: "mem_view (w_s3 w') (S3Bucket cfg0) (KeyTorrent cfg0 ?new) \<noteq> mem_view (w_s3 start_r) (S3Bucket cfg0) (KeyTorrent cfg0 ?new)"
    unfolding f' by simp
  have codec: "\<forall>ib out. Marshal lib0 info_r2 = Inr ib \<and> Write lib0 (mi_r\<lparr>mi_InfoBytes := ib\<rparr>) = Inr out \<longrightarrow> parsed lib0 out = Some info_r2"
    using rebuilt_r(2) parsed_ib_r(1) rebuilt_r(1) [folded info_r2_def] by auto
  have raw: "mem_view (w_s3 start_r) (S3Bucket cfg0) (KeyTorrent cfg0 ih_r) = Some tor_r"
    unfolding view_start_r by (rule bucket_view(1))
  have fin: "lies_in fe_f [[1], [2]]" "0 < Size fe_f" "file_data fe_f [[1], [2]] = [1, 2]"
    by (simp_all add: lies_in_def fe_f_def file_data_def slice_def)
  from repack_delivers [OF mem_laws sound_start_r refl ext_r raw source_r(1,2) stored_r _ start_r_facts(7) [symmetric]
      start_r_facts(5,6) run refl new info_r2_def codec parsed_ib_r(2) _ reader_of_fresh(1) fin(1) _ fin(2), of "w_s3 w'" id 2] run
  show ?thesis by (auto simp: reader_of_fresh(2) fin(3) parsed_ib_r slice_def fe_f_in(2))
qed

text \<open>The first torrent and a piece that belongs to none.\<close>

definition bucket_f :: mem where
  "bucket_f = mem_of [(KeyTorrent cfg0 ih_f, tor_f), (KeyPiece cfg0 (hex_EncodeToString hx), [4, 5]), (KeyPiece cfg0 ''zz'', [9])]"

lemma bucket_f_view:
  "mem_view bucket_f ''b'' (KeyTorrent cfg0 h) = (if h = ih_f then Some tor_f else None)"
  "mem_view bucket_f ''b'' (KeyPiece cfg0 h) = (if h = hex_EncodeToString hx then Some [4, 5] else if h = ''zz'' then Some [9] else None)"
  by (auto simp: bucket_f_def mem_view_def mem_of_def KeyTorrent_neq_KeyPiece KeyTorrent_neq_KeyPiece [symmetric])

lemma bucket_f_v1:
  "\<forall>k d info. prefix (PrefixTorrents cfg0) k \<and> mem_view bucket_f ''b'' k = Some d \<and> parsed lib0 d = Some info \<longrightarrow> has_v1 lib0 info"
proof (intro allI impI)
  fix k d info
  assume a: "prefix (PrefixTorrents cfg0) k \<and> mem_view bucket_f ''b'' k = Some d \<and> parsed lib0 d = Some info"
  then have "d = tor_f" by (auto simp: prefix_KeyTorrent bucket_f_view split: if_splits)
  with a tor_f_parses(1,2) have "info = info_f" by (simp add: parsed_def)
  then show "has_v1 lib0 info" by (simp add: has_v1_def lib0_def info_f_def)
qed

theorem gc_delivers_witness:
  "\<exists>w' v'. runGc rev rev 0 cfg0 mem_s3 lib0 (gc_start bucket_f) = (Ret (), w')
    \<and> ReadAt_with (getPiece_busy id cfg0 mem_s3 bg_f [hex_EncodeToString hx]) \<lparr>vf_tm = meta_of lib0 info_f ih_f, vf_file = fe_f\<rparr> 1 0
        (reader_of (w_s3 w')) = (Ret ([4], None), v')"
proof -
  obtain r w' where run: "runGc rev rev 0 cfg0 mem_s3 lib0 (gc_start bucket_f) = (r, w')" by fastforce
  have up: "mem_up bucket_f" by (simp add: bucket_f_def)
  have n: "0 < UpSem cfg0" "UpSem cfg0 * 2 < 2 ^ 63" by simp_all
  have v1: "\<forall>k d info. prefix (PrefixTorrents cfg0) k \<and> mem_view bucket_f (S3Bucket cfg0) k = Some d \<and> parsed lib0 d = Some info \<longrightarrow> has_v1 lib0 info"
    using bucket_f_v1 by simp
  have "info_PieceLength info_f = 2" by (simp add: info_f_def)
  then have st: "stored_as cfg0 lib0 (mem_view bucket_f (S3Bucket cfg0)) ih_f info_f 2 [[4, 5]]"
    by (simp add: stored_as_def torrent_at_def bucket_f_view parsed_def tor_f_parses)
  have "hex_EncodeToString hx \<noteq> ''''" by code_simp
  then have hs: "\<forall>h\<in>set (hashes_of lib0 info_f). h \<noteq> '''' \<and> CHR ''/'' \<notin> set h"
    using hex_no_slash by (simp add: tor_f_parses)
  from gc_delivers [OF mem_laws mem_is_up sched_law_rev sched_law_rev n up refl v1 run st hs _ reader_of_fresh(1) fe_f_in(1),
      of "w_s3 w'" 0 id 1] run show ?thesis
    by (auto simp: reader_of_fresh(2) fe_f_in tor_f_parses slice_def)
qed

end
