(* ===== verification/Archive.thy ===== *)
theory Archive
  imports App Lifecycle
begin

text \<open>
  The bucket as an archive. Jobs of the program run one after the other, each from its own process and possibly
  each against another bucket, the service is now up and now down, and the archive in one bucket stays intact through
  all of it: every torrent that is there has its pieces, and a torrent that was there once stays there.
\<close>

section \<open>Intact buckets\<close>

text \<open>
  \<open>content\<close> gives the bytes that belong to the name of a piece. A bucket is intact when pieces have
  proper names, every piece holds the bytes of its name, and no torrent that parses lacks a piece.
\<close>

definition names_law :: "(string \<Rightarrow> bytes option) \<Rightarrow> bool" where
  "names_law content \<longleftrightarrow> (\<forall>h. content h \<noteq> None \<longrightarrow> h \<noteq> '''' \<and> CHR ''/'' \<notin> set h)"

definition intact :: "Config \<Rightarrow> metalib \<Rightarrow> (string \<Rightarrow> bytes option) \<Rightarrow> (string \<Rightarrow> bytes option) \<Rightarrow> bool" where
  "intact cfg lib content f \<longleftrightarrow> flat cfg f \<and> (\<forall>h d. f (KeyPiece cfg h) = Some d \<longrightarrow> content h = Some d)
     \<and> (\<forall>ih info. torrent_at cfg lib f ih = Some info \<longrightarrow> (\<forall>h\<in>set (hashes_of lib info). f (KeyPiece cfg h) \<noteq> None))"

definition torrents_stay :: "Config \<Rightarrow> metalib \<Rightarrow> (string \<Rightarrow> bytes option) \<Rightarrow> (string \<Rightarrow> bytes option) \<Rightarrow> bool" where
  "torrents_stay cfg lib f f' \<longleftrightarrow> (\<forall>ih info. torrent_at cfg lib f ih = Some info \<longrightarrow> torrent_at cfg lib f' ih = Some info)"

text \<open>The two ways in which an archive grows, and the two in which it does not.\<close>

definition gains :: "Config \<Rightarrow> (string \<Rightarrow> bytes option) \<Rightarrow> (string \<Rightarrow> bytes option) \<Rightarrow> (string \<Rightarrow> bytes option) \<Rightarrow> bool" where
  "gains cfg content f f' \<longleftrightarrow> (\<forall>k. f' k = f k \<or> (\<exists>h. k = KeyPiece cfg h \<and> content h \<noteq> None \<and> f' k = content h))"

text \<open>What is published under an infohash that is there already describes the same torrent.\<close>

definition same_dict :: "metalib \<Rightarrow> (string \<Rightarrow> bytes option) \<Rightarrow> string \<Rightarrow> bytes \<Rightarrow> bool" where
  "same_dict lib f k out \<longleftrightarrow> (\<forall>d info. f k = Some d \<and> parsed lib d = Some info \<longrightarrow> parsed lib out = Some info)"

lemma intact_empty: "intact cfg lib content (\<lambda>_. None)"
  by (simp add: intact_def flat_def torrent_at_def)

lemma torrents_stay_refl [simp]: "torrents_stay cfg lib f f"
  by (simp add: torrents_stay_def)

lemma torrents_stay_trans: "torrents_stay cfg lib f g \<Longrightarrow> torrents_stay cfg lib g h \<Longrightarrow> torrents_stay cfg lib f h"
  by (simp add: torrents_stay_def)

lemma gains_refl [simp]: "gains cfg content f f"
  by (simp add: gains_def)

lemma intact_cong:
  assumes "\<And>h. f' (KeyPiece cfg h) = f (KeyPiece cfg h)" and "\<And>h. f' (KeyTorrent cfg h) = f (KeyTorrent cfg h)"
  shows "intact cfg lib content f' = intact cfg lib content f \<and> torrents_stay cfg lib f f'"
proof -
  have "flat cfg f' = flat cfg f" using assms(1) by (simp add: flat_iff assms(1))
  moreover have "torrent_at cfg lib f' = torrent_at cfg lib f" by (rule ext) (simp add: torrent_at_def assms(2))
  ultimately show ?thesis by (simp add: intact_def torrents_stay_def assms(1))
qed

lemma intact_gains:
  assumes "names_law content" and "intact cfg lib content f" and "gains cfg content f f'"
  shows "intact cfg lib content f' \<and> torrents_stay cfg lib f f'"
proof -
  have p: "f' (KeyPiece cfg h) = f (KeyPiece cfg h) \<or> content h \<noteq> None \<and> f' (KeyPiece cfg h) = content h" for h
    using assms(3) unfolding gains_def by (metis KeyPiece_inj)
  have t: "f' (KeyTorrent cfg ih) = f (KeyTorrent cfg ih)" for ih
    using assms(3) unfolding gains_def by (metis KeyTorrent_neq_KeyPiece(1))
  have ta: "torrent_at cfg lib f' ih = torrent_at cfg lib f ih" for ih by (simp add: torrent_at_def t)
  have "flat cfg f'" unfolding flat_iff
  proof (intro allI impI)
    fix h assume "f' (KeyPiece cfg h) \<noteq> None"
    then have "f (KeyPiece cfg h) \<noteq> None \<or> content h \<noteq> None" using p [of h] by metis
    moreover have "flat cfg f" using assms(2) by (simp add: intact_def)
    ultimately show "h \<noteq> '''' \<and> CHR ''/'' \<notin> set h" using assms(1) unfolding flat_iff names_law_def by blast
  qed
  moreover have "content h = Some d" if "f' (KeyPiece cfg h) = Some d" for h d
    using p [of h] that assms(2) by (metis intact_def)
  moreover have "f' (KeyPiece cfg h) \<noteq> None" if "torrent_at cfg lib f' ih = Some info" "h \<in> set (hashes_of lib info)" for ih info h
    using p [of h] that assms(2) by (auto simp: intact_def ta)
  ultimately show ?thesis by (auto simp: intact_def torrents_stay_def ta)
qed

lemma intact_publish:
  assumes "intact cfg lib content f" and "parsed lib out = Some info" and "same_dict lib f (KeyTorrent cfg ih) out"
    and "\<forall>h\<in>set (hashes_of lib info). f (KeyPiece cfg h) \<noteq> None"
  shows "intact cfg lib content (f(KeyTorrent cfg ih \<mapsto> out)) \<and> torrents_stay cfg lib f (f(KeyTorrent cfg ih \<mapsto> out))"
proof -
  let ?g = "f(KeyTorrent cfg ih \<mapsto> out)"
  have "torrent_at cfg lib ?g h = (if h = ih then Some info else torrent_at cfg lib f h)" for h
    using assms(2) by (simp add: torrent_at_def)
  moreover have "torrent_at cfg lib f ih = None \<or> torrent_at cfg lib f ih = Some info"
    using assms(2,3) by (cases "torrent_at cfg lib f ih") (auto simp: torrent_at_def same_dict_def split: option.splits)
  moreover have "flat cfg ?g" using assms(1) by (simp add: intact_def flat_iff)
  ultimately show ?thesis using assms(1,4) by (auto simp: intact_def torrents_stay_def)
qed

text \<open>Of a collection only the pieces of no torrent are missing afterwards.\<close>

lemma intact_collected:
  assumes "names_law content" and i: "intact cfg lib content f"
    and f': "f' = (\<lambda>k. if prefix (PrefixPieces cfg) k \<and> path_Base k \<notin> live_hashes lib f {k. prefix (PrefixTorrents cfg) k} then None else f k)"
  shows "intact cfg lib content f' \<and> torrents_stay cfg lib f f'"
proof -
  have t: "f' (KeyTorrent cfg ih) = f (KeyTorrent cfg ih)" for ih by (auto simp: f' prefix_KeyPiece)
  have ta: "torrent_at cfg lib f' ih = torrent_at cfg lib f ih" for ih by (simp add: torrent_at_def t)
  have le: "f' k \<noteq> None \<Longrightarrow> f' k = f k" for k by (auto simp: f' split: if_splits)
  have "f' (KeyPiece cfg h) \<noteq> None" if a: "torrent_at cfg lib f ih = Some info" "h \<in> set (hashes_of lib info)" for ih info h
  proof -
    from a i have h: "f (KeyPiece cfg h) \<noteq> None" by (simp add: intact_def)
    with i assms(1) have "h \<noteq> '''' \<and> CHR ''/'' \<notin> set h" by (auto simp: intact_def names_law_def)
    then have "path_Base (KeyPiece cfg h) = h" by (simp add: path_Base_KeyPiece)
    moreover have "h \<in> live_hashes lib f {k. prefix (PrefixTorrents cfg) k}"
      using a by (auto simp: live_hashes_def torrent_at_def prefix_KeyTorrent split: option.splits)
    ultimately show ?thesis using h by (simp add: f')
  qed
  moreover have "flat cfg f'" using i le by (auto simp: intact_def flat_def)
  moreover have "content h = Some d" if "f' (KeyPiece cfg h) = Some d" for h d
    using i le [of "KeyPiece cfg h"] that unfolding intact_def by (metis option.distinct(1))
  ultimately show ?thesis by (auto simp: intact_def torrents_stay_def ta)
qed

section \<open>Jobs that keep an archive\<close>

text \<open>
  What each job needs to be given. The client of \<^verbatim>\<open>fetch\<close> checks pieces before it marks them complete, and \<open>WaitAll\<close> says
  yes only when all are; an infohash that is published again stands for the same dictionary.
\<close>

definition good_fetch ::
  "Config \<Rightarrow> 's s3api \<Rightarrow> metalib \<Rightarrow> (string \<Rightarrow> bytes option) \<Rightarrow> fetchenv \<Rightarrow> (string \<Rightarrow> bytes option) \<Rightarrow> 's \<Rightarrow> bool" where
  "good_fetch cfg cli lib content env f s \<longleftrightarrow>
     (\<forall>w0 :: 's samogonStorage. fw_states w0 = Map.empty \<longrightarrow> verified cfg cli content (fe_calls env) w0)
     \<and> (\<forall>raw mi info. fe_stdin env = Inr raw \<and> Load lib raw = Inr mi \<and> UnmarshalInfo lib mi = Inr info \<longrightarrow>
         same_dict lib f (KeyTorrent cfg (hex_EncodeToString (HashInfoBytes lib mi))) raw
         \<and> (fe_waited env \<longrightarrow> (\<forall>h\<in>set (hashes_of lib info).
              \<exists>i ps. fw_states (snd (runFetch cfg cli lib env (fetch_start s))) i = Some ps \<and> ps_hash ps = h \<and> ps_complete ps)))"

text \<open>
  The pieces that \<^verbatim>\<open>repack\<close> cuts have the names that \<open>content\<close> knows them by, and the library reads back the dictionary
  that it has written, with the hashes that were put into it.
\<close>

definition good_repack ::
  "Config \<Rightarrow> metalib \<Rightarrow> (string \<Rightarrow> bytes option) \<Rightarrow> int \<Rightarrow> (string \<Rightarrow> bytes option) \<Rightarrow> bool" where
  "good_repack cfg lib content n f \<longleftrightarrow>
     (\<forall>ih raw mi info ps cs. f (KeyTorrent cfg ih) = Some raw \<and> Load lib raw = Inr mi \<and> UnmarshalInfo lib mi = Inr info
         \<and> map (\<lambda>h. f (KeyPiece cfg h)) (hashes_of lib info) = map Some ps \<and> cs = chunks (nat n) (concat ps) \<longrightarrow>
       length (concat ps) < 2 ^ 63 \<and> named content cs
       \<and> (\<forall>k out. new_torrent cfg lib mi info n cs k out \<longrightarrow> same_dict lib f k out
           \<and> (\<exists>info'. parsed lib out = Some info' \<and> hashes_of lib info' = map (\<lambda>c. hex_EncodeToString (sha1_Sum c)) cs)))"

text \<open>The collector needs a service that is up, and no pure v2 torrents.\<close>

definition good_gc ::
  "Config \<Rightarrow> 's s3api \<Rightarrow> 's view \<Rightarrow> ('s \<Rightarrow> bool) \<Rightarrow> metalib \<Rightarrow> (string \<Rightarrow> bytes option) \<Rightarrow> 's \<Rightarrow> bool" where
  "good_gc cfg cli objs up lib f s \<longleftrightarrow> s3_up cli objs up \<and> up s \<and> 0 < UpSem cfg \<and> UpSem cfg * 2 < 2 ^ 63
     \<and> (\<forall>k d info. prefix (PrefixTorrents cfg) k \<and> f k = Some d \<and> parsed lib d = Some info \<longrightarrow> has_v1 lib info)"

text \<open>A job works in another bucket, or in the archive's own with the same root.\<close>

definition in_place :: "Config \<Rightarrow> Config \<Rightarrow> bool" where
  "in_place c cfg \<longleftrightarrow> S3Bucket c = S3Bucket cfg \<and> S3Root c = S3Root cfg"

definition elsewhere :: "Config \<Rightarrow> Config \<Rightarrow> bool" where
  "elsewhere c cfg \<longleftrightarrow> S3Bucket c \<noteq> S3Bucket cfg"

fun orderly ::
  "'s view \<Rightarrow> ('s \<Rightarrow> bool) \<Rightarrow> Config \<Rightarrow> metalib \<Rightarrow> (string \<Rightarrow> bytes option) \<Rightarrow> ('s, 't) platform \<Rightarrow> job \<Rightarrow> 's \<Rightarrow> bool" where
  "orderly objs up cfg lib content pf (JFetch c) s \<longleftrightarrow> elsewhere c cfg \<or> in_place c cfg
     \<and> good_fetch c (newStorage (pf_s3 pf) c) lib content (pf_fetch pf) (objs s (S3Bucket cfg)) s"
| "orderly objs up cfg lib content pf (JRepack c opts) s \<longleftrightarrow> elsewhere c cfg \<or> in_place c cfg
     \<and> good_repack c lib content (rp_pieceSize opts) (objs s (S3Bucket cfg))"
| "orderly objs up cfg lib content pf (JGc c) s \<longleftrightarrow> elsewhere c cfg \<or> in_place c cfg
     \<and> sched_law (pf_sched1 pf) \<and> good_gc c (newStorage (pf_s3 pf) c) objs up lib (objs s (S3Bucket cfg)) s"
| "orderly objs up cfg lib content pf (JBench c opts) s \<longleftrightarrow> elsewhere c cfg \<or> in_place c cfg"
| "orderly objs up cfg lib content pf _ s \<longleftrightarrow> True"

lemma in_place_eq:
  assumes "in_place c cfg"
  shows "S3Bucket c = S3Bucket cfg" "KeyPiece c = KeyPiece cfg" "KeyTorrent c = KeyTorrent cfg" "bench_key c = bench_key cfg"
    "intact c = intact cfg" "torrents_stay c = torrents_stay cfg"
  using assms
  by (simp_all add: in_place_def fun_eq_iff KeyPiece_def KeyTorrent_def bench_key_def intact_def flat_def torrents_stay_def
      torrent_at_def PrefixPieces_def)

text \<open>The part of \<^verbatim>\<open>fetch\<close> that writes: the calls of the client, and the publication.\<close>

lemma fetch_tail_archive:
  fixes w3 :: "('s, 'z) samogonStorage_scheme"
  assumes laws: "s3_laws cli objs" and names: "names_law content" and i: "intact cfg lib content f"
    and w3: "objs (w_s3 w3) (S3Bucket cfg) = f" "verified cfg cli content (fe_calls env) w3" "fetching cfg objs f w3"
    and rest: "bindM (forM (fe_calls env) (run_call cfg cli)) (\<lambda>_. if \<not> fe_waited env then ThrowFmt msg as
      else PutBytes cfg cli (KeyTorrent cfg ih) raw) w3 = (r, w')"
    and pub: "parsed lib raw = Some info" "same_dict lib f (KeyTorrent cfg ih) raw"
    and waits: "fe_waited env \<longrightarrow> (\<forall>h\<in>set (hashes_of lib info). \<exists>i ps. fw_states w' i = Some ps \<and> ps_hash ps = h \<and> ps_complete ps)"
  shows "intact cfg lib content (objs (w_s3 w') (S3Bucket cfg)) \<and> torrents_stay cfg lib f (objs (w_s3 w') (S3Bucket cfg))"
proof -
  obtain q w4 where calls: "forM (fe_calls env) (run_call cfg cli) w3 = (q, w4)" by fastforce
  let ?f4 = "objs (w_s3 w4) (S3Bucket cfg)"
  have "only objs (objs (w_s3 w3)) (right_piece cfg content) w4"
    by (rule verified_writes [OF laws w3(2) calls]) (simp add: only_def)
  then have o4: "?f4 k = f k \<or> (\<exists>h. k = KeyPiece cfg h \<and> ?f4 k = content h)" for k
    unfolding only_def right_piece_def using w3(1) by metis
  have f4: "fetching cfg objs f w4"
    by (rule keepsD [OF keeps_forM [OF keeps_run_call [OF laws]] w3(3) calls])
  then have t4: "?f4 (KeyTorrent cfg ih) = f (KeyTorrent cfg ih)" and less: "f k \<noteq> None \<Longrightarrow> ?f4 k \<noteq> None" for k
    by (auto simp: fetching_def unpublished_def)
  from o4 less have "gains cfg content f ?f4" unfolding gains_def by metis
  note grown = intact_gains [OF names i this]
  show ?thesis
  proof (cases "q = Ret () \<and> fe_waited env")
    case False
    then have "w' = w4" using rest calls by (cases q) (auto simp: bindM_def ThrowFmt_run)
    with grown show ?thesis by simp
  next
    case True
    with rest calls have pb: "PutBytes cfg cli (KeyTorrent cfg ih) raw w4 = (r, w')" by (simp add: bindM_def)
    have "?f4 (KeyPiece cfg h) \<noteq> None" if "h \<in> set (hashes_of lib info)" for h
      using waits True that f4 PutBytes_fw [OF pb] unfolding fetching_def backed_def by metis
    moreover have "same_dict lib ?f4 (KeyTorrent cfg ih) raw" using pub(2) by (simp add: same_dict_def t4)
    ultimately have "intact cfg lib content (?f4(KeyTorrent cfg ih \<mapsto> raw)) \<and> torrents_stay cfg lib ?f4 (?f4(KeyTorrent cfg ih \<mapsto> raw))"
      using grown by (intro intact_publish [OF _ pub(1)] ballI) simp_all
    with grown PutBytes_law [OF laws pb] torrents_stay_trans show ?thesis by (auto simp: upd2_def)
  qed
qed

lemma fetch_keeps_archive:
  assumes laws: "s3_laws cli objs" and names: "names_law content" and f: "f = objs s (S3Bucket cfg)" and i: "intact cfg lib content f"
    and good: "good_fetch cfg cli lib content env f s" and run: "runFetch cfg cli lib env (fetch_start s) = (r, w')"
  shows "intact cfg lib content (objs (w_s3 w') (S3Bucket cfg)) \<and> torrents_stay cfg lib f (objs (w_s3 w') (S3Bucket cfg))"
proof (cases "\<exists>raw mi. fe_stdin env = Inr raw \<and> Load lib raw = Inr mi")
  case False
  then have "w' = fetch_start s" using run
    by (cases "fe_stdin env"; cases "Load lib (projr (fe_stdin env))")
      (auto simp: runFetch_def bindM_def ThrowE_run ThrowFmt_run split: if_splits)
  then show ?thesis using i by (simp add: f fetch_start_def)
next
  case True
  then obtain raw mi where inp: "Load lib raw = Inr mi" "fe_stdin env = Inr raw" by blast
  have s: "w_s3 (fetch_start s) = s" by (simp add: fetch_start_def)
  have fl: "flat cfg (objs (w_s3 (fetch_start s)) (S3Bucket cfg))" using i by (simp add: intact_def f s)
  from fetch_prologue [OF laws fl run inp refl] show ?thesis
  proof (elim disjE exE conjE)
    assume "objs (w_s3 w') = objs (w_s3 (fetch_start s))"
    then show ?thesis using i by (simp add: f s)
  next
    fix info and w3 :: "'a samogonStorage"
    assume um: "UnmarshalInfo lib mi = Inr info" and w3: "objs (w_s3 w3) = objs (w_s3 (fetch_start s))" "fw_states w3 = Map.empty"
      "fetching cfg objs (objs (w_s3 (fetch_start s)) (S3Bucket cfg)) w3"
      and rest: "bindM (forM (fe_calls env) (run_call cfg cli)) (\<lambda>_. if \<not> fe_waited env then
          ThrowFmt ''fetch: client.WaitAll returned false (torrent %s)'' [AStr (hex_EncodeToString (HashInfoBytes lib mi))]
        else PutBytes cfg cli (KeyTorrent cfg (hex_EncodeToString (HashInfoBytes lib mi))) raw) w3 = (r, w')"
    have w3': "objs (w_s3 w3) (S3Bucket cfg) = f" "verified cfg cli content (fe_calls env) w3" "fetching cfg objs f w3"
      using w3 good by (simp_all add: s f good_fetch_def)
    have p: "parsed lib raw = Some info" using inp(1) um by (simp add: parsed_def)
    show ?thesis
      by (rule fetch_tail_archive [OF laws names i w3' rest p]) (use good inp um run in \<open>fastforce simp: good_fetch_def\<close>)+
  qed
qed

lemma repack_no_source:
  assumes laws: "s3_laws cli objs" and run: "runRepack sf cfg cli lib bg ups target n w = (r, w')"
    and no: "\<nexists>ih raw mi info. extractInfohash target w = (Ret ih, w) \<and> objs (w_s3 w) (S3Bucket cfg) (KeyTorrent cfg ih) = Some raw
      \<and> Load lib raw = Inr mi \<and> UnmarshalInfo lib mi = Inr info"
  shows "objs (w_s3 w') = objs (w_s3 w)"
proof -
  obtain ri wi where e: "extractInfohash target w = (ri, wi)" by fastforce
  then have wi: "wi = w" using keepsD [OF keeps_extractInfohash [of "\<lambda>v. v = w"] refl e] by simp
  show ?thesis
  proof (cases ri)
    case (Ret ih)
    let ?w0 = "w\<lparr>rw_cache := newLRU (LRUSize cfg), rp_pending := [], rp_new := 0, rp_skip := 0\<rparr>"
    obtain q w1 where src: "repack_source cfg cli lib ih ?w0 = (q, w1)" by fastforce
    from repack_source_law [OF laws src] no e wi Ret
    have q: "\<And>v. q \<noteq> Ret v" and o: "objs (w_s3 w1) = objs (w_s3 w)" by fastforce+
    have "w' = w1" using run src e wi Ret q by (cases q) (auto simp: runRepack_def bindM_def modifyM_run)
    with o show ?thesis by simp
  qed (use run e wi in \<open>auto simp: runRepack_def bindM_def\<close>)
qed

lemma repack_keeps_archive:
  assumes laws: "s3_laws cli objs" and names: "names_law content" and f: "f = objs s (S3Bucket cfg)" and i: "intact cfg lib content f"
    and good: "good_repack cfg lib content n f" and ul: "uploads_law ups"
    and run: "runRepack sf cfg cli lib bg ups target n (repack_start s) = (r, w')"
  shows "intact cfg lib content (objs (w_s3 w') (S3Bucket cfg)) \<and> torrents_stay cfg lib f (objs (w_s3 w') (S3Bucket cfg))"
proof -
  let ?w = "repack_start s" and ?f' = "objs (w_s3 w') (S3Bucket cfg)"
  have s: "w_s3 ?w = s" by (simp add: repack_start_def)
  show ?thesis
  proof (cases "\<exists>ih raw mi info. extractInfohash target ?w = (Ret ih, ?w) \<and> f (KeyTorrent cfg ih) = Some raw
      \<and> Load lib raw = Inr mi \<and> UnmarshalInfo lib mi = Inr info")
    case False
    with repack_no_source [OF laws run] have "objs (w_s3 w') = objs s" by (simp add: s f)
    with i show ?thesis by (simp add: f)
  next
    case True
    then obtain ih raw mi info where ext: "extractInfohash target ?w = (Ret ih, ?w)" and raw: "f (KeyTorrent cfg ih) = Some raw"
      and load: "Load lib raw = Inr mi" "UnmarshalInfo lib mi = Inr info" by blast
    have ta: "torrent_at cfg lib f ih = Some info" by (simp add: torrent_at_def raw parsed_def load)
    define ps where "ps = map (\<lambda>h. the (f (KeyPiece cfg h))) (hashes_of lib info)"
    have hs: "map (\<lambda>h. f (KeyPiece cfg h)) (hashes_of lib info) = map Some ps"
      using i ta by (simp add: ps_def intact_def)
    have "content h = f (KeyPiece cfg h)" if "h \<in> set (hashes_of lib info)" for h
      using i ta that unfolding intact_def by (metis not_None_eq)
    with hs have hc: "map content (hashes_of lib info) = map Some ps" by (simp cong: map_cong)
    define cs where "cs = chunks (nat n) (concat ps)"
    from good raw load hs cs_def have len: "length (concat ps) < 2 ^ 63" and nm: "named content cs"
      and nt: "\<And>k out. new_torrent cfg lib mi info n cs k out \<Longrightarrow> same_dict lib f k out
           \<and> (\<exists>info'. parsed lib out = Some info' \<and> hashes_of lib info' = map (\<lambda>c. hex_EncodeToString (sha1_Sum c)) cs)"
      unfolding good_repack_def by blast+
    have snd: "sound_store cfg objs content (w_s3 ?w)" using i by (simp add: intact_def sound_store_def f s)
    have fw: "f = objs (w_s3 ?w) (S3Bucket cfg)" by (simp add: f s)
    from repack_outcome [OF laws snd fw ext raw load hc len cs_def nm ul run refl] obtain f1 where
      g: "gained cfg f cs f1" and out: "?f' = f1 \<or> (\<forall>c\<in>set cs. f1 (piece_key cfg c) = Some c)
        \<and> (\<exists>k out. new_torrent cfg lib mi info n cs k out \<and> ?f' = f1(k \<mapsto> out))" by blast
    have "gains cfg content f f1"
      using g nm unfolding gains_def gained_def named_def piece_key_def by (metis option.distinct(1))
    note grown = intact_gains [OF names i this]
    from out show ?thesis
    proof (elim disjE conjE exE)
      fix k out assume all: "\<forall>c\<in>set cs. f1 (piece_key cfg c) = Some c" and new: "new_torrent cfg lib mi info n cs k out"
        and f': "?f' = f1(k \<mapsto> out)"
      obtain ih' where k: "k = KeyTorrent cfg ih'" using new by (auto simp: new_torrent_def)
      have "f1 k = f k" using g by (auto simp: gained_def piece_key_def k)
      with nt [OF new] obtain info' where d: "same_dict lib f1 k out" "parsed lib out = Some info'"
        "hashes_of lib info' = map (\<lambda>c. hex_EncodeToString (sha1_Sum c)) cs" by (auto simp: same_dict_def)
      have "\<forall>h\<in>set (hashes_of lib info'). f1 (KeyPiece cfg h) \<noteq> None" using all d(3) by (auto simp: piece_key_def)
      from intact_publish [OF _ d(2) d(1) [unfolded k] this] grown torrents_stay_trans show ?thesis
        unfolding f' k by blast
    qed (use grown in simp)
  qed
qed

lemma gc_keeps_archive:
  assumes laws: "s3_laws cli objs" and names: "names_law content" and f: "f = objs s (S3Bucket cfg)" and i: "intact cfg lib content f"
    and good: "good_gc cfg cli objs up lib f s" and sched: "sched_law sched1" "sched_law sched2"
    and run: "runGc sched1 sched2 m cfg cli lib (gc_start s) = (r, w')"
  shows "intact cfg lib content (objs (w_s3 w') (S3Bucket cfg)) \<and> torrents_stay cfg lib f (objs (w_s3 w') (S3Bucket cfg))"
proof -
  have g: "s3_up cli objs up" "up s" "0 < UpSem cfg" "UpSem cfg * 2 < 2 ^ 63"
    "\<forall>k d info. prefix (PrefixTorrents cfg) k \<and> f k = Some d \<and> parsed lib d = Some info \<longrightarrow> has_v1 lib info"
    using good by (auto simp: good_gc_def)
  from gc_up [OF laws g(1) sched g(3,4,2) f g(5), of m] run
  show ?thesis by (auto intro!: intact_collected [OF names i])
qed

section \<open>Histories\<close>

text \<open>
  What happens to the service: a job runs, to whatever end, or the service itself changes (it comes up, goes down)
  with its objects as they were. After each, the next.
\<close>

datatype ('s, 't) happening =
    Job "('s, 't) platform" job
  | Weather 's

fun after :: "('s, 't) happening \<Rightarrow> 's \<Rightarrow> 's" where
  "after (Job pf j) s = snd (run_job pf j s)"
| "after (Weather s') s = s'"

fun proper ::
  "'s view \<Rightarrow> ('s \<Rightarrow> bool) \<Rightarrow> Config \<Rightarrow> metalib \<Rightarrow> (string \<Rightarrow> bytes option) \<Rightarrow> ('s, 't) happening \<Rightarrow> 's \<Rightarrow> bool" where
  "proper objs up cfg lib content (Job pf j) s \<longleftrightarrow> platform_laws pf objs \<and> pf_lib pf = lib \<and> orderly objs up cfg lib content pf j s"
| "proper objs up cfg lib content (Weather s') s \<longleftrightarrow> objs s' = objs s"

fun proper_history ::
  "'s view \<Rightarrow> ('s \<Rightarrow> bool) \<Rightarrow> Config \<Rightarrow> metalib \<Rightarrow> (string \<Rightarrow> bytes option) \<Rightarrow> ('s, 't) happening list \<Rightarrow> 's \<Rightarrow> bool" where
  "proper_history objs up cfg lib content [] s \<longleftrightarrow> True"
| "proper_history objs up cfg lib content (h # hs) s \<longleftrightarrow>
     proper objs up cfg lib content h s \<and> proper_history objs up cfg lib content hs (after h s)"

lemma unchanged_bucket:
  assumes "intact cfg lib content f" and "\<And>h. f' (KeyPiece cfg h) = f (KeyPiece cfg h)"
    and "\<And>h. f' (KeyTorrent cfg h) = f (KeyTorrent cfg h)"
  shows "intact cfg lib content f' \<and> torrents_stay cfg lib f f'"
  using intact_cong [OF assms(2,3)] assms(1) by blast

fun job_conf :: "job \<Rightarrow> Config" where
  "job_conf (JFetch c) = c" | "job_conf (JServe c) = c" | "job_conf (JGet c opts) = c" | "job_conf (JGet2 c opts) = c"
| "job_conf (JBench c opts) = c" | "job_conf (JRepack c opts) = c" | "job_conf (JGc c) = c" | "job_conf (JBot c) = c"

lemma may_leave_bucket: "may_leave j b k v \<Longrightarrow> b = S3Bucket (job_conf j)"
  by (cases j) (auto simp: adds_def bench_writes_def)

lemma orderly_in_place:
  assumes "orderly objs up cfg lib content pf j s" and "\<not> elsewhere (job_conf j) cfg" and "may_leave j b k v"
  shows "in_place (job_conf j) cfg"
  using assms by (cases j) auto

text \<open>A job that works in the archive's own bucket.\<close>

lemma job_in_place:
  assumes pl: "platform_laws pf objs" and names: "names_law content" and i: "intact c (pf_lib pf) content (objs s (S3Bucket c))"
    and good: "orderly objs up c (pf_lib pf) content pf j s" and run: "run_job pf j s = (r, s')" and c: "c = job_conf j"
  shows "intact c (pf_lib pf) content (objs s' (S3Bucket c)) \<and> torrents_stay c (pf_lib pf) (objs s (S3Bucket c)) (objs s' (S3Bucket c))"
proof -
  note changes = run_job_changes [OF pl run, of "S3Bucket c"]
  have laws: "s3_laws (newStorage (pf_s3 pf) c) objs" "sched_law (pf_sched2 pf)" "uploads_law (pf_uploads pf)"
    using pl by (simp_all add: platform_laws_def newStorage_def)
  have reads: ?thesis if "\<And>h v. \<not> may_leave j (S3Bucket c) (KeyPiece c h) v" "\<And>h v. \<not> may_leave j (S3Bucket c) (KeyTorrent c h) v"
    using changes that by (intro unchanged_bucket [OF i]) blast+
  show ?thesis
  proof (cases j)
    case (JFetch c')
    then obtain w' where "runFetch c (newStorage (pf_s3 pf) c) (pf_lib pf) (pf_fetch pf) (fetch_start s) = (r, w')" "s' = w_s3 w'"
      using run c by (auto simp: run_from_def split: prod.splits)
    with fetch_keeps_archive [OF laws(1) names refl i] good JFetch c show ?thesis by (auto simp: elsewhere_def)
  next
    case (JRepack c' opts)
    then obtain w' where "runRepack (pf_sf pf) c (newStorage (pf_s3 pf) c) (pf_lib pf) (pf_rbg pf) (pf_uploads pf)
         (rp_target opts) (rp_pieceSize opts) (repack_start s) = (r, w')" "s' = w_s3 w'"
      using run c by (auto simp: run_from_def split: prod.splits)
    with repack_keeps_archive [OF laws(1) names refl i _ laws(3)] good JRepack c show ?thesis by (auto simp: elsewhere_def)
  next
    case (JGc c')
    then obtain w' where "runGc (pf_sched1 pf) (pf_sched2 pf) (pf_cut pf) c (newStorage (pf_s3 pf) c) (pf_lib pf) (gc_start s) = (r, w')"
        "s' = w_s3 w'"
      using run c by (auto simp: run_from_def split: prod.splits)
    with gc_keeps_archive [OF laws(1) names refl i _ _ laws(2)] good JGc c show ?thesis by (auto simp: elsewhere_def)
  qed (rule reads; use bench_key_apart [symmetric] in \<open>auto simp: bench_writes_def c\<close>)+
qed

lemma orderly_place:
  assumes "in_place c cfg" and "orderly objs up cfg lib content pf j s" and "c = job_conf j"
  shows "orderly objs up c lib content pf j s"
  using assms by (cases j) (auto simp: in_place_def elsewhere_def)

lemma job_keeps_archive:
  assumes "platform_laws pf objs" and "names_law content" and "intact cfg (pf_lib pf) content (objs s (S3Bucket cfg))"
    and "orderly objs up cfg (pf_lib pf) content pf j s" and "run_job pf j s = (r, s')"
  shows "intact cfg (pf_lib pf) content (objs s' (S3Bucket cfg)) \<and> torrents_stay cfg (pf_lib pf) (objs s (S3Bucket cfg)) (objs s' (S3Bucket cfg))"
proof (cases "in_place (job_conf j) cfg")
  case True
  from job_in_place [OF assms(1,2) _ orderly_place [OF True assms(4) refl] assms(5) refl] assms(3) show ?thesis
    by (simp add: in_place_eq [OF True])
next
  case False
  then have "\<not> may_leave j (S3Bucket cfg) k v" for k v
    using may_leave_bucket orderly_in_place [OF assms(4)] unfolding elsewhere_def by metis
  with run_job_changes [OF assms(1,5), of "S3Bucket cfg"] show ?thesis by (intro unchanged_bucket [OF assms(3)]) blast+
qed

lemma keeps_history:
  assumes "names_law content" and "intact cfg lib content (objs s (S3Bucket cfg))"
    and "proper_history objs up cfg lib content hs s"
  shows "intact cfg lib content (objs (fold after hs s) (S3Bucket cfg))
    \<and> torrents_stay cfg lib (objs s (S3Bucket cfg)) (objs (fold after hs s) (S3Bucket cfg))"
  using assms(2,3)
proof (induction hs arbitrary: s)
  case (Cons h hs)
  have "intact cfg lib content (objs (after h s) (S3Bucket cfg))
      \<and> torrents_stay cfg lib (objs s (S3Bucket cfg)) (objs (after h s) (S3Bucket cfg))"
  proof (cases h)
    case (Job pf j)
    with Cons.prems job_keeps_archive [OF _ assms(1), of pf objs cfg s up j "fst (run_job pf j s)" "snd (run_job pf j s)"]
    show ?thesis by auto
  next
    case (Weather s')
    with Cons.prems show ?thesis by simp
  qed
  moreover have "proper_history objs up cfg lib content hs (after h s)" using Cons.prems by simp
  ultimately show ?case using Cons.IH [of "after h s"] torrents_stay_trans by (metis fold_simps(2))
qed simp

text \<open>
  C3: an archive stays intact. Start from an intact bucket (an empty one is) and let any sequence of jobs run, with any results
  and failures, interleaved with the service coming and going, where each job that works in this bucket
  is given what it needs (\<open>orderly\<close>). Then afterwards every piece still holds the bytes of its name, no torrent lacks a piece,
  and every torrent that was there is there with the same dictionary.
\<close>

theorem archive_intact:
  assumes "names_law content" and "intact cfg lib content (objs s (S3Bucket cfg))"
    and "proper_history objs up cfg lib content hs s"
  shows "intact cfg lib content (objs (fold after hs s) (S3Bucket cfg))
    \<and> torrents_stay cfg lib (objs s (S3Bucket cfg)) (objs (fold after hs s) (S3Bucket cfg))"
  by (rule keeps_history [OF assms])

text \<open>
  C4: what is in the archive can be read, then and later. If a torrent is in an intact bucket, then after any such history,
  for a process that starts and can reach the service, the object at the torrent's key parses to the same dictionary, and each read in any
  file of the torrent returns exactly the bytes that the hashes stand for, whatever is prefetched meanwhile as long as that leaves
  room in the cache (\<open>leaves_room\<close>: between the moment a piece comes in and the moment it is looked up, fewer prefetch
  goroutines use the cache than it has entries).
\<close>

theorem archive_reads:
  fixes v :: "('s, 'y) cworld_scheme" and hs :: "('s, 't) happening list"
  assumes "names_law content" and "intact cfg lib content (objs s (S3Bucket cfg))"
    and "proper_history objs up cfg lib content hs s"
    and "torrent_at cfg lib (objs s (S3Bucket cfg)) ih = Some info" and "map content (hashes_of lib info) = map Some ps"
    and "info_PieceLength info = int L" and "0 < L" and "uniform L ps" and "length (concat ps) < 2 ^ 63"
    and "s3_laws cli objs" and "objs (w_s3 v) (S3Bucket cfg) = objs (fold after hs s) (S3Bucket cfg)"
    and "fresh_reader cfg cli objs up bg (length ps) v" and "lies_in fe ps" and "0 \<le> off" and "off < Size fe"
  shows "torrent_at cfg lib (objs (w_s3 v) (S3Bucket cfg)) ih = Some info
    \<and> (\<exists>v'. ReadAt_with (getPiece_busy sf cfg cli bg (hashes_of lib info)) \<lparr>vf_tm = meta_of lib info ih, vf_file = fe\<rparr> plen off v
        = (Ret (slice (nat off) plen (file_data fe ps), if Size fe \<le> off + int plen then Some EOF else None), v'))"
proof -
  let ?f = "objs (fold after hs s) (S3Bucket cfg)"
  have i: "intact cfg lib content ?f" and t: "torrent_at cfg lib ?f ih = Some info"
    using keeps_history [OF assms(1-3)] assms(4) by (simp_all add: torrents_stay_def)
  have "?f (KeyPiece cfg h) = content h" if "h \<in> set (hashes_of lib info)" for h
    using i t that unfolding intact_def by (metis not_None_eq)
  then have "stored_as cfg lib ?f ih info L ps" using t assms(5-9) by (simp add: stored_as_def cong: map_cong)
  from stored_reads [OF assms(10) this [folded assms(11)] assms(12-15)] t show ?thesis by (simp add: read_answer_def assms(11))
qed

section \<open>A small history\<close>

text \<open>
  From an empty bucket: the torrent of theory \<open>Lifecycle\<close> is fetched, the service has an outage, the
  bucket is collected.
\<close>

definition pf_f :: "(mem, nat) platform" where
  "pf_f = pf0\<lparr>pf_fetch := env_f\<rparr>"

definition fetched_f :: mem where
  "fetched_f = ([((''b'', KeyTorrent cfg0 ih_f), tor_f), ((''b'', KeyPiece cfg0 (hex_EncodeToString hx)), [4, 5])], [])"

definition history_f :: "(mem, nat) happening list" where
  "history_f = [Job pf_f (JFetch cfg0), Weather (fst fetched_f, [True]), Weather fetched_f, Job pf_f (JGc cfg0)]"

lemma fetch_start_empty: "fetch_start (mem_of []) = start0"
  by (simp add: fetch_start_def start0_def)

lemma pf_f_laws: "platform_laws pf_f mem_view" "pf_lib pf_f = lib0" "newStorage (pf_s3 pf_f) cfg0 = mem_s3" "pf_fetch pf_f = env_f" "pf_sched1 pf_f = rev"
  using pf0_laws by (simp_all add: platform_laws_def pf_f_def newStorage_def) (simp_all add: pf0_def)

lemma fetched_f_run: "run_job pf_f (JFetch cfg0) (mem_of []) = (Ret (), fetched_f)"
proof -
  have "case runFetch cfg0 mem_s3 lib0 env_f start0 of (r, w') \<Rightarrow> r = Ret () \<and> w_s3 w' = fetched_f" by code_simp
  then show ?thesis by (auto simp: run_from_def pf_f_laws fetch_start_empty)
qed

lemma fetched_f_view: "mem_view fetched_f ''b'' = [KeyTorrent cfg0 ih_f \<mapsto> tor_f, KeyPiece cfg0 (hex_EncodeToString hx) \<mapsto> [4, 5]]"
  by (rule ext) (simp add: fetched_f_def mem_view_def)

lemma good_fetch_f: "good_fetch cfg0 mem_s3 lib0 content_f env_f (mem_view (mem_of []) ''b'') (mem_of [])"
proof -
  have "\<exists>i ps. fw_states (snd (runFetch cfg0 mem_s3 lib0 env_f start0)) i = Some ps \<and> ps_hash ps = hex_EncodeToString hx \<and> ps_complete ps"
    using fetch_run_f by (auto split: prod.splits option.splits)
  moreover have "fe_stdin env_f = Inr tor_f" by (simp add: env_f_def)
  moreover have "same_dict lib0 (mem_view (mem_of []) ''b'') k d" for k d by (simp add: same_dict_def mem_view_def mem_of_def)
  ultimately show ?thesis
    unfolding good_fetch_def fetch_start_empty by (simp add: env_f_checks tor_f_parses)
qed

lemma good_gc_f: "good_gc cfg0 mem_s3 mem_view mem_up lib0 (mem_view fetched_f ''b'') fetched_f"
proof -
  have "has_v1 lib0 info" if "prefix (PrefixTorrents cfg0) k" "mem_view fetched_f ''b'' k = Some d" "parsed lib0 d = Some info" for k d info
  proof -
    have "d = tor_f" using that(1,2) by (auto simp: prefix_KeyTorrent fetched_f_view split: if_splits)
    with that(3) tor_f_parses(1,2) have "info = info_f" by (simp add: parsed_def)
    then show ?thesis by (simp add: has_v1_def lib0_def info_f_def)
  qed
  then show ?thesis by (auto simp: good_gc_def mem_is_up mem_up_def fetched_f_def)
qed

lemma content_f_names: "names_law content_f"
proof -
  have "hex_EncodeToString hx \<noteq> ''''" by code_simp
  then show ?thesis using hex_no_slash by (simp add: names_law_def content_f_def)
qed

lemma history_f_proper: "proper_history mem_view mem_up cfg0 lib0 content_f history_f (mem_of [])"
proof -
  have "in_place cfg0 cfg0" by (simp add: in_place_def)
  moreover have "mem_view (fst fetched_f, [True]) = mem_view fetched_f" by (simp add: mem_view_def fun_eq_iff)
  ultimately show ?thesis
    using good_fetch_f good_gc_f sched_law_rev
    by (simp only: history_f_def proper_history.simps proper.simps orderly.simps after.simps fetched_f_run snd_conv pf_f_laws cfg0_simps) simp
qed

theorem archive_intact_witness:
  "intact cfg0 lib0 content_f (mem_view (fold after history_f (mem_of [])) ''b'')
    \<and> fold after (take 1 history_f) (mem_of []) = fetched_f"
proof -
  have "mem_view (mem_of []) ''b'' = (\<lambda>_. None)" by (simp add: mem_view_def mem_of_def fun_eq_iff)
  then have "intact cfg0 lib0 content_f (mem_view (mem_of []) (S3Bucket cfg0))" by (simp add: intact_empty)
  from archive_intact [OF content_f_names this history_f_proper] show ?thesis
    by (simp add: history_f_def fetched_f_run del: run_job.simps)
qed

text \<open>And from the bucket with the torrent on: it is read after the collection.\<close>

theorem archive_reads_witness:
  "\<exists>v'. ReadAt_with (getPiece_busy id cfg0 mem_s3 bg_f [hex_EncodeToString hx]) \<lparr>vf_tm = meta_of lib0 info_f ih_f, vf_file = fe_f\<rparr> 1 1
        (reader_of (fold after [Job pf_f (JGc cfg0)] fetched_f)) = (Ret ([5], Some EOF), v')"
proof -
  let ?hs = "[Job pf_f (JGc cfg0)]"
  have t: "torrent_at cfg0 lib0 (mem_view fetched_f (S3Bucket cfg0)) h = (if h = ih_f then Some info_f else None)" for h
    by (simp add: torrent_at_def fetched_f_view parsed_def tor_f_parses)
  have i: "intact cfg0 lib0 content_f (mem_view fetched_f (S3Bucket cfg0))"
    unfolding intact_def flat_iff t
    using content_f_names by (auto simp: tor_f_parses fetched_f_view content_f_def names_law_def split: if_splits)
  have p: "proper_history mem_view mem_up cfg0 lib0 content_f ?hs fetched_f"
    using good_gc_f sched_law_rev by (simp add: pf_f_laws in_place_def)
  have c: "map content_f (hashes_of lib0 info_f) = map Some [[4, 5]]" by (simp add: tor_f_parses content_f_def)
  have L: "info_PieceLength info_f = int 2" "(0 :: nat) < 2" "uniform 2 [[4 :: byte, 5]]" "length (concat [[4 :: byte, 5]]) < 2 ^ 63"
    by (simp_all add: info_f_def)
  have v: "mem_view (w_s3 (reader_of (fold after ?hs fetched_f))) (S3Bucket cfg0) = mem_view (fold after ?hs fetched_f) (S3Bucket cfg0)"
    "fresh_reader cfg0 mem_s3 mem_view mem_up bg_f (length [[4 :: byte, 5]]) (reader_of (fold after ?hs fetched_f))"
    by (simp_all add: reader_of_fresh)
  have "(0 :: int) \<le> 1" "1 < Size fe_f" by (simp_all add: fe_f_in)
  from archive_reads [OF content_f_names i p _ c L mem_laws v fe_f_in(1) this, of ih_f id 1] t show ?thesis
    by (auto simp: tor_f_parses fe_f_in slice_def)
qed

end
