(* ===== verification/GoFloat.thy ===== *)
theory GoFloat
  imports GoNum Complex_Main "HOL-Library.Signed_Division"
begin

text \<open>
  \<^verbatim>\<open>float64\<close> as far as the program uses it: conversion from integers, sums, products and
  quotients with rounding to the nearest value (ties to even), and \<open>%.1f\<close> and \<open>%.2f\<close> of package \<^verbatim>\<open>fmt\<close>. A finite value is the
  rational number that it is. There is one zero: the program never makes a negative one. Times are in
  nanoseconds, and \<^verbatim>\<open>time.Duration\<close> is printed as its method \<open>String\<close> does.
\<close>

section \<open>Rounding\<close>

definition rhe :: "rat \<Rightarrow> int" where
  "rhe x = (let f = \<lfloor>x\<rfloor>; r = x - of_int f in if r < 1 / 2 \<or> (r = 1 / 2 \<and> even f) then f else f + 1)"

lemma rhe_err: "\<bar>of_int (rhe x) - x\<bar> \<le> 1 / 2"
proof -
  have "of_int \<lfloor>x\<rfloor> \<le> x" "x < of_int \<lfloor>x\<rfloor> + 1" using floor_correct [of x] by simp_all
  then show ?thesis by (auto simp: rhe_def Let_def abs_le_iff field_simps)
qed

lemma rhe_of_int [simp]: "rhe (of_int n) = n"
  by (simp add: rhe_def)

lemma rhe_nonneg: "0 \<le> x \<Longrightarrow> 0 \<le> rhe x"
  by (auto simp: rhe_def Let_def)

text \<open>The length of a positive number in bits, and the exponent of the binade of a positive fraction.\<close>

function bits :: "int \<Rightarrow> int" where
  "bits n = (if n \<le> 1 then 1 else 1 + bits (n div 2))"
  by pat_completeness auto
termination
  by (relation "measure nat") auto

declare bits.simps [simp del]

lemma bits_pos: "1 \<le> bits n"
  by (induction n rule: bits.induct) (subst bits.simps, auto)

lemma bits_bounds: "0 < n \<Longrightarrow> (2 :: rat) powi (bits n - 1) \<le> of_int n \<and> of_int n < (2 :: rat) powi bits n"
proof (induction n rule: bits.induct)
  case (1 n)
  show ?case
  proof (cases "n = 1")
    case True
    then show ?thesis by (simp add: bits.simps)
  next
    case False
    with 1 have n: "1 < n" "(2 :: rat) powi (bits (n div 2) - 1) \<le> of_int (n div 2)" "of_int (n div 2) < (2 :: rat) powi bits (n div 2)"
      by auto
    let ?k = "nat (bits (n div 2))"
    have k: "bits (n div 2) = int ?k" "1 \<le> ?k" using bits_pos [of "n div 2"] by simp_all
    then have "int ?k - 1 = int (?k - 1)" by simp
    with n(2,3) k(1) have "(2 :: rat) ^ (?k - 1) \<le> of_int (n div 2)" "of_int (n div 2) < (2 :: rat) ^ ?k"
      by (metis power_int_of_nat)+
    then have "of_int (2 ^ (?k - 1)) \<le> (of_int (n div 2) :: rat)" "(of_int (n div 2) :: rat) < of_int (2 ^ ?k)" by simp_all
    then have "2 ^ (?k - 1) \<le> n div 2" "n div 2 < 2 ^ ?k" by (simp_all only: of_int_le_iff of_int_less_iff)
    moreover have "2 * (n div 2) \<le> n" "n < 2 * (n div 2) + 2" by simp_all
    ultimately have "2 * 2 ^ (?k - 1) \<le> n" "n < 2 * 2 ^ ?k" by linarith+
    moreover have "2 * 2 ^ (?k - 1) = (2 :: int) ^ ?k" using k(2) by (simp flip: power_Suc)
    ultimately have "(of_int (2 ^ ?k) :: rat) \<le> of_int n" "(of_int n :: rat) < of_int (2 ^ Suc ?k)"
      by (simp_all only: of_int_le_iff of_int_less_iff power_Suc)
    moreover have b: "bits n = int (Suc ?k)" "bits n - 1 = int ?k" using n(1) k(1) by (subst bits.simps, simp)+
    have p: "(2 :: rat) powi int m = of_int (2 ^ m)" for m by simp
    from p [of ?k] p [of "Suc ?k"] b
    have "(2 :: rat) powi (bits n - 1) = of_int (2 ^ ?k)" "(2 :: rat) powi bits n = of_int (2 ^ Suc ?k)" by (simp_all only:)
    ultimately show ?thesis by (simp only: simp_thms)
  qed
qed

definition binade :: "rat \<Rightarrow> int" where
  "binade q = (case quotient_of q of (n, d) \<Rightarrow>
     let e = bits n - bits d in if 2 powi e \<le> q then e else e - 1)"

lemma binade_bounds:
  assumes "0 < q" shows "2 powi binade q \<le> q \<and> q < 2 powi (binade q + 1)"
proof -
  obtain n d where nd: "quotient_of q = (n, d)" by fastforce
  then have d: "0 < d" and q: "q = of_int n / of_int d" by (auto dest: quotient_of_denom_pos quotient_of_div)
  then have n: "0 < n" using assms by (simp add: zero_less_divide_iff)
  let ?a = "bits n" and ?b = "bits d"
  have q1: "(2 :: rat) powi (?a - ?b - 1) < q"
  proof -
    have "(2 :: rat) powi (?a - ?b - 1) = 2 powi (?a - 1) / 2 powi ?b"
      using power_int_diff [of "2 :: rat" "?a - 1" "?b"] by (simp add: algebra_simps)
    also have "\<dots> < of_int n / of_int d"
      using bits_bounds [OF n] bits_bounds [OF d] d by (intro frac_less2) simp_all
    finally show ?thesis by (simp add: q)
  qed
  have q2: "q < 2 powi (?a - ?b + 1)"
  proof -
    have "of_int n / of_int d < (2 :: rat) powi ?a / 2 powi (?b - 1)"
      using bits_bounds [OF n] bits_bounds [OF d] n by (intro frac_less) simp_all
    also have "\<dots> = 2 powi (?a - ?b + 1)"
      using power_int_diff [of "2 :: rat" "?a" "?b - 1"] by (simp add: algebra_simps)
    finally show ?thesis by (simp add: q)
  qed
  show ?thesis using q1 q2 by (auto simp: binade_def nd Let_def)
qed

section \<open>Values and operations\<close>

text \<open>\<open>Inf True\<close> is minus infinity.\<close>

datatype f64 = Fin rat | Inf bool | NaN

text \<open>To the nearest multiple of the unit in the last place, which in the lowest binades is \<open>2\<close> to the power of \<open>- 1074\<close>.\<close>

definition fl :: "rat \<Rightarrow> f64" where
  "fl q = (if q = 0 then Fin 0
     else let u = 2 powi (max (binade \<bar>q\<bar> - 52) (- 1074)); v = of_int (rhe (q / u)) * u
       in if 2 ^ 1024 \<le> \<bar>v\<bar> then Inf (v < 0) else Fin v)"

definition f_of_int :: "int \<Rightarrow> f64" where
  "f_of_int n = fl (of_int n)"

lemma fl_0 [simp]: "fl 0 = Fin 0" "f_of_int 0 = Fin 0"
  by (simp_all add: fl_def f_of_int_def)

fun f_add :: "f64 \<Rightarrow> f64 \<Rightarrow> f64" where
  "f_add (Fin a) (Fin b) = fl (a + b)"
| "f_add (Inf s) (Fin b) = Inf s"
| "f_add (Fin a) (Inf s) = Inf s"
| "f_add (Inf s) (Inf s') = (if s = s' then Inf s else NaN)"
| "f_add _ _ = NaN"

fun f_mul :: "f64 \<Rightarrow> f64 \<Rightarrow> f64" where
  "f_mul (Fin a) (Fin b) = fl (a * b)"
| "f_mul (Inf s) (Fin b) = (if b = 0 then NaN else Inf (s \<noteq> (b < 0)))"
| "f_mul (Fin a) (Inf s) = (if a = 0 then NaN else Inf (s \<noteq> (a < 0)))"
| "f_mul (Inf s) (Inf s') = Inf (s \<noteq> s')"
| "f_mul _ _ = NaN"

fun f_div :: "f64 \<Rightarrow> f64 \<Rightarrow> f64" where
  "f_div (Fin a) (Fin b) = (if b \<noteq> 0 then fl (a / b) else if a = 0 then NaN else Inf (a < 0))"
| "f_div (Inf s) (Fin b) = Inf (s \<noteq> (b < 0))"
| "f_div (Fin a) (Inf s) = Fin 0"
| "f_div _ _ = NaN"

fun f_pos :: "f64 \<Rightarrow> bool" where
  "f_pos (Fin a) = (0 < a)"
| "f_pos (Inf s) = (\<not> s)"
| "f_pos NaN = False"

text \<open>The value is finite and off by at most the part \<open>e\<close> of the exact one.\<close>

definition close_to :: "rat \<Rightarrow> rat \<Rightarrow> f64 \<Rightarrow> bool" where
  "close_to e q x \<longleftrightarrow> (\<exists>v. x = Fin v \<and> q * (1 - e) \<le> v \<and> v \<le> q * (1 + e))"

definition eps :: rat where "eps = 1 / 2 ^ 53"

lemma fl_close:
  assumes "2 powi - 1022 \<le> q" and "q < 2 ^ 1000"
  shows "close_to eps q (fl q)"
proof -
  have pos: "0 < q" using assms(1) by (rule less_le_trans [rotated]) simp
  let ?E = "binade q" and ?u = "(2 :: rat) powi (binade q - 52)"
  note b = binade_bounds [OF pos]
  have "- 1022 < ?E + 1"
  proof (rule ccontr)
    assume "\<not> - 1022 < ?E + 1"
    then have "(2 :: rat) powi (?E + 1) \<le> 2 powi - 1022" by (intro power_int_increasing) simp_all
    with b assms(1) show False by simp
  qed
  then have m: "max (?E - 52) (- 1074) = ?E - 52" by simp
  define v where "v = of_int (rhe (q / ?u)) * ?u"
  have u: "0 < ?u" by simp
  have "\<bar>of_int (rhe (q / ?u)) - q / ?u\<bar> * ?u \<le> 1 / 2 * ?u"
    by (rule mult_right_mono [OF rhe_err]) simp
  also have "\<bar>of_int (rhe (q / ?u)) - q / ?u\<bar> * ?u = \<bar>v - q\<bar>"
    using u by (simp add: v_def abs_mult_pos' algebra_simps flip: abs_mult_pos)
  also have "1 / 2 * ?u = 2 powi ?E * eps"
    using power_int_diff [of "2 :: rat" ?E 52] by (simp add: eps_def)
  also have "\<dots> \<le> q * eps" using b by (simp add: eps_def)
  finally have err: "\<bar>v - q\<bar> \<le> q * eps" .
  have "eps \<le> 1" by (simp add: eps_def)
  then have "q * eps \<le> q * 1" by (rule mult_left_mono) (use pos in simp)
  with err have "\<bar>v\<bar> \<le> 2 * q" by linarith
  also have "\<dots> < 2 * 2 ^ 1000" using assms(2) by (rule mult_strict_left_mono) simp
  also have "(2 :: rat) * 2 ^ 1000 \<le> 2 ^ 1024" by (simp flip: power_Suc)
  finally have "fl q = Fin v" using pos by (simp add: fl_def m v_def Let_def)
  with err show ?thesis by (auto simp: close_to_def abs_le_iff algebra_simps)
qed

lemma close_finite: "close_to e q x \<Longrightarrow> \<exists>v. x = Fin v"
  by (auto simp: close_to_def)

lemma close_ends:
  assumes "close_to e q (Fin v)" shows "q * (1 - e) \<le> v" "v \<le> q * (1 + e)"
  using assms by (auto simp: close_to_def)

lemma close_fl:
  assumes "close_to a q (Fin v)" and "0 \<le> a" "a \<le> 1" and "0 \<le> q" and "2 powi - 1022 \<le> v" and "v < 2 ^ 1000"
  shows "close_to (a + 2 * eps) q (fl v)"
proof -
  have e: "0 < eps" "eps \<le> 1" by (simp_all add: eps_def)
  obtain w where w: "fl v = Fin w" "v * (1 - eps) \<le> w" "w \<le> v * (1 + eps)"
    using fl_close [OF assms(5,6)] by (auto simp: close_to_def)
  note v = close_ends [OF assms(1)]
  have "q * (1 - (a + 2 * eps)) \<le> q * ((1 - a) * (1 - eps))"
    using e mult_nonneg_nonneg [OF assms(2), of eps] by (intro mult_left_mono [OF _ assms(4)]) (simp add: algebra_simps)
  also have "\<dots> \<le> v * (1 - eps)" using v(1) e mult_right_mono [of "q * (1 - a)" v "1 - eps"] by (simp add: mult.assoc)
  finally have lo: "q * (1 - (a + 2 * eps)) \<le> w" using w(2) by simp
  have "v * (1 + eps) \<le> q * (1 + a) * (1 + eps)" using v(2) e by (intro mult_right_mono) simp_all
  also have "\<dots> \<le> q * (1 + (a + 2 * eps))"
  proof -
    have "a * eps \<le> 1 * eps" using assms(3) e by (intro mult_right_mono) simp_all
    then have "(1 + a) * (1 + eps) \<le> 1 + (a + 2 * eps)" by (simp add: algebra_simps)
    from mult_left_mono [OF this assms(4)] show ?thesis by (simp add: mult.assoc)
  qed
  finally show ?thesis using w lo by (auto simp: close_to_def)
qed

lemma close_quotient:
  assumes "close_to a p (Fin v)" and "close_to b s (Fin t)" and "0 \<le> a" "a \<le> 1" and b: "0 \<le> b" "b \<le> 1 / 2" and "0 < p" and "0 < s"
  shows "close_to (a + 4 * b) (p / s) (Fin (v / t)) \<and> 0 < t"
proof -
  note v = close_ends [OF assms(1)] and t = close_ends [OF assms(2)]
  have "0 < s * (1 - b)" "0 \<le> p * (1 - a)" using b assms(4,7,8) by simp_all
  with v(1) t(1) have t0: "0 < t" and v0: "0 \<le> v" by simp_all
  have "v \<le> p * (1 + a)" by (rule v)
  also have "\<dots> \<le> p * ((1 + (a + 4 * b)) * (1 - b))"
  proof (intro mult_left_mono)
    have "a * b \<le> 1 * b" "b * b \<le> 1 / 2 * b" using assms(4) b by (intro mult_right_mono; simp)+
    then show "1 + a \<le> (1 + (a + 4 * b)) * (1 - b)" by (simp add: algebra_simps)
  qed (use assms(7) in simp)
  also have "\<dots> = p / s * (1 + (a + 4 * b)) * (s * (1 - b))" using assms(8) by simp
  also have "\<dots> \<le> p / s * (1 + (a + 4 * b)) * t"
    using assms(3,7,8) b t(1) by (intro mult_left_mono) simp_all
  finally have hi: "v / t \<le> p / s * (1 + (a + 4 * b))" using t0 by (simp add: pos_divide_le_eq)
  have "p / s * (1 - (a + 4 * b)) * t \<le> v"
  proof (cases "0 \<le> 1 - (a + 4 * b)")
    case True
    have "p / s * (1 - (a + 4 * b)) * t \<le> p / s * (1 - (a + 4 * b)) * (s * (1 + b))"
      using t(2) True assms(7,8) by (intro mult_left_mono) simp_all
    also have "\<dots> = p * ((1 - (a + 4 * b)) * (1 + b))" using assms(8) by simp
    also have "\<dots> \<le> p * (1 - a)"
    proof (intro mult_left_mono)
      have "0 \<le> a * b" "0 \<le> b * b" using b(1) assms(3) by simp_all
      then show "(1 - (a + 4 * b)) * (1 + b) \<le> 1 - a" using b by (simp add: algebra_simps)
    qed (use assms(7) in simp)
    finally show ?thesis using v(1) by simp
  next
    case False
    then have "p / s * (1 - (a + 4 * b)) * t \<le> 0"
      using assms(7,8) t0 by (intro mult_nonpos_nonneg mult_nonneg_nonpos) simp_all
    with v0 show ?thesis by simp
  qed
  then have "p / s * (1 - (a + 4 * b)) \<le> v / t" using t0 by (simp add: pos_le_divide_eq)
  with hi t0 show ?thesis by (auto simp: close_to_def)
qed

lemma close_mono: "close_to a q x \<Longrightarrow> a \<le> b \<Longrightarrow> 0 \<le> q \<Longrightarrow> close_to b q x"
  unfolding close_to_def
  by (elim exE conjE, intro exI conjI, assumption; erule order_trans [rotated] order_trans) (auto intro!: mult_left_mono)

lemma close_add: "close_to a p (Fin v) \<Longrightarrow> close_to a q (Fin w) \<Longrightarrow> close_to a (p + q) (Fin (v + w))"
  by (auto simp: close_to_def algebra_simps)

lemma close_exact: "0 \<le> a \<Longrightarrow> 0 \<le> q \<Longrightarrow> close_to a q (Fin q)"
  by (simp add: close_to_def algebra_simps)

text \<open>What the program calculates with lies far from the ends of the range.\<close>

definition midrange :: "rat \<Rightarrow> bool" where
  "midrange q \<longleftrightarrow> 1 / 2 ^ 200 \<le> q \<and> q \<le> 2 ^ 200"

lemma midrange_close:
  assumes "midrange q" and "close_to a q (Fin v)" and "0 \<le> a" "a \<le> 1 / 2"
  shows "2 powi - 1022 \<le> v" "v < 2 ^ 1000" "0 < q"
proof -
  show q: "0 < q" using assms(1) by (auto simp: midrange_def intro: less_le_trans [rotated])
  note v = close_ends [OF assms(2)]
  have "(2 :: rat) powi - 1022 \<le> 2 powi - 201" by (rule power_int_increasing) simp_all
  also have "\<dots> = 1 / 2 ^ 200 * (1 / 2)" by (simp add: power_int_minus)
  also have "\<dots> \<le> q * (1 - a)" using assms(1,3,4) q by (intro mult_mono) (simp_all add: midrange_def)
  finally show "2 powi - 1022 \<le> v" using v(1) by simp
  have "v \<le> q * (1 + a)" by (rule v)
  also have "\<dots> \<le> 2 ^ 200 * 2" using assms(1,3,4) q by (intro mult_mono) (simp_all add: midrange_def)
  also have "\<dots> < (2 :: rat) ^ 1000" by simp
  finally show "v < 2 ^ 1000" .
qed

lemma close_round:
  assumes "midrange q" and "close_to a q (Fin v)" and "0 \<le> a" "a \<le> 1 / 2"
  shows "close_to (a + 2 * eps) q (fl v)"
  using midrange_close [OF assms] assms by (intro close_fl) simp_all

lemma close_int:
  assumes "0 \<le> n" and "n < 2 ^ 63" shows "close_to (2 * eps) (of_int n) (f_of_int n)"
proof (cases "n = 0")
  case True
  then show ?thesis by (simp add: f_of_int_def fl_def close_to_def)
next
  case False
  have "(of_int n :: rat) < of_int (2 ^ 63)" using assms(2) by (simp only: of_int_less_iff)
  with False assms(1) have "midrange (of_int n)" by (auto simp: midrange_def intro: order_trans)
  then show ?thesis
    using close_round [of "of_int n" 0] close_exact [of 0 "of_int n"] assms(1) by (simp add: f_of_int_def)
qed

lemma close_div:
  assumes "close_to a p (Fin v)" and "close_to b s (Fin t)" and "0 \<le> a" "0 \<le> b" "a + 4 * b \<le> 1 / 2" and "0 < p" "0 < s" and "midrange (p / s)"
  shows "close_to (a + 4 * b + 2 * eps) (p / s) (f_div (Fin v) (Fin t))"
proof -
  from close_quotient [OF assms(1,2,3) _ assms(4) _ assms(6,7)] assms(3-5)
  have "close_to (a + 4 * b) (p / s) (Fin (v / t))" "0 < t" by simp_all
  with close_round [OF assms(8) this(1)] assms(3-5) show ?thesis by simp
qed

section \<open>Printing\<close>

definition pad :: "nat \<Rightarrow> string \<Rightarrow> string" where
  "pad k s = replicate (k - length s) (CHR ''0'') @ s"

text \<open>\<open>n\<close> units of the last of \<open>k\<close> decimals.\<close>

definition fixed :: "nat \<Rightarrow> int \<Rightarrow> string" where
  "fixed k n = dec (n div 10 ^ k) @ ''.'' @ pad k (dec (n mod 10 ^ k))"

text \<open>The verb \<open>%.kf\<close>, for \<open>k\<close> at least 1: the exact value is rounded to \<open>k\<close> decimals, ties to even.\<close>

fun fmt_f :: "nat \<Rightarrow> f64 \<Rightarrow> string" where
  "fmt_f k (Fin q) = (if q < 0 then ''-'' else '''') @ fixed k (rhe (\<bar>q\<bar> * 10 ^ k))"
| "fmt_f k (Inf s) = (if s then ''-Inf'' else ''+Inf'')"
| "fmt_f k NaN = ''NaN''"

section \<open>Durations\<close>

text \<open>\<open>t.Sub(u)\<close> saturates; \<open>d.Seconds()\<close>; \<open>d.Round(m)\<close> for a positive \<open>m\<close>; \<open>d.String()\<close>.\<close>

definition time_Sub :: "int \<Rightarrow> int \<Rightarrow> int" where
  "time_Sub t u = max (- (2 ^ 63)) (min (2 ^ 63 - 1) (t - u))"

definition dur_Seconds :: "int \<Rightarrow> f64" where
  "dur_Seconds d = f_add (f_of_int (d sdiv 1000000000)) (f_div (f_of_int (d smod 1000000000)) (Fin 1000000000))"

definition dur_Round :: "int \<Rightarrow> int \<Rightarrow> int" where
  "dur_Round d m = (if d < 0 then
       let r = - (d smod m) in
       if r + r < m then d + r
       else let d1 = wrap64 (d - m + r) in if d1 < d then d1 else - (2 ^ 63)
     else
       let r = d smod m in
       if r + r < m then d - r
       else let d1 = wrap64 (d + m - r) in if d < d1 then d1 else 2 ^ 63 - 1)"

definition fmt_frac :: "nat \<Rightarrow> int \<Rightarrow> string" where
  "fmt_frac k u = (if u mod 10 ^ k = 0 then ''''
     else ''.'' @ rev (dropWhile (\<lambda>c. c = CHR ''0'') (rev (pad k (dec (u mod 10 ^ k))))))"

definition dur_abs :: "int \<Rightarrow> string" where
  "dur_abs u = (if u = 0 then ''0s''
     else if u < 1000 then dec u @ ''ns''
     else if u < 1000000 then dec (u div 1000) @ fmt_frac 3 u @ [CHR 0xC2, CHR 0xB5] @ ''s''
     else if u < 1000000000 then dec (u div 1000000) @ fmt_frac 6 u @ ''ms''
     else let s = u div 1000000000; m = s div 60; h = m div 60 in
       (if m = 0 then '''' else (if h = 0 then '''' else dec h @ ''h'') @ dec (m mod 60) @ ''m'')
       @ dec (s mod 60) @ fmt_frac 9 u @ ''s'')"

definition dur_String :: "int \<Rightarrow> string" where
  "dur_String d = (if d < 0 then ''-'' else '''') @ dur_abs \<bar>d\<bar>"

lemma duration_examples:
  "dur_String 1500000000 = ''1.5s''" "dur_String 3600000000000 = ''1h0m0s''" "dur_String 62003000000 = ''1m2.003s''"
  "dur_String (dur_Round 1234567890 1000000) = ''1.235s''" "dur_String 900000 = ''900'' @ [CHR 0xC2, CHR 0xB5] @ ''s''"
  by code_simp+

end
