(* ===== verification/Report.thy ===== *)
theory Report
  imports App GoFloat
begin

text \<open>
  What the long commands print while they run and when they are done: \<open>benchReporter\<close>, \<open>get2Reporter\<close>, \<open>getReporter\<close>,
  \<open>repackReporter\<close>, \<open>gcProgress\<close> and \<open>reportProgress\<close>, the last lines of \<open>runBench\<close>, \<open>runGet2\<close> and
  \<open>runGet\<close>, and the usage text. A reporter is a goroutine that waits for a tick or for the end; at a tick it loads
  the counters. Its input is the sequence of these, with the time and the values that it finds, its output the lines.
  Nothing else in the program depends on them.
\<close>

section \<open>Waiting\<close>

datatype 'v wake = Ticked int 'v | Closed

fun reporter :: "(int \<Rightarrow> 'v \<Rightarrow> string) \<Rightarrow> 'v wake list \<Rightarrow> string list" where
  "reporter line [] = []"
| "reporter line (Closed # ws) = []"
| "reporter line (Ticked now v # ws) = line now v # reporter line ws"

definition clrR :: string where "clrR = [char_of (27 :: nat)] @ ''[91m''"
definition clrG :: string where "clrG = [char_of (27 :: nat)] @ ''[92m''"
definition clrY :: string where "clrY = [char_of (27 :: nat)] @ ''[93m''"
definition clrB :: string where "clrB = [char_of (27 :: nat)] @ ''[94m''"

definition dash :: string where "dash = [CHR 0xE2, CHR 0x80, CHR 0x94]"

section \<open>Figures\<close>

text \<open>The guarded quotients that the reporters share.\<close>

definition per_second :: "int \<Rightarrow> f64 \<Rightarrow> f64" where
  "per_second n elapsed = (if f_pos elapsed then f_div (f_of_int n) elapsed else Fin 0)"

definition percent :: "int \<Rightarrow> int \<Rightarrow> f64" where
  "percent cur tot = (if 0 < tot then f_div (f_mul (Fin 100) (f_of_int cur)) (f_of_int tot) else Fin 0)"

definition avg_ms :: "int \<Rightarrow> int \<Rightarrow> f64" where
  "avg_ms latencyNs n = f_div (f_div (f_of_int latencyNs) (f_of_int n)) (Fin 1000000)"

definition mib :: "f64 \<Rightarrow> f64" where
  "mib x = f_div x (Fin 1048576)"

section \<open>The reporters\<close>

definition getLine :: "bool \<Rightarrow> string \<Rightarrow> int \<Rightarrow> int \<Rightarrow> int \<Rightarrow> int \<Rightarrow> string" where
  "getLine uc name tot start now cur =
     (let elapsed = dur_Seconds (time_Sub now start); rate = per_second cur elapsed; pct = percent cur tot in
      clr uc clrB (name @ '': '' @ fmt_d cur @ ''/'' @ fmt_d tot @ '' ('' @ fmt_f 1 pct @ ''%)  '' @ fmt_f 2 (mib rate) @ '' MiB/s''))"

definition getReporter :: "bool \<Rightarrow> int \<Rightarrow> int \<Rightarrow> int wake list \<Rightarrow> string list" where
  "getReporter uc tot start = reporter (getLine uc ''get'' tot start)"

definition repackReporter :: "bool \<Rightarrow> int \<Rightarrow> int \<Rightarrow> int wake list \<Rightarrow> string list" where
  "repackReporter uc tot start = reporter (getLine uc ''repack'' tot start)"

text \<open>The values are those of \<open>ops\<close>, \<open>totalLatencyNs\<close> and \<open>errs\<close>.\<close>

definition benchReporter :: "bool \<Rightarrow> int \<Rightarrow> int \<Rightarrow> (int \<times> int \<times> int) wake list \<Rightarrow> string list" where
  "benchReporter uc chunkSize start = reporter (\<lambda>now (curOps, lat, errs).
     let elapsed = dur_Seconds (time_Sub now start);
         rate = per_second curOps elapsed;
         mbps = mib (f_mul rate (f_of_int chunkSize));
         avgLatMs = (if 0 < curOps then avg_ms lat curOps else Fin 0) in
     clr uc clrB (''bench: ops='' @ fmt_d curOps @ '' errs='' @ fmt_d errs @ ''  '' @ fmt_f 1 rate @ '' ops/s  ''
       @ fmt_f 2 mbps @ '' MiB/s  '' @ fmt_f 1 avgLatMs @ '' ms avg-latency''))"

record get2vals =
  v_ops :: int
  v_bytes :: int
  v_latencyNs :: int
  v_inFlight :: int
  v_errs :: int

definition get2Reporter :: "bool \<Rightarrow> int \<Rightarrow> int \<Rightarrow> get2vals wake list \<Rightarrow> string list" where
  "get2Reporter uc tot start = reporter (\<lambda>now v.
     let elapsed = dur_Seconds (time_Sub now start);
         rate = per_second (v_ops v) elapsed;
         mbps = (if f_pos elapsed then mib (f_div (f_of_int (v_bytes v)) elapsed) else Fin 0);
         avgLatMs = (if 0 < v_ops v then avg_ms (v_latencyNs v) (v_ops v) else Fin 0) in
     clr uc clrB (''get2: ops='' @ fmt_d (v_ops v) @ ''/'' @ fmt_d tot @ '' errs='' @ fmt_d (v_errs v) @ ''  '' @ fmt_f 1 rate
       @ '' ops/s  '' @ fmt_f 2 mbps @ '' MiB/s  '' @ fmt_f 1 avgLatMs @ '' ms avg-latency  inflight='' @ fmt_d (v_inFlight v)))"

text \<open>The values are those of \<open>scanned\<close>, \<open>kept\<close> and \<open>deleted\<close>.\<close>

definition gcProgress :: "bool \<Rightarrow> (int \<times> int \<times> int) wake list \<Rightarrow> string list" where
  "gcProgress uc = reporter (\<lambda>_ (scanned, kept, deleted).
     clr uc clrB (''gc: scanned '' @ fmt_d scanned @ '', kept '' @ fmt_d kept @ '', deleted '' @ fmt_d deleted))"

text \<open>
  \<open>reportProgress\<close> asks the client and the two semaphores, and its rate is that since the tick before.
\<close>

record fetchvals =
  t_Length :: int
  t_BytesCompleted :: int
  t_TotalPeers :: int
  t_ActivePeers :: int
  t_PendingPeers :: int
  t_ConnectedSeeders :: int
  t_uploads :: int
  t_bufs :: int
  t_puts :: int

definition logf :: "bool \<Rightarrow> string \<Rightarrow> string \<Rightarrow> string" where
  "logf uc color text1 = clr uc color (''fetch: '' @ text1)"

definition fetchLine :: "bool \<Rightarrow> Config \<Rightarrow> f64 \<Rightarrow> fetchvals \<Rightarrow> string" where
  "fetchLine uc cfg rate v =
     logf uc clrB (fmt_d (t_BytesCompleted v) @ ''/'' @ fmt_d (t_Length v) @ '' ('' @ fmt_f 1 (percent (t_BytesCompleted v) (t_Length v))
       @ ''%) '' @ fmt_f 1 (f_div rate (Fin 1024)) @ '' KiB/s peers='' @ fmt_d (t_TotalPeers v) @ '' active='' @ fmt_d (t_ActivePeers v)
       @ '' pending='' @ fmt_d (t_PendingPeers v) @ '' seeders='' @ fmt_d (t_ConnectedSeeders v)
       @ '' uploads='' @ fmt_d (t_uploads v) @ ''/'' @ fmt_d (UpSem cfg)
       @ '' bufs='' @ fmt_d (t_bufs v) @ ''/'' @ fmt_d (InflightPieces cfg) @ '' puts='' @ fmt_d (t_puts v))"

fun progress_from :: "bool \<Rightarrow> Config \<Rightarrow> int \<Rightarrow> int \<Rightarrow> fetchvals wake list \<Rightarrow> string list" where
  "progress_from uc cfg prevBytes prevT [] = []"
| "progress_from uc cfg prevBytes prevT (Closed # ws) = []"
| "progress_from uc cfg prevBytes prevT (Ticked now v # ws) =
     (let got = t_BytesCompleted v; dt = dur_Seconds (time_Sub now prevT) in
      fetchLine uc cfg (per_second (wrap64 (got - prevBytes)) dt) v # progress_from uc cfg got now ws)"

definition reportProgress :: "bool \<Rightarrow> Config \<Rightarrow> int \<Rightarrow> fetchvals wake list \<Rightarrow> string list" where
  "reportProgress uc cfg start = progress_from uc cfg 0 start"

section \<open>The last lines\<close>

definition bench_done :: "bool \<Rightarrow> int \<Rightarrow> int \<Rightarrow> int \<Rightarrow> int \<Rightarrow> int \<Rightarrow> string" where
  "bench_done uc chunkSize elapsed ops lat errs =
     (if ops = 0 then clr uc clrR (''bench: no ops completed in '' @ dur_String elapsed @ '' (errors='' @ fmt_d errs @ '')'')
      else
        let avgRate = f_div (f_of_int ops) (dur_Seconds elapsed);
            avgMBps = mib (f_mul avgRate (f_of_int chunkSize));
            avgLatMs = avg_ms lat ops in
        clr uc clrG (''bench: done in '' @ dur_String (dur_Round elapsed 1000000) @ '' '' @ dash @ '' ops='' @ fmt_d ops
          @ '' errs='' @ fmt_d errs @ ''  '' @ fmt_f 1 avgRate @ '' ops/s  '' @ fmt_f 2 avgMBps @ '' MiB/s  ''
          @ fmt_f 1 avgLatMs @ '' ms avg-latency''))"

definition get2_done :: "bool \<Rightarrow> int \<Rightarrow> get2vals \<Rightarrow> string" where
  "get2_done uc elapsed v =
     (if v_ops v = 0 then clr uc clrR (''get2: no ops completed in '' @ dur_String elapsed @ '' (errs='' @ fmt_d (v_errs v) @ '')'')
      else
        let avgRate = f_div (f_of_int (v_ops v)) (dur_Seconds elapsed);
            avgMBps = mib (f_div (f_of_int (v_bytes v)) (dur_Seconds elapsed));
            avgLatMs = avg_ms (v_latencyNs v) (v_ops v) in
        clr uc clrG (''get2: done '' @ dash @ '' '' @ fmt_d (v_ops v) @ '' ops, '' @ fmt_d (v_bytes v) @ '' bytes in ''
          @ dur_String (dur_Round elapsed 1000000) @ ''  '' @ fmt_f 1 avgRate @ '' ops/s  '' @ fmt_f 2 avgMBps @ '' MiB/s  ''
          @ fmt_f 1 avgLatMs @ '' ms avg-latency  errs='' @ fmt_d (v_errs v)))"

definition get_done :: "bool \<Rightarrow> int \<Rightarrow> int \<Rightarrow> string" where
  "get_done uc elapsed off =
     (let rate = f_div (f_of_int off) (dur_Seconds elapsed) in
      clr uc clrG (''get: done '' @ dash @ '' '' @ fmt_d off @ '' bytes in '' @ dur_String (dur_Round elapsed 1000000)
        @ ''  '' @ fmt_f 2 (mib rate) @ '' MiB/s''))"

definition gc_done :: "bool \<Rightarrow> int \<Rightarrow> int \<Rightarrow> int \<Rightarrow> int \<Rightarrow> string" where
  "gc_done uc elapsed scanned kept deleted =
     clr uc clrG (''gc: done '' @ dash @ '' scanned '' @ fmt_d scanned @ '', kept '' @ fmt_d kept @ '', deleted '' @ fmt_d deleted
       @ '' in '' @ dur_String (dur_Round elapsed 1000000))"

section \<open>Lines and ticks\<close>

lemma reporter_lines:
  "reporter line ws = map (\<lambda>w. case w of Ticked now v \<Rightarrow> line now v | Closed \<Rightarrow> [])
     (takeWhile (\<lambda>w. w \<noteq> Closed) ws)"
  by (induction line ws rule: reporter.induct) simp_all

text \<open>So each line of a reporter stands for one tick before the end, and is made from what was found then.\<close>

lemma reporter_tick: "l \<in> set (reporter line ws) \<Longrightarrow> \<exists>now v. Ticked now v \<in> set ws \<and> l = line now v"
  by (induction line ws rule: reporter.induct) auto

section \<open>The usage text\<close>

definition usage_lines :: "string list" where
  "usage_lines = [
     ''usage: samogon <subcommand> [flags]'',
     '''',
     ''Subcommands:'',
     ''  fetch       one-shot torrent downloader; reads .torrent bytes'',
     ''              from stdin, writes pieces to S3 as'',
     ''              torrents/pieces/<hash> and the .torrent itself as'',
     ''              torrents/torrents/<infohash>'',
     ''  serve       SFTP daemon streaming from S3-backed CAS'',
     ''  get         local download of a single file '' @ dash @ '' same Storage/LRU/'',
     ''              virtualFile chain as serve, no SFTP'',
     ''  get2        raw-read benchmark: grabs every piece of a file in'',
     ''              arbitrary order across N workers, no cache or disk '' @ dash,
     ''              isolates minio/network from the get pipeline'',
     ''  bench       PutObject throughput test '' @ dash @ '' N goroutines spam fixed-'',
     ''              size chunks at the endpoint, reports ops/s + MiB/s'',
     ''  repack      stream an existing torrent's pieces through the CAS,'',
     ''              re-slice into bigger (or smaller) pieces of'',
     ''              --piece-size, write new pieces + new .torrent under'',
     ''              its fresh infohash. Source remains intact.'',
     ''  gc          drop unreferenced pieces '' @ dash @ '' load every .torrent under'',
     ''              <root>/torrents/, union their piece hashes, delete'',
     ''              every blob under <root>/pieces/ that's not in the union.'',
     ''  bot         Telegram bot front-end for fetch '' @ dash @ '' accepts .torrent'',
     ''              files from an allow-listed set of users and pipes each'',
     ''              into gorn ignite -- samogon fetch'',
     '''',
     ''Env (shared):'',
     ''  AWS_ACCESS_KEY_ID, AWS_SECRET_ACCESS_KEY,'',
     ''  S3_ENDPOINT, S3_BUCKET, SAMOGON_S3_ROOT'',
     ''Env (bot):'',
     ''  TG_BOT_TOKEN, TG_ALLOW_USERS'',
     '''',
     ''Pass --help to a subcommand for its flags.''
]"

definition usage :: string where
  "usage = concat (map (\<lambda>l. l @ [CHR 0x0A]) usage_lines)"

text \<open>It explains every subcommand that \<open>main\<close> knows.\<close>

lemma usage_complete: "\<forall>c\<in>set commands. \<exists>l\<in>set usage_lines. prefix (''  '' @ c @ '' '') l"
  by code_simp

section \<open>Accuracy\<close>

text \<open>A figure that is close to the exact one is printed as the nearest decimal, or the one next to it.\<close>

lemma printed:
  assumes "close_to a x y" and "0 \<le> x" and "0 \<le> a" "a \<le> 1"
  shows "\<exists>n. fmt_f k y = fixed k n \<and> 0 \<le> n \<and> \<bar>of_int n / 10 ^ k - x\<bar> \<le> 1 / (2 * 10 ^ k) + a * x"
proof -
  obtain v where y: "y = Fin v" "x * (1 - a) \<le> v" "v \<le> x * (1 + a)" using assms(1) by (auto simp: close_to_def)
  have "0 \<le> x * (1 - a)" using assms(2,4) by simp
  with y(2) have v: "0 \<le> v" by simp
  let ?n = "rhe (v * 10 ^ k)" and ?p = "(10 :: rat) ^ k"
  have "\<bar>of_int ?n - v * ?p\<bar> / ?p \<le> 1 / 2 / ?p" by (rule divide_right_mono [OF rhe_err]) simp
  also have "\<bar>of_int ?n - v * ?p\<bar> / ?p = \<bar>(of_int ?n - v * ?p) / ?p\<bar>" by (simp add: abs_divide)
  also have "(of_int ?n - v * ?p) / ?p = of_int ?n / ?p - v" by (simp add: diff_divide_distrib)
  finally have "\<bar>of_int ?n / ?p - v\<bar> \<le> 1 / (2 * ?p)" by simp
  moreover have "\<bar>v - x\<bar> \<le> a * x" using y(2,3) by (simp add: abs_le_iff algebra_simps)
  ultimately have "\<bar>of_int ?n / ?p - x\<bar> \<le> 1 / (2 * ?p) + a * x" by linarith
  moreover have "fmt_f k y = fixed k ?n" using v by (simp add: y(1))
  ultimately show ?thesis using rhe_nonneg v by (intro exI [of _ ?n]) simp
qed

lemma close_FinE:
  assumes "close_to a q x" obtains v where "x = Fin v" "close_to a q (Fin v)"
  using assms by (auto simp: close_to_def)

lemma midrange_ratio:
  fixes p s :: int
  assumes "0 < p" "p < 2 ^ 100" "0 < s" "s < 2 ^ 100"
  shows "midrange (of_int p / of_int s)"
proof -
  have p: "(1 :: rat) \<le> of_int p" "of_int p < (of_int (2 ^ 100) :: rat)" using assms(1) by simp (simp only: assms(2) of_int_less_iff)
  have s: "(1 :: rat) \<le> of_int s" "of_int s < (of_int (2 ^ 100) :: rat)" using assms(3) by simp (simp only: assms(4) of_int_less_iff)
  have "1 / (2 :: rat) ^ 200 \<le> 1 / of_int (2 ^ 100)" by simp
  also have "\<dots> \<le> of_int p / of_int s" using p s by (intro frac_le) simp_all
  finally have lo: "1 / (2 :: rat) ^ 200 \<le> of_int p / of_int s" .
  have "of_int p / of_int s \<le> (of_int (2 ^ 100) :: rat) / 1" using p s by (intro frac_le) simp_all
  also have "\<dots> \<le> 2 ^ 200" by simp
  finally show ?thesis using lo by (simp add: midrange_def)
qed

lemma close_percent:
  assumes "0 < cur" "cur \<le> tot" "tot < 2 ^ 63"
  shows "close_to (14 * eps) (100 * of_int cur / of_int tot) (percent cur tot)"
proof -
  have e: "0 < eps" "eps \<le> 1 / 100" by (simp_all add: eps_def)
  obtain c where c: "f_of_int cur = Fin c" "close_to (2 * eps) (of_int cur) (Fin c)"
    using close_int [of cur] assms by (auto elim: close_FinE)
  obtain t where t: "f_of_int tot = Fin t" "close_to (2 * eps) (of_int tot) (Fin t)"
    using close_int [of tot] assms by (auto elim: close_FinE)
  have "close_to (2 * eps) (100 * of_int cur) (Fin (100 * c))" using c(2) by (auto simp: close_to_def algebra_simps)
  moreover have "midrange (100 * of_int cur)" using midrange_ratio [of "100 * cur" 1] assms by simp
  ultimately have "close_to (4 * eps) (100 * of_int cur) (fl (100 * c))"
    using close_round [of "100 * of_int cur" "2 * eps"] e by simp
  then obtain m where m: "fl (100 * c) = Fin m" "close_to (4 * eps) (100 * of_int cur) (Fin m)" by (rule close_FinE)
  have "midrange (100 * of_int cur / of_int tot)" using midrange_ratio [of "100 * cur" tot] assms by simp
  from close_div [OF m(2) t(2) _ _ _ _ _ this] e assms show ?thesis by (simp add: percent_def c(1) t(1) m(1))
qed

lemma close_Seconds:
  assumes "0 < d" "d < 2 ^ 63"
  shows "close_to (6 * eps) (of_int d / 1000000000) (dur_Seconds d)"
proof -
  have e: "0 < eps" "eps \<le> 1 / 100" by (simp_all add: eps_def)
  let ?s = "d div 1000000000" and ?n = "d mod 1000000000"
  have "0 \<le> ?s" "0 \<le> ?n" "?n < 1000000000" "?s * 1000000000 + ?n = d" using assms by (simp_all add: pos_imp_zdiv_nonneg_iff)
  then have sn: "0 \<le> ?s" "?s < 2 ^ 63" "0 \<le> ?n" "?n < 2 ^ 63" using assms by linarith+
  obtain v where v: "f_of_int ?s = Fin v" "close_to (2 * eps) (of_int ?s) (Fin v)" using close_int [OF sn(1,2)] by (rule close_FinE)
  obtain w where w: "f_of_int ?n = Fin w" "close_to (2 * eps) (of_int ?n) (Fin w)" using close_int [OF sn(3,4)] by (rule close_FinE)
  have "close_to (4 * eps) (of_int ?n / 1000000000) (f_div (Fin w) (Fin 1000000000))"
  proof (cases "?n = 0")
    case True
    then have "w = 0" using w(2) by (simp add: close_to_def)
    then show ?thesis by (simp add: True fl_def close_to_def)
  next
    case False
    then have "midrange (of_int ?n / 1000000000)" using midrange_ratio [of ?n 1000000000] sn(3) by (simp add: order.strict_trans [OF pos_mod_bound])
    from close_div [OF w(2) close_exact [of 0 1000000000] _ _ _ _ _ this] e False sn(3) show ?thesis by simp
  qed
  then obtain u where u: "f_div (Fin w) (Fin 1000000000) = Fin u" "close_to (4 * eps) (of_int ?n / 1000000000) (Fin u)" by (rule close_FinE)
  have "close_to (4 * eps) (of_int ?s) (Fin v)" using close_mono [OF v(2)] e sn(1) by simp
  from close_add [OF this u(2)] have "close_to (4 * eps) (of_int ?s + of_int ?n / 1000000000) (Fin (v + u))" .
  moreover have "of_int ?s + of_int ?n / (1000000000 :: rat) = of_int d / 1000000000"
  proof -
    have "of_int (?s * 1000000000 + ?n) = (of_int d :: rat)" by simp
    then have "of_int ?s * 1000000000 + of_int ?n = (of_int d :: rat)" by (simp only: of_int_add of_int_mult of_int_numeral)
    then show ?thesis by linarith
  qed
  moreover have "midrange (of_int d / 1000000000)" using midrange_ratio [of d 1000000000] assms by simp
  ultimately have "close_to (6 * eps) (of_int d / 1000000000) (fl (v + u))"
    using close_round [of "of_int d / 1000000000" "4 * eps" "v + u"] e by simp
  moreover have "d sdiv 1000000000 = ?s" "d smod 1000000000 = ?n"
    using assms by (simp_all add: signed_divide_int_def signed_modulo_int_def minus_div_mult_eq_mod)
  ultimately show ?thesis by (simp add: dur_Seconds_def v(1) w(1) u(1) [simplified])
qed

lemma close_rate:
  assumes "0 < cur" "cur < 2 ^ 63" and "0 < d" "d < 2 ^ 63"
  shows "close_to (30 * eps) (of_int cur * 1000000000 / (1048576 * of_int d)) (mib (per_second cur (dur_Seconds d)))"
proof -
  have e: "0 < eps" "eps \<le> 1 / 100" by (simp_all add: eps_def)
  let ?q = "of_int d / 1000000000 :: rat" and ?r = "of_int cur / (of_int d / 1000000000) :: rat"
  obtain c where c: "f_of_int cur = Fin c" "close_to (2 * eps) (of_int cur) (Fin c)"
    using close_int [of cur] assms by (auto elim: close_FinE)
  obtain t where t: "dur_Seconds d = Fin t" "close_to (6 * eps) ?q (Fin t)" using close_Seconds [OF assms(3,4)] by (rule close_FinE)
  have q: "0 < ?q" using assms(3) by simp
  have "0 < ?q * (1 - 6 * eps)" by (rule mult_pos_pos [OF q]) (use e in simp)
  then have t0: "0 < t" using close_ends(1) [OF t(2)] by (rule less_le_trans)
  have "midrange ?r" using midrange_ratio [of "cur * 1000000000" d] assms by simp
  from close_div [OF c(2) t(2) _ _ _ _ q this] e assms(1)
  have "close_to (28 * eps) ?r (f_div (Fin c) (Fin t))" by simp
  then obtain r where r: "f_div (Fin c) (Fin t) = Fin r" "close_to (28 * eps) ?r (Fin r)" by (rule close_FinE)
  have "?r / 1048576 = of_int (cur * 1000000000) / of_int (d * 1048576)" by simp
  then have m: "midrange (?r / 1048576)" using midrange_ratio [of "cur * 1000000000" "d * 1048576"] assms by simp
  have "0 < ?r" using assms(1,3) by simp
  from close_div [OF r(2) close_exact [of 0 1048576] _ _ _ this _ m] e
  have "close_to (30 * eps) (?r / 1048576) (f_div (Fin r) (Fin 1048576))" by simp
  moreover have "fl (c / t) = Fin r" using r(1) t0 by simp
  ultimately show ?thesis using t0 by (simp add: mib_def per_second_def c(1) t(1) mult.commute)
qed

text \<open>
  C40: the progress line is accurate. Whatever the rounding of the floating-point steps adds up to: with at most \<open>tot\<close> bytes done some time after the
  start, the percentage is a number from 0.0 to 100.0 and off by no more than its last digit's rounding and
  \<open>10\<close> to the power of \<open>- 12\<close>, and the rate in MiB per second by no more than its last digit's rounding and one part in
  \<open>2\<close> to the power of 48; neither is ever \<open>NaN\<close> or infinite.
\<close>

theorem progress_line:
  fixes x :: rat
  assumes "0 \<le> cur" "cur \<le> tot" "0 < tot" "tot < 2 ^ 63" and "start < now" "now - start < 2 ^ 63"
    and x: "x = of_int cur * 1000000000 / (1048576 * of_int (now - start))"
  shows "\<exists>p m. getLine uc name tot start now cur = clr uc clrB (name @ '': '' @ fmt_d cur @ ''/'' @ fmt_d tot
        @ '' ('' @ fixed 1 p @ ''%)  '' @ fixed 2 m @ '' MiB/s'')
    \<and> 0 \<le> p \<and> p \<le> 1000 \<and> \<bar>(of_int p :: rat) / 10 - 100 * of_int cur / of_int tot\<bar> \<le> 1 / 20 + 1 / 10 ^ 12
    \<and> 0 \<le> m \<and> \<bar>of_int m / 100 - x\<bar> \<le> 1 / 200 + x / 2 ^ 48"
proof -
  have sub: "time_Sub now start = now - start" using assms(5,6) by (simp add: time_Sub_def)
  let ?pct = "100 * of_int cur / of_int tot :: rat"
  have pct: "0 \<le> ?pct" "?pct \<le> 100" using assms(1-3) by (simp_all add: divide_le_eq)
  have x0: "0 \<le> x" unfolding x using assms(1,5) by (intro divide_nonneg_nonneg) simp_all
  have cl: "close_to (14 * eps) ?pct (percent cur tot) \<and> close_to (30 * eps) x (mib (per_second cur (dur_Seconds (now - start))))"
  proof (cases "cur = 0")
    case True
    obtain t where t: "dur_Seconds (now - start) = Fin t" using close_Seconds [of "now - start"] assms(5,6) by (auto elim: close_FinE)
    obtain n where n: "f_of_int tot = Fin n" "close_to (2 * eps) (of_int tot) (Fin n)"
      using close_int [of tot] assms by (auto elim: close_FinE)
    have "0 < of_int tot * (1 - 2 * eps)" using assms(3) by (simp add: eps_def)
    with close_ends(1) [OF n(2)] have "n \<noteq> 0" by auto
    with True show ?thesis using assms(3)
      by (simp add: percent_def per_second_def mib_def x t n(1) close_to_def)
  next
    case False
    then show ?thesis using close_percent [of cur tot] close_rate [of cur "now - start"] assms by simp
  qed
  have e: "0 \<le> 14 * eps" "14 * eps \<le> 1" "0 \<le> 30 * eps" "30 * eps \<le> 1" by (simp_all add: eps_def)
  from printed [OF cl [THEN conjunct1] pct(1) e(1,2), of 1] obtain p where
    p: "fmt_f 1 (percent cur tot) = fixed 1 p" "0 \<le> p" "\<bar>of_int p / 10 ^ 1 - ?pct\<bar> \<le> 1 / (2 * 10 ^ 1) + 14 * eps * ?pct" by blast
  from printed [OF cl [THEN conjunct2] x0 e(3,4), of 2] obtain m where
    m: "fmt_f 2 (mib (per_second cur (dur_Seconds (now - start)))) = fixed 2 m" "0 \<le> m" "\<bar>of_int m / 10 ^ 2 - x\<bar> \<le> 1 / (2 * 10 ^ 2) + 30 * eps * x" by blast
  have "14 * eps * ?pct \<le> 14 * eps * 100" by (rule mult_left_mono [OF pct(2)]) (simp add: eps_def)
  also have "\<dots> \<le> 1 / 10 ^ 12" by (simp add: eps_def)
  finally have pe: "\<bar>of_int p / 10 - ?pct\<bar> \<le> 1 / 20 + 1 / 10 ^ 12" using p(3) by simp
  have "30 * eps * x \<le> 1 / 2 ^ 48 * x" by (rule mult_right_mono [OF _ x0]) (simp add: eps_def)
  with m(3) have me: "\<bar>of_int m / 100 - x\<bar> \<le> 1 / 200 + x / 2 ^ 48" by simp
  have "(1 :: rat) / 10 ^ 12 < 1 / 100" by simp
  with pe pct(2) have "(of_int p :: rat) < of_int 1001" unfolding of_int_numeral by linarith
  then have "p \<le> 1000" by (simp only: of_int_less_iff)
  with p(2) m(2) pe me show ?thesis
    by (intro exI [of _ p] exI [of _ m]) (simp only: getLine_def sub Let_def p(1) m(1) simp_thms)
qed

theorem progress_line_witness:
  "getLine False ''get'' 8 0 2000000000 4 = ''get: 4/8 (50.0%)  0.00 MiB/s''"
proof -
  have "(0 :: int) \<le> 4" "(4 :: int) \<le> 8" "(0 :: int) < 8" "(8 :: int) < 2 ^ 63" "(0 :: int) < 2000000000" "(2000000000 :: int) - 0 < 2 ^ 63"
    by simp_all
  from progress_line [OF this refl, of False "''get''"] obtain p m where
    l: "getLine False ''get'' 8 0 2000000000 4 = clr False clrB (''get'' @ '': '' @ fmt_d 4 @ ''/'' @ fmt_d 8
        @ '' ('' @ fixed 1 p @ ''%)  '' @ fixed 2 m @ '' MiB/s'')"
    and p: "\<bar>(of_int p :: rat) / 10 - 50\<bar> \<le> 1 / 20 + 1 / 10 ^ 12" "0 \<le> m" "\<bar>(of_int m :: rat) / 100 - 1 / 524288\<bar> \<le> 1 / 200 + 1 / 524288 / 2 ^ 48"
    by auto
  have "(1 :: rat) / 10 ^ 12 < 1 / 100" "(1 :: rat) / 524288 / 2 ^ 48 < 1 / 1000" by simp_all
  with p have "(of_int 499 :: rat) < of_int p" "of_int p < (of_int 501 :: rat)" "of_int m < (of_int 1 :: rat)"
    unfolding of_int_numeral of_int_1 by linarith+
  then have "499 < p" "p < 501" "m < 1" by (simp_all only: of_int_less_iff)
  with p(2) have "p = 500" "m = 0" by simp_all
  moreover have "fixed 1 500 = ''50.0''" "fixed 2 0 = ''0.00''" "fmt_d 4 = ''4''" "fmt_d 8 = ''8''" by code_simp+
  ultimately show ?thesis using l by (simp add: clr_def)
qed

end
