(* ===== verification/Spec2Isabelle.thy ===== *)
theory Spec2Isabelle
  imports Sftp Gc Slots Repack Args Get2 Serve Bench Bot App Flight Resume Archive Report
begin

text \<open>
  A verification development for \<^verbatim>\<open>samogon\<close>. The program keeps torrents in an S3 bucket: a torrent
  is an object \<^verbatim>\<open>root/torrents/infohash\<close>, each of its pieces an object \<^verbatim>\<open>root/pieces/sha1\<close> that
  torrents may share, and it serves the files of the torrents over SFTP, reading the pieces on demand.

  \<^bold>\<open>The program and its theories.\<close> Everything below is one model: a later theory calls the definitions of the
  earlier ones in the way the code calls its functions, and nothing is modelled twice.

  \<^item> \<^verbatim>\<open>throw.go\<close> is theory \<open>Throw\<close>. A piece of code is a function from its state to an outcome (a value, a panic or
    blocking for ever) and the state it leaves. A panic carries an \<open>Exception\<close>, a run-time error or any
    other value, and \<open>Try\<close> recovers only the first, as the code does.
  \<^item> The functions of Go's library that the code computes with are defined in \<open>Prelude\<close> (64-bit integers, slices), \<open>GoStd\<close>
    (\<^verbatim>\<open>strings\<close>, \<^verbatim>\<open>path\<close>, \<^verbatim>\<open>hex\<close>), \<open>GoText\<close>, \<open>GoNum\<close> (decimal numbers), \<open>GoFloat\<close> (\<^verbatim>\<open>float64\<close> in round-half-even, durations), \<open>Flags\<close>
    (package \<^verbatim>\<open>flag\<close>) and \<open>Sha1\<close>.
  \<^item> \<^verbatim>\<open>config.go\<close> is \<open>Config\<close>; the eight functions \<open>parse...Args\<close> of all the files are \<open>Args\<close>.
  \<^item> \<^verbatim>\<open>cache.go\<close> is \<open>Cache\<close>: the linked list of nodes, the index and the capacity of the LRU.
  \<^item> \<^verbatim>\<open>storage.go\<close> is \<open>Storage\<close>: every operation over the S3 client, which is a record of functions on a state of
    any type. \<open>newStorage\<close> itself, with what it asks of the SDK, is in \<open>App\<close>.
  \<^item> \<^verbatim>\<open>meta.go\<close> is \<open>Meta\<close>: parsing a torrent into a file table, and the catalogue \<open>byHash\<close>, \<open>byName\<close> under reloads.
    \<open>Catalogue\<close> says where its entries come from. The torrent parser is the record of \<open>Metainfo\<close>.
  \<^item> \<^verbatim>\<open>sftp.go\<close> has three theories: \<open>Reader\<close> (\<open>ReadAt\<close> and \<open>getPiece\<close>, alone and among prefetches), \<open>Flight\<close>
    (\<open>getPiece\<close> with all its goroutines interleaved, in any number of sessions) and \<open>Sftp\<close> (paths, listings, attributes and the handlers).
  \<^item> \<^verbatim>\<open>fetch.go\<close> has two: \<open>Fetch\<close> (the storage backend of the BitTorrent client and \<open>runFetch\<close>) and \<open>Slots\<close> (the same calls as
    interleaved steps of many goroutines over the two semaphores).
  \<^item> \<^verbatim>\<open>gc.go\<close> has two: \<open>Pmap\<close> (the worker pool) and \<open>Gc\<close> (mark and sweep).
  \<^item> \<^verbatim>\<open>repack.go\<close> has two: \<open>PieceStream\<close> (a torrent as a reader) and \<open>Repack\<close> (the cut and the publication).
  \<^item> \<^verbatim>\<open>get.go\<close>, \<^verbatim>\<open>get2.go\<close>, \<^verbatim>\<open>serve.go\<close>, \<^verbatim>\<open>bench.go\<close>, \<^verbatim>\<open>bot.go\<close> are \<open>Get\<close>, \<open>Get2\<close>, \<open>Serve\<close>, \<open>Bench\<close>, \<open>Bot\<close>.
  \<^item> \<^verbatim>\<open>main.go\<close> and \<^verbatim>\<open>colors.go\<close> are \<open>App\<close>: the dispatch over all the subcommands.
  \<^item> The progress reporters of all the files and the usage text are \<open>Report\<close>.
  \<^item> \<open>Effects\<close>, \<open>Lifecycle\<close>, \<open>Resume\<close> and \<open>Archive\<close> hold no code of their own: what each subcommand can change in the
    bucket, how the subcommands fit together, a fetch that goes on where another one stopped, and whole histories of runs.
    \<open>Steps\<close> holds the contracts of step relations. \<open>Testbed\<close> is the in-memory service at which witnesses evaluate the
    definitions.

  \<^bold>\<open>State.\<close> The record \<open>world\<close> is what every subcommand shares, the service and the count of puts; processes extend it
  with their own: \<open>cworld\<close> by the cache and the prefetches that were started, \<open>mworld\<close> by the two maps of the catalogue,
  \<open>samogonStorage\<close> by the piece states of a fetch, and \<open>gworld\<close>, \<open>rworld\<close>, \<open>gtworld\<close>, \<open>g2world\<close>, \<open>benchworld\<close> by the variables of the
  commands. So an operation of the store, stated once for any extension, is used by all of them. A Go \<open>int\<close> or
  \<open>int64\<close> is an \<open>int\<close> with \<open>wrap64\<close> where the code calculates, and division truncates.
\<close>

text \<open>
  \<^bold>\<open>Interfaces.\<close> The contracts between components are locales. \<open>piece_cache\<close> (theory \<open>Cache\<close>) is what readers need of a cache, \<open>lasting_cache\<close> adds
  that an entry outlives as many operations on other keys as there is room for, and the LRU is an interpretation of both. \<open>blob_store\<close> (theory \<open>Storage\<close>) is what the commands need of the store, and \<open>Stat\<close>,
  \<open>Cat\<close>, \<open>PutBytes\<close> and \<open>Delete\<close> over a service with the laws of S3 are one. \<open>piece_source\<close> and \<open>live_source\<close>
  (theory \<open>Reader\<close>) are a function that delivers pieces, right ones and, on a service that is up, all of them; \<open>getPiece\<close>
  is one, and the correctness of the read loop of \<open>ReadAt\<close> is proved from the contract. \<open>exact_source\<close> and
  \<open>exact_live\<close> (theory \<open>PieceStream\<close>) extend them for the stream of \<^verbatim>\<open>repack\<close>, whose \<open>fetch\<close> is one.
  \<open>kept_by_steps\<close>, \<open>works_off\<close> and \<open>runs_to_goal\<close> (theory \<open>Steps\<close>) say of a step relation that it keeps an invariant, that
  every step uses up work, and that it can stop only at its goal; the worker pool, the semaphores, the sessions, the bot
  and the concurrent reads are interpretations. The rules of \<open>Throw\<close> for \<open>keeps\<close>, \<open>returns\<close> and \<open>catchable\<close>, one for
  each way to compose programs, carry the same three questions through sequential code.

  \<^bold>\<open>What is proved.\<close>
  \<^item> Reading: \<open>ReadAt\<close> never returns a wrong byte whatever the service does, and returns exactly the slice asked for when the service is
    up and the prefetches leave room in the cache; no read goes wrong in any interleaving of reads and prefetches of any number of
    sessions; a burst of reads for which the cache has room is always answered.
  \<^item> Garbage collection: nothing that a loaded torrent needs is deleted, whatever fails and wherever the run
    ends; with the service up exactly the referenced pieces stay.
  \<^item> Fetch and repack: a torrent appears in the bucket only after its pieces; the bytes the client delivered are the bytes read;
    memory and uploads stay within the configured slots in every interleaving.
  \<^item> Composition (\<open>Lifecycle\<close>): what was fetched, repacked, or kept by a collection is read back by a later process
    byte for byte.
  \<^item> A second fetch (\<open>Resume\<close>): what an earlier one uploaded is not downloaded or stored again.
  \<^item> Histories (\<open>Archive\<close>): after any orderly sequence of subcommands, failures included, every torrent in the bucket has
    all its pieces and none was lost, and a reader that starts then gets the bytes.
  \<^item> Progress (\<open>Report\<close>): the figures of a line are the real ratios up to a relative error of a few roundings.
  \<^item> Catalogue and handlers: the invariant of the two maps, the exact outcome of a reload, that listing, attributes and opening
    agree with the file table, and that no path leads out of the catalogue.
  \<^item> Command lines (\<open>Args\<close>): what each flag of each command sets, and exactly which lines are refused.
  \<^item> Serve: who gets in and to what; a daemon survives failures of the service and never writes to the bucket.
  \<^item> Bot: only allowed senders start a job, with exactly the arguments of their message, and each message gets one answer.
  \<^item> The whole program (\<open>App\<close>): which objects a command line can change at all, and how each command line ends.
  \<^item> Where the code falls short of what it means to do, a theorem says how: among them \<open>gc_skip_deletes\<close>,
    \<open>ReadAt_store_error\<close>, \<open>joined_failure\<close>, \<open>burst_needs_room\<close>, \<open>read_evicted\<close>, \<open>fetch_evicted\<close>, \<open>Reload_v2_escapes\<close>, \<open>uniqueName_clash_hides\<close>, \<open>resolve_empty_file\<close>.

  \<^bold>\<open>Parameters and their laws.\<close> The S3 service obeys \<open>s3_laws\<close>: an operation that succeeds has its
  effect, one that fails may have had it or not, and nothing else changes; \<open>s3_up\<close> says that calls succeed. The
  torrent library, the SSH library, Telegram, the disk and the clock are records of functions. A BitTorrent client is the
  sequence of its calls of the storage backend. Sorting functions obey the law of \<^verbatim>\<open>sort.Slice\<close>, and the order of map
  iteration is an argument.

  \<^bold>\<open>Concurrency.\<close> Where interleaving is what matters, goroutines are step relations (\<open>pool_step\<close>, \<open>fstep\<close>, \<open>rd_step\<close>,
  \<open>sess_step\<close>, \<open>bot_step\<close>) with invariants by rule induction. Where a command waits for its goroutines, it is a
  function of a schedule, and the theorems hold for every schedule. \<open>pmap_pool\<close> says that each run of the pool is
  covered by a schedule, for callbacks that take effect in one step, and \<open>getPiece_is_a_run\<close> that the sequential \<open>getPiece\<close> is a run of the
  step relation. Commands that read, and \<open>ReadAt\<close> in the daemon, run in a process full of prefetch goroutines: \<open>getPiece_busy\<close> and
  \<open>fetch_busy\<close> let any number of them run at each step of a fetch, before and after the \<open>Put\<close>, and let the fetch join
  the flight of one. With an unlucky schedule the piece is evicted before it is looked up, which ends a read early (\<open>read_evicted\<close>) and a
  \<^verbatim>\<open>repack\<close> with an error (\<open>fetch_evicted\<close>); the theorems about exact reads therefore have the condition
  \<open>leaves_room\<close> on the schedule. Each session of the daemon has its own singleflight group and all share the cache: in \<open>rd_step\<close> a
  flight is named by session and hash. The sweep of \<open>runGc\<close> lists all pieces before it deletes any, where the code streams the listing.
  A panic that reaches \<open>main\<close> ends the process wherever its goroutines are: \<open>runGc\<close> takes
  the number of deletions that were still done as an argument.

  \<^bold>\<open>Termination.\<close> No fuel is used: loops over data are structural or have a measure, and a loop that the code would not
  leave is the outcome \<open>Blocked\<close> (or \<open>None\<close> in \<open>auth_loop\<close>). The daemon is its reaction to each finite sequence of events.

  \<^bold>\<open>Not modelled.\<close> Messages to stderr other than the progress lines and the usage text, the text of an error
  beyond its format and arguments, the wire protocols of SSH, SFTP, Telegram and S3, the BitTorrent protocol, time as
  such (the moments at which a ticker fires are arguments), and \<open>Close\<close> of the two storages, which does nothing.
\<close>

end
